(* ===== verification/Prelude.thy ===== *)
theory Prelude
  imports Main "HOL-Library.Monad_Syntax" "HOL-Library.Multiset"
begin

text \<open>
  Shared vocabulary of the development.

  Memory is a list of cells. A C access outside a block, a failed \<^verbatim>\<open>CFAssert\<close>, a \<^verbatim>\<open>HALT\<close> and a
  shift that overflows a C \<^verbatim>\<open>int\<close> are all the value \<open>None\<close> of an \<open>option\<close>: the program has no
  defined result there. A theorem that an operation returns \<open>Some\<close> therefore says that it makes
  no such access. Function pointers are numbers (the address of the function), \<open>None\<close> being
  \<^verbatim>\<open>NULL\<close>; what the functions behind them compute is an argument of the definitions that call them.
\<close>

named_theorems mem_simps \<open>equations for reads of written memory\<close>
named_theorems ok_intros \<open>preservation of well-formedness invariants\<close>

type_synonym fptr = nat

subsection \<open>Integer helpers of libc\<close>

text \<open>\<^verbatim>\<open>flsl\<close>: the position (from 1) of the highest set bit, 0 for 0.\<close>

fun flsl :: "nat \<Rightarrow> nat" where
  "flsl n = (if n = 0 then 0 else Suc (flsl (n div 2)))"

declare flsl.simps [simp del]

lemma flsl_0 [simp]: "flsl 0 = 0"
  by (simp add: flsl.simps)

lemma flsl_pos: "0 < n \<Longrightarrow> flsl n = Suc (flsl (n div 2))"
  by (subst flsl.simps) simp

lemma flsl_gt_0 [simp]: "0 < flsl n \<longleftrightarrow> 0 < n"
  by (cases "n = 0") (simp_all add: flsl_pos)

lemma less_pow_flsl: "n < 2 ^ flsl n"
proof (induction n rule: flsl.induct)
  case (1 n)
  show ?case
  proof (cases "n = 0")
    case False
    with 1 have "n div 2 < 2 ^ flsl (n div 2)" by simp
    then have "n < 2 * 2 ^ flsl (n div 2)" by linarith
    with False show ?thesis by (simp add: flsl_pos)
  qed simp
qed

lemma pow_flsl_le: "0 < n \<Longrightarrow> 2 ^ (flsl n - 1) \<le> n"
proof (induction n rule: flsl.induct)
  case (1 n)
  show ?case
  proof (cases "n div 2 = 0")
    case True
    with "1.prems" have "n = 1" by linarith
    then show ?thesis by (simp add: flsl_pos)
  next
    case False
    with 1 have IH: "2 ^ (flsl (n div 2) - 1) \<le> n div 2" by simp
    from False have "0 < flsl (n div 2)" by simp
    then obtain k where k: "flsl (n div 2) = Suc k" by (cases "flsl (n div 2)") auto
    with IH have "2 * 2 ^ k \<le> n" by simp
    with "1.prems" k show ?thesis by (simp add: flsl_pos)
  qed
qed

lemma flsl_le: "n < 2 ^ k \<Longrightarrow> flsl n \<le> k"
proof (rule ccontr)
  assume n: "n < 2 ^ k" and k': "\<not> flsl n \<le> k"
  from k' have k: "k \<le> flsl n - 1" and "0 < flsl n" by linarith+
  then have "2 ^ (flsl n - 1) \<le> n" by (intro pow_flsl_le) simp
  moreover from k have "(2::nat) ^ k \<le> 2 ^ (flsl n - 1)" by (rule power_increasing) simp
  ultimately show False using n by linarith
qed

text \<open>\<^verbatim>\<open>1 << n\<close> at C type \<^verbatim>\<open>int\<close>: defined for a result that an \<^verbatim>\<open>int\<close> can hold.\<close>

definition shl1 :: "nat \<Rightarrow> nat option" where
  "shl1 n = (if n < 31 then Some (2 ^ n) else None)"

lemma shl1_Some [simp]: "n < 31 \<Longrightarrow> shl1 n = Some (2 ^ n)"
  by (simp add: shl1_def)

lemma div_mod_split:
  obtains k r where "n div d = k" and "n = k * d + r" and "r < d \<or> d = (0::nat)"
  using that [of "n div d" "n mod d"] by (cases "d = 0") auto

subsection \<open>Blocks of memory\<close>

text \<open>\<open>peek\<close> and \<open>poke\<close> access one cell, \<open>readn\<close> and \<open>blit\<close> a run of cells.\<close>

definition peek :: "'a list \<Rightarrow> nat \<Rightarrow> 'a option" where
  "peek m i = (if i < length m then Some (m ! i) else None)"

definition poke :: "'a list \<Rightarrow> nat \<Rightarrow> 'a \<Rightarrow> 'a list option" where
  "poke m i v = (if i < length m then Some (m[i := v]) else None)"

definition slice :: "'a list \<Rightarrow> nat \<Rightarrow> nat \<Rightarrow> 'a list" where
  "slice m i n = take n (drop i m)"

definition readn :: "'a list \<Rightarrow> nat \<Rightarrow> nat \<Rightarrow> 'a list option" where
  "readn m i n = (if i + n \<le> length m then Some (slice m i n) else None)"

definition blit :: "'a list \<Rightarrow> nat \<Rightarrow> 'a list \<Rightarrow> 'a list option" where
  "blit m i vs =
     (if i + length vs \<le> length m then Some (take i m @ vs @ drop (i + length vs) m) else None)"

definition memmove :: "'a list \<Rightarrow> nat \<Rightarrow> 'a list \<Rightarrow> nat \<Rightarrow> nat \<Rightarrow> 'a list option" where
  "memmove dst i src j n = do { vs \<leftarrow> readn src j n; blit dst i vs }"

lemma peek_Some [simp]: "i < length m \<Longrightarrow> peek m i = Some (m ! i)"
  by (simp add: peek_def)

lemma poke_Some [simp]: "i < length m \<Longrightarrow> poke m i v = Some (m[i := v])"
  by (simp add: poke_def)

lemma length_slice [simp]: "length (slice m i n) = min n (length m - i)"
  by (simp add: slice_def)

lemma slice_0 [simp]: "slice m i 0 = []"
  by (simp add: slice_def)

lemma nth_slice: "k < n \<Longrightarrow> i + n \<le> length m \<Longrightarrow> slice m i n ! k = m ! (i + k)"
  by (simp add: slice_def)

lemma slice_eqI:
  assumes "i + n \<le> length m" and "length vs = n" and "\<And>k. k < n \<Longrightarrow> m ! (i + k) = vs ! k"
  shows "slice m i n = vs"
  using assms by (intro nth_equalityI) (auto simp: nth_slice)

lemma slice_append:
  "slice m i (n + k) = slice m i n @ slice m (i + n) k"
  by (simp add: slice_def take_add add.commute [of i n])

lemma slice_Cons: "i < length m \<Longrightarrow> slice m i (Suc n) = m ! i # slice m (Suc i) n"
  by (metis Cons_nth_drop_Suc slice_def take_Suc_Cons)

lemma take_slice: "take k (slice m i n) = slice m i (min k n)"
  by (simp add: slice_def)

lemma drop_slice: "drop k (slice m i n) = slice m (i + k) (n - k)"
  by (simp add: slice_def drop_take add.commute [of i k])

lemma slice_all: "length m = n \<Longrightarrow> slice m 0 n = m"
  by (simp add: slice_def)

lemma slice_list_update_outside:
  assumes "p < i \<or> i + n \<le> p" and "i + n \<le> length m"
  shows "slice (m[p := v]) i n = slice m i n"
  using assms by (intro slice_eqI) (auto simp: nth_slice)

lemma slice_list_update_inside:
  assumes "k < n" and "i + n \<le> length m"
  shows "slice (m[i + k := v]) i n = (slice m i n)[k := v]"
  using assms by (intro slice_eqI) (auto simp: nth_slice nth_list_update)

lemma readn_Some [simp]: "i + n \<le> length m \<Longrightarrow> readn m i n = Some (slice m i n)"
  by (simp add: readn_def)

lemma blit_length: "blit m i vs = Some m' \<Longrightarrow> length m' = length m"
  by (auto simp: blit_def split: if_splits)

lemma blit_exists: "i + length vs \<le> length m \<Longrightarrow> \<exists>m'. blit m i vs = Some m'"
  by (simp add: blit_def)

lemma blit_nth:
  assumes "blit m i vs = Some m'" and "k < length m"
  shows "m' ! k = (if i \<le> k \<and> k < i + length vs then vs ! (k - i) else m ! k)"
  using assms by (auto simp: blit_def nth_append split: if_splits)

lemma slice_blit_same: "blit m i vs = Some m' \<Longrightarrow> n = length vs \<Longrightarrow> slice m' i n = vs"
  by (auto simp: blit_def slice_def split: if_splits)

lemma slice_blit_other:
  assumes "blit m i vs = Some m'" and "p + n \<le> i \<or> i + length vs \<le> p" and "p + n \<le> length m"
  shows "slice m' p n = slice m p n"
  using assms blit_length [OF assms(1)] by (intro slice_eqI) (auto simp: blit_nth nth_slice)

lemma memmove_Some:
  "j + n \<le> length src \<Longrightarrow> memmove dst i src j n = blit dst i (slice src j n)"
  by (simp add: memmove_def)

text \<open>What a block write leaves behind: the written run, and every run disjoint from it.\<close>

lemma blit_spec:
  assumes "i + length vs \<le> length m"
  obtains m' where "blit m i vs = Some m'" and "length m' = length m"
    and "slice m' i (length vs) = vs"
    and "\<And>p k. p + k \<le> i \<or> i + length vs \<le> p \<Longrightarrow> p + k \<le> length m \<Longrightarrow> slice m' p k = slice m p k"
proof -
  obtain m' where m': "blit m i vs = Some m'" using blit_exists [OF assms] by blast
  show thesis
    by (rule that [OF m' blit_length [OF m'] slice_blit_same [OF m' refl] slice_blit_other [OF m']])
qed

lemma memmove_spec:
  assumes "j + n \<le> length src" and "i + n \<le> length dst"
  obtains m' where "memmove dst i src j n = Some m'" and "length m' = length dst"
    and "slice m' i n = slice src j n"
    and "\<And>p k. p + k \<le> i \<or> i + n \<le> p \<Longrightarrow> p + k \<le> length dst \<Longrightarrow> slice m' p k = slice dst p k"
proof -
  have len: "length (slice src j n) = n" using assms by simp
  obtain m' where "blit dst i (slice src j n) = Some m'" and "length m' = length dst"
    and "slice m' i n = slice src j n"
    and "\<And>p k. p + k \<le> i \<or> i + n \<le> p \<Longrightarrow> p + k \<le> length dst \<Longrightarrow> slice m' p k = slice dst p k"
    using blit_spec [of i "slice src j n" dst] assms unfolding len by blast
  with that show thesis using memmove_Some [OF assms(1)] by metis
qed

text \<open>The optional clearing of a run: nothing is written when the run is empty.\<close>

lemma clear_spec:
  assumes "P \<Longrightarrow> i + n \<le> length m"
  obtains m' where "(if P then blit m i (replicate n v) else Some m) = Some m'"
    and "length m' = length m"
    and "\<And>p k. \<not> P \<or> p + k \<le> i \<or> i + n \<le> p \<Longrightarrow> p + k \<le> length m \<Longrightarrow> slice m' p k = slice m p k"
proof (cases P)
  case True
  show thesis by (rule blit_spec [of i "replicate n v" m]) (use True assms that in auto)
next
  case False
  with that [of m] show thesis by simp
qed

text \<open>\<open>put m b vs\<close>: the block \<open>m\<close> with the run \<open>vs\<close> written at \<open>b\<close>; the frame of in-place algorithms.\<close>

definition put :: "'a list \<Rightarrow> nat \<Rightarrow> 'a list \<Rightarrow> 'a list" where
  "put m b vs = take b m @ vs @ drop (b + length vs) m"

lemma blit_put [simp]: "b + length vs \<le> length m \<Longrightarrow> blit m b vs = Some (put m b vs)"
  by (simp add: blit_def put_def)

lemma length_put [simp]: "b + length vs \<le> length m \<Longrightarrow> length (put m b vs) = length m"
  by (simp add: put_def)

lemma slice_put_same: "b \<le> length m \<Longrightarrow> length vs = n \<Longrightarrow> slice (put m b vs) b n = vs"
  by (simp add: put_def slice_def)

lemma slice_put_other:
  assumes "p + n \<le> b \<or> b + length vs \<le> p" and "b + length vs \<le> length m" and "p + n \<le> length m"
  shows "slice (put m b vs) p n = slice m p n"
  using assms slice_blit_other [OF blit_put] by blast

lemma put_slice [simp]: "b + n \<le> length m \<Longrightarrow> put m b (slice m b n) = m"
  by (simp add: put_def slice_def) (metis append_take_drop_id drop_drop add.commute)

lemma put_append_slice:
  "length xs = n \<Longrightarrow> b + n + k \<le> length m \<Longrightarrow> put m b (xs @ slice m (b + n) k) = put m b xs"
  by (simp add: put_def slice_def) (metis append_take_drop_id drop_drop add.commute add.assoc)

lemma put_put_same:
  "length xs = length ys \<Longrightarrow> b + length ys \<le> length m \<Longrightarrow> put (put m b xs) b ys = put m b ys"
  by (simp add: put_def)

lemma put_put_before:
  "length xs = n \<Longrightarrow> b + n + length ys \<le> length m \<Longrightarrow> put (put m (b + n) ys) b xs = put m b (xs @ ys)"
  by (simp add: put_def add.assoc)

lemma put_put_after:
  "length xs = n \<Longrightarrow> b + n + length ys \<le> length m \<Longrightarrow> put (put m b xs) (b + n) ys = put m b (xs @ ys)"
  by (simp add: put_def ac_simps)

subsection \<open>Lists of options\<close>

lemma map_Some_the: "None \<notin> set ys \<Longrightarrow> map Some (map the ys) = ys"
  by (induction ys) auto

end
