(* ===== verification/BasicHashData.thy ===== *)
theory BasicHashData
  imports Prelude "HOL-Library.Word"
begin

text \<open>
  \<^verbatim>\<open>CFBasicHash.c\<close> and \<^verbatim>\<open>CFBasicHashFindBucket.m\<close>: the hash table with open addressing behind \<^verbatim>\<open>CFDictionary\<close>,
  \<^verbatim>\<open>CFSet\<close> and \<^verbatim>\<open>CFBag\<close>. Values and keys are machine words; a bucket of the word 0 is empty and one of all
  ones is deleted, so these two values are stored as the two substitutes. The callbacks are function
  pointers, \<open>hash_env\<close> gives their meaning. The target is a 64-bit Mac without garbage collection.
\<close>

type_synonym uintptr = "64 word"

subsection \<open>The tables of sizes\<close>

definition CFBasicHashTableSizes :: "nat list" where
  "CFBasicHashTableSizes =
     [0, 3, 7, 13, 23, 41, 71, 127, 191, 251, 383, 631, 1087, 1723,
      2803, 4523, 7351, 11959, 19447, 31231, 50683, 81919, 132607,
      214519, 346607, 561109, 907759, 1468927, 2376191, 3845119,
      6221311, 10066421, 16287743, 26354171, 42641881, 68996069,
      111638519, 180634607, 292272623, 472907251,
      765180413, 1238087663, 2003267557, 3241355263, 5244622819] @ replicate 19 0"

definition CFBasicHashTableCapacities :: "nat list" where
  "CFBasicHashTableCapacities =
     [0, 3, 6, 11, 19, 32, 52, 85, 118, 155, 237, 390, 672, 1065,
      1732, 2795, 4543, 7391, 12019, 19302, 31324, 50629, 81956,
      132580, 214215, 346784, 561026, 907847, 1468567, 2376414,
      3844982, 6221390, 10066379, 16287773, 26354132, 42641916,
      68996399, 111638327, 180634415, 292272755,
      472907503, 765180257, 1238087439, 2003267722, 3241355160] @ replicate 19 0"

definition CFBasicHashPrimitiveRoots :: "nat list" where
  "CFBasicHashPrimitiveRoots =
     [0, 2, 3, 2, 5, 6, 7, 3, 19, 6, 5, 3, 3, 3,
      2, 5, 6, 3, 3, 6, 2, 3, 3,
      3, 5, 10, 3, 3, 22, 3,
      3, 3, 5, 2, 22, 2,
      11, 5, 5, 2,
      3, 10, 2, 3, 10, 2, 3, 5, 3,
      3, 2, 7, 2,
      3, 3, 3, 2,
      3, 5, 5,
      2, 3, 2, 0]"

subsection \<open>Data\<close>

record hash_callbacks =
  kcb_retainValue :: "fptr option"
  kcb_retainKey :: "fptr option"
  kcb_releaseValue :: "fptr option"
  kcb_releaseKey :: "fptr option"
  kcb_equateValues :: "fptr option"
  kcb_equateKeys :: "fptr option"
  kcb_hashKey :: "fptr option"
  kcb_getIndirectKey :: "fptr option"

text \<open>What the function behind a pointer computes.\<close>

record hash_env =
  he_retain :: "fptr \<Rightarrow> uintptr \<Rightarrow> uintptr"
  he_equal :: "fptr \<Rightarrow> uintptr \<Rightarrow> uintptr \<Rightarrow> bool"
  he_hash :: "fptr \<Rightarrow> uintptr \<Rightarrow> uintptr"
  he_getKey :: "fptr \<Rightarrow> uintptr \<Rightarrow> uintptr"

text \<open>The trace records the references the table takes and gives up.\<close>

datatype hash_event = RetainedValue uintptr | RetainedKey uintptr | ReleasedValue uintptr | ReleasedKey uintptr

record basic_hash =
  b_mutable :: bool
  b_mutations :: "16 word"
  b_style :: nat
  b_hasKeys :: bool
  b_hasCounts :: bool
  b_hasHashes :: bool
  b_countsWidth :: nat
  b_strongValues :: bool
  b_strongKeys :: bool
  b_weakValues :: bool
  b_weakKeys :: bool
  b_intValues :: bool
  b_intKeys :: bool
  b_indirect :: bool
  b_used :: nat
  b_deleted :: nat
  b_idx :: nat
  b_nullRC :: bool
  b_fastGrow :: bool
  b_finalized :: bool
  b_callbacks :: hash_callbacks
  b_values :: "uintptr list"
  b_keys :: "uintptr list"
  b_counts :: "nat list"
  b_hashes :: "uintptr list"
  b_trace :: "hash_event list"

record hash_bucket =
  bk_idx :: int
  bk_key :: uintptr
  bk_value :: uintptr
  bk_count :: nat

definition kCFNotFound :: int where
  "kCFNotFound = -1"

definition CFBasicHashSubABZero :: uintptr where
  "CFBasicHashSubABZero = 0xa7baadb1"

definition CFBasicHashSubABOne :: uintptr where
  "CFBasicHashSubABOne = 0xa5baadb9"

definition SLOT_DELETED :: uintptr where
  "SLOT_DELETED = -1"

text \<open>Reading a stored word, and storing one that is not meant literally.\<close>

definition unsub :: "uintptr \<Rightarrow> uintptr" where
  "unsub v = (if v = CFBasicHashSubABZero then 0 else if v = CFBasicHashSubABOne then SLOT_DELETED else v)"

definition sub :: "uintptr \<Rightarrow> uintptr" where
  "sub v = (if v = 0 then CFBasicHashSubABZero else if v = SLOT_DELETED then CFBasicHashSubABOne else v)"

definition is_sub :: "uintptr \<Rightarrow> bool" where
  "is_sub v \<longleftrightarrow> v = CFBasicHashSubABZero \<or> v = CFBasicHashSubABOne"

subsection \<open>Callbacks\<close>

definition log_hash :: "hash_event \<Rightarrow> basic_hash \<Rightarrow> basic_hash" where
  "log_hash ev ht = ht\<lparr>b_trace := b_trace ht @ [ev]\<rparr>"

definition CFBasicHashImportValue :: "hash_env \<Rightarrow> basic_hash \<Rightarrow> uintptr \<Rightarrow> uintptr \<times> basic_hash" where
  "CFBasicHashImportValue E ht v =
     (case kcb_retainValue (b_callbacks ht) of None \<Rightarrow> (v, ht)
      | Some f \<Rightarrow> if b_nullRC ht then (v, ht) else (he_retain E f v, log_hash (RetainedValue (he_retain E f v)) ht))"

definition CFBasicHashImportKey :: "hash_env \<Rightarrow> basic_hash \<Rightarrow> uintptr \<Rightarrow> uintptr \<times> basic_hash" where
  "CFBasicHashImportKey E ht k =
     (case kcb_retainKey (b_callbacks ht) of None \<Rightarrow> (k, ht)
      | Some f \<Rightarrow> if b_nullRC ht then (k, ht) else (he_retain E f k, log_hash (RetainedKey (he_retain E f k)) ht))"

definition CFBasicHashEjectValue :: "uintptr \<Rightarrow> basic_hash \<Rightarrow> basic_hash" where
  "CFBasicHashEjectValue v ht =
     (if kcb_releaseValue (b_callbacks ht) = None \<or> b_nullRC ht then ht else log_hash (ReleasedValue v) ht)"

definition CFBasicHashEjectKey :: "uintptr \<Rightarrow> basic_hash \<Rightarrow> basic_hash" where
  "CFBasicHashEjectKey k ht =
     (if kcb_releaseKey (b_callbacks ht) = None \<or> b_nullRC ht then ht else log_hash (ReleasedKey k) ht)"

definition CFBasicHashTestEqualValue :: "hash_env \<Rightarrow> basic_hash \<Rightarrow> uintptr \<Rightarrow> uintptr \<Rightarrow> bool" where
  "CFBasicHashTestEqualValue E ht a b =
     (case kcb_equateValues (b_callbacks ht) of None \<Rightarrow> a = b | Some f \<Rightarrow> he_equal E f a b)"

definition CFBasicHashTestEqualKey :: "hash_env \<Rightarrow> basic_hash \<Rightarrow> uintptr \<Rightarrow> uintptr \<Rightarrow> bool" where
  "CFBasicHashTestEqualKey E ht in_coll_key stack_key =
     (case kcb_equateKeys (b_callbacks ht) of None \<Rightarrow> in_coll_key = stack_key
      | Some f \<Rightarrow> he_equal E f in_coll_key stack_key)"

definition CFBasicHashHashKey :: "hash_env \<Rightarrow> basic_hash \<Rightarrow> uintptr \<Rightarrow> uintptr" where
  "CFBasicHashHashKey E ht k = (case kcb_hashKey (b_callbacks ht) of None \<Rightarrow> k | Some f \<Rightarrow> he_hash E f k)"

definition CFBasicHashGetIndirectKey :: "hash_env \<Rightarrow> basic_hash \<Rightarrow> uintptr \<Rightarrow> uintptr" where
  "CFBasicHashGetIndirectKey E ht v =
     (case kcb_getIndirectKey (b_callbacks ht) of None \<Rightarrow> v | Some f \<Rightarrow> he_getKey E f v)"

subsection \<open>Buckets\<close>

definition CFBasicHashGetNumBuckets :: "basic_hash \<Rightarrow> nat" where
  "CFBasicHashGetNumBuckets ht = CFBasicHashTableSizes ! b_idx ht"

definition CFBasicHashGetCapacityForNumBuckets :: "nat \<Rightarrow> nat" where
  "CFBasicHashGetCapacityForNumBuckets num_buckets_idx = CFBasicHashTableCapacities ! num_buckets_idx"

definition CFBasicHashGetCapacity :: "basic_hash \<Rightarrow> nat" where
  "CFBasicHashGetCapacity ht = CFBasicHashGetCapacityForNumBuckets (b_idx ht)"

text \<open>The first index whose capacity suffices; \<^verbatim>\<open>HALT\<close> when there is none.\<close>

definition CFBasicHashGetNumBucketsIndexForCapacity :: "nat \<Rightarrow> nat option" where
  "CFBasicHashGetNumBucketsIndexForCapacity capacity =
     List.find (\<lambda>idx. capacity \<le> CFBasicHashGetCapacityForNumBuckets idx) [0..<64]"

definition CFBasicHashGetValue :: "basic_hash \<Rightarrow> nat \<Rightarrow> uintptr option" where
  "CFBasicHashGetValue ht idx = map_option unsub (peek (b_values ht) idx)"

definition CFBasicHashSetValue_at :: "basic_hash \<Rightarrow> nat \<Rightarrow> uintptr \<Rightarrow> bool \<Rightarrow> bool \<Rightarrow> basic_hash option" where
  "CFBasicHashSetValue_at ht idx v ignoreOld literal =
     do { old \<leftarrow> peek (b_values ht) idx;
          vs \<leftarrow> poke (b_values ht) idx (if literal then v else sub v);
          let ht' = ht\<lparr>b_values := vs\<rparr>;
          Some (if \<not> ignoreOld \<and> \<not> (old = 0 \<or> old = SLOT_DELETED) then CFBasicHashEjectValue (unsub old) ht' else ht') }"

definition CFBasicHashGetKey :: "hash_env \<Rightarrow> basic_hash \<Rightarrow> nat \<Rightarrow> uintptr option" where
  "CFBasicHashGetKey E ht idx =
     (if b_hasKeys ht then map_option unsub (peek (b_keys ht) idx)
      else if b_indirect ht then map_option (CFBasicHashGetIndirectKey E ht) (CFBasicHashGetValue ht idx)
      else CFBasicHashGetValue ht idx)"

definition CFBasicHashSetKey_at :: "basic_hash \<Rightarrow> nat \<Rightarrow> uintptr \<Rightarrow> bool \<Rightarrow> bool \<Rightarrow> basic_hash option" where
  "CFBasicHashSetKey_at ht idx k ignoreOld literal =
     (if \<not> b_hasKeys ht then None
      else do { old \<leftarrow> peek (b_keys ht) idx;
                ks \<leftarrow> poke (b_keys ht) idx (if literal then k else sub k);
                let ht' = ht\<lparr>b_keys := ks\<rparr>;
                Some (if \<not> ignoreOld \<and> \<not> (old = 0 \<or> old = SLOT_DELETED) then CFBasicHashEjectKey (unsub old) ht' else ht') })"

definition CFBasicHashIsEmptyOrDeleted :: "basic_hash \<Rightarrow> nat \<Rightarrow> bool option" where
  "CFBasicHashIsEmptyOrDeleted ht idx = map_option (\<lambda>v. v = 0 \<or> v = SLOT_DELETED) (peek (b_values ht) idx)"

definition CFBasicHashIsDeleted :: "basic_hash \<Rightarrow> nat \<Rightarrow> bool option" where
  "CFBasicHashIsDeleted ht idx = map_option (\<lambda>v. v = SLOT_DELETED) (peek (b_values ht) idx)"

text \<open>The counts are an array of integers of 8, 16, 32 or 64 bits.\<close>

definition count_limit :: "nat \<Rightarrow> nat" where
  "count_limit width = 2 ^ (8 * 2 ^ width)"

definition CFBasicHashGetSlotCount :: "basic_hash \<Rightarrow> nat \<Rightarrow> nat option" where
  "CFBasicHashGetSlotCount ht idx = peek (b_counts ht) idx"

definition CFBasicHashBumpCounts :: "basic_hash \<Rightarrow> basic_hash option" where
  "CFBasicHashBumpCounts ht =
     (if b_countsWidth ht < 3 then Some (ht\<lparr>b_countsWidth := b_countsWidth ht + 1\<rparr>) else None)"

text \<open>At most three widenings: the counter of the recursion starts at four.\<close>

fun IncSlotCount_loop :: "nat \<Rightarrow> basic_hash \<Rightarrow> nat \<Rightarrow> basic_hash option" where
  "IncSlotCount_loop 0 ht idx = None"
| "IncSlotCount_loop (Suc n) ht idx =
     do { val \<leftarrow> peek (b_counts ht) idx;
          if val < count_limit (b_countsWidth ht) div 2 - 1
          then do { cs \<leftarrow> poke (b_counts ht) idx (val + 1); Some (ht\<lparr>b_counts := cs\<rparr>) }
          else do { ht' \<leftarrow> CFBasicHashBumpCounts ht; IncSlotCount_loop n ht' idx } }"

definition CFBasicHashIncSlotCount :: "basic_hash \<Rightarrow> nat \<Rightarrow> basic_hash option" where
  "CFBasicHashIncSlotCount = IncSlotCount_loop 4"

definition CFBasicHashDecSlotCount :: "basic_hash \<Rightarrow> nat \<Rightarrow> basic_hash option" where
  "CFBasicHashDecSlotCount ht idx =
     do { val \<leftarrow> peek (b_counts ht) idx;
          cs \<leftarrow> poke (b_counts ht) idx ((val + (count_limit (b_countsWidth ht) - 1)) mod count_limit (b_countsWidth ht));
          Some (ht\<lparr>b_counts := cs\<rparr>) }"

definition no_bucket :: "int \<Rightarrow> hash_bucket" where
  "no_bucket idx = \<lparr>bk_idx = idx, bk_key = 0, bk_value = 0, bk_count = 0\<rparr>"

definition CFBasicHashGetBucket :: "hash_env \<Rightarrow> basic_hash \<Rightarrow> nat \<Rightarrow> hash_bucket option" where
  "CFBasicHashGetBucket E ht idx =
     do { free \<leftarrow> CFBasicHashIsEmptyOrDeleted ht idx;
          if free then Some (no_bucket (int idx))
          else do { c \<leftarrow> (if b_hasCounts ht then CFBasicHashGetSlotCount ht idx else Some 1);
                    v \<leftarrow> CFBasicHashGetValue ht idx;
                    k \<leftarrow> CFBasicHashGetKey E ht idx;
                    Some \<lparr>bk_idx = int idx, bk_key = k, bk_value = v, bk_count = c\<rparr> } }"

subsection \<open>Probing\<close>

text \<open>Linear probing is style 1, double hashing style 2, exponential hashing style 3; 64-bit arithmetic.\<close>

definition hash1 :: "nat \<Rightarrow> nat \<Rightarrow> nat" where
  "hash1 num_buckets hash_code = hash_code mod num_buckets"

definition hash2 :: "nat \<Rightarrow> nat \<Rightarrow> nat" where
  "hash2 num_buckets hash_code =
     (let h2 = (hash_code div num_buckets) mod num_buckets in if h2 = 0 then num_buckets - 1 else h2)"

definition wrap_probe :: "nat \<Rightarrow> nat \<Rightarrow> nat" where
  "wrap_probe num_buckets probe = (if num_buckets \<le> probe then probe - num_buckets else probe)"

definition fold64 :: "nat \<Rightarrow> nat \<Rightarrow> nat" where
  "fold64 num_buckets x = (let y = x mod 2 ^ 64 in if num_buckets \<le> y then y mod num_buckets else y)"

definition next_probe :: "nat \<Rightarrow> nat \<Rightarrow> nat \<Rightarrow> nat \<Rightarrow> nat \<times> nat \<Rightarrow> nat \<times> nat" where
  "next_probe style num_buckets pr hash_code p =
     (let (probe, acc) = p in
      if style = 1 then (wrap_probe num_buckets (probe + 1), acc)
      else if style = 2 then (wrap_probe num_buckets (probe + hash2 num_buckets hash_code), acc)
      else (fold64 num_buckets (hash1 num_buckets hash_code + hash2 num_buckets hash_code * acc),
            fold64 num_buckets (acc * pr)))"

text \<open>The key in a bucket that is in use.\<close>

definition coll_key :: "hash_env \<Rightarrow> basic_hash \<Rightarrow> uintptr \<Rightarrow> uintptr" where
  "coll_key E ht curr_key =
     (if b_indirect ht then CFBasicHashGetIndirectKey E ht (unsub curr_key) else unsub curr_key)"

definition key_cells :: "basic_hash \<Rightarrow> uintptr list" where
  "key_cells ht = (if b_hasKeys ht then b_keys ht else b_values ht)"

definition key_hit :: "hash_env \<Rightarrow> basic_hash \<Rightarrow> uintptr \<Rightarrow> uintptr \<Rightarrow> nat \<Rightarrow> uintptr \<Rightarrow> bool option" where
  "key_hit E ht hash_code stack_key probe curr_key =
     (if curr_key = stack_key then Some True
      else if b_hasHashes ht then do {
        h \<leftarrow> peek (b_hashes ht) probe;
        Some (h = hash_code \<and> CFBasicHashTestEqualKey E ht curr_key stack_key) }
      else Some (CFBasicHashTestEqualKey E ht curr_key stack_key))"

fun find_loop ::
    "hash_env \<Rightarrow> basic_hash \<Rightarrow> uintptr \<Rightarrow> uintptr \<Rightarrow> nat \<Rightarrow> nat \<times> nat \<Rightarrow> int \<Rightarrow> hash_bucket option" where
  "find_loop E ht hash_code stack_key 0 p deleted_idx = Some (no_bucket deleted_idx)"
| "find_loop E ht hash_code stack_key (Suc n) p deleted_idx =
     do { curr_key \<leftarrow> peek (key_cells ht) (fst p);
          let p' = next_probe (b_style ht) (CFBasicHashGetNumBuckets ht) (CFBasicHashPrimitiveRoots ! b_idx ht) (unat hash_code) p;
          if curr_key = 0 then Some (no_bucket (if deleted_idx = kCFNotFound then int (fst p) else deleted_idx))
          else if curr_key = SLOT_DELETED
          then find_loop E ht hash_code stack_key n p' (if deleted_idx = kCFNotFound then int (fst p) else deleted_idx)
          else do {
            let k = coll_key E ht curr_key;
            hit \<leftarrow> key_hit E ht hash_code stack_key (fst p) k;
            if hit then do {
              v \<leftarrow> CFBasicHashGetValue ht (fst p);
              c \<leftarrow> (if b_hasCounts ht then CFBasicHashGetSlotCount ht (fst p) else Some 1);
              Some \<lparr>bk_idx = int (fst p), bk_key = k, bk_value = v, bk_count = c\<rparr> }
            else find_loop E ht hash_code stack_key n p' deleted_idx } }"

definition first_probe :: "basic_hash \<Rightarrow> uintptr \<Rightarrow> nat \<times> nat" where
  "first_probe ht hash_code =
     (hash1 (CFBasicHashGetNumBuckets ht) (unat hash_code), CFBasicHashPrimitiveRoots ! b_idx ht)"

text \<open>\<^verbatim>\<open>__CFBasicHashFindBucket\<close>; a hash style of 0 halts.\<close>

definition FindBucket :: "hash_env \<Rightarrow> basic_hash \<Rightarrow> uintptr \<Rightarrow> hash_bucket option" where
  "FindBucket E ht stack_key =
     (if b_idx ht = 0 then Some (no_bucket kCFNotFound)
      else if b_style ht \<notin> {1, 2, 3} then None
      else let hash_code = CFBasicHashHashKey E ht stack_key in
        find_loop E ht hash_code stack_key (CFBasicHashGetNumBuckets ht) (first_probe ht hash_code) kCFNotFound)"

text \<open>The search while rehashing: the first empty bucket of the probe sequence.\<close>

fun free_loop :: "basic_hash \<Rightarrow> uintptr \<Rightarrow> nat \<Rightarrow> nat \<times> nat \<Rightarrow> int option" where
  "free_loop ht hash_code 0 p = Some kCFNotFound"
| "free_loop ht hash_code (Suc n) p =
     do { curr_key \<leftarrow> peek (key_cells ht) (fst p);
          if curr_key = 0 then Some (int (fst p))
          else free_loop ht hash_code n
            (next_probe (b_style ht) (CFBasicHashGetNumBuckets ht) (CFBasicHashPrimitiveRoots ! b_idx ht) (unat hash_code) p) }"

definition FindBucket_NoCollision :: "hash_env \<Rightarrow> basic_hash \<Rightarrow> uintptr \<Rightarrow> uintptr \<Rightarrow> int option" where
  "FindBucket_NoCollision E ht stack_key key_hash =
     (if b_idx ht = 0 then Some kCFNotFound
      else if b_style ht \<notin> {1, 2, 3} then None
      else let hash_code = (if key_hash \<noteq> 0 then key_hash else CFBasicHashHashKey E ht stack_key) in
        free_loop ht hash_code (CFBasicHashGetNumBuckets ht) (first_probe ht hash_code))"

definition CFBasicHashFindBucket :: "hash_env \<Rightarrow> basic_hash \<Rightarrow> uintptr \<Rightarrow> hash_bucket option" where
  "CFBasicHashFindBucket E ht stack_key =
     (if is_sub stack_key then Some (no_bucket kCFNotFound) else FindBucket E ht stack_key)"

end
