(* ===== verification/BasicHashOps.thy ===== *)
theory BasicHashOps
  imports BasicHashData
begin

text \<open>The operations of \<^verbatim>\<open>CFBasicHash.c\<close>. A \<^verbatim>\<open>HALT\<close> and an access outside an array are \<open>None\<close>.\<close>

text \<open>A loop whose body may fail.\<close>

fun run_loop_over :: "('a \<Rightarrow> 's \<Rightarrow> 's option) \<Rightarrow> 'a list \<Rightarrow> 's \<Rightarrow> 's option" where
  "run_loop_over f [] s = Some s"
| "run_loop_over f (x # xs) s = do { s' \<leftarrow> f x s; run_loop_over f xs s' }"

definition bump :: "basic_hash \<Rightarrow> basic_hash" where
  "bump ht = ht\<lparr>b_mutations := b_mutations ht + 1\<rparr>"

subsection \<open>Creation\<close>

definition flag :: "nat \<Rightarrow> nat \<Rightarrow> bool" where
  "flag flags bit_idx = odd (flags div 2 ^ bit_idx)"

definition CFBasicHashCreate :: "nat \<Rightarrow> hash_callbacks \<Rightarrow> basic_hash option" where
  "CFBasicHashCreate flags cb =
     (let sv = flag flags 8; sk = flag flags 9; wv = flag flags 10; wk = flag flags 11;
          iv = flag flags 6; ik = flag flags 7; ind = flag flags 12 in
      if (sv \<and> wv) \<or> (sv \<and> iv) \<or> (sk \<and> wk) \<or> (sk \<and> ik) \<or> (wv \<and> iv) \<or> (wk \<and> ik) \<or>
         (ind \<and> sk) \<or> (ind \<and> wk) \<or> (ind \<and> ik) then None
      else Some
        \<lparr>b_mutable = True, b_mutations = 1, b_style = (flags div 2 ^ 13) mod 4, b_hasKeys = flag flags 0,
         b_hasCounts = flag flags 1, b_hasHashes = flag flags 2, b_countsWidth = 0, b_strongValues = sv, b_strongKeys = sk,
         b_weakValues = wv, b_weakKeys = wk, b_intValues = iv, b_intKeys = ik, b_indirect = ind, b_used = 0, b_deleted = 0,
         b_idx = 0, b_nullRC = False, b_fastGrow = flag flags 15, b_finalized = False, b_callbacks = cb, b_values = [],
         b_keys = [], b_counts = [], b_hashes = [], b_trace = []\<rparr>)"

definition CFBasicHashMakeImmutable :: "basic_hash \<Rightarrow> basic_hash" where
  "CFBasicHashMakeImmutable ht = ht\<lparr>b_mutable := False\<rparr>"

definition CFBasicHashSuppressRC :: "basic_hash \<Rightarrow> basic_hash" where
  "CFBasicHashSuppressRC ht = ht\<lparr>b_nullRC := True\<rparr>"

definition CFBasicHashUnsuppressRC :: "basic_hash \<Rightarrow> basic_hash" where
  "CFBasicHashUnsuppressRC ht = ht\<lparr>b_nullRC := False\<rparr>"

definition CFBasicHashGetFlags :: "basic_hash \<Rightarrow> nat" where
  "CFBasicHashGetFlags ht = b_style ht * 2 ^ 13 + (if b_strongValues ht then 2 ^ 8 else 0) + (if b_strongKeys ht then 2 ^ 9 else 0) +
     (if b_fastGrow ht then 2 ^ 15 else 0) + (if b_hasKeys ht then 1 else 0) + (if b_hasCounts ht then 2 else 0) +
     (if b_hasHashes ht then 4 else 0)"

subsection \<open>Reading\<close>

definition CFBasicHashGetCount :: "basic_hash \<Rightarrow> nat option" where
  "CFBasicHashGetCount ht =
     (if b_hasCounts ht then do {
        cs \<leftarrow> readn (b_counts ht) 0 (CFBasicHashGetNumBuckets ht);
        if sum_list cs < 2 ^ 63 then Some (sum_list cs) else None }
      else Some (b_used ht))"

definition CFBasicHashGetCountOfKey :: "hash_env \<Rightarrow> basic_hash \<Rightarrow> uintptr \<Rightarrow> nat option" where
  "CFBasicHashGetCountOfKey E ht stack_key =
     (if is_sub stack_key then Some 0
      else if b_used ht = 0 then Some 0
      else map_option bk_count (FindBucket E ht stack_key))"

text \<open>\<^verbatim>\<open>CFBasicHashApply\<close>: the block returns whether to go on.\<close>

fun visit_loop :: "hash_env \<Rightarrow> basic_hash \<Rightarrow> (hash_bucket \<Rightarrow> 's \<Rightarrow> (bool \<times> 's) option) \<Rightarrow> nat list \<Rightarrow> nat \<Rightarrow> 's \<Rightarrow> 's option" where
  "visit_loop E ht block [] used s = Some s"
| "visit_loop E ht block (idx # idxs) used s =
     (if used = 0 then Some s
      else do { bkt \<leftarrow> CFBasicHashGetBucket E ht idx;
                if 0 < bk_count bkt then do {
                  (go, s') \<leftarrow> block bkt s;
                  if go then visit_loop E ht block idxs (used - 1) s' else Some s' }
                else visit_loop E ht block idxs used s })"

definition CFBasicHashApply :: "hash_env \<Rightarrow> basic_hash \<Rightarrow> (hash_bucket \<Rightarrow> 's \<Rightarrow> (bool \<times> 's) option) \<Rightarrow> 's \<Rightarrow> 's option" where
  "CFBasicHashApply E ht block s = visit_loop E ht block [0..<CFBasicHashGetNumBuckets ht] (b_used ht) s"

fun apply_indexed_loop :: "hash_env \<Rightarrow> basic_hash \<Rightarrow> (hash_bucket \<Rightarrow> 's \<Rightarrow> (bool \<times> 's) option) \<Rightarrow> nat list \<Rightarrow> 's \<Rightarrow> 's option" where
  "apply_indexed_loop E ht block [] s = Some s"
| "apply_indexed_loop E ht block (idx # idxs) s =
     do { bkt \<leftarrow> CFBasicHashGetBucket E ht idx;
          if 0 < bk_count bkt then do {
            (go, s') \<leftarrow> block bkt s;
            if go then apply_indexed_loop E ht block idxs s' else Some s' }
          else apply_indexed_loop E ht block idxs s }"

definition CFBasicHashApplyIndexed ::
    "hash_env \<Rightarrow> basic_hash \<Rightarrow> nat \<Rightarrow> int \<Rightarrow> (hash_bucket \<Rightarrow> 's \<Rightarrow> (bool \<times> 's) option) \<Rightarrow> 's \<Rightarrow> 's option" where
  "CFBasicHashApplyIndexed E ht loc len block s =
     (if len < 0 then None
      else if len = 0 then Some s
      else if int (CFBasicHashGetNumBuckets ht) < int loc + len then None
      else apply_indexed_loop E ht block [loc..<loc + nat len] s)"

definition count_value_block :: "hash_env \<Rightarrow> basic_hash \<Rightarrow> uintptr \<Rightarrow> hash_bucket \<Rightarrow> nat \<Rightarrow> (bool \<times> nat) option" where
  "count_value_block E ht v bkt n =
     Some (True, if v = bk_value bkt \<or> CFBasicHashTestEqualValue E ht (bk_value bkt) v then n + bk_count bkt else n)"

definition CFBasicHashGetCountOfValue :: "hash_env \<Rightarrow> basic_hash \<Rightarrow> uintptr \<Rightarrow> nat option" where
  "CFBasicHashGetCountOfValue E ht v =
     (if v = CFBasicHashSubABZero then Some 0
      else if b_used ht = 0 then Some 0
      else if \<not> b_hasKeys ht then map_option bk_count (FindBucket E ht v)
      else CFBasicHashApply E ht (count_value_block E ht v) 0)"

definition equal_block :: "hash_env \<Rightarrow> basic_hash \<Rightarrow> basic_hash \<Rightarrow> hash_bucket \<Rightarrow> bool \<Rightarrow> (bool \<times> bool) option" where
  "equal_block E ht1 ht2 bkt1 equal =
     do { bkt2 \<leftarrow> FindBucket E ht2 (bk_key bkt1);
          if bk_count bkt1 \<noteq> bk_count bkt2 then Some (False, False)
          else if b_hasKeys ht1 \<and> bk_value bkt1 \<noteq> bk_value bkt2 \<and>
                  \<not> CFBasicHashTestEqualValue E ht1 (bk_value bkt1) (bk_value bkt2) then Some (False, False)
          else Some (True, equal) }"

definition CFBasicHashesAreEqual :: "hash_env \<Rightarrow> basic_hash \<Rightarrow> basic_hash \<Rightarrow> bool option" where
  "CFBasicHashesAreEqual E ht1 ht2 =
     do { cnt1 \<leftarrow> CFBasicHashGetCount ht1;
          cnt2 \<leftarrow> CFBasicHashGetCount ht2;
          if cnt1 \<noteq> cnt2 then Some False
          else if cnt1 = 0 then Some True
          else CFBasicHashApply E ht1 (equal_block E ht1 ht2) True }"

definition CFBasicHashHash :: "basic_hash \<Rightarrow> nat option" where
  "CFBasicHashHash ht = CFBasicHashGetCount ht"

text \<open>The filled parts of the two buffers, of \<open>bufferslen\<close> entries.\<close>

fun elements_loop :: "hash_env \<Rightarrow> basic_hash \<Rightarrow> nat list \<Rightarrow> nat \<Rightarrow> nat \<Rightarrow> (uintptr \<times> uintptr) list option" where
  "elements_loop E ht [] used room = Some []"
| "elements_loop E ht (idx # idxs) used room =
     (if used = 0 \<or> room = 0 then Some []
      else do { bkt \<leftarrow> CFBasicHashGetBucket E ht idx;
                let n = min (bk_count bkt) room;
                rest \<leftarrow> elements_loop E ht idxs (if 0 < bk_count bkt then used - 1 else used) (room - n);
                Some (replicate n (bk_value bkt, bk_key bkt) @ rest) })"

definition CFBasicHashGetElements :: "hash_env \<Rightarrow> basic_hash \<Rightarrow> nat \<Rightarrow> (uintptr \<times> uintptr) list option" where
  "CFBasicHashGetElements E ht bufferslen =
     elements_loop E ht [0..<CFBasicHashGetNumBuckets ht] (b_used ht) bufferslen"

text \<open>Fast enumeration: the keys put into the buffer and the new state.\<close>

fun enumeration_loop :: "hash_env \<Rightarrow> basic_hash \<Rightarrow> nat list \<Rightarrow> nat \<Rightarrow> nat \<Rightarrow> nat \<Rightarrow> (uintptr list \<times> nat) option" where
  "enumeration_loop E ht [] used room st = Some ([], st)"
| "enumeration_loop E ht (idx # idxs) used room st =
     (if used = 0 \<or> room = 0 then Some ([], st)
      else do { bkt \<leftarrow> CFBasicHashGetBucket E ht idx;
                if 0 < bk_count bkt then do {
                  (ks, st') \<leftarrow> enumeration_loop E ht idxs (used - 1) (room - 1) (st + 1);
                  Some (bk_key bkt # ks, st') }
                else enumeration_loop E ht idxs used room (st + 1) })"

definition CFBasicHashFastEnumeration :: "hash_env \<Rightarrow> basic_hash \<Rightarrow> nat \<Rightarrow> nat \<Rightarrow> (uintptr list \<times> nat) option" where
  "CFBasicHashFastEnumeration E ht st len =
     enumeration_loop E ht [st..<CFBasicHashGetNumBuckets ht] (b_used ht) len st"

subsection \<open>Emptying and rehashing\<close>

definition drain_step :: "basic_hash \<Rightarrow> nat \<Rightarrow> basic_hash \<Rightarrow> basic_hash option" where
  "drain_step old idx ht =
     do { v \<leftarrow> peek (b_values old) idx;
          if v \<noteq> 0 \<and> v \<noteq> SLOT_DELETED then
            (let ht1 = CFBasicHashEjectValue (unsub v) ht in
             if b_hasKeys old then do { k \<leftarrow> peek (b_keys old) idx; Some (CFBasicHashEjectKey (unsub k) ht1) }
             else Some ht1)
          else Some ht }"

definition CFBasicHashDrain :: "basic_hash \<Rightarrow> basic_hash option" where
  "CFBasicHashDrain ht =
     run_loop_over (drain_step ht) [0..<CFBasicHashGetNumBuckets ht]
       ((bump ht)\<lparr>b_idx := 0, b_used := 0, b_deleted := 0, b_values := [], b_keys := [], b_counts := [], b_hashes := []\<rparr>)"

definition new_idx :: "basic_hash \<Rightarrow> int \<Rightarrow> nat option" where
  "new_idx ht newItemCount =
     (if newItemCount = 0 then Some (b_idx ht)
      else do { idx \<leftarrow> CFBasicHashGetNumBucketsIndexForCapacity (b_used ht + nat newItemCount);
                Some (if newItemCount = 1 \<and> b_fastGrow ht then idx + 1 else idx) })"

definition rehash_step :: "hash_env \<Rightarrow> basic_hash \<Rightarrow> nat \<Rightarrow> basic_hash \<Rightarrow> basic_hash option" where
  "rehash_step E old idx ht =
     do { v \<leftarrow> peek (b_values old) idx;
          if v \<noteq> 0 \<and> v \<noteq> SLOT_DELETED then do {
            let stack_value = unsub v;
            k0 \<leftarrow> (if b_hasKeys old then map_option unsub (peek (b_keys old) idx) else Some stack_value);
            let stack_key = (if b_indirect old then CFBasicHashGetIndirectKey E ht stack_value else k0);
            old_hash \<leftarrow> (if b_hasHashes old then peek (b_hashes old) idx else Some 0);
            bkt_idx \<leftarrow> FindBucket_NoCollision E ht stack_key old_hash;
            if bkt_idx < 0 then None else do {
              ht1 \<leftarrow> CFBasicHashSetValue_at ht (nat bkt_idx) stack_value False False;
              ht2 \<leftarrow> (if b_hasKeys old then CFBasicHashSetKey_at ht1 (nat bkt_idx) stack_key False False else Some ht1);
              ht3 \<leftarrow> (if b_hasCounts old then do { c \<leftarrow> peek (b_counts old) idx; cs \<leftarrow> poke (b_counts ht2) (nat bkt_idx) c;
                                                   Some (ht2\<lparr>b_counts := cs\<rparr>) } else Some ht2);
              (if b_hasHashes old then do { hs \<leftarrow> poke (b_hashes ht3) (nat bkt_idx) old_hash; Some (ht3\<lparr>b_hashes := hs\<rparr>) }
               else Some ht3) } }
          else Some ht }"

definition fresh_arrays :: "basic_hash \<Rightarrow> nat \<Rightarrow> basic_hash" where
  "fresh_arrays ht idx =
     (let n = CFBasicHashTableSizes ! idx in
      ht\<lparr>b_idx := idx, b_deleted := 0, b_values := replicate n 0,
         b_keys := (if b_hasKeys ht then replicate n 0 else b_keys ht),
         b_counts := (if b_hasCounts ht then replicate n 0 else b_counts ht),
         b_hashes := (if b_hasHashes ht then replicate n 0 else b_hashes ht)\<rparr>)"

definition CFBasicHashRehash :: "hash_env \<Rightarrow> basic_hash \<Rightarrow> int \<Rightarrow> basic_hash option" where
  "CFBasicHashRehash E ht newItemCount =
     do { idx \<leftarrow> new_idx ht newItemCount;
          run_loop_over (rehash_step E ht) [0..<CFBasicHashGetNumBuckets ht] (fresh_arrays ht idx) }"

definition CFBasicHashSetCapacity :: "hash_env \<Rightarrow> basic_hash \<Rightarrow> nat \<Rightarrow> basic_hash option" where
  "CFBasicHashSetCapacity E ht capacity =
     (if \<not> b_mutable ht then None
      else if b_used ht < capacity then CFBasicHashRehash E (bump ht) (int capacity - int (b_used ht))
      else Some ht)"

subsection \<open>Changing a bucket\<close>

text \<open>The bucket for a new entry: the one the search gave, or a new one once the table has grown.\<close>

definition place_for :: "hash_env \<Rightarrow> basic_hash \<Rightarrow> int \<Rightarrow> uintptr \<Rightarrow> (int \<times> basic_hash) option" where
  "place_for E ht bkt_idx stack_key =
     (if CFBasicHashGetCapacity ht < b_used ht + 1 then do {
        ht1 \<leftarrow> CFBasicHashRehash E ht 1;
        i \<leftarrow> FindBucket_NoCollision E ht1 stack_key 0;
        Some (i, ht1) }
      else if bkt_idx < 0 then None
      else do {
        d \<leftarrow> CFBasicHashIsDeleted ht (nat bkt_idx);
        Some (bkt_idx, if d then ht\<lparr>b_deleted := (b_deleted ht + (2 ^ 16 - 1)) mod 2 ^ 16\<rparr> else ht) })"

definition store_new :: "hash_env \<Rightarrow> basic_hash \<Rightarrow> nat \<Rightarrow> uintptr \<Rightarrow> uintptr \<Rightarrow> basic_hash option" where
  "store_new E ht1 idx stack_key0 stack_value0 =
     do { let key_hash = (if b_hasHashes ht1 then CFBasicHashHashKey E ht1 stack_key0 else 0);
          let (stack_value, ht2) = CFBasicHashImportValue E ht1 stack_value0;
          let (stack_key, ht3) = (if b_hasKeys ht2 then CFBasicHashImportKey E ht2 stack_key0 else (stack_key0, ht2));
          ht4 \<leftarrow> CFBasicHashSetValue_at ht3 idx stack_value False False;
          ht5 \<leftarrow> (if b_hasKeys ht4 then CFBasicHashSetKey_at ht4 idx stack_key False False else Some ht4);
          ht6 \<leftarrow> (if b_hasCounts ht5 then CFBasicHashIncSlotCount ht5 idx else Some ht5);
          ht7 \<leftarrow> (if b_hasHashes ht6 then do { hs \<leftarrow> poke (b_hashes ht6) idx key_hash; Some (ht6\<lparr>b_hashes := hs\<rparr>) } else Some ht6);
          Some (ht7\<lparr>b_used := (b_used ht7 + 1) mod 2 ^ 32\<rparr>) }"

definition CFBasicHashAddValue_at :: "hash_env \<Rightarrow> basic_hash \<Rightarrow> int \<Rightarrow> uintptr \<Rightarrow> uintptr \<Rightarrow> basic_hash option" where
  "CFBasicHashAddValue_at E ht bkt_idx0 stack_key stack_value =
     do { (bkt_idx, ht1) \<leftarrow> place_for E (bump ht) bkt_idx0 stack_key;
          if bkt_idx < 0 then None else store_new E ht1 (nat bkt_idx) stack_key stack_value }"

definition CFBasicHashReplaceValue_at :: "hash_env \<Rightarrow> basic_hash \<Rightarrow> int \<Rightarrow> uintptr \<Rightarrow> uintptr \<Rightarrow> basic_hash option" where
  "CFBasicHashReplaceValue_at E ht bkt_idx stack_key0 stack_value0 =
     (if bkt_idx < 0 then None else do {
        let (stack_value, ht1) = CFBasicHashImportValue E (bump ht) stack_value0;
        let (stack_key, ht2) = (if b_hasKeys ht1 then CFBasicHashImportKey E ht1 stack_key0 else (stack_key0, ht1));
        ht3 \<leftarrow> CFBasicHashSetValue_at ht2 (nat bkt_idx) stack_value False False;
        (if b_hasKeys ht3 then CFBasicHashSetKey_at ht3 (nat bkt_idx) stack_key False False else Some ht3) })"

definition shrink_needed :: "basic_hash \<Rightarrow> bool" where
  "shrink_needed ht =
     (if b_fastGrow ht
      then 5 < b_idx ht \<and> b_used ht < CFBasicHashGetCapacityForNumBuckets (b_idx ht - 5)
      else 2 < b_idx ht \<and> b_used ht < CFBasicHashGetCapacityForNumBuckets (b_idx ht - 2))"

definition clean_needed :: "basic_hash \<Rightarrow> bool" where
  "clean_needed ht \<longleftrightarrow> b_deleted ht = 0 \<or> (20 \<le> CFBasicHashGetNumBuckets ht \<and> CFBasicHashGetNumBuckets ht div 4 \<le> b_deleted ht)"

definition empty_bucket :: "basic_hash \<Rightarrow> nat \<Rightarrow> basic_hash option" where
  "empty_bucket ht idx =
     do { ht1 \<leftarrow> CFBasicHashSetValue_at ht idx SLOT_DELETED False True;
          ht2 \<leftarrow> (if b_hasKeys ht1 then CFBasicHashSetKey_at ht1 idx SLOT_DELETED False True else Some ht1);
          ht3 \<leftarrow> (if b_hasCounts ht2 then CFBasicHashDecSlotCount ht2 idx else Some ht2);
          ht4 \<leftarrow> (if b_hasHashes ht3 then do { hs \<leftarrow> poke (b_hashes ht3) idx 0; Some (ht3\<lparr>b_hashes := hs\<rparr>) } else Some ht3);
          Some (ht4\<lparr>b_used := (b_used ht4 + (2 ^ 32 - 1)) mod 2 ^ 32, b_deleted := (b_deleted ht4 + 1) mod 2 ^ 16\<rparr>) }"

definition CFBasicHashRemoveValue_at :: "hash_env \<Rightarrow> basic_hash \<Rightarrow> int \<Rightarrow> basic_hash option" where
  "CFBasicHashRemoveValue_at E ht bkt_idx =
     (if bkt_idx < 0 then None else do {
        ht5 \<leftarrow> empty_bucket (bump ht) (nat bkt_idx);
        if shrink_needed ht5 then CFBasicHashRehash E ht5 (-1)
        else if clean_needed ht5 then CFBasicHashRehash E ht5 0
        else Some ht5 })"

subsection \<open>The table's interface\<close>

definition halts :: "basic_hash \<Rightarrow> uintptr \<Rightarrow> uintptr \<Rightarrow> bool" where
  "halts ht stack_key stack_value \<longleftrightarrow> \<not> b_mutable ht \<or> is_sub stack_key \<or> is_sub stack_value"

definition CFBasicHashAddValue :: "hash_env \<Rightarrow> basic_hash \<Rightarrow> uintptr \<Rightarrow> uintptr \<Rightarrow> (bool \<times> basic_hash) option" where
  "CFBasicHashAddValue E ht stack_key stack_value =
     (if halts ht stack_key stack_value then None else do {
        bkt \<leftarrow> FindBucket E ht stack_key;
        if 0 < bk_count bkt then
          (if b_hasCounts ht \<and> bk_count bkt < 2 ^ 63 - 1
           then do { ht' \<leftarrow> CFBasicHashIncSlotCount (bump ht) (nat (bk_idx bkt)); Some (True, ht') }
           else Some (False, bump ht))
        else do { ht' \<leftarrow> CFBasicHashAddValue_at E ht (bk_idx bkt) stack_key stack_value; Some (True, ht') } })"

definition CFBasicHashReplaceValue :: "hash_env \<Rightarrow> basic_hash \<Rightarrow> uintptr \<Rightarrow> uintptr \<Rightarrow> basic_hash option" where
  "CFBasicHashReplaceValue E ht stack_key stack_value =
     (if halts ht stack_key stack_value then None else do {
        bkt \<leftarrow> FindBucket E ht stack_key;
        if 0 < bk_count bkt then CFBasicHashReplaceValue_at E ht (bk_idx bkt) stack_key stack_value else Some ht })"

definition CFBasicHashSetValue :: "hash_env \<Rightarrow> basic_hash \<Rightarrow> uintptr \<Rightarrow> uintptr \<Rightarrow> basic_hash option" where
  "CFBasicHashSetValue E ht stack_key stack_value =
     (if halts ht stack_key stack_value then None else do {
        bkt \<leftarrow> FindBucket E ht stack_key;
        if 0 < bk_count bkt then CFBasicHashReplaceValue_at E ht (bk_idx bkt) stack_key stack_value
        else CFBasicHashAddValue_at E ht (bk_idx bkt) stack_key stack_value })"

text \<open>Both removals: the last copy empties the bucket, other copies are counted down.\<close>

definition remove_bucket :: "hash_env \<Rightarrow> basic_hash \<Rightarrow> hash_bucket \<Rightarrow> (nat \<times> basic_hash) option" where
  "remove_bucket E ht bkt =
     (if 1 < bk_count bkt then
        (if b_hasCounts ht \<and> bk_count bkt < 2 ^ 63 - 1
         then do { ht' \<leftarrow> CFBasicHashDecSlotCount (bump ht) (nat (bk_idx bkt)); Some (bk_count bkt, ht') }
         else Some (bk_count bkt, bump ht))
      else if 0 < bk_count bkt then do { ht' \<leftarrow> CFBasicHashRemoveValue_at E ht (bk_idx bkt); Some (bk_count bkt, ht') }
      else Some (bk_count bkt, ht))"

definition CFBasicHashRemoveValue :: "hash_env \<Rightarrow> basic_hash \<Rightarrow> uintptr \<Rightarrow> (nat \<times> basic_hash) option" where
  "CFBasicHashRemoveValue E ht stack_key =
     (if \<not> b_mutable ht then None
      else if is_sub stack_key then Some (0, ht)
      else do { bkt \<leftarrow> FindBucket E ht stack_key; remove_bucket E ht bkt })"

definition CFBasicHashRemoveValueAtIndex :: "hash_env \<Rightarrow> basic_hash \<Rightarrow> nat \<Rightarrow> (nat \<times> basic_hash) option" where
  "CFBasicHashRemoveValueAtIndex E ht idx =
     (if \<not> b_mutable ht then None else do { bkt \<leftarrow> CFBasicHashGetBucket E ht idx; remove_bucket E ht bkt })"

definition CFBasicHashRemoveAllValues :: "basic_hash \<Rightarrow> basic_hash option" where
  "CFBasicHashRemoveAllValues ht =
     (if \<not> b_mutable ht then None else if b_idx ht = 0 then Some ht else CFBasicHashDrain ht)"

definition CFBasicHashDeallocate :: "basic_hash \<Rightarrow> basic_hash option" where
  "CFBasicHashDeallocate ht = (if b_finalized ht then None else CFBasicHashDrain (ht\<lparr>b_finalized := True\<rparr>))"

subsection \<open>Numbered values\<close>

definition renumber_up :: "uintptr \<Rightarrow> nat \<Rightarrow> basic_hash \<Rightarrow> basic_hash option" where
  "renumber_up int_value idx ht =
     do { free \<leftarrow> CFBasicHashIsEmptyOrDeleted ht idx;
          v \<leftarrow> CFBasicHashGetValue ht idx;
          if \<not> free \<and> int_value \<le> v then map_option bump (CFBasicHashSetValue_at ht idx (v + 1) True False) else Some ht }"

definition CFBasicHashAddIntValueAndInc :: "hash_env \<Rightarrow> basic_hash \<Rightarrow> uintptr \<Rightarrow> uintptr \<Rightarrow> (bool \<times> basic_hash) option" where
  "CFBasicHashAddIntValueAndInc E ht stack_key int_value =
     (if halts ht stack_key int_value then None else do {
        bkt \<leftarrow> FindBucket E ht stack_key;
        if 0 < bk_count bkt then Some (False, bump ht)
        else do {
          (bkt_idx, ht1) \<leftarrow>
            (if CFBasicHashGetCapacity ht < b_used ht + 1 then do {
               ht1 \<leftarrow> CFBasicHashRehash E ht 1;
               i \<leftarrow> FindBucket_NoCollision E ht1 stack_key 0;
               Some (i, ht1) }
             else Some (bk_idx bkt, ht));
          ht2 \<leftarrow> run_loop_over (renumber_up int_value) [0..<CFBasicHashGetNumBuckets ht1] ht1;
          ht3 \<leftarrow> CFBasicHashAddValue_at E ht2 bkt_idx stack_key int_value;
          Some (True, ht3) } })"

text \<open>The bucket of the number, and the table with the greater numbers counted down.\<close>

definition renumber_down :: "uintptr \<Rightarrow> nat \<Rightarrow> int \<times> basic_hash \<Rightarrow> (int \<times> basic_hash) option" where
  "renumber_down int_value idx s =
     (let (bkt_idx, ht) = s in do {
        free \<leftarrow> CFBasicHashIsEmptyOrDeleted ht idx;
        v \<leftarrow> CFBasicHashGetValue ht idx;
        if free then Some s
        else if int_value = v then Some (int idx, ht)
        else if int_value < v then do { ht' \<leftarrow> CFBasicHashSetValue_at ht idx (v - 1) True False; Some (bkt_idx, bump ht') }
        else Some s })"

text \<open>How the removal can go wrong: \<^verbatim>\<open>HALT\<close> stops the program; a bucket outside the array of the values is read and written;
  or the removal of a bucket inside it fails.\<close>

datatype removal_fault = Halted | Outside_values int | Removal_failed

definition CFBasicHashRemoveIntValueAndDec :: "hash_env \<Rightarrow> basic_hash \<Rightarrow> uintptr \<Rightarrow> removal_fault + basic_hash" where
  "CFBasicHashRemoveIntValueAndDec E ht int_value =
     (if \<not> b_mutable ht \<or> is_sub int_value then Inl Halted
      else case run_loop_over (renumber_down int_value) [0..<CFBasicHashGetNumBuckets ht] (-1, ht) of
        None \<Rightarrow> Inl (Outside_values (int (length (b_values ht))))
      | Some (bkt_idx, ht') \<Rightarrow>
          if bkt_idx < 0 \<or> int (length (b_values ht')) \<le> bkt_idx then Inl (Outside_values bkt_idx)
          else case CFBasicHashRemoveValue_at E ht' bkt_idx of None \<Rightarrow> Inl Removal_failed | Some ht2 \<Rightarrow> Inr ht2)"

subsection \<open>Copying\<close>

definition copy_step :: "hash_env \<Rightarrow> basic_hash \<Rightarrow> nat \<Rightarrow> basic_hash \<Rightarrow> basic_hash option" where
  "copy_step E src idx ht =
     do { v \<leftarrow> peek (b_values src) idx;
          if v \<noteq> 0 \<and> v \<noteq> SLOT_DELETED then do {
            let (v', ht1) = CFBasicHashImportValue E ht (unsub v);
            ht2 \<leftarrow> CFBasicHashSetValue_at ht1 idx v' True False;
            (if b_hasKeys src then do {
               k \<leftarrow> peek (b_keys src) idx;
               let (k', ht3) = CFBasicHashImportKey E ht2 (unsub k);
               CFBasicHashSetKey_at ht3 idx k' True False }
             else Some ht2) }
          else do {
            ht1 \<leftarrow> CFBasicHashSetValue_at ht idx v True True;
            (if b_hasKeys src then CFBasicHashSetKey_at ht1 idx v True True else Some ht1) } }"

text \<open>The new arrays of values and keys are uninitialised until the loop has written them.\<close>

definition CFBasicHashCreateCopy :: "hash_env \<Rightarrow> basic_hash \<Rightarrow> basic_hash option" where
  "CFBasicHashCreateCopy E src =
     (let n = CFBasicHashGetNumBuckets src;
          ht = src\<lparr>b_mutable := True, b_finalized := False, b_mutations := 1, b_values := replicate n 0,
                   b_keys := (if b_hasKeys src then replicate n 0 else []), b_counts := [], b_hashes := [], b_trace := []\<rparr> in
      if n = 0 then Some ht
      else do {
        ht1 \<leftarrow> run_loop_over (copy_step E src) [0..<n] ht;
        cs \<leftarrow> (if b_hasCounts src then readn (b_counts src) 0 n else Some []);
        hs \<leftarrow> (if b_hasHashes src then readn (b_hashes src) 0 n else Some []);
        Some (ht1\<lparr>b_counts := cs, b_hashes := hs\<rparr>) })"

end
