(* ===== verification/BasicHashPrimes.thy ===== *)
theory BasicHashPrimes
  imports BasicHashData
begin

text \<open>
  The sizes of the hash tables are primes and the tabulated roots are primitive: every probe sequence visits
  every bucket. Primality is shown by certificates in the manner of Lucas and Pratt.
\<close>

subsection \<open>Primes and primitive roots\<close>

definition is_prime :: "nat \<Rightarrow> bool" where
  "is_prime n \<longleftrightarrow> 1 < n \<and> (\<forall>d. d dvd n \<longrightarrow> d = 1 \<or> d = n)"

text \<open>The powers of \<open>g\<close> run through all residues except 0.\<close>

definition primitive_root :: "nat \<Rightarrow> nat \<Rightarrow> bool" where
  "primitive_root g n \<longleftrightarrow> inj_on (\<lambda>i. g ^ i mod n) {1..<n} \<and> (\<lambda>i. g ^ i mod n) ` {1..<n} = {1..<n}"

lemma is_prime_coprime: "is_prime q \<Longrightarrow> \<not> q dvd r \<Longrightarrow> coprime q r"
  unfolding is_prime_def by (metis coprime_iff_gcd_eq_1 gcd_dvd1 gcd_dvd2)

lemma common_factor:
  assumes "\<And>q. q \<in> set qs \<Longrightarrow> is_prime q" and "r dvd prod_list qs" and "1 < r"
  shows "\<exists>q \<in> set qs. q dvd r"
  using assms
proof (induction qs)
  case (Cons q qs)
  show ?case
  proof (cases "q dvd r")
    case False
    then have "coprime r q" using is_prime_coprime [of q r] Cons.prems(1) by (simp add: coprime_commute)
    then have "r dvd prod_list qs" using Cons.prems(2) by (simp add: coprime_dvd_mult_right_iff)
    then show ?thesis using Cons by auto
  qed simp
qed simp

lemma power_mod_one: "g ^ k mod n = 1 \<Longrightarrow> g ^ (k * j) mod n = 1 mod (n :: nat)"
  by (metis power_mod power_mult power_one)

lemma power_gcd_one:
  fixes g n :: nat
  assumes k: "g ^ k mod n = 1" and m: "g ^ m mod n = 1" and "0 < k" and n: "1 < n"
  shows "g ^ gcd k m mod n = 1"
proof -
  obtain x y where "k * x = m * y + gcd k m" using bezout_nat [of k m] \<open>0 < k\<close> by auto
  then have "1 mod n = g ^ (m * y) * g ^ gcd k m mod n" using power_mod_one [OF k, of x] by (simp add: power_add)
  also have "\<dots> = (g ^ (m * y) mod n) * g ^ gcd k m mod n" by (simp add: mod_mult_left_eq)
  also have "\<dots> = g ^ gcd k m mod n" using power_mod_one [OF m, of y] n by simp
  finally show ?thesis using n by simp
qed

text \<open>The order of \<open>g\<close> is \<open>n - 1\<close>.\<close>

lemma full_order:
  fixes g n :: nat
  assumes n: "1 < n" and one: "g ^ (n - 1) mod n = 1" and qs: "prod_list qs = n - 1"
    and prime: "\<And>q. q \<in> set qs \<Longrightarrow> is_prime q" and less: "\<And>q. q \<in> set qs \<Longrightarrow> g ^ ((n - 1) div q) mod n \<noteq> 1"
    and k: "0 < k" "k < n - 1"
  shows "g ^ k mod n \<noteq> 1"
proof
  assume "g ^ k mod n = 1"
  let ?d = "gcd k (n - 1)"
  have d: "g ^ ?d mod n = 1" by (rule power_gcd_one [OF \<open>g ^ k mod n = 1\<close> one k(1) n])
  have "?d \<le> k" using k by (intro gcd_le1_nat) simp
  with k have "?d \<noteq> n - 1" by linarith
  have "?d dvd n - 1" by simp
  then obtain r where r: "n - 1 = ?d * r" by blast
  have "r \<noteq> 0" "r \<noteq> 1" using r \<open>?d \<noteq> n - 1\<close> k by (auto intro!: Nat.gr0I)
  then have "1 < r" by simp
  then obtain q where q: "q \<in> set qs" "q dvd r" using common_factor [OF prime, of qs r] qs r by (metis dvd_triv_right)
  then obtain s where "r = q * s" by blast
  then have "n - 1 = q * (?d * s)" using r by (simp add: ac_simps)
  moreover have "q * (?d * s) div q = ?d * s" using prime [OF q(1)] by (simp add: is_prime_def)
  ultimately have "(n - 1) div q = ?d * s" by metis
  then show False using less [OF q(1)] power_mod_one [OF d, of s] n by simp
qed

lemma lucas:
  fixes g n :: nat
  assumes n: "1 < n" and one: "g ^ (n - 1) mod n = 1" and qs: "prod_list qs = n - 1"
    and prime: "\<And>q. q \<in> set qs \<Longrightarrow> is_prime q" and less: "\<And>q. q \<in> set qs \<Longrightarrow> g ^ ((n - 1) div q) mod n \<noteq> 1"
  shows "is_prime n" and "primitive_root g n"
proof -
  have inv: "(g ^ i mod n) * g ^ (n - 1 - i) mod n = 1" if "i < n" for i
    using one that n by (simp add: mod_mult_left_eq power_add [symmetric])
  have shift: "g ^ (j - i) mod n = 1" if "i < j" "j < n" "g ^ i mod n = g ^ j mod n" for i j
  proof -
    have "1 = (g ^ i mod n) * g ^ (n - 1 - i) mod n" using inv [of i] that(1,2) by simp
    also have "\<dots> = g ^ (j + (n - 1 - i)) mod n" by (simp add: that(3) mod_mult_left_eq power_add)
    also have "j + (n - 1 - i) = (j - i) + (n - 1)" using that by simp
    also have "g ^ \<dots> mod n = g ^ (j - i) * (g ^ (n - 1) mod n) mod n" by (simp add: mod_mult_right_eq power_add)
    finally show ?thesis using one n by simp
  qed
  have less_ne: "g ^ i mod n \<noteq> g ^ j mod n" if "1 \<le> i" "i < j" "j < n" for i j
    using shift [of i j] full_order [OF n one qs prime less, of "j - i"] that by auto
  have "i = j" if "i \<in> {1..<n}" "j \<in> {1..<n}" "g ^ i mod n = g ^ j mod n" for i j
    using less_ne [of i j] less_ne [of j i] that by (cases i j rule: linorder_cases) auto
  then have inj: "inj_on (\<lambda>i. g ^ i mod n) {1..<n}" by (auto simp: inj_on_def)
  have "g ^ i mod n \<noteq> 0" if "i < n" for i using inv [OF that] by (cases "g ^ i mod n = 0") auto
  then have "(\<lambda>i. g ^ i mod n) ` {1..<n} \<subseteq> {1..<n}" using n by (auto simp: Suc_le_eq)
  then have all: "(\<lambda>i. g ^ i mod n) ` {1..<n} = {1..<n}" using inj by (simp add: endo_inj_surj)
  then show "primitive_root g n" using inj by (simp add: primitive_root_def)
  have "d = 1 \<or> d = n" if d: "d dvd n" for d
  proof (cases "d = n")
    case False
    then have "d \<in> {1..<n}" using dvd_imp_le [OF d] d n by (cases d) auto
    then have "d \<in> (\<lambda>i. g ^ i mod n) ` {1..<n}" by (simp only: all)
    then obtain i where i: "i \<in> {1..<n}" "d = g ^ i mod n" by (rule imageE)
    have "d * g ^ (n - 1 - i) mod n = 1" using inv [of i] i(1) unfolding i(2) by simp
    moreover have "d dvd d * g ^ (n - 1 - i) mod n" by (rule dvd_mod [OF _ d]) simp
    ultimately have "d dvd 1" by simp
    then show ?thesis by simp
  qed simp
  then show "is_prime n" using n by (simp add: is_prime_def)
qed

subsection \<open>Certificates\<close>

function powmod :: "nat \<Rightarrow> nat \<Rightarrow> nat \<Rightarrow> nat" where
  "powmod b e n =
     (if e = 0 then 1 mod n
      else if even e then powmod (b * b mod n) (e div 2) n
      else b * powmod (b * b mod n) (e div 2) n mod n)"
  by auto
termination by (relation "measure (\<lambda>(b, e, n). e)") auto

declare powmod.simps [simp del]

lemma powmod_eq: "powmod b e n = b ^ e mod n"
proof (induction b e n rule: powmod.induct)
  case (1 b e n)
  have half: "(b * b mod n) ^ (e div 2) mod n = b ^ (2 * (e div 2)) mod n" by (simp add: power_mod power_mult power2_eq_square)
  show ?case
  proof (cases "e = 0")
    case False
    show ?thesis
    proof (cases "even e")
      case True
      then show ?thesis using 1(1) False half by (subst powmod.simps) simp
    next
      case odd: False
      then have "powmod b e n = b * (b ^ (2 * (e div 2)) mod n) mod n" using 1(2) False half by (subst powmod.simps) simp
      also have "\<dots> = b ^ Suc (2 * (e div 2)) mod n" by (simp add: mod_mult_right_eq)
      also have "Suc (2 * (e div 2)) = e" using odd by simp
      finally show ?thesis .
    qed
  qed (simp add: powmod.simps)
qed

lemma powmod_numeral:
  "powmod b (numeral (num.Bit0 k)) n = powmod (b * b mod n) (numeral k) n"
  "powmod b (numeral (num.Bit1 k)) n = b * powmod (b * b mod n) (numeral k) n mod n"
  "powmod b (numeral num.One) n = b mod n" "powmod b 1 n = b mod n" "powmod b (Suc 0) n = b mod n"
proof -
  have "b ^ numeral (num.Bit0 k) = (b * b) ^ numeral k"
    by (simp only: numeral_Bit0 power_add power_mult_distrib)
  moreover have "b ^ numeral (num.Bit1 k) = b * (b * b) ^ numeral k"
    by (simp only: numeral_Bit1 power_add power_mult_distrib power_one_right mult.commute mult.left_commute)
  ultimately show "powmod b (numeral (num.Bit0 k)) n = powmod (b * b mod n) (numeral k) n"
    "powmod b (numeral (num.Bit1 k)) n = b * powmod (b * b mod n) (numeral k) n mod n"
    by (simp_all add: powmod_eq power_mod mod_mult_right_eq)
qed (simp_all add: powmod_eq)

type_synonym cert = "nat \<times> nat \<times> (nat \<times> nat) list"

text \<open>A number, a primitive root and the prime factors of its predecessor, which have certificates themselves.\<close>

fun cert_ok :: "cert \<Rightarrow> bool" where
  "cert_ok (p, g, qs) \<longleftrightarrow>
     1 < p \<and> powmod g (p - 1) p = 1 \<and> prod_list (map (\<lambda>(q, e). q ^ e) qs) = p - 1 \<and>
     list_all (\<lambda>(q, e). q < p \<and> powmod g ((p - 1) div q) p \<noteq> 1) qs"

lemma prod_list_replicate_concat:
  "prod_list (concat (map (\<lambda>(q, e). replicate e q) qs)) = prod_list (map (\<lambda>(q :: nat, e). q ^ e) qs)"
  by (induction qs) (auto simp: prod_list_replicate)

definition certified :: "cert \<Rightarrow> bool" where
  "certified c \<longleftrightarrow> (case c of (p, g, qs) \<Rightarrow> is_prime p \<and> primitive_root g p)"

lemma certified_simp [simp]: "certified (p, g, qs) \<longleftrightarrow> is_prime p \<and> primitive_root g p"
  by (simp add: certified_def)

lemma cert_prime:
  assumes c: "cert_ok (p, g, qs)" and prime: "list_all (\<lambda>(q, e). is_prime q) qs"
  shows "is_prime p \<and> primitive_root g p"
proof -
  let ?qs = "concat (map (\<lambda>(q, e). replicate e q) qs)"
  have "is_prime q \<and> g ^ ((p - 1) div q) mod p \<noteq> 1" if "q \<in> set ?qs" for q
  proof -
    from that obtain e where e: "(q, e) \<in> set qs" by (auto split: if_splits)
    then have "powmod g ((p - 1) div q) p \<noteq> 1" "is_prime q" using c prime by (auto simp: list_all_iff)
    then show ?thesis by (simp add: powmod_eq)
  qed
  moreover have "1 < p" "g ^ (p - 1) mod p = 1" "prod_list ?qs = p - 1"
    using c by (simp_all add: powmod_eq prod_list_replicate_concat)
  ultimately show ?thesis using lucas [of p g ?qs] by blast
qed

text \<open>The prime factors that occur in a list of certificates have been certified before.\<close>

lemma certify:
  assumes "list_all cert_ok cs" and "list_all (\<lambda>(p, g, qs). list_all (\<lambda>(q, e). is_prime q) qs) cs"
  shows "list_all certified cs"
  using assms cert_prime by (fastforce simp: list_all_iff)

lemma certified_1:
  "list_all certified [
    (2, 1, [])]"
  by (rule certify; simp add: powmod_numeral)

lemmas primes_1 = certified_1 [simplified]

lemma certified_2:
  "list_all certified [
    (3, 2, [(2, 1)]), (5, 2, [(2, 2)]), (17, 3, [(2, 4)])]"
  by (rule certify; simp add: powmod_numeral primes_1)

lemmas primes_2 = certified_2 [simplified]

lemma certified_3:
  "list_all certified [
    (7, 3, [(2, 1), (3, 1)]), (11, 2, [(2, 1), (5, 1)]), (13, 2, [(2, 2), (3, 1)]), (19, 2, [(2, 1), (3, 2)]),
    (41, 6, [(2, 3), (5, 1)]), (103, 5, [(2, 1), (3, 1), (17, 1)]), (181, 2, [(2, 2), (3, 2), (5, 1)]),
    (251, 6, [(2, 1), (5, 3)])]"
  by (rule certify; simp add: powmod_numeral primes_1 primes_2)

lemmas primes_3 = certified_3 [simplified]

lemma certified_4:
  "list_all certified [
    (23, 5, [(2, 1), (11, 1)]), (29, 2, [(2, 2), (7, 1)]), (43, 3, [(2, 1), (3, 1), (7, 1)]),
    (71, 7, [(2, 1), (5, 1), (7, 1)]), (83, 2, [(2, 1), (41, 1)]), (127, 3, [(2, 1), (3, 2), (7, 1)]),
    (191, 19, [(2, 1), (5, 1), (19, 1)]), (463, 3, [(2, 1), (3, 1), (7, 1), (11, 1)]),
    (631, 3, [(2, 1), (3, 2), (5, 1), (7, 1)]), (1087, 3, [(2, 1), (3, 1), (181, 1)]),
    (1723, 3, [(2, 1), (3, 1), (7, 1), (41, 1)]), (4523, 5, [(2, 1), (7, 1), (17, 1), (19, 1)]),
    (7351, 6, [(2, 1), (3, 1), (5, 2), (7, 2)]), (8447, 5, [(2, 1), (41, 1), (103, 1)])]"
  by (rule certify; simp add: powmod_numeral primes_1 primes_2 primes_3)

lemmas primes_4 = certified_4 [simplified]

lemma certified_5:
  "list_all certified [
    (173, 2, [(2, 2), (43, 1)]), (233, 3, [(2, 3), (29, 1)]), (383, 5, [(2, 1), (191, 1)]),
    (1993, 5, [(2, 3), (3, 1), (83, 1)]), (19447, 3, [(2, 1), (3, 1), (7, 1), (463, 1)]),
    (50683, 2, [(2, 1), (3, 1), (8447, 1)])]"
  by (rule certify; simp add: powmod_numeral primes_1 primes_2 primes_3 primes_4)

lemmas primes_5 = certified_5 [simplified]

lemma certified_6:
  "list_all certified [
    (347, 2, [(2, 1), (173, 1)]), (467, 2, [(2, 1), (233, 1)]), (11959, 3, [(2, 1), (3, 1), (1993, 1)])]"
  by (rule certify; simp add: powmod_numeral primes_1 primes_2 primes_3 primes_4 primes_5)

lemmas primes_6 = certified_6 [simplified]

lemma certified_7:
  "list_all certified [
    (2803, 2, [(2, 1), (3, 1), (467, 1)]), (31231, 6, [(2, 1), (3, 2), (5, 1), (347, 1)])]"
  by (rule certify; simp add: powmod_numeral primes_1 primes_2 primes_3 primes_4 primes_5 primes_6)

lemmas primes_7 = certified_7 [simplified]


lemmas all_primes = primes_1 primes_2 primes_3 primes_4 primes_5 primes_6 primes_7

end
