(* ===== verification/BasicHashProbes.thy ===== *)
theory BasicHashProbes
  imports BasicHashPrimes
begin

text \<open>The probe sequences in closed form, and that they visit every bucket.\<close>

subsection \<open>The probe sequences\<close>

definition probe_at :: "nat \<Rightarrow> nat \<Rightarrow> nat \<Rightarrow> nat \<Rightarrow> nat \<Rightarrow> nat" where
  "probe_at style n pr hc i =
     (if style = 1 then (hash1 n hc + i) mod n
      else if style = 2 then (hash1 n hc + i * hash2 n hc) mod n
      else if i = 0 then hash1 n hc else (hash1 n hc + hash2 n hc * pr ^ i) mod n)"

definition probe_state :: "nat \<Rightarrow> nat \<Rightarrow> nat \<Rightarrow> nat \<Rightarrow> nat \<Rightarrow> nat \<times> nat" where
  "probe_state style n pr hc i =
     (probe_at style n pr hc i, if style = 1 \<or> style = 2 then pr else pr ^ Suc i mod n)"

text \<open>The products of the exponential sequence fit in 64 bits.\<close>

definition fits64 :: "nat \<Rightarrow> nat \<Rightarrow> nat \<Rightarrow> bool" where
  "fits64 style n pr \<longleftrightarrow> style = 1 \<or> style = 2 \<or> n * n \<le> 2 ^ 64 \<and> pr < n"

lemma hash1_less: "0 < n \<Longrightarrow> hash1 n hc < n"
  by (simp add: hash1_def)

lemma hash2_bounds: "1 < n \<Longrightarrow> 0 < hash2 n hc \<and> hash2 n hc < n"
  by (simp add: hash2_def Let_def)

lemma wrap_probe_mod: "p < n \<Longrightarrow> d \<le> n \<Longrightarrow> wrap_probe n (p + d) = (p + d) mod n"
  by (cases "p + d < n") (auto simp: wrap_probe_def le_mod_geq)

lemma fold64_mod: "x < 2 ^ 64 \<Longrightarrow> 0 < n \<Longrightarrow> fold64 n x = x mod n"
  by (simp add: fold64_def)

lemma mult_less_square: "a < n \<Longrightarrow> b < n \<Longrightarrow> c < n \<Longrightarrow> a + b * c < n * (n :: nat)"
proof -
  assume "a < n" "b < n" "c < n"
  then have "b * c \<le> (n - 1) * (n - 1)" by (intro mult_mono) auto
  moreover have "(n - 1) * (n - 1) + n \<le> n * n" using \<open>a < n\<close> by (cases n) auto
  ultimately show ?thesis using \<open>a < n\<close> by linarith
qed

lemma probe_state_next:
  assumes "1 < n" and "fits64 style n pr"
  shows "next_probe style n pr hc (probe_state style n pr hc i) = probe_state style n pr hc (Suc i)"
proof -
  note h = hash1_less [of n hc] hash2_bounds [of n hc] assms(1)
  consider "style = 1" | "style = 2" | (exp) "style \<noteq> 1" "style \<noteq> 2" "n * n \<le> 2 ^ 64" "pr < n"
    using assms(2) by (auto simp: fits64_def)
  then show ?thesis
  proof cases
    case 1
    then show ?thesis using h wrap_probe_mod [of "(hash1 n hc + i) mod n" n 1]
      by (simp add: next_probe_def probe_state_def probe_at_def mod_Suc_eq)
  next
    case 2
    have "wrap_probe n ((hash1 n hc + i * hash2 n hc) mod n + hash2 n hc) = (hash1 n hc + Suc i * hash2 n hc) mod n"
      using h wrap_probe_mod [of "(hash1 n hc + i * hash2 n hc) mod n" n "hash2 n hc"]
        mod_add_left_eq [of "hash1 n hc + i * hash2 n hc" n "hash2 n hc"] by (simp add: ac_simps)
    then show ?thesis using 2 by (simp add: next_probe_def probe_state_def probe_at_def)
  next
    case exp
    let ?acc = "pr ^ Suc i mod n"
    have acc: "?acc < n" using h by simp
    have "hash1 n hc + hash2 n hc * ?acc < n * n" "?acc * pr < n * n"
      using h acc exp(4) mult_less_square [of "hash1 n hc" n "hash2 n hc" ?acc] mult_less_square [of 0 n ?acc pr] by auto
    then have "fold64 n (hash1 n hc + hash2 n hc * ?acc) = (hash1 n hc + hash2 n hc * ?acc) mod n"
      "fold64 n (?acc * pr) = ?acc * pr mod n"
      using exp(3) h by (simp_all add: fold64_mod)
    moreover have "(hash1 n hc + hash2 n hc * ?acc) mod n = (hash1 n hc + hash2 n hc * pr ^ Suc i) mod n"
      by (metis mod_add_right_eq mod_mult_right_eq)
    moreover have "?acc * pr mod n = pr ^ Suc (Suc i) mod n" by (simp add: mod_mult_left_eq mod_mult_right_eq ac_simps)
    ultimately show ?thesis using exp(1,2) by (simp add: next_probe_def probe_state_def probe_at_def)
  qed
qed

lemma probe_at_less: "1 < n \<Longrightarrow> probe_at style n pr hc i < n"
  using hash1_less [of n hc] by (simp add: probe_at_def)

subsection \<open>Coverage\<close>

definition visits_all :: "nat \<Rightarrow> nat \<Rightarrow> nat \<Rightarrow> bool" where
  "visits_all style n pr \<longleftrightarrow> (\<forall>hc. (\<lambda>i. probe_at style n pr hc i) ` {..<n} = {..<n})"

lemma visits_allI:
  assumes "1 < n" and "\<And>hc i j. i < j \<Longrightarrow> j < n \<Longrightarrow> probe_at style n pr hc i \<noteq> probe_at style n pr hc j"
  shows "visits_all style n pr"
proof -
  have "inj_on (\<lambda>i. probe_at style n pr hc i) {..<n}" for hc
    by (rule inj_onI) (use assms(2) in \<open>metis lessThan_iff linorder_neqE_nat\<close>)
  moreover have "(\<lambda>i. probe_at style n pr hc i) ` {..<n} \<subseteq> {..<n}" for hc using probe_at_less [OF assms(1)] by auto
  ultimately show ?thesis by (simp add: visits_all_def endo_inj_surj)
qed

lemma same_mod: "(a + x) mod n = (a + y) mod n \<Longrightarrow> x \<le> y \<Longrightarrow> n dvd y - (x :: nat)"
  using mod_eq_dvd_iff_nat [of "a + x" "a + y" n] by simp

lemma linear_visits_all: "1 < n \<Longrightarrow> visits_all 1 n pr"
proof (rule visits_allI)
  fix hc i j assume "i < j" "j < n"
  show "probe_at 1 n pr hc i \<noteq> probe_at 1 n pr hc j"
  proof
    assume "probe_at 1 n pr hc i = probe_at 1 n pr hc j"
    then have "n dvd j - i" using \<open>i < j\<close> by (intro same_mod) (simp_all add: probe_at_def)
    then show False using \<open>i < j\<close> \<open>j < n\<close> dvd_imp_le [of n "j - i"] by simp
  qed
qed

lemma prime_dvd_mult_less:
  "is_prime n \<Longrightarrow> n dvd a * b \<Longrightarrow> 0 < b \<Longrightarrow> b < n \<Longrightarrow> n dvd a"
  using is_prime_coprime [of n b] by (metis coprime_dvd_mult_left_iff nat_dvd_not_less)

lemma double_visits_all: "is_prime n \<Longrightarrow> visits_all 2 n pr"
proof (rule visits_allI)
  assume prime: "is_prime n"
  then show "1 < n" by (simp add: is_prime_def)
  fix hc i j assume "i < j" "j < n"
  show "probe_at 2 n pr hc i \<noteq> probe_at 2 n pr hc j"
  proof
    assume "probe_at 2 n pr hc i = probe_at 2 n pr hc j"
    then have "n dvd j * hash2 n hc - i * hash2 n hc" using \<open>i < j\<close> by (intro same_mod) (simp_all add: probe_at_def)
    then have "n dvd (j - i) * hash2 n hc" by (simp add: diff_mult_distrib)
    moreover have "0 < hash2 n hc" "hash2 n hc < n" using prime hash2_bounds [of n hc] by (simp_all add: is_prime_def)
    ultimately have "n dvd j - i" by (rule prime_dvd_mult_less [OF prime])
    then show False using \<open>i < j\<close> \<open>j < n\<close> dvd_imp_le [of n "j - i"] by simp
  qed
qed

lemma exponential_visits_all:
  assumes prime: "is_prime n" and root: "primitive_root g n"
  shows "visits_all 3 n g"
proof (rule visits_allI)
  show n: "1 < n" using prime by (simp add: is_prime_def)
  note h2 = hash2_bounds [OF n]
  have unit: "\<not> n dvd g ^ j" if "0 < j" "j < n" for j
  proof -
    have "g ^ j mod n \<in> {1..<n}" using root that unfolding primitive_root_def by (metis atLeastLessThan_iff image_eqI less_eq_Suc_le One_nat_def)
    then show ?thesis by (simp add: dvd_eq_mod_eq_0)
  qed
  fix hc i j assume ij: "i < j" "j < n"
  show "probe_at 3 n g hc i \<noteq> probe_at 3 n g hc j"
  proof
    assume eq: "probe_at 3 n g hc i = probe_at 3 n g hc j"
    show False
    proof (cases "i = 0")
      case True
      then have "(hash1 n hc + 0) mod n = (hash1 n hc + hash2 n hc * g ^ j) mod n"
        using eq ij hash1_less [of n hc] n by (simp add: probe_at_def)
      from same_mod [OF this] have "n dvd g ^ j * hash2 n hc" by (simp add: mult.commute)
      then have "n dvd g ^ j" using prime_dvd_mult_less [OF prime] h2 by blast
      then show False using unit ij by simp
    next
      case False
      have power: "n dvd x - y" if "(hash1 n hc + hash2 n hc * y) mod n = (hash1 n hc + hash2 n hc * x) mod n" "y \<le> x" for x y
      proof -
        have "n dvd hash2 n hc * x - hash2 n hc * y" using that by (intro same_mod [of "hash1 n hc"]) (auto intro: mult_left_mono)
        then have "n dvd (x - y) * hash2 n hc" by (simp add: diff_mult_distrib2 mult.commute)
        then show ?thesis using prime_dvd_mult_less [OF prime] h2 by blast
      qed
      have "(hash1 n hc + hash2 n hc * g ^ i) mod n = (hash1 n hc + hash2 n hc * g ^ j) mod n"
        using eq False ij by (simp add: probe_at_def)
      then have "g ^ i mod n = g ^ j mod n"
        using power [of "g ^ i" "g ^ j"] power [of "g ^ j" "g ^ i"] mod_eq_dvd_iff_nat [of "g ^ i" "g ^ j" n]
          mod_eq_dvd_iff_nat [of "g ^ j" "g ^ i" n] by (metis nat_le_linear)
      moreover have "i \<in> {1..<n}" "j \<in> {1..<n}" using False ij by auto
      ultimately show False using root ij unfolding primitive_root_def inj_on_def by blast
    qed
  qed
qed

subsection \<open>The code's tables\<close>

lemma probe_iterate:
  assumes "1 < n" and "fits64 style n pr"
  shows "(next_probe style n pr hc ^^ i) (hash1 n hc, pr) = probe_state style n pr hc i"
proof (induction i)
  case 0
  show ?case using hash1_less [of n hc] assms by (auto simp: probe_state_def probe_at_def fits64_def)
qed (simp add: probe_state_next [OF assms])

text \<open>A table whose probe sequences never leave out a bucket.\<close>

definition good_probes :: "nat \<Rightarrow> nat \<Rightarrow> bool" where
  "good_probes style idx \<longleftrightarrow>
     1 < CFBasicHashTableSizes ! idx \<and> fits64 style (CFBasicHashTableSizes ! idx) (CFBasicHashPrimitiveRoots ! idx) \<and>
     visits_all style (CFBasicHashTableSizes ! idx) (CFBasicHashPrimitiveRoots ! idx)"

lemma good_linear: "0 < idx \<Longrightarrow> idx \<le> 44 \<Longrightarrow> good_probes 1 idx"
proof -
  assume "0 < idx" "idx \<le> 44"
  then have "idx \<in> set [1..<45]" by simp
  moreover have "list_all (\<lambda>i. 1 < CFBasicHashTableSizes ! i) [1..<45]" by (simp add: CFBasicHashTableSizes_def upt_rec)
  ultimately show ?thesis by (simp add: good_probes_def fits64_def linear_visits_all list_all_iff del: One_nat_def)
qed

lemma sizes_prime: "1 \<le> idx \<Longrightarrow> idx \<le> 20 \<Longrightarrow> is_prime (CFBasicHashTableSizes ! idx)"
proof -
  assume "1 \<le> idx" "idx \<le> 20"
  then have "idx \<in> set [1..<21]" by simp
  moreover have "list_all (\<lambda>i. is_prime (CFBasicHashTableSizes ! i)) [1..<21]"
    by (simp add: CFBasicHashTableSizes_def upt_rec all_primes)
  ultimately show ?thesis by (simp add: list_all_iff)
qed

lemma roots_primitive:
  "1 \<le> idx \<Longrightarrow> idx \<le> 20 \<Longrightarrow> primitive_root (CFBasicHashPrimitiveRoots ! idx) (CFBasicHashTableSizes ! idx)"
proof -
  assume "1 \<le> idx" "idx \<le> 20"
  then have "idx \<in> set [1..<21]" by simp
  moreover have "list_all (\<lambda>i. primitive_root (CFBasicHashPrimitiveRoots ! i) (CFBasicHashTableSizes ! i)) [1..<21]"
    by (simp add: CFBasicHashTableSizes_def CFBasicHashPrimitiveRoots_def upt_rec all_primes)
  ultimately show ?thesis by (simp add: list_all_iff)
qed

lemma roots_fit:
  "1 \<le> idx \<Longrightarrow> idx \<le> 20 \<Longrightarrow>
   fits64 style (CFBasicHashTableSizes ! idx) (CFBasicHashPrimitiveRoots ! idx)"
proof -
  assume "1 \<le> idx" "idx \<le> 20"
  then have "idx \<in> set [1..<21]" by simp
  moreover have "list_all (\<lambda>i. CFBasicHashTableSizes ! i * (CFBasicHashTableSizes ! i) \<le> 2 ^ 64 \<and>
      CFBasicHashPrimitiveRoots ! i < CFBasicHashTableSizes ! i) [1..<21]"
    by (simp add: CFBasicHashTableSizes_def CFBasicHashPrimitiveRoots_def upt_rec)
  ultimately show ?thesis by (simp add: list_all_iff fits64_def)
qed

text \<open>
  The sizes for which coverage is shown: all of them with linear probing, the one style the collections use,
  and up to 50683 buckets with the two others, whose coverage rests on the certificates.
\<close>

definition sizes_ok :: "nat \<Rightarrow> nat \<Rightarrow> bool" where
  "sizes_ok style idx \<longleftrightarrow> (style = 1 \<and> idx \<le> 44) \<or> ((style = 2 \<or> style = 3) \<and> idx \<le> 20)"

lemma sizes_ok_good: "sizes_ok style idx \<Longrightarrow> 0 < idx \<Longrightarrow> good_probes style idx"
proof -
  assume ok: "sizes_ok style idx" and "0 < idx"
  then have idx: "1 \<le> idx" by simp
  show ?thesis
  proof (cases "style = 1")
    case False
    then have "idx \<le> 20" and style: "style = 2 \<or> style = 3" using ok by (auto simp: sizes_ok_def)
    note small = sizes_prime [OF idx this(1)] roots_primitive [OF idx this(1)] roots_fit [OF idx this(1)]
    then show ?thesis using style double_visits_all exponential_visits_all
      by (auto simp: good_probes_def is_prime_def)
  qed (use ok good_linear idx in \<open>simp add: sizes_ok_def\<close>)
qed

lemma sizes_ok_mono: "sizes_ok style idx \<Longrightarrow> idx' \<le> idx \<Longrightarrow> sizes_ok style idx'"
  by (auto simp: sizes_ok_def)

lemma probe_sequence_covers:
  assumes ok: "sizes_ok style idx" and idx: "0 < idx"
  defines "n \<equiv> CFBasicHashTableSizes ! idx" and "pr \<equiv> CFBasicHashPrimitiveRoots ! idx"
  shows "(\<lambda>i. fst ((next_probe style n pr hc ^^ i) (hash1 n hc, pr))) ` {..<n} = {..<n}"
  using sizes_ok_good [OF ok idx] unfolding n_def pr_def
  by (simp add: good_probes_def probe_iterate probe_state_def visits_all_def)

end
