(* ===== verification/BasicHashSlots.thy ===== *)
theory BasicHashSlots
  imports BasicHashOps BasicHashProbes
begin

text \<open>
  The arrays of a \<^verbatim>\<open>CFBasicHash\<close> read as one array of slots, the invariant of a table, and what writing, emptying
  and recounting one slot do to it. Tables with indirect keys are left out.
\<close>

subsection \<open>Words and callbacks\<close>

lemma unsub_sub [simp]: "\<not> is_sub v \<Longrightarrow> unsub (sub v) = v"
  by (auto simp: unsub_def sub_def is_sub_def CFBasicHashSubABZero_def CFBasicHashSubABOne_def SLOT_DELETED_def)

lemma sub_in_use [simp]: "sub v \<noteq> 0" "sub v \<noteq> SLOT_DELETED"
  by (auto simp: sub_def CFBasicHashSubABZero_def CFBasicHashSubABOne_def SLOT_DELETED_def)

lemma unsub_not_sub [simp]: "\<not> is_sub (unsub v)"
  by (auto simp: unsub_def is_sub_def CFBasicHashSubABZero_def CFBasicHashSubABOne_def SLOT_DELETED_def)

text \<open>The keys the table takes for the same, and the hash code.\<close>

definition same_key :: "hash_env \<Rightarrow> hash_callbacks \<Rightarrow> uintptr \<Rightarrow> uintptr \<Rightarrow> bool" where
  "same_key E cb a b \<longleftrightarrow> a = b \<or> (case kcb_equateKeys cb of None \<Rightarrow> False | Some f \<Rightarrow> he_equal E f a b)"

definition key_code :: "hash_env \<Rightarrow> hash_callbacks \<Rightarrow> uintptr \<Rightarrow> uintptr" where
  "key_code E cb k = (case kcb_hashKey cb of None \<Rightarrow> k | Some f \<Rightarrow> he_hash E f k)"

definition kept_key :: "hash_env \<Rightarrow> basic_hash \<Rightarrow> uintptr \<Rightarrow> uintptr" where
  "kept_key E ht k = fst (CFBasicHashImportKey E ht k)"

definition kept_value :: "hash_env \<Rightarrow> basic_hash \<Rightarrow> uintptr \<Rightarrow> uintptr" where
  "kept_value E ht v = fst (CFBasicHashImportValue E ht v)"

lemma test_equal_key: "a = b \<or> CFBasicHashTestEqualKey E ht a b \<longleftrightarrow> same_key E (b_callbacks ht) a b"
  by (auto simp: CFBasicHashTestEqualKey_def same_key_def split: option.splits)

lemma hash_key: "CFBasicHashHashKey E ht k = key_code E (b_callbacks ht) k"
  by (simp add: CFBasicHashHashKey_def key_code_def)

text \<open>
  What the documentation asks of the callbacks: equality is an equivalence, equal keys have equal codes, a
  retained key is equal to the key, and retaining does not make a word that stands for another one.
\<close>

definition lawful :: "hash_env \<Rightarrow> hash_callbacks \<Rightarrow> bool \<Rightarrow> bool" where
  "lawful E cb hasKeys \<longleftrightarrow>
     (\<forall>a b. same_key E cb a b \<longrightarrow> same_key E cb b a \<and> key_code E cb a = key_code E cb b) \<and>
     (\<forall>a b c. same_key E cb a b \<longrightarrow> same_key E cb b c \<longrightarrow> same_key E cb a c) \<and>
     (\<forall>f k. kcb_retainKey cb = Some f \<longrightarrow> \<not> is_sub k \<longrightarrow> same_key E cb (he_retain E f k) k \<and> \<not> is_sub (he_retain E f k)) \<and>
     (\<forall>f v. kcb_retainValue cb = Some f \<longrightarrow> \<not> is_sub v \<longrightarrow>
        (hasKeys \<or> same_key E cb (he_retain E f v) v) \<and> \<not> is_sub (he_retain E f v))"

lemma same_key_refl [simp]: "same_key E cb a a"
  by (simp add: same_key_def)

lemma lawful_sym: "lawful E cb hk \<Longrightarrow> same_key E cb a b \<Longrightarrow> same_key E cb b a"
  unfolding lawful_def by blast

lemma lawful_trans: "lawful E cb hk \<Longrightarrow> same_key E cb a b \<Longrightarrow> same_key E cb b c \<Longrightarrow> same_key E cb a c"
  unfolding lawful_def by blast

lemma lawful_code: "lawful E cb hk \<Longrightarrow> same_key E cb a b \<Longrightarrow> key_code E cb a = key_code E cb b"
  unfolding lawful_def by blast

lemma lawful_retain_key:
  "lawful E cb hk \<Longrightarrow> kcb_retainKey cb = Some f \<Longrightarrow> \<not> is_sub k \<Longrightarrow>
   same_key E cb (he_retain E f k) k \<and> \<not> is_sub (he_retain E f k)"
  unfolding lawful_def by blast

lemma lawful_retain_value:
  "lawful E cb hk \<Longrightarrow> kcb_retainValue cb = Some f \<Longrightarrow> \<not> is_sub v \<Longrightarrow>
   (hk \<or> same_key E cb (he_retain E f v) v) \<and> \<not> is_sub (he_retain E f v)"
  unfolding lawful_def by blast

lemma kept_key:
  "lawful E (b_callbacks ht) hk \<Longrightarrow> \<not> is_sub k \<Longrightarrow>
   same_key E (b_callbacks ht) (kept_key E ht k) k \<and> \<not> is_sub (kept_key E ht k)"
  using lawful_retain_key [of E "b_callbacks ht" hk _ k]
  by (simp add: kept_key_def CFBasicHashImportKey_def split: option.split)

lemma kept_value:
  "lawful E (b_callbacks ht) hk \<Longrightarrow> \<not> is_sub v \<Longrightarrow>
   (hk \<or> same_key E (b_callbacks ht) (kept_value E ht v) v) \<and> \<not> is_sub (kept_value E ht v)"
  using lawful_retain_value [of E "b_callbacks ht" hk _ v]
  by (simp add: kept_value_def CFBasicHashImportValue_def split: option.split)

subsection \<open>Slots\<close>

datatype slot = Free | Gone | Held uintptr uintptr nat

definition slot_of :: "basic_hash \<Rightarrow> nat \<Rightarrow> slot" where
  "slot_of ht i =
     (let v = b_values ht ! i in
      if v = 0 then Free else if v = SLOT_DELETED then Gone
      else Held (unsub (key_cells ht ! i)) (unsub v) (if b_hasCounts ht then b_counts ht ! i else 1))"

abbreviation held :: "basic_hash \<Rightarrow> nat \<Rightarrow> bool" where
  "held ht i \<equiv> slot_of ht i \<noteq> Free \<and> slot_of ht i \<noteq> Gone"

abbreviation nb :: "basic_hash \<Rightarrow> nat" where
  "nb \<equiv> CFBasicHashGetNumBuckets"

lemma held_iff: "held ht i \<longleftrightarrow> b_values ht ! i \<noteq> 0 \<and> b_values ht ! i \<noteq> SLOT_DELETED"
  by (simp add: slot_of_def Let_def SLOT_DELETED_def)

text \<open>The \<open>j\<close>-th bucket looked at for a key.\<close>

definition spot :: "hash_env \<Rightarrow> basic_hash \<Rightarrow> uintptr \<Rightarrow> nat \<Rightarrow> nat" where
  "spot E ht k j =
     probe_at (b_style ht) (nb ht) (CFBasicHashPrimitiveRoots ! b_idx ht) (unat (key_code E (b_callbacks ht) k)) j"

text \<open>A search for the key comes to bucket \<open>p\<close> before it comes to a free one.\<close>

definition reaches :: "hash_env \<Rightarrow> basic_hash \<Rightarrow> uintptr \<Rightarrow> nat \<Rightarrow> bool" where
  "reaches E ht k p \<longleftrightarrow> (\<exists>m < nb ht. spot E ht k m = p \<and> (\<forall>j < m. slot_of ht (spot E ht k j) \<noteq> Free))"

subsection \<open>The invariant\<close>

definition arrays_ok :: "basic_hash \<Rightarrow> bool" where
  "arrays_ok ht \<longleftrightarrow>
     length (b_values ht) = nb ht \<and>
     (b_hasKeys ht \<longrightarrow> length (b_keys ht) = nb ht \<and>
        (\<forall>i < nb ht. (b_keys ht ! i = 0 \<longleftrightarrow> b_values ht ! i = 0) \<and>
                     (b_keys ht ! i = SLOT_DELETED \<longleftrightarrow> b_values ht ! i = SLOT_DELETED))) \<and>
     (b_hasCounts ht \<longrightarrow> length (b_counts ht) = nb ht \<and> b_countsWidth ht \<le> 3 \<and>
        (\<forall>i < nb ht. b_counts ht ! i < count_limit (b_countsWidth ht) div 2 \<and> (held ht i \<longleftrightarrow> 0 < b_counts ht ! i))) \<and>
     (b_hasHashes ht \<longrightarrow> length (b_hashes ht) = nb ht) \<and>
     \<not> b_indirect ht \<and> sizes_ok (b_style ht) (b_idx ht)"

definition placed :: "hash_env \<Rightarrow> basic_hash \<Rightarrow> bool" where
  "placed E ht \<longleftrightarrow>
     (\<forall>i < nb ht. \<forall>k v c. slot_of ht i = Held k v c \<longrightarrow>
        reaches E ht k i \<and> (b_hasHashes ht \<longrightarrow> b_hashes ht ! i = key_code E (b_callbacks ht) k)) \<and>
     (\<forall>i < nb ht. \<forall>j < nb ht. \<forall>k v c k' v' c'.
        slot_of ht i = Held k v c \<longrightarrow> slot_of ht j = Held k' v' c' \<longrightarrow> same_key E (b_callbacks ht) k k' \<longrightarrow> i = j)"

definition held_slots :: "basic_hash \<Rightarrow> nat set" where
  "held_slots ht = {i. i < nb ht \<and> held ht i}"

definition gone_slots :: "basic_hash \<Rightarrow> nat set" where
  "gone_slots ht = {i. i < nb ht \<and> slot_of ht i = Gone}"

definition counters_ok :: "basic_hash \<Rightarrow> bool" where
  "counters_ok ht \<longleftrightarrow>
     b_used ht = card (held_slots ht) \<and> b_used ht \<le> CFBasicHashGetCapacity ht \<and>
     b_deleted ht = card (gone_slots ht) \<and> b_deleted ht < 2 ^ 16"

definition table_ok :: "hash_env \<Rightarrow> basic_hash \<Rightarrow> bool" where
  "table_ok E ht \<longleftrightarrow> lawful E (b_callbacks ht) (b_hasKeys ht) \<and> arrays_ok ht \<and> placed E ht \<and> counters_ok ht"

text \<open>What a table holds: its entries, and the entry of a key.\<close>

definition entries :: "basic_hash \<Rightarrow> (uintptr \<times> uintptr \<times> nat) set" where
  "entries ht = {(k, v, c). \<exists>i < nb ht. slot_of ht i = Held k v c}"

definition entry_of :: "hash_env \<Rightarrow> hash_callbacks \<Rightarrow> uintptr \<Rightarrow> slot \<Rightarrow> (uintptr \<times> uintptr \<times> nat) option" where
  "entry_of E cb k s = (case s of Held k' v c \<Rightarrow> if same_key E cb k' k then Some (k', v, c) else None | _ \<Rightarrow> None)"

fun first_entry :: "hash_env \<Rightarrow> hash_callbacks \<Rightarrow> uintptr \<Rightarrow> slot list \<Rightarrow> (uintptr \<times> uintptr \<times> nat) option" where
  "first_entry E cb k [] = None"
| "first_entry E cb k (s # ss) = (case entry_of E cb k s of None \<Rightarrow> first_entry E cb k ss | Some e \<Rightarrow> Some e)"

definition lookup :: "hash_env \<Rightarrow> basic_hash \<Rightarrow> uintptr \<Rightarrow> (uintptr \<times> uintptr \<times> nat) option" where
  "lookup E ht k = first_entry E (b_callbacks ht) k (map (slot_of ht) [0..<nb ht])"

lemma entry_of_Some: "entry_of E cb k s = Some (k', v, c) \<longleftrightarrow> s = Held k' v c \<and> same_key E cb k' k"
  by (auto simp: entry_of_def split: slot.splits)

lemma first_entry_SomeD: "first_entry E cb k ss = Some e \<Longrightarrow> \<exists>s \<in> set ss. entry_of E cb k s = Some e"
  by (induction ss) (auto split: option.splits)

lemma first_entry_NoneD: "first_entry E cb k ss = None \<Longrightarrow> s \<in> set ss \<Longrightarrow> entry_of E cb k s = None"
  by (induction ss) (auto split: option.splits)

lemma entriesI: "i < nb ht \<Longrightarrow> slot_of ht i = Held k v c \<Longrightarrow> (k, v, c) \<in> entries ht"
  by (auto simp: entries_def)

lemma arrays_lengths:
  "arrays_ok ht \<Longrightarrow> length (b_values ht) = nb ht"
  "arrays_ok ht \<Longrightarrow> b_hasKeys ht \<Longrightarrow> length (b_keys ht) = nb ht"
  "arrays_ok ht \<Longrightarrow> b_hasCounts ht \<Longrightarrow> length (b_counts ht) = nb ht"
  "arrays_ok ht \<Longrightarrow> b_hasHashes ht \<Longrightarrow> length (b_hashes ht) = nb ht"
  "arrays_ok ht \<Longrightarrow> \<not> b_indirect ht"
  "arrays_ok ht \<Longrightarrow> sizes_ok (b_style ht) (b_idx ht)"
  by (simp_all add: arrays_ok_def)

lemma cell_cases:
  assumes "arrays_ok ht" and "i < nb ht"
  shows "key_cells ht ! i = 0 \<longleftrightarrow> slot_of ht i = Free"
    and "key_cells ht ! i = SLOT_DELETED \<longleftrightarrow> slot_of ht i = Gone"
    and "i < length (key_cells ht)"
  using assms by (auto simp: arrays_ok_def key_cells_def slot_of_def Let_def SLOT_DELETED_def)

lemma held_count: "arrays_ok ht \<Longrightarrow> i < nb ht \<Longrightarrow> slot_of ht i = Held k v c \<Longrightarrow> 0 < c"
  by (auto simp: arrays_ok_def slot_of_def Let_def SLOT_DELETED_def split: if_splits)

lemma held_not_sub: "slot_of ht i = Held k v c \<Longrightarrow> \<not> is_sub k \<and> \<not> is_sub v"
  by (auto simp: slot_of_def Let_def split: if_splits)

lemma held_key_is_value: "slot_of ht i = Held k v c \<Longrightarrow> \<not> b_hasKeys ht \<Longrightarrow> k = v"
  by (auto simp: slot_of_def key_cells_def Let_def split: if_splits)

lemma entries_unique:
  assumes "placed E ht" and "(k, v, c) \<in> entries ht" and "(k', v', c') \<in> entries ht" and "same_key E (b_callbacks ht) k k'"
  shows "k = k' \<and> v = v' \<and> c = c'"
  using assms unfolding placed_def entries_def by fastforce

lemma lookup_SomeD:
  assumes "lookup E ht k = Some (k', v, c)"
  shows "(k', v, c) \<in> entries ht \<and> same_key E (b_callbacks ht) k' k"
  using first_entry_SomeD [OF assms [unfolded lookup_def]] by (force simp: entry_of_Some entries_def)

lemma lookup_NoneD:
  assumes "lookup E ht k = None" and "(k', v, c) \<in> entries ht"
  shows "\<not> same_key E (b_callbacks ht) k' k"
proof -
  obtain i where i: "i < nb ht" "slot_of ht i = Held k' v c" using assms(2) by (auto simp: entries_def)
  have "slot_of ht i \<in> set (map (slot_of ht) [0..<nb ht])" using i(1) by simp
  then have "entry_of E (b_callbacks ht) k (slot_of ht i) = None" by (rule first_entry_NoneD [OF assms(1) [unfolded lookup_def]])
  then show ?thesis using i by (simp add: entry_of_def split: if_splits)
qed

lemma lookup_None: "lookup E ht k = None \<longleftrightarrow> (\<forall>(k', v, c) \<in> entries ht. \<not> same_key E (b_callbacks ht) k' k)"
proof (cases "lookup E ht k")
  case (Some e)
  then show ?thesis using lookup_SomeD [of E ht k] by (cases e) auto
qed (use lookup_NoneD in auto)

lemma lookup_Some_iff:
  assumes "placed E ht" and "lawful E (b_callbacks ht) hk"
  shows "lookup E ht k = Some (k', v, c) \<longleftrightarrow> (k', v, c) \<in> entries ht \<and> same_key E (b_callbacks ht) k' k"
proof
  assume e: "(k', v, c) \<in> entries ht \<and> same_key E (b_callbacks ht) k' k"
  then have "lookup E ht k \<noteq> None" using lookup_NoneD by blast
  then obtain a b d where l: "lookup E ht k = Some (a, b, d)" by auto
  note s = lookup_SomeD [OF l]
  have "same_key E (b_callbacks ht) a k'" using s e lawful_sym [OF assms(2)] lawful_trans [OF assms(2)] by blast
  then show "lookup E ht k = Some (k', v, c)" using entries_unique [OF assms(1)] s e l by blast
qed (rule lookup_SomeD)

text \<open>Tables with the same entries answer alike.\<close>

lemma lookup_cong:
  assumes "placed E ht" "placed E ht'" "lawful E (b_callbacks ht) hk" "b_callbacks ht' = b_callbacks ht"
    and "entries ht' = entries ht"
  shows "lookup E ht' = lookup E ht"
proof
  fix k
  show "lookup E ht' k = lookup E ht k"
  proof (cases "lookup E ht k")
    case None
    then show ?thesis using assms(4,5) lookup_None [of E ht' k] lookup_None [of E ht k] by simp
  next
    case (Some e)
    obtain a b d where e: "e = (a, b, d)" by (cases e)
    then have "(a, b, d) \<in> entries ht \<and> same_key E (b_callbacks ht) a k" using Some lookup_SomeD by blast
    then have "lookup E ht' k = Some (a, b, d)" using assms lookup_Some_iff [of E ht' hk k a b d] by simp
    then show ?thesis using Some e by simp
  qed
qed

end
