(* ===== verification/BasicHashUpdates.thy ===== *)
theory BasicHashUpdates
  imports BasicHashSlots
begin

text \<open>Writing, emptying and recounting one slot: the effect on the slots, the invariant and the entries.\<close>

subsection \<open>Changes of the array of slots\<close>

text \<open>The fields the slots of a table and the searches in it depend on, apart from the slots.\<close>

definition same_settings :: "basic_hash \<Rightarrow> basic_hash \<Rightarrow> bool" where
  "same_settings ht' ht \<longleftrightarrow>
     b_callbacks ht' = b_callbacks ht \<and> b_hasKeys ht' = b_hasKeys ht \<and> b_hasCounts ht' = b_hasCounts ht \<and>
     b_hasHashes ht' = b_hasHashes ht \<and> b_style ht' = b_style ht \<and> b_indirect ht' = b_indirect ht \<and>
     b_idx ht' = b_idx ht"

lemma same_settingsD:
  assumes "same_settings ht' ht"
  shows "b_callbacks ht' = b_callbacks ht" "b_hasKeys ht' = b_hasKeys ht" "b_hasCounts ht' = b_hasCounts ht"
    "b_hasHashes ht' = b_hasHashes ht" "b_style ht' = b_style ht" "b_indirect ht' = b_indirect ht" "b_idx ht' = b_idx ht"
    "nb ht' = nb ht" "CFBasicHashGetCapacity ht' = CFBasicHashGetCapacity ht" "spot E ht' k = spot E ht k"
  using assms by (auto simp: same_settings_def CFBasicHashGetNumBuckets_def CFBasicHashGetCapacity_def spot_def fun_eq_iff)

text \<open>A change that leaves no slot free that was not.\<close>

lemma reaches_mono:
  assumes "same_settings ht' ht" and "reaches E ht k p"
    and "\<And>i. i < nb ht \<Longrightarrow> slot_of ht' i = Free \<Longrightarrow> slot_of ht i = Free" and "1 < nb ht"
  shows "reaches E ht' k p"
proof -
  have "spot E ht k j < nb ht" for j using assms(4) probe_at_less by (simp add: spot_def)
  then show ?thesis using assms by (auto simp: reaches_def same_settingsD [OF assms(1)])
qed

lemma reaches_cong:
  assumes "same_key E (b_callbacks ht) k k'" and "lawful E (b_callbacks ht) hk"
  shows "reaches E ht k p = reaches E ht k' p"
  using lawful_code [OF assms(2,1)] by (simp add: reaches_def spot_def)

lemma nb_gt_1: "arrays_ok ht \<Longrightarrow> 0 < nb ht \<Longrightarrow> 1 < nb ht"
proof -
  assume "arrays_ok ht" "0 < nb ht"
  moreover have "b_idx ht \<noteq> 0" using \<open>0 < nb ht\<close> by (intro notI) (simp add: CFBasicHashGetNumBuckets_def CFBasicHashTableSizes_def)
  ultimately show ?thesis using sizes_ok_good [of "b_style ht" "b_idx ht"]
    by (simp add: arrays_ok_def good_probes_def CFBasicHashGetNumBuckets_def)
qed

lemma card_replace:
  assumes "p < n" and "\<And>i. i < n \<Longrightarrow> i \<noteq> p \<Longrightarrow> P i = Q i"
  shows "card {i. i < n \<and> P i} + (if Q p then 1 else 0) = card {i. i < (n :: nat) \<and> Q i} + (if P p then 1 else 0)"
proof -
  let ?R = "{i. i < n \<and> i \<noteq> p \<and> Q i}"
  have fin: "finite ?R" and out: "p \<notin> ?R" by auto
  have "{i. i < n \<and> P i} = (if P p then insert p ?R else ?R)" "{i. i < n \<and> Q i} = (if Q p then insert p ?R else ?R)"
    using assms by auto
  then show ?thesis using fin out by simp
qed

lemma placed_unique:
  "placed E ht \<Longrightarrow> i < nb ht \<Longrightarrow> j < nb ht \<Longrightarrow> slot_of ht i = Held k v c \<Longrightarrow> slot_of ht j = Held k' v' c' \<Longrightarrow>
   same_key E (b_callbacks ht) k k' \<Longrightarrow> i = j"
  unfolding placed_def by blast

text \<open>The entries in the other slots.\<close>

definition entries_but :: "basic_hash \<Rightarrow> nat \<Rightarrow> (uintptr \<times> uintptr \<times> nat) set" where
  "entries_but ht p = {(k, v, c). \<exists>i < nb ht. i \<noteq> p \<and> slot_of ht i = Held k v c}"

definition slot_entries :: "slot \<Rightarrow> (uintptr \<times> uintptr \<times> nat) set" where
  "slot_entries s = (case s of Held k v c \<Rightarrow> {(k, v, c)} | _ \<Rightarrow> {})"

lemma slot_entries_simps [simp]:
  "slot_entries Free = {}" "slot_entries Gone = {}" "slot_entries (Held k v c) = {(k, v, c)}"
  by (simp_all add: slot_entries_def)

lemma entries_split: "p < nb ht \<Longrightarrow> entries ht = slot_entries (slot_of ht p) \<union> entries_but ht p"
  by (cases "slot_of ht p") (auto simp: entries_def entries_but_def)

lemma entries_update:
  assumes "nb ht' = nb ht" and "p < nb ht" and "slot_of ht' p = s"
    and "\<And>i. i < nb ht \<Longrightarrow> i \<noteq> p \<Longrightarrow> slot_of ht' i = slot_of ht i"
  shows "entries ht' = slot_entries s \<union> entries_but ht p"
proof -
  have "entries_but ht' p = entries_but ht p" using assms(1,4) by (auto simp: entries_but_def)
  then show ?thesis using entries_split [of p ht'] assms(1-3) by simp
qed

subsection \<open>Writing a slot\<close>

definition fill :: "basic_hash \<Rightarrow> nat \<Rightarrow> uintptr \<Rightarrow> uintptr \<Rightarrow> nat \<Rightarrow> uintptr \<Rightarrow> basic_hash" where
  "fill ht p k v c h =
     ht\<lparr>b_values := (b_values ht)[p := sub v],
        b_keys := (if b_hasKeys ht then (b_keys ht)[p := sub k] else b_keys ht),
        b_counts := (if b_hasCounts ht then (b_counts ht)[p := c] else b_counts ht),
        b_hashes := (if b_hasHashes ht then (b_hashes ht)[p := h] else b_hashes ht)\<rparr>"

lemma fill_settings [simp]: "same_settings (fill ht p k v c h) ht"
  by (simp add: same_settings_def fill_def)

lemma fill_fields [simp]:
  "b_values (fill ht p k v c h) = (b_values ht)[p := sub v]"
  "b_keys (fill ht p k v c h) = (if b_hasKeys ht then (b_keys ht)[p := sub k] else b_keys ht)"
  "b_counts (fill ht p k v c h) = (if b_hasCounts ht then (b_counts ht)[p := c] else b_counts ht)"
  "b_hashes (fill ht p k v c h) = (if b_hasHashes ht then (b_hashes ht)[p := h] else b_hashes ht)"
  "b_countsWidth (fill ht p k v c h) = b_countsWidth ht"
  "b_used (fill ht p k v c h) = b_used ht" "b_deleted (fill ht p k v c h) = b_deleted ht"
  "b_trace (fill ht p k v c h) = b_trace ht"
  by (simp_all add: fill_def)

lemmas fill_same [simp] = same_settingsD [OF fill_settings]

definition stored :: "basic_hash \<Rightarrow> uintptr \<Rightarrow> uintptr \<Rightarrow> nat \<Rightarrow> slot" where
  "stored ht k v c = Held (if b_hasKeys ht then k else v) v (if b_hasCounts ht then c else 1)"

lemma slot_fill:
  assumes "arrays_ok ht" and "p < nb ht" and "\<not> is_sub v" and "b_hasKeys ht \<Longrightarrow> \<not> is_sub k"
  shows "slot_of (fill ht p k v c h) i = (if i = p then stored ht k v c else slot_of ht i)"
  using assms by (auto simp: slot_of_def key_cells_def stored_def Let_def arrays_lengths nth_list_update)

lemma arrays_fill:
  assumes ok: "arrays_ok ht" and p: "p < nb ht" and v: "\<not> is_sub v" "b_hasKeys ht \<Longrightarrow> \<not> is_sub k"
    and c: "b_hasCounts ht \<Longrightarrow> 0 < c \<and> c < count_limit (b_countsWidth ht) div 2"
  shows "arrays_ok (fill ht p k v c h)"
proof -
  let ?ht' = "fill ht p k v c h"
  have slots: "slot_of ?ht' i = (if i = p then stored ht k v c else slot_of ht i)" for i by (rule slot_fill [OF ok p v])
  have "b_counts ?ht' ! i < count_limit (b_countsWidth ?ht') div 2 \<and> (held ?ht' i \<longleftrightarrow> 0 < b_counts ?ht' ! i)"
    if "i < nb ht" "b_hasCounts ht" for i
    using that ok p c by (cases "i = p") (simp_all add: slots stored_def arrays_ok_def)
  moreover have "(b_keys ?ht' ! i = 0 \<longleftrightarrow> b_values ?ht' ! i = 0) \<and>
      (b_keys ?ht' ! i = SLOT_DELETED \<longleftrightarrow> b_values ?ht' ! i = SLOT_DELETED)" if "i < nb ht" "b_hasKeys ht" for i
    using that ok p by (cases "i = p") (simp_all add: arrays_ok_def)
  ultimately show ?thesis using ok unfolding arrays_ok_def by simp
qed

lemma stored_key_same:
  assumes "lawful E (b_callbacks ht) (b_hasKeys ht)" "same_key E (b_callbacks ht) (if b_hasKeys ht then k' else v') k"
  shows "stored ht k' v' c = Held a b d \<Longrightarrow> same_key E (b_callbacks ht) a k"
  using assms(2) by (auto simp: stored_def split: if_splits)

lemma placed_fill:
  assumes ok: "arrays_ok ht" "placed E ht" and law: "lawful E (b_callbacks ht) (b_hasKeys ht)"
    and p: "p < nb ht" and v: "\<not> is_sub v'" "b_hasKeys ht \<Longrightarrow> \<not> is_sub k'"
    and key: "same_key E (b_callbacks ht) (if b_hasKeys ht then k' else v') k"
    and at: "reaches E ht k p" and h: "b_hasHashes ht \<Longrightarrow> h = key_code E (b_callbacks ht) k"
    and other: "\<And>i a b d. i < nb ht \<Longrightarrow> i \<noteq> p \<Longrightarrow> slot_of ht i = Held a b d \<Longrightarrow> \<not> same_key E (b_callbacks ht) a k"
  shows "placed E (fill ht p k' v' c h)"
proof -
  let ?ht' = "fill ht p k' v' c h"
  have slots: "slot_of ?ht' i = (if i = p then stored ht k' v' c else slot_of ht i)" for i by (rule slot_fill [OF ok(1) p v])
  have n: "1 < nb ht" using nb_gt_1 [OF ok(1)] p by simp
  have mono: "reaches E ht a i \<Longrightarrow> reaches E ?ht' a i" for a i
    by (rule reaches_mono [OF fill_settings _ _ n]) (auto simp: slots stored_def split: if_splits)
  have new: "same_key E (b_callbacks ht) a k" if "stored ht k' v' c = Held a b d" for a b d
    using that key by (auto simp: stored_def split: if_splits)
  have hash_at: "reaches E ?ht' a i \<and> (b_hasHashes ht \<longrightarrow> b_hashes ?ht' ! i = key_code E (b_callbacks ht) a)"
    if i: "i < nb ht" and s: "slot_of ?ht' i = Held a b d" for i a b d
  proof (cases "i = p")
    case True
    then have same: "same_key E (b_callbacks ht) a k" using s new by (simp add: slots)
    then have "reaches E ht a p" using at reaches_cong [OF same law] by simp
    moreover have "b_hasHashes ht \<Longrightarrow> b_hashes ?ht' ! p = h" using p ok(1) by (simp add: arrays_lengths)
    ultimately show ?thesis using True mono h lawful_code [OF law same] by simp
  next
    case False
    then have "slot_of ht i = Held a b d" using s by (simp add: slots)
    then have "reaches E ht a i \<and> (b_hasHashes ht \<longrightarrow> b_hashes ht ! i = key_code E (b_callbacks ht) a)"
      using ok(2) i by (simp add: placed_def)
    then show ?thesis using False mono by simp
  qed
  have "i = j" if ij: "i < nb ht" "j < nb ht" and s: "slot_of ?ht' i = Held a b d" "slot_of ?ht' j = Held a' b' d'"
      and same: "same_key E (b_callbacks ht) a a'" for i j a b d a' b' d'
  proof -
    consider "i = p" "j = p" | "i \<noteq> p" "j \<noteq> p" | "i = p" "j \<noteq> p" | "i \<noteq> p" "j = p" by blast
    then show ?thesis
    proof cases
      case 1
      then show ?thesis by simp
    next
      case 2
      then show ?thesis using placed_unique [OF ok(2) ij] s same by (simp add: slots)
    next
      case 3
      then have "same_key E (b_callbacks ht) a k" "slot_of ht j = Held a' b' d'" using s new by (simp_all add: slots)
      then show ?thesis using other ij(2) 3(2) same lawful_sym [OF law] lawful_trans [OF law] by blast
    next
      case 4
      then have "same_key E (b_callbacks ht) a' k" "slot_of ht i = Held a b d" using s new by (simp_all add: slots)
      then show ?thesis using other ij(1) 4(1) same lawful_trans [OF law] by blast
    qed
  qed
  then show ?thesis using hash_at unfolding placed_def fill_same by blast
qed

lemma entries_fill:
  assumes ok: "arrays_ok ht" and p: "p < nb ht" and v: "\<not> is_sub v" "b_hasKeys ht \<Longrightarrow> \<not> is_sub k"
  shows "entries (fill ht p k v c h) =
         insert (if b_hasKeys ht then k else v, v, if b_hasCounts ht then c else 1) (entries_but ht p)"
  by (subst entries_update [OF fill_same(8) p, of _ _ _ _ _ "stored ht k v c"])
    (simp_all add: slot_fill [OF ok p v] stored_def)

lemma held_fill:
  assumes ok: "arrays_ok ht" and p: "p < nb ht" and v: "\<not> is_sub v" "b_hasKeys ht \<Longrightarrow> \<not> is_sub k"
  shows "held_slots (fill ht p k v c h) = insert p (held_slots ht)"
    and "gone_slots (fill ht p k v c h) = gone_slots ht - {p}"
  using p by (auto simp: held_slots_def gone_slots_def slot_fill [OF ok p v] stored_def)

subsection \<open>Emptying a slot\<close>

definition clear :: "basic_hash \<Rightarrow> nat \<Rightarrow> basic_hash" where
  "clear ht p =
     ht\<lparr>b_values := (b_values ht)[p := SLOT_DELETED],
        b_keys := (if b_hasKeys ht then (b_keys ht)[p := SLOT_DELETED] else b_keys ht),
        b_counts := (if b_hasCounts ht then (b_counts ht)[p := 0] else b_counts ht),
        b_hashes := (if b_hasHashes ht then (b_hashes ht)[p := 0] else b_hashes ht)\<rparr>"

lemma clear_settings [simp]: "same_settings (clear ht p) ht"
  by (simp add: same_settings_def clear_def)

lemmas clear_same [simp] = same_settingsD [OF clear_settings]

lemma clear_fields [simp]:
  "b_values (clear ht p) = (b_values ht)[p := SLOT_DELETED]"
  "b_keys (clear ht p) = (if b_hasKeys ht then (b_keys ht)[p := SLOT_DELETED] else b_keys ht)"
  "b_counts (clear ht p) = (if b_hasCounts ht then (b_counts ht)[p := 0] else b_counts ht)"
  "b_hashes (clear ht p) = (if b_hasHashes ht then (b_hashes ht)[p := 0] else b_hashes ht)"
  "b_countsWidth (clear ht p) = b_countsWidth ht"
  "b_used (clear ht p) = b_used ht" "b_deleted (clear ht p) = b_deleted ht"
  "b_trace (clear ht p) = b_trace ht"
  by (simp_all add: clear_def)

lemma deleted_not_empty [simp]: "SLOT_DELETED \<noteq> 0"
  by (simp add: SLOT_DELETED_def)

lemma slot_clear:
  assumes "arrays_ok ht" and "p < nb ht"
  shows "slot_of (clear ht p) i = (if i = p then Gone else slot_of ht i)"
  using assms by (auto simp: slot_of_def key_cells_def Let_def arrays_lengths nth_list_update)

lemma arrays_clear:
  assumes ok: "arrays_ok ht" and p: "p < nb ht"
  shows "arrays_ok (clear ht p)"
proof -
  let ?ht' = "clear ht p"
  have slots: "slot_of ?ht' i = (if i = p then Gone else slot_of ht i)" for i by (rule slot_clear [OF ok p])
  have "b_counts ?ht' ! i < count_limit (b_countsWidth ?ht') div 2 \<and> (held ?ht' i \<longleftrightarrow> 0 < b_counts ?ht' ! i)"
    if "i < nb ht" "b_hasCounts ht" for i
    using that ok p by (cases "i = p") (auto simp add: slots arrays_ok_def)
  moreover have "(b_keys ?ht' ! i = 0 \<longleftrightarrow> b_values ?ht' ! i = 0) \<and>
      (b_keys ?ht' ! i = SLOT_DELETED \<longleftrightarrow> b_values ?ht' ! i = SLOT_DELETED)" if "i < nb ht" "b_hasKeys ht" for i
    using that ok p by (cases "i = p") (simp_all add: arrays_ok_def)
  ultimately show ?thesis using ok unfolding arrays_ok_def by simp
qed

lemma placed_clear:
  assumes ok: "arrays_ok ht" "placed E ht" and p: "p < nb ht"
  shows "placed E (clear ht p)"
proof -
  let ?ht' = "clear ht p"
  have slots: "slot_of ?ht' i = (if i = p then Gone else slot_of ht i)" for i by (rule slot_clear [OF ok(1) p])
  have n: "1 < nb ht" using nb_gt_1 [OF ok(1)] p by simp
  have mono: "reaches E ht a i \<Longrightarrow> reaches E ?ht' a i" for a i
    by (rule reaches_mono [OF clear_settings _ _ n]) (auto simp: slots split: if_splits)
  have "reaches E ?ht' a i \<and> (b_hasHashes ht \<longrightarrow> b_hashes ?ht' ! i = key_code E (b_callbacks ht) a)"
    if i: "i < nb ht" and s: "slot_of ?ht' i = Held a b d" for i a b d
  proof -
    have ip: "i \<noteq> p" and "slot_of ht i = Held a b d" using s by (auto simp: slots split: if_splits)
    then have "reaches E ht a i \<and> (b_hasHashes ht \<longrightarrow> b_hashes ht ! i = key_code E (b_callbacks ht) a)"
      using ok(2) i by (simp add: placed_def)
    then show ?thesis using ip mono by simp
  qed
  moreover have "i = j" if "i < nb ht" "j < nb ht" "slot_of ?ht' i = Held a b d" "slot_of ?ht' j = Held a' b' d'"
      "same_key E (b_callbacks ht) a a'" for i j a b d a' b' d'
  proof -
    have "slot_of ht i = Held a b d" "slot_of ht j = Held a' b' d'" using that(3,4) by (auto simp: slots split: if_splits)
    then show ?thesis using placed_unique [OF ok(2) that(1,2)] that(5) by blast
  qed
  ultimately show ?thesis unfolding placed_def clear_same by blast
qed

lemma entries_clear:
  assumes ok: "arrays_ok ht" and p: "p < nb ht"
  shows "entries (clear ht p) = entries_but ht p"
  by (subst entries_update [OF clear_same(8) p, of _ Gone]) (simp_all add: slot_clear [OF ok p])

lemma held_clear:
  assumes ok: "arrays_ok ht" and p: "p < nb ht"
  shows "held_slots (clear ht p) = held_slots ht - {p}"
    and "gone_slots (clear ht p) = insert p (gone_slots ht)"
  using p by (auto simp: held_slots_def gone_slots_def slot_clear [OF ok p])

subsection \<open>Changing a count\<close>

definition recount :: "basic_hash \<Rightarrow> nat \<Rightarrow> nat \<Rightarrow> nat \<Rightarrow> basic_hash" where
  "recount ht p c w = ht\<lparr>b_counts := (b_counts ht)[p := c], b_countsWidth := w\<rparr>"

lemma recount_settings [simp]: "same_settings (recount ht p c w) ht"
  by (simp add: same_settings_def recount_def)

lemmas recount_same [simp] = same_settingsD [OF recount_settings]

lemma recount_fields [simp]:
  "b_values (recount ht p c w) = b_values ht" "b_keys (recount ht p c w) = b_keys ht"
  "b_counts (recount ht p c w) = (b_counts ht)[p := c]" "b_hashes (recount ht p c w) = b_hashes ht"
  "b_countsWidth (recount ht p c w) = w" "b_used (recount ht p c w) = b_used ht"
  "b_deleted (recount ht p c w) = b_deleted ht" "b_trace (recount ht p c w) = b_trace ht"
  by (simp_all add: recount_def)

lemma slot_recount:
  assumes "arrays_ok ht" and "p < nb ht" and "b_hasCounts ht" and "slot_of ht p = Held k v d"
  shows "slot_of (recount ht p c w) i = (if i = p then Held k v c else slot_of ht i)"
  using assms by (auto simp: slot_of_def key_cells_def Let_def arrays_lengths split: if_splits)

lemma count_limit_mono: "w \<le> w' \<Longrightarrow> count_limit w div 2 \<le> count_limit w' div 2"
  by (simp add: count_limit_def div_le_mono)

lemma arrays_recount:
  assumes ok: "arrays_ok ht" and p: "p < nb ht" "b_hasCounts ht" "slot_of ht p = Held k v d"
    and c: "0 < c" "c < count_limit w div 2" "b_countsWidth ht \<le> w" "w \<le> 3"
  shows "arrays_ok (recount ht p c w)"
proof -
  let ?ht' = "recount ht p c w"
  have slots: "slot_of ?ht' i = (if i = p then Held k v c else slot_of ht i)" for i by (rule slot_recount [OF ok p])
  have "b_counts ?ht' ! i < count_limit (b_countsWidth ?ht') div 2 \<and> (held ?ht' i \<longleftrightarrow> 0 < b_counts ?ht' ! i)"
    if i: "i < nb ht" for i
  proof (cases "i = p")
    case False
    have old: "b_counts ht ! i < count_limit (b_countsWidth ht) div 2" "held ht i \<longleftrightarrow> 0 < b_counts ht ! i"
      using ok i p(2) by (simp_all add: arrays_ok_def)
    then show ?thesis using False count_limit_mono [OF c(3)] by (simp add: slots)
  qed (use c i ok p in \<open>simp add: slots arrays_lengths\<close>)
  then show ?thesis using ok c p(2) unfolding arrays_ok_def by simp
qed

lemma placed_recount:
  assumes ok: "arrays_ok ht" "placed E ht" and p: "p < nb ht" "b_hasCounts ht" "slot_of ht p = Held k v d"
  shows "placed E (recount ht p c w)"
proof -
  let ?ht' = "recount ht p c w"
  have slots: "slot_of ?ht' i = (if i = p then Held k v c else slot_of ht i)" for i by (rule slot_recount [OF ok(1) p])
  have n: "1 < nb ht" using nb_gt_1 [OF ok(1)] p by simp
  have mono: "reaches E ht a i \<Longrightarrow> reaches E ?ht' a i" for a i
    by (rule reaches_mono [OF recount_settings _ _ n]) (auto simp: slots split: if_splits)
  have old: "\<exists>d'. slot_of ht i = Held a b d'" if "slot_of ?ht' i = Held a b d''" for i a b d''
    using that p(3) by (auto simp: slots split: if_splits)
  have "reaches E ?ht' a i \<and> (b_hasHashes ht \<longrightarrow> b_hashes ?ht' ! i = key_code E (b_callbacks ht) a)"
    if "i < nb ht" and s: "slot_of ?ht' i = Held a b d" for i a b d
    using old [OF s] that(1) ok(2) mono by (auto simp: placed_def)
  moreover have "i = j" if "i < nb ht" "j < nb ht" "slot_of ?ht' i = Held a b d" "slot_of ?ht' j = Held a' b' d'"
      "same_key E (b_callbacks ht) a a'" for i j a b d a' b' d'
    using old [OF that(3)] old [OF that(4)] that(1,2,5) ok(2) unfolding placed_def by blast
  ultimately show ?thesis unfolding placed_def recount_same by simp
qed

lemma entries_recount:
  assumes ok: "arrays_ok ht" and p: "p < nb ht" "b_hasCounts ht" "slot_of ht p = Held k v d"
  shows "entries (recount ht p c w) = insert (k, v, c) (entries_but ht p)"
  by (subst entries_update [OF recount_same(8) p(1), of _ _ _ "Held k v c"]) (simp_all add: slot_recount [OF ok p])

lemma held_recount:
  assumes ok: "arrays_ok ht" and p: "p < nb ht" "b_hasCounts ht" "slot_of ht p = Held k v d"
  shows "held_slots (recount ht p c w) = held_slots ht" and "gone_slots (recount ht p c w) = gone_slots ht"
  using p by (auto simp: held_slots_def gone_slots_def slot_recount [OF ok p])

subsection \<open>The other entries\<close>

definition other_entries :: "hash_env \<Rightarrow> basic_hash \<Rightarrow> uintptr \<Rightarrow> (uintptr \<times> uintptr \<times> nat) set" where
  "other_entries E ht k = {(k', v, c). (k', v, c) \<in> entries ht \<and> \<not> same_key E (b_callbacks ht) k' k}"

lemma entries_but_held:
  assumes "placed E ht" "lawful E (b_callbacks ht) hk" "p < nb ht" "slot_of ht p = Held k' v c" "same_key E (b_callbacks ht) k' k"
  shows "entries_but ht p = other_entries E ht k"
proof -
  have "i = p" if i: "i < nb ht" "slot_of ht i = Held a b d" "same_key E (b_callbacks ht) a k" for i a b d
  proof -
    have "same_key E (b_callbacks ht) a k'" using lawful_trans [OF assms(2) i(3)] lawful_sym [OF assms(2,5)] by blast
    then show ?thesis by (rule placed_unique [OF assms(1) i(1) assms(3) i(2) assms(4)])
  qed
  then have "(\<exists>i < nb ht. i \<noteq> p \<and> slot_of ht i = Held a b d) \<longleftrightarrow>
      (\<exists>i < nb ht. slot_of ht i = Held a b d) \<and> \<not> same_key E (b_callbacks ht) a k" for a b d
    using assms(4,5) by (metis slot.inject)
  then show ?thesis by (simp add: entries_but_def other_entries_def entries_def)
qed

lemma entries_but_free: "p < nb ht \<Longrightarrow> \<not> held ht p \<Longrightarrow> entries_but ht p = entries ht"
  using entries_split [of p ht] by auto

end
