(* ===== verification/BasicHashFind.thy ===== *)
theory BasicHashFind
  imports BasicHashUpdates
begin

text \<open>The searches of \<^verbatim>\<open>CFBasicHashFindBucket.m\<close>: what they return, in terms of the slots.\<close>

definition stage :: "hash_env \<Rightarrow> basic_hash \<Rightarrow> uintptr \<Rightarrow> nat \<Rightarrow> nat \<times> nat" where
  "stage E ht k j =
     probe_state (b_style ht) (nb ht) (CFBasicHashPrimitiveRoots ! b_idx ht) (unat (key_code E (b_callbacks ht) k)) j"

lemma fst_stage [simp]: "fst (stage E ht k j) = spot E ht k j"
  by (simp add: stage_def spot_def probe_state_def)

lemma table_probes: "arrays_ok ht \<Longrightarrow> 0 < nb ht \<Longrightarrow> good_probes (b_style ht) (b_idx ht)"
  using sizes_ok_good [of "b_style ht" "b_idx ht"]
  by (cases "b_idx ht") (simp_all add: arrays_ok_def CFBasicHashGetNumBuckets_def CFBasicHashTableSizes_def)

lemma next_stage:
  "arrays_ok ht \<Longrightarrow> 0 < nb ht \<Longrightarrow>
   next_probe (b_style ht) (nb ht) (CFBasicHashPrimitiveRoots ! b_idx ht) (unat (key_code E (b_callbacks ht) k)) (stage E ht k j) =
   stage E ht k (Suc j)"
  using table_probes [of ht] by (simp add: stage_def good_probes_def CFBasicHashGetNumBuckets_def probe_state_next)

lemma first_stage:
  "arrays_ok ht \<Longrightarrow> 0 < nb ht \<Longrightarrow> first_probe ht (key_code E (b_callbacks ht) k) = stage E ht k 0"
  using table_probes [of ht]
    probe_iterate [where n = "nb ht" and style = "b_style ht" and pr = "CFBasicHashPrimitiveRoots ! b_idx ht" and
        hc = "unat (key_code E (b_callbacks ht) k)" and i = 0]
  by (simp add: stage_def good_probes_def CFBasicHashGetNumBuckets_def first_probe_def)

lemma spot_less: "arrays_ok ht \<Longrightarrow> 0 < nb ht \<Longrightarrow> spot E ht k j < nb ht"
  using nb_gt_1 [of ht] by (simp add: spot_def probe_at_less)

lemma spot_covers:
  assumes "arrays_ok ht" and "p < nb ht"
  shows "\<exists>j < nb ht. spot E ht k j = p"
proof -
  have "visits_all (b_style ht) (nb ht) (CFBasicHashPrimitiveRoots ! b_idx ht)"
    using table_probes [OF assms(1)] assms(2) by (simp add: good_probes_def CFBasicHashGetNumBuckets_def)
  then have "spot E ht k ` {..<nb ht} = {..<nb ht}" unfolding visits_all_def spot_def by blast
  then have "p \<in> spot E ht k ` {..<nb ht}" using assms(2) by simp
  then show ?thesis by auto
qed

subsection \<open>Searching for a key\<close>

lemma find_step:
  assumes ok: "arrays_ok ht" "placed E ht" and law: "lawful E (b_callbacks ht) hk" and n: "0 < nb ht"
  shows "find_loop E ht (key_code E (b_callbacks ht) k) k (Suc f) (stage E ht k j) d =
    (let p = spot E ht k j; d' = (if d = kCFNotFound then int p else d) in
     case slot_of ht p of
       Free \<Rightarrow> Some (no_bucket d')
     | Gone \<Rightarrow> find_loop E ht (key_code E (b_callbacks ht) k) k f (stage E ht k (Suc j)) d'
     | Held k' v c \<Rightarrow>
         if same_key E (b_callbacks ht) k' k then Some \<lparr>bk_idx = int p, bk_key = k', bk_value = v, bk_count = c\<rparr>
         else find_loop E ht (key_code E (b_callbacks ht) k) k f (stage E ht k (Suc j)) d)"
proof -
  let ?p = "spot E ht k j" and ?code = "key_code E (b_callbacks ht) k"
  have p: "?p < nb ht" by (rule spot_less [OF ok(1) n])
  note cell = cell_cases [OF ok(1) p]
  note nx = next_stage [OF ok(1) n, of E k j]
  show ?thesis
  proof (cases "slot_of ht ?p")
    case Free
    then show ?thesis using cell by (simp add: Let_def)
  next
    case Gone
    then show ?thesis using cell nx by (simp add: Let_def hash_key)
  next
    case (Held k' v c)
    have key: "coll_key E ht (key_cells ht ! ?p) = k'" and val: "CFBasicHashGetValue ht ?p = Some v"
      using Held p ok(1) by (auto simp: coll_key_def slot_of_def Let_def arrays_lengths CFBasicHashGetValue_def split: if_splits)
    have count: "b_hasCounts ht \<Longrightarrow> CFBasicHashGetSlotCount ht ?p = Some c" "\<not> b_hasCounts ht \<Longrightarrow> c = 1"
      using Held p ok(1) by (auto simp: CFBasicHashGetSlotCount_def slot_of_def Let_def arrays_lengths split: if_splits)
    have hash: "b_hasHashes ht \<longrightarrow> b_hashes ht ! ?p = key_code E (b_callbacks ht) k'"
      using ok(2) p Held unfolding placed_def by blast
    have hit: "key_hit E ht ?code k ?p k' = Some (same_key E (b_callbacks ht) k' k)"
      using hash p ok(1) test_equal_key [of k' k E ht] lawful_code [OF law, of k' k]
      by (auto simp: key_hit_def arrays_lengths)
    show ?thesis using Held cell nx by (simp add: Let_def key val count hit)
  qed
qed

declare find_loop.simps(2) [simp del]

lemma find_hit:
  assumes ok: "arrays_ok ht" "placed E ht" and law: "lawful E (b_callbacks ht) hk"
    and p: "p < nb ht" "slot_of ht p = Held k' v c" and same: "same_key E (b_callbacks ht) k' k"
    and m: "spot E ht k m = p" "\<forall>j < m. slot_of ht (spot E ht k j) \<noteq> Free" and j: "j \<le> m" "m < j + f"
  shows "find_loop E ht (key_code E (b_callbacks ht) k) k f (stage E ht k j) d =
    Some \<lparr>bk_idx = int p, bk_key = k', bk_value = v, bk_count = c\<rparr>"
  using j
proof (induction f arbitrary: j d)
  case (Suc f)
  have n: "0 < nb ht" using p(1) by simp
  show ?case
  proof (cases "j = m")
    case True
    then show ?thesis using p(2) m(1) same by (simp add: find_step [OF ok law n] Let_def)
  next
    case False
    then have IH: "find_loop E ht (key_code E (b_callbacks ht) k) k f (stage E ht k (Suc j)) d =
        Some \<lparr>bk_idx = int p, bk_key = k', bk_value = v, bk_count = c\<rparr>" for d using Suc by simp
    show ?thesis
    proof (cases "slot_of ht (spot E ht k j)")
      case Free
      then show ?thesis using m(2) False Suc.prems by simp
    next
      case Gone
      then show ?thesis using IH by (simp add: find_step [OF ok law n] Let_def)
    next
      case (Held a b e)
      show ?thesis
      proof (cases "same_key E (b_callbacks ht) a k")
        case True
        then have "same_key E (b_callbacks ht) a k'" using same lawful_sym [OF law] lawful_trans [OF law] by blast
        then have "spot E ht k j = p" using placed_unique [OF ok(2) _ p(1) Held p(2)] spot_less [OF ok(1) n] by blast
        then show ?thesis using Held p(2) same by (simp add: find_step [OF ok law n] Let_def)
      qed (use Held IH in \<open>simp add: find_step [OF ok law n] Let_def\<close>)
    qed
  qed
qed simp

text \<open>The first bucket of the sequence that is not in use.\<close>

definition vacancy :: "hash_env \<Rightarrow> basic_hash \<Rightarrow> uintptr \<Rightarrow> nat list \<Rightarrow> int" where
  "vacancy E ht k js =
     (case List.find (\<lambda>j. \<not> held ht (spot E ht k j)) js of None \<Rightarrow> kCFNotFound | Some j \<Rightarrow> int (spot E ht k j))"

lemma vacancy_Cons: "vacancy E ht k (j # js) = (if held ht (spot E ht k j) then vacancy E ht k js else int (spot E ht k j))"
  by (simp add: vacancy_def)

lemma find_miss:
  assumes ok: "arrays_ok ht" "placed E ht" and law: "lawful E (b_callbacks ht) hk" and n: "0 < nb ht"
    and none: "\<And>i a b e. i < nb ht \<Longrightarrow> slot_of ht i = Held a b e \<Longrightarrow> \<not> same_key E (b_callbacks ht) a k"
  shows "find_loop E ht (key_code E (b_callbacks ht) k) k f (stage E ht k j) d =
    Some (no_bucket (if d = kCFNotFound then vacancy E ht k [j..<j + f] else d))"
proof (induction f arbitrary: j d)
  case 0
  show ?case by (simp add: vacancy_def)
next
  case (Suc f)
  have range: "[j..<Suc (j + f)] = j # [Suc j..<Suc (j + f)]" by (simp add: upt_rec)
  note step = find_step [OF ok law n] Let_def range vacancy_Cons
  show ?case
  proof (cases "slot_of ht (spot E ht k j)")
    case Free
    then show ?thesis by (simp add: step del: upt_Suc)
  next
    case Gone
    then show ?thesis using Suc [of "Suc j"] by (simp add: step kCFNotFound_def del: upt_Suc)
  next
    case (Held a b e)
    then have "\<not> same_key E (b_callbacks ht) a k" using none spot_less [OF ok(1) n] by blast
    then show ?thesis using Held Suc [of "Suc j"] by (simp add: step del: upt_Suc)
  qed
qed

lemma empty_table: "b_idx ht = 0 \<Longrightarrow> nb ht = 0"
  by (simp add: CFBasicHashGetNumBuckets_def CFBasicHashTableSizes_def)

lemma used_table: "arrays_ok ht \<Longrightarrow> b_idx ht \<noteq> 0 \<Longrightarrow> 0 < nb ht"
  using sizes_ok_good [of "b_style ht" "b_idx ht"] by (simp add: arrays_ok_def good_probes_def CFBasicHashGetNumBuckets_def)

lemma style_ok: "arrays_ok ht \<Longrightarrow> b_style ht \<in> {1, 2, 3}"
  by (auto simp: arrays_ok_def sizes_ok_def)

text \<open>The two outcomes of a search.\<close>

lemma FindBucket_held:
  assumes ok: "arrays_ok ht" "placed E ht" and law: "lawful E (b_callbacks ht) hk"
    and p: "p < nb ht" "slot_of ht p = Held k' v c" and same: "same_key E (b_callbacks ht) k' k"
  shows "FindBucket E ht k = Some \<lparr>bk_idx = int p, bk_key = k', bk_value = v, bk_count = c\<rparr>"
proof -
  have n: "0 < nb ht" and idx: "b_idx ht \<noteq> 0" using p(1) empty_table [of ht] by (auto intro: Nat.gr0I)
  have "reaches E ht k' p" using ok(2) p unfolding placed_def by blast
  then have "reaches E ht k p" using reaches_cong [OF same law] by simp
  then obtain m where m: "m < nb ht" "spot E ht k m = p" "\<forall>j < m. slot_of ht (spot E ht k j) \<noteq> Free"
    by (auto simp: reaches_def)
  show ?thesis using find_hit [OF ok law p same m(2,3), where j = 0 and f = "nb ht" and d = kCFNotFound] m(1) idx style_ok [OF ok(1)]
    by (simp add: FindBucket_def hash_key first_stage [OF ok(1) n])
qed

lemma FindBucket_vacant:
  assumes ok: "arrays_ok ht" "placed E ht" and law: "lawful E (b_callbacks ht) hk"
    and none: "\<And>i a b e. i < nb ht \<Longrightarrow> slot_of ht i = Held a b e \<Longrightarrow> \<not> same_key E (b_callbacks ht) a k"
  shows "\<exists>x. FindBucket E ht k = Some (no_bucket x) \<and>
    (x = kCFNotFound \<and> (\<forall>i < nb ht. held ht i) \<or> (\<exists>p < nb ht. x = int p \<and> \<not> held ht p \<and> reaches E ht k p))"
proof (cases "b_idx ht = 0")
  case True
  then show ?thesis using empty_table [of ht] by (auto simp: FindBucket_def)
next
  case False
  note n = used_table [OF ok(1) False]
  have find: "FindBucket E ht k = Some (no_bucket (vacancy E ht k [0..<nb ht]))"
    using False style_ok [OF ok(1)] find_miss [OF ok law n none, where f = "nb ht" and j = 0 and d = kCFNotFound]
    by (simp add: FindBucket_def hash_key first_stage [OF ok(1) n])
  show ?thesis
  proof (cases "List.find (\<lambda>j. \<not> held ht (spot E ht k j)) [0..<nb ht]")
    case None
    then have all: "\<forall>j < nb ht. held ht (spot E ht k j)" by (simp add: find_None_iff)
    have "held ht i" if "i < nb ht" for i using spot_covers [OF ok(1) that, of E k] all by auto
    then show ?thesis using find None by (intro exI [of _ kCFNotFound]) (simp add: vacancy_def)
  next
    case (Some j)
    then obtain i where i: "i < nb ht" "j = i" "\<not> held ht (spot E ht k j)" "\<forall>l < i. held ht (spot E ht k l)"
      by (auto simp: find_Some_iff)
    then have "reaches E ht k (spot E ht k j)" unfolding reaches_def by blast
    then show ?thesis using find Some i spot_less [OF ok(1) n] by (auto simp: vacancy_def)
  qed
qed

subsection \<open>Searching for a free bucket\<close>

lemma free_step:
  assumes ok: "arrays_ok ht" and n: "0 < nb ht"
  shows "free_loop ht (key_code E (b_callbacks ht) k) (Suc f) (stage E ht k j) =
    (if slot_of ht (spot E ht k j) = Free then Some (int (spot E ht k j))
     else free_loop ht (key_code E (b_callbacks ht) k) f (stage E ht k (Suc j)))"
  using cell_cases [OF ok spot_less [OF ok n, of E k j]] next_stage [OF ok n, of E k j] by simp

declare free_loop.simps(2) [simp del]

lemma free_found:
  assumes ok: "arrays_ok ht" and n: "0 < nb ht"
    and m: "slot_of ht (spot E ht k m) = Free" "\<forall>j < m. slot_of ht (spot E ht k j) \<noteq> Free" and j: "j \<le> m" "m < j + f"
  shows "free_loop ht (key_code E (b_callbacks ht) k) f (stage E ht k j) = Some (int (spot E ht k m))"
  using j
proof (induction f arbitrary: j)
  case (Suc f)
  then show ?case using m Suc.IH [of "Suc j"] by (cases "j = m") (simp_all add: free_step [OF ok n])
qed simp

lemma FindBucket_NoCollision_free:
  assumes ok: "arrays_ok ht" and free: "q < nb ht" "slot_of ht q = Free"
    and code: "h = 0 \<or> h = key_code E (b_callbacks ht) k"
  shows "\<exists>p < nb ht. FindBucket_NoCollision E ht k h = Some (int p) \<and> slot_of ht p = Free \<and> reaches E ht k p"
proof -
  have n: "0 < nb ht" and idx: "b_idx ht \<noteq> 0" using free(1) empty_table [of ht] by (auto intro: Nat.gr0I)
  obtain m0 where "m0 < nb ht" "spot E ht k m0 = q" using spot_covers [OF ok free(1)] by blast
  then have ex: "slot_of ht (spot E ht k m0) = Free" "m0 < nb ht" using free by simp_all
  define m where "m = (LEAST m. slot_of ht (spot E ht k m) = Free)"
  have m: "slot_of ht (spot E ht k m) = Free" "m \<le> m0" unfolding m_def using ex(1) by (auto intro: LeastI Least_le)
  have before: "\<forall>j < m. slot_of ht (spot E ht k j) \<noteq> Free" unfolding m_def using not_less_Least by blast
  have "m < nb ht" using m(2) ex(2) by simp
  then have "reaches E ht k (spot E ht k m)" using before unfolding reaches_def by blast
  moreover have "(if h \<noteq> 0 then h else CFBasicHashHashKey E ht k) = key_code E (b_callbacks ht) k"
    using code by (auto simp: hash_key)
  then have "FindBucket_NoCollision E ht k h = Some (int (spot E ht k m))"
    using idx style_ok [OF ok] free_found [OF ok n m(1) before, where j = 0 and f = "nb ht"] m(2) ex(2)
    by (simp add: FindBucket_NoCollision_def first_stage [OF ok n])
  ultimately show ?thesis using m(1) spot_less [OF ok n] by blast
qed

end
