(* ===== verification/BasicHashRehash.thy ===== *)
theory BasicHashRehash
  imports BasicHashFind
begin

text \<open>Rehashing keeps the entries and rids the table of deleted slots.\<close>

subsection \<open>Loops and sizes\<close>

lemma run_loop_invariant:
  assumes "P 0 s" and "\<And>j s. j < n \<Longrightarrow> P j s \<Longrightarrow> \<exists>s'. f j s = Some s' \<and> P (Suc j) s'"
  shows "\<exists>s'. run_loop_over f [0..<n] s = Some s' \<and> P n s'"
proof -
  have "\<exists>s'. run_loop_over f [j..<j + m] s = Some s' \<and> P (j + m) s'" if "P j s" "j + m \<le> n" for j m s
    using that
  proof (induction m arbitrary: j s)
    case (Suc m)
    then obtain s' where s': "f j s = Some s'" "P (Suc j) s'" using assms(2) [of j s] by auto
    have "\<exists>t. run_loop_over f [Suc j..<Suc (j + m)] s' = Some t \<and> P (Suc (j + m)) t"
      using Suc.IH [of "Suc j" s'] Suc.prems s'(2) by (simp del: upt_Suc)
    moreover have "[j..<Suc (j + m)] = j # [Suc j..<Suc (j + m)]" by (simp add: upt_rec)
    ultimately show ?case using s'(1) by (simp del: upt_Suc)
  qed simp
  from this [of 0 s n] show ?thesis using assms(1) by simp
qed

lemma capacity_le_size:
  "idx < 64 \<Longrightarrow> CFBasicHashGetCapacityForNumBuckets idx \<le> CFBasicHashTableSizes ! idx"
proof -
  assume "idx < 64"
  then have "idx \<in> set [0..<64]" by simp
  moreover have "list_all (\<lambda>i. CFBasicHashTableCapacities ! i \<le> CFBasicHashTableSizes ! i) [0..<64]"
    by (simp add: CFBasicHashTableSizes_def CFBasicHashTableCapacities_def upt_rec)
  ultimately show ?thesis by (simp add: list_all_iff CFBasicHashGetCapacityForNumBuckets_def)
qed

lemma capacities_increase:
  "idx \<le> 44 \<Longrightarrow> j < idx \<Longrightarrow> CFBasicHashGetCapacityForNumBuckets j < CFBasicHashGetCapacityForNumBuckets idx"
proof -
  have "list_all (\<lambda>i. CFBasicHashTableCapacities ! i < CFBasicHashTableCapacities ! Suc i) [0..<44]"
    by (simp add: CFBasicHashTableCapacities_def upt_rec)
  then have step: "CFBasicHashTableCapacities ! i < CFBasicHashTableCapacities ! Suc i" if "i < 44" for i
    using that by (simp add: list_all_iff)
  assume "idx \<le> 44" "j < idx"
  then show ?thesis unfolding CFBasicHashGetCapacityForNumBuckets_def
  proof (induction idx)
    case (Suc idx)
    then show ?case using step [of idx] by (cases "j = idx") auto
  qed simp
qed

lemma index_for_capacity:
  assumes "CFBasicHashGetNumBucketsIndexForCapacity c = Some idx"
  shows "c \<le> CFBasicHashGetCapacityForNumBuckets idx" "idx < 64" "j < idx \<Longrightarrow> CFBasicHashGetCapacityForNumBuckets j < c"
  using assms unfolding CFBasicHashGetNumBucketsIndexForCapacity_def find_Some_iff by auto

lemma index_exists:
  assumes "c \<le> CFBasicHashGetCapacityForNumBuckets j" and "j < 64"
  shows "\<exists>idx \<le> j. CFBasicHashGetNumBucketsIndexForCapacity c = Some idx"
proof (cases "CFBasicHashGetNumBucketsIndexForCapacity c")
  case None
  then show ?thesis using assms by (auto simp: CFBasicHashGetNumBucketsIndexForCapacity_def find_None_iff)
next
  case (Some idx)
  have "idx \<le> j" using index_for_capacity(3) [OF Some, of j] assms(1) by (cases "j < idx") auto
  then show ?thesis using Some by blast
qed

subsection \<open>Storing\<close>

text \<open>Everything but the arrays.\<close>

definition rest :: "basic_hash \<Rightarrow> basic_hash" where
  "rest ht = ht\<lparr>b_values := [], b_keys := [], b_counts := [], b_hashes := []\<rparr>"

lemma rest_fill [simp]: "rest (fill ht p k v c h) = rest ht"
  by (simp add: rest_def fill_def)

lemma restD:
  assumes "rest ht' = rest ht"
  shows "b_callbacks ht' = b_callbacks ht" "b_hasKeys ht' = b_hasKeys ht" "b_hasCounts ht' = b_hasCounts ht"
    "b_hasHashes ht' = b_hasHashes ht" "b_style ht' = b_style ht" "b_indirect ht' = b_indirect ht" "b_idx ht' = b_idx ht"
    "b_countsWidth ht' = b_countsWidth ht" "b_used ht' = b_used ht" "b_deleted ht' = b_deleted ht" "b_trace ht' = b_trace ht"
    "b_mutable ht' = b_mutable ht" "b_nullRC ht' = b_nullRC ht" "b_fastGrow ht' = b_fastGrow ht"
    "b_mutations ht' = b_mutations ht" "b_finalized ht' = b_finalized ht"
  using arg_cong [OF assms, of b_callbacks] arg_cong [OF assms, of b_hasKeys] arg_cong [OF assms, of b_hasCounts]
    arg_cong [OF assms, of b_hasHashes] arg_cong [OF assms, of b_style] arg_cong [OF assms, of b_indirect]
    arg_cong [OF assms, of b_idx] arg_cong [OF assms, of b_countsWidth] arg_cong [OF assms, of b_used]
    arg_cong [OF assms, of b_deleted] arg_cong [OF assms, of b_trace] arg_cong [OF assms, of b_mutable]
    arg_cong [OF assms, of b_nullRC] arg_cong [OF assms, of b_fastGrow] arg_cong [OF assms, of b_mutations]
    arg_cong [OF assms, of b_finalized]
  by (simp_all add: rest_def)

lemma SetValue_new:
  "p < length (b_values ht) \<Longrightarrow> b_values ht ! p = 0 \<or> b_values ht ! p = SLOT_DELETED \<Longrightarrow>
   CFBasicHashSetValue_at ht p v ignoreOld False = Some (ht\<lparr>b_values := (b_values ht)[p := sub v]\<rparr>)"
  by (auto simp: CFBasicHashSetValue_at_def Let_def)

lemma SetKey_new:
  "b_hasKeys ht \<Longrightarrow> p < length (b_keys ht) \<Longrightarrow> b_keys ht ! p = 0 \<or> b_keys ht ! p = SLOT_DELETED \<Longrightarrow>
   CFBasicHashSetKey_at ht p k ignoreOld False = Some (ht\<lparr>b_keys := (b_keys ht)[p := sub k]\<rparr>)"
  by (auto simp: CFBasicHashSetKey_at_def Let_def)

lemma free_cells:
  assumes "arrays_ok ht" and "p < nb ht" and "\<not> held ht p"
  shows "b_values ht ! p = 0 \<or> b_values ht ! p = SLOT_DELETED"
    and "b_hasKeys ht \<Longrightarrow> b_keys ht ! p = 0 \<or> b_keys ht ! p = SLOT_DELETED"
  using assms held_iff [of ht p] by (auto simp: arrays_ok_def)

text \<open>One step of the loop.\<close>

lemma rehash_step_other: "arrays_ok old \<Longrightarrow> i < nb old \<Longrightarrow> \<not> held old i \<Longrightarrow> rehash_step E old i ht = Some ht"
  using held_iff [of old i] by (auto simp: rehash_step_def arrays_lengths)

lemma rehash_step_held:
  assumes old: "arrays_ok old" "i < nb old" "slot_of old i = Held k v c"
    and ok: "arrays_ok ht" "p < nb ht" "slot_of ht p = Free"
    and flags: "b_hasKeys ht = b_hasKeys old" "b_hasCounts ht = b_hasCounts old" "b_hasHashes ht = b_hasHashes old"
    and at: "FindBucket_NoCollision E ht k (if b_hasHashes old then b_hashes old ! i else 0) = Some (int p)"
  shows "rehash_step E old i ht = Some (fill ht p k v c (b_hashes old ! i))"
proof -
  have v: "b_values old ! i \<noteq> 0" "b_values old ! i \<noteq> SLOT_DELETED" "unsub (b_values old ! i) = v"
    using old(3) by (auto simp: slot_of_def Let_def split: if_splits)
  have k: "b_hasKeys old \<Longrightarrow> unsub (b_keys old ! i) = k" "\<not> b_hasKeys old \<Longrightarrow> k = v"
    using old(3) by (auto simp: slot_of_def Let_def key_cells_def split: if_splits)
  have c: "b_hasCounts old \<Longrightarrow> b_counts old ! i = c" using old(3) by (auto simp: slot_of_def Let_def split: if_splits)
  have "\<not> held ht p" using ok(3) by simp
  note cells = free_cells [OF ok(1,2) this]
  note lens = arrays_lengths [OF old(1)] arrays_lengths [OF ok(1)]
  show ?thesis using v k c cells lens old(2) ok(2) flags at
    by (cases "b_hasKeys old"; cases "b_hasCounts old"; cases "b_hasHashes old")
      (simp_all add: rehash_step_def Let_def SetValue_new SetKey_new fill_def)
qed

subsection \<open>The whole table\<close>

definition entries_below :: "basic_hash \<Rightarrow> nat \<Rightarrow> (uintptr \<times> uintptr \<times> nat) set" where
  "entries_below ht j = {(k, v, c). \<exists>i < j. slot_of ht i = Held k v c}"

lemma entries_below_Suc: "entries_below ht (Suc j) = slot_entries (slot_of ht j) \<union> entries_below ht j"
  by (cases "slot_of ht j") (auto simp: entries_below_def less_Suc_eq)

lemma entries_below_all: "entries_below ht (nb ht) = entries ht"
  by (simp add: entries_below_def entries_def)

definition rehashed :: "hash_env \<Rightarrow> basic_hash \<Rightarrow> nat \<Rightarrow> nat \<Rightarrow> basic_hash \<Rightarrow> bool" where
  "rehashed E old idx j ht \<longleftrightarrow>
     arrays_ok ht \<and> placed E ht \<and> gone_slots ht = {} \<and> card (held_slots ht) = card {i. i < j \<and> held old i} \<and>
     entries ht = entries_below old j \<and> rest ht = rest (old\<lparr>b_idx := idx, b_deleted := 0\<rparr>)"

lemma fresh_free: "i < CFBasicHashTableSizes ! idx \<Longrightarrow> slot_of (fresh_arrays ht idx) i = Free"
  by (simp add: slot_of_def fresh_arrays_def Let_def)

lemma count_limit_pos: "0 < count_limit w div 2"
proof -
  have "2 ^ 1 \<le> (2 :: nat) ^ (8 * 2 ^ w)" by (intro power_increasing) simp_all
  then show ?thesis by (simp add: count_limit_def)
qed

lemma rehashed_start:
  assumes ok: "arrays_ok ht" and idx: "sizes_ok (b_style ht) idx"
  shows "rehashed E ht idx 0 (fresh_arrays ht idx)"
proof -
  let ?ht = "fresh_arrays ht idx"
  have n: "nb ?ht = CFBasicHashTableSizes ! idx" by (simp add: CFBasicHashGetNumBuckets_def fresh_arrays_def Let_def)
  have free: "slot_of ?ht i = Free" if "i < nb ?ht" for i using fresh_free that by (simp add: n)
  have arrays: "arrays_ok ?ht" using ok idx free count_limit_pos unfolding arrays_ok_def
    by (simp add: n) (simp add: fresh_arrays_def Let_def)
  have "rest ?ht = rest (ht\<lparr>b_idx := idx, b_deleted := 0\<rparr>)" by (simp add: rest_def fresh_arrays_def Let_def)
  moreover have "entries ?ht = {}" "held_slots ?ht = {}" "gone_slots ?ht = {}" "placed E ?ht"
    using free by (auto simp: entries_def held_slots_def gone_slots_def placed_def)
  ultimately show ?thesis using arrays by (simp add: rehashed_def entries_below_def)
qed

lemma rehashed_next:
  assumes ok: "arrays_ok old" "placed E old" and law: "lawful E (b_callbacks old) (b_hasKeys old)"
    and room: "card (held_slots old) \<le> CFBasicHashTableSizes ! idx"
    and j: "j < nb old" and inv: "rehashed E old idx j ht"
  shows "\<exists>ht'. rehash_step E old j ht = Some ht' \<and> rehashed E old idx (Suc j) ht'"
proof (cases "held old j")
  case False
  then have "{i. i < Suc j \<and> held old i} = {i. i < j \<and> held old i}" by (auto simp: less_Suc_eq)
  moreover have "entries_below old (Suc j) = entries_below old j" using False by (auto simp: entries_below_Suc)
  ultimately show ?thesis using rehash_step_other [OF ok(1) j False] inv by (simp add: rehashed_def)
next
  case True
  then obtain k v c where s: "slot_of old j = Held k v c" by (cases "slot_of old j") auto
  have ht: "arrays_ok ht" "placed E ht" "gone_slots ht = {}" "entries ht = entries_below old j"
    "card (held_slots ht) = card {i. i < j \<and> held old i}" using inv by (simp_all add: rehashed_def)
  have "rest ht = rest (old\<lparr>b_idx := idx, b_deleted := 0\<rparr>)" using inv by (simp add: rehashed_def)
  note same = restD [OF this]
  have n: "nb ht = CFBasicHashTableSizes ! idx" using same(7) by (simp add: CFBasicHashGetNumBuckets_def)
  have more: "{i. i < Suc j \<and> held old i} = insert j {i. i < j \<and> held old i}" using True by (auto simp: less_Suc_eq)
  have "{i. i < Suc j \<and> held old i} \<subseteq> held_slots old" using j by (auto simp: held_slots_def)
  then have "card {i. i < Suc j \<and> held old i} \<le> card (held_slots old)" by (rule card_mono [rotated]) (simp add: held_slots_def)
  then have less: "card (held_slots ht) < nb ht" using room by (simp add: more ht(5) n)
  have "\<exists>q < nb ht. \<not> held ht q"
  proof (rule ccontr)
    assume "\<not> (\<exists>q < nb ht. \<not> held ht q)"
    then have "held_slots ht = {..<nb ht}" unfolding held_slots_def by blast
    then show False using less by simp
  qed
  then obtain q where q: "q < nb ht" "\<not> held ht q" by blast
  then have free: "slot_of ht q = Free" using ht(3) by (auto simp: gone_slots_def)
  have hash: "b_hasHashes old \<longrightarrow> b_hashes old ! j = key_code E (b_callbacks old) k" using ok(2) j s unfolding placed_def by blast
  let ?h = "if b_hasHashes old then b_hashes old ! j else 0"
  have "?h = 0 \<or> ?h = key_code E (b_callbacks ht) k" using hash same(1) by simp
  from FindBucket_NoCollision_free [OF ht(1) q(1) free this]
  obtain p where p: "p < nb ht" "slot_of ht p = Free" "reaches E ht k p" "FindBucket_NoCollision E ht k ?h = Some (int p)"
    by blast
  let ?ht' = "fill ht p k v c (b_hashes old ! j)"
  have step: "rehash_step E old j ht = Some ?ht'"
    using same by (intro rehash_step_held [OF ok(1) j s ht(1) p(1,2) _ _ _ p(4)]) simp_all
  have notsub: "\<not> is_sub v" "\<not> is_sub k" using held_not_sub [OF s] by simp_all
  have key: "(if b_hasKeys ht then k else v) = k" using held_key_is_value [OF s] same(2) by simp
  have other: "\<not> same_key E (b_callbacks ht) a k" if "i < nb ht" "slot_of ht i = Held a b d" for i a b d
  proof
    assume sa: "same_key E (b_callbacks ht) a k"
    have "(a, b, d) \<in> entries_below old j" using that ht(4) entriesI by auto
    then obtain i0 where "i0 < j" "slot_of old i0 = Held a b d" by (auto simp: entries_below_def)
    then show False using placed_unique [OF ok(2) _ j _ s, of i0 a b d] j sa same(1) by simp
  qed
  have count: "0 < c \<and> c < count_limit (b_countsWidth ht) div 2" if "b_hasCounts ht"
    using that held_count [OF ok(1) j s] ok(1) j s same(3,8) by (auto simp: arrays_ok_def slot_of_def Let_def split: if_splits)
  have free': "\<not> held ht p" using p(2) by simp
  have c1: "\<not> b_hasCounts ht \<Longrightarrow> c = 1" using s same(3) by (auto simp: slot_of_def Let_def split: if_splits)
  have "arrays_ok ?ht'" by (rule arrays_fill [OF ht(1) p(1) notsub(1)]) (use notsub count in auto)
  moreover have "placed E ?ht'"
    by (rule placed_fill [OF ht(1,2) _ p(1) notsub(1) _ _ p(3)]) (use law same notsub hash key other in auto)
  moreover have "gone_slots ?ht' = {}" "card (held_slots ?ht') = card {i. i < Suc j \<and> held old i}"
    using held_fill [OF ht(1) p(1) notsub(1), of k c "b_hashes old ! j"] notsub ht(3,5) p(2)
    by (simp_all add: more) (simp add: held_slots_def)
  moreover have "entries ?ht' = entries_below old (Suc j)"
    using entries_fill [OF ht(1) p(1) notsub(1), of k c "b_hashes old ! j"] notsub ht(4) s c1 key
    by (simp add: entries_but_free [OF p(1) free'] entries_below_Suc)
  ultimately show ?thesis using step inv by (simp add: rehashed_def)
qed

theorem rehash_entries:
  assumes ok: "arrays_ok ht" "placed E ht" and law: "lawful E (b_callbacks ht) (b_hasKeys ht)"
    and idx: "new_idx ht m = Some idx" "sizes_ok (b_style ht) idx"
    and room: "card (held_slots ht) \<le> CFBasicHashTableSizes ! idx"
  shows "\<exists>ht'. CFBasicHashRehash E ht m = Some ht' \<and> rehashed E ht idx (nb ht) ht'"
  using run_loop_invariant [where P = "rehashed E ht idx" and f = "rehash_step E ht" and n = "nb ht",
      OF rehashed_start [OF ok(1) idx(2)] rehashed_next [OF ok law room]] idx(1)
  by (simp add: CFBasicHashRehash_def)

lemma rehashedD:
  assumes "rehashed E old idx (nb old) ht"
  shows "arrays_ok ht" "placed E ht" "gone_slots ht = {}" "card (held_slots ht) = card (held_slots old)" "entries ht = entries old"
    "rest ht = rest (old\<lparr>b_idx := idx, b_deleted := 0\<rparr>)"
  using assms by (simp_all add: rehashed_def held_slots_def entries_below_all)

end
