(* ===== verification/BasicHashChange.thy ===== *)
theory BasicHashChange
  imports BasicHashRehash
begin

text \<open>The steps that change one bucket: adding, replacing, removing and counting, with the trace of references.\<close>

subsection \<open>Fields the contents do not depend on\<close>

lemma key_cells_fields [simp]:
  "key_cells (ht\<lparr>b_trace := tr\<rparr>) = key_cells ht"
  "key_cells (ht\<lparr>b_mutations := mu\<rparr>) = key_cells ht"
  "key_cells (ht\<lparr>b_mutable := bo\<rparr>) = key_cells ht"
  "key_cells (ht\<lparr>b_nullRC := rc\<rparr>) = key_cells ht"
  "key_cells (ht\<lparr>b_finalized := fi\<rparr>) = key_cells ht"
  "key_cells (ht\<lparr>b_used := us\<rparr>) = key_cells ht"
  "key_cells (ht\<lparr>b_deleted := de\<rparr>) = key_cells ht"
  by (simp_all add: key_cells_def)

lemma slot_of_fields [simp]:
  "slot_of (ht\<lparr>b_trace := tr\<rparr>) = slot_of ht"
  "slot_of (ht\<lparr>b_mutations := mu\<rparr>) = slot_of ht"
  "slot_of (ht\<lparr>b_mutable := bo\<rparr>) = slot_of ht"
  "slot_of (ht\<lparr>b_nullRC := rc\<rparr>) = slot_of ht"
  "slot_of (ht\<lparr>b_finalized := fi\<rparr>) = slot_of ht"
  "slot_of (ht\<lparr>b_used := us\<rparr>) = slot_of ht"
  "slot_of (ht\<lparr>b_deleted := de\<rparr>) = slot_of ht"
  by (simp_all add: fun_eq_iff slot_of_def Let_def cong: if_cong)

lemma nb_fields [simp]:
  "nb (ht\<lparr>b_trace := tr\<rparr>) = nb ht"
  "nb (ht\<lparr>b_mutations := mu\<rparr>) = nb ht"
  "nb (ht\<lparr>b_mutable := bo\<rparr>) = nb ht"
  "nb (ht\<lparr>b_nullRC := rc\<rparr>) = nb ht"
  "nb (ht\<lparr>b_finalized := fi\<rparr>) = nb ht"
  "nb (ht\<lparr>b_used := us\<rparr>) = nb ht"
  "nb (ht\<lparr>b_deleted := de\<rparr>) = nb ht"
  by (simp_all add: CFBasicHashGetNumBuckets_def)

lemma capacity_fields [simp]:
  "CFBasicHashGetCapacity (ht\<lparr>b_trace := tr\<rparr>) = CFBasicHashGetCapacity ht"
  "CFBasicHashGetCapacity (ht\<lparr>b_mutations := mu\<rparr>) = CFBasicHashGetCapacity ht"
  "CFBasicHashGetCapacity (ht\<lparr>b_mutable := bo\<rparr>) = CFBasicHashGetCapacity ht"
  "CFBasicHashGetCapacity (ht\<lparr>b_nullRC := rc\<rparr>) = CFBasicHashGetCapacity ht"
  "CFBasicHashGetCapacity (ht\<lparr>b_finalized := fi\<rparr>) = CFBasicHashGetCapacity ht"
  "CFBasicHashGetCapacity (ht\<lparr>b_used := us\<rparr>) = CFBasicHashGetCapacity ht"
  "CFBasicHashGetCapacity (ht\<lparr>b_deleted := de\<rparr>) = CFBasicHashGetCapacity ht"
  by (simp_all add: CFBasicHashGetCapacity_def)

lemma spot_fields [simp]:
  "spot E (ht\<lparr>b_trace := tr\<rparr>) = spot E ht"
  "spot E (ht\<lparr>b_mutations := mu\<rparr>) = spot E ht"
  "spot E (ht\<lparr>b_mutable := bo\<rparr>) = spot E ht"
  "spot E (ht\<lparr>b_nullRC := rc\<rparr>) = spot E ht"
  "spot E (ht\<lparr>b_finalized := fi\<rparr>) = spot E ht"
  "spot E (ht\<lparr>b_used := us\<rparr>) = spot E ht"
  "spot E (ht\<lparr>b_deleted := de\<rparr>) = spot E ht"
  by (simp_all add: fun_eq_iff spot_def CFBasicHashGetNumBuckets_def)

lemma reaches_fields [simp]:
  "reaches E (ht\<lparr>b_trace := tr\<rparr>) = reaches E ht"
  "reaches E (ht\<lparr>b_mutations := mu\<rparr>) = reaches E ht"
  "reaches E (ht\<lparr>b_mutable := bo\<rparr>) = reaches E ht"
  "reaches E (ht\<lparr>b_nullRC := rc\<rparr>) = reaches E ht"
  "reaches E (ht\<lparr>b_finalized := fi\<rparr>) = reaches E ht"
  "reaches E (ht\<lparr>b_used := us\<rparr>) = reaches E ht"
  "reaches E (ht\<lparr>b_deleted := de\<rparr>) = reaches E ht"
  by (simp_all add: fun_eq_iff reaches_def)

lemma arrays_fields [simp]:
  "arrays_ok (ht\<lparr>b_trace := tr\<rparr>) = arrays_ok ht"
  "arrays_ok (ht\<lparr>b_mutations := mu\<rparr>) = arrays_ok ht"
  "arrays_ok (ht\<lparr>b_mutable := bo\<rparr>) = arrays_ok ht"
  "arrays_ok (ht\<lparr>b_nullRC := rc\<rparr>) = arrays_ok ht"
  "arrays_ok (ht\<lparr>b_finalized := fi\<rparr>) = arrays_ok ht"
  "arrays_ok (ht\<lparr>b_used := us\<rparr>) = arrays_ok ht"
  "arrays_ok (ht\<lparr>b_deleted := de\<rparr>) = arrays_ok ht"
  by (simp_all add: arrays_ok_def)

lemma entries_fields [simp]:
  "entries (ht\<lparr>b_trace := tr\<rparr>) = entries ht"
  "entries (ht\<lparr>b_mutations := mu\<rparr>) = entries ht"
  "entries (ht\<lparr>b_mutable := bo\<rparr>) = entries ht"
  "entries (ht\<lparr>b_nullRC := rc\<rparr>) = entries ht"
  "entries (ht\<lparr>b_finalized := fi\<rparr>) = entries ht"
  "entries (ht\<lparr>b_used := us\<rparr>) = entries ht"
  "entries (ht\<lparr>b_deleted := de\<rparr>) = entries ht"
  by (simp_all add: entries_def)

lemma entries_but_fields [simp]:
  "entries_but (ht\<lparr>b_trace := tr\<rparr>) p = entries_but ht p"
  "entries_but (ht\<lparr>b_mutations := mu\<rparr>) p = entries_but ht p"
  "entries_but (ht\<lparr>b_mutable := bo\<rparr>) p = entries_but ht p"
  "entries_but (ht\<lparr>b_nullRC := rc\<rparr>) p = entries_but ht p"
  "entries_but (ht\<lparr>b_finalized := fi\<rparr>) p = entries_but ht p"
  "entries_but (ht\<lparr>b_used := us\<rparr>) p = entries_but ht p"
  "entries_but (ht\<lparr>b_deleted := de\<rparr>) p = entries_but ht p"
  by (simp_all add: entries_but_def)

lemma held_slots_fields [simp]:
  "held_slots (ht\<lparr>b_trace := tr\<rparr>) = held_slots ht"
  "held_slots (ht\<lparr>b_mutations := mu\<rparr>) = held_slots ht"
  "held_slots (ht\<lparr>b_mutable := bo\<rparr>) = held_slots ht"
  "held_slots (ht\<lparr>b_nullRC := rc\<rparr>) = held_slots ht"
  "held_slots (ht\<lparr>b_finalized := fi\<rparr>) = held_slots ht"
  "held_slots (ht\<lparr>b_used := us\<rparr>) = held_slots ht"
  "held_slots (ht\<lparr>b_deleted := de\<rparr>) = held_slots ht"
  by (simp_all add: held_slots_def)

lemma gone_slots_fields [simp]:
  "gone_slots (ht\<lparr>b_trace := tr\<rparr>) = gone_slots ht"
  "gone_slots (ht\<lparr>b_mutations := mu\<rparr>) = gone_slots ht"
  "gone_slots (ht\<lparr>b_mutable := bo\<rparr>) = gone_slots ht"
  "gone_slots (ht\<lparr>b_nullRC := rc\<rparr>) = gone_slots ht"
  "gone_slots (ht\<lparr>b_finalized := fi\<rparr>) = gone_slots ht"
  "gone_slots (ht\<lparr>b_used := us\<rparr>) = gone_slots ht"
  "gone_slots (ht\<lparr>b_deleted := de\<rparr>) = gone_slots ht"
  by (simp_all add: gone_slots_def)

lemma lookup_fields [simp]:
  "lookup E (ht\<lparr>b_trace := tr\<rparr>) = lookup E ht"
  "lookup E (ht\<lparr>b_mutations := mu\<rparr>) = lookup E ht"
  "lookup E (ht\<lparr>b_mutable := bo\<rparr>) = lookup E ht"
  "lookup E (ht\<lparr>b_nullRC := rc\<rparr>) = lookup E ht"
  "lookup E (ht\<lparr>b_finalized := fi\<rparr>) = lookup E ht"
  "lookup E (ht\<lparr>b_used := us\<rparr>) = lookup E ht"
  "lookup E (ht\<lparr>b_deleted := de\<rparr>) = lookup E ht"
  by (simp_all add: fun_eq_iff lookup_def)

lemma placed_fields [simp]:
  "placed E (ht\<lparr>b_trace := tr\<rparr>) = placed E ht"
  "placed E (ht\<lparr>b_mutations := mu\<rparr>) = placed E ht"
  "placed E (ht\<lparr>b_mutable := bo\<rparr>) = placed E ht"
  "placed E (ht\<lparr>b_nullRC := rc\<rparr>) = placed E ht"
  "placed E (ht\<lparr>b_finalized := fi\<rparr>) = placed E ht"
  "placed E (ht\<lparr>b_used := us\<rparr>) = placed E ht"
  "placed E (ht\<lparr>b_deleted := de\<rparr>) = placed E ht"
  by (simp_all add: placed_def)

lemma other_fields [simp]:
  "other_entries E (ht\<lparr>b_trace := tr\<rparr>) k = other_entries E ht k"
  "other_entries E (ht\<lparr>b_mutations := mu\<rparr>) k = other_entries E ht k"
  "other_entries E (ht\<lparr>b_mutable := bo\<rparr>) k = other_entries E ht k"
  "other_entries E (ht\<lparr>b_nullRC := rc\<rparr>) k = other_entries E ht k"
  "other_entries E (ht\<lparr>b_finalized := fi\<rparr>) k = other_entries E ht k"
  "other_entries E (ht\<lparr>b_used := us\<rparr>) k = other_entries E ht k"
  "other_entries E (ht\<lparr>b_deleted := de\<rparr>) k = other_entries E ht k"
  by (simp_all add: other_entries_def)

lemma counters_fields [simp]:
  "counters_ok (ht\<lparr>b_trace := tr\<rparr>) = counters_ok ht"
  "counters_ok (ht\<lparr>b_mutations := mu\<rparr>) = counters_ok ht"
  "counters_ok (ht\<lparr>b_mutable := bo\<rparr>) = counters_ok ht"
  "counters_ok (ht\<lparr>b_nullRC := rc\<rparr>) = counters_ok ht"
  "counters_ok (ht\<lparr>b_finalized := fi\<rparr>) = counters_ok ht"
  by (simp_all add: counters_ok_def)

lemma table_fields [simp]:
  "table_ok E (ht\<lparr>b_trace := tr\<rparr>) = table_ok E ht"
  "table_ok E (ht\<lparr>b_mutations := mu\<rparr>) = table_ok E ht"
  "table_ok E (ht\<lparr>b_mutable := bo\<rparr>) = table_ok E ht"
  "table_ok E (ht\<lparr>b_nullRC := rc\<rparr>) = table_ok E ht"
  "table_ok E (ht\<lparr>b_finalized := fi\<rparr>) = table_ok E ht"
  by (simp_all add: table_ok_def)

lemma table_okD:
  assumes "table_ok E ht"
  shows "lawful E (b_callbacks ht) (b_hasKeys ht)" "arrays_ok ht" "placed E ht" "b_used ht = card (held_slots ht)"
    "b_used ht \<le> CFBasicHashGetCapacity ht" "b_deleted ht = card (gone_slots ht)" "b_deleted ht < 2 ^ 16"
  using assms by (simp_all add: table_ok_def counters_ok_def)

subsection \<open>References\<close>

definition took_value :: "hash_env \<Rightarrow> basic_hash \<Rightarrow> uintptr \<Rightarrow> hash_event list" where
  "took_value E ht v = (if kcb_retainValue (b_callbacks ht) = None \<or> b_nullRC ht then [] else [RetainedValue (kept_value E ht v)])"

definition took_key :: "hash_env \<Rightarrow> basic_hash \<Rightarrow> uintptr \<Rightarrow> hash_event list" where
  "took_key E ht k = (if kcb_retainKey (b_callbacks ht) = None \<or> b_nullRC ht then [] else [RetainedKey (kept_key E ht k)])"

definition gave_value :: "basic_hash \<Rightarrow> uintptr \<Rightarrow> hash_event list" where
  "gave_value ht v = (if kcb_releaseValue (b_callbacks ht) = None \<or> b_nullRC ht then [] else [ReleasedValue v])"

definition gave_key :: "basic_hash \<Rightarrow> uintptr \<Rightarrow> hash_event list" where
  "gave_key ht k = (if kcb_releaseKey (b_callbacks ht) = None \<or> b_nullRC ht then [] else [ReleasedKey k])"

text \<open>What a slot gives up; keys have references of their own only in a table with keys.\<close>

definition gave_slot :: "basic_hash \<Rightarrow> slot \<Rightarrow> hash_event list" where
  "gave_slot ht s = (case s of Held k v c \<Rightarrow> gave_value ht v @ (if b_hasKeys ht then gave_key ht k else []) | _ \<Rightarrow> [])"

lemma import_value: "CFBasicHashImportValue E ht v = (kept_value E ht v, ht\<lparr>b_trace := b_trace ht @ took_value E ht v\<rparr>)"
  by (auto simp: CFBasicHashImportValue_def kept_value_def took_value_def log_hash_def split: option.split)

lemma import_key: "CFBasicHashImportKey E ht k = (kept_key E ht k, ht\<lparr>b_trace := b_trace ht @ took_key E ht k\<rparr>)"
  by (auto simp: CFBasicHashImportKey_def kept_key_def took_key_def log_hash_def split: option.split)

lemma eject_value: "CFBasicHashEjectValue v ht = ht\<lparr>b_trace := b_trace ht @ gave_value ht v\<rparr>"
  by (simp add: CFBasicHashEjectValue_def gave_value_def log_hash_def)

lemma eject_key: "CFBasicHashEjectKey k ht = ht\<lparr>b_trace := b_trace ht @ gave_key ht k\<rparr>"
  by (simp add: CFBasicHashEjectKey_def gave_key_def log_hash_def)

lemma kept_cong:
  assumes "b_callbacks ht' = b_callbacks ht" "b_nullRC ht' = b_nullRC ht"
  shows "kept_value E ht' = kept_value E ht" "kept_key E ht' = kept_key E ht" "took_value E ht' = took_value E ht"
    "took_key E ht' = took_key E ht" "gave_value ht' = gave_value ht" "gave_key ht' = gave_key ht"
proof -
  show kept: "kept_value E ht' = kept_value E ht" "kept_key E ht' = kept_key E ht"
    using assms by (auto simp: kept_value_def kept_key_def CFBasicHashImportValue_def CFBasicHashImportKey_def fun_eq_iff
        split: option.split)
  show "took_value E ht' = took_value E ht" "took_key E ht' = took_key E ht" "gave_value ht' = gave_value ht"
    "gave_key ht' = gave_key ht"
    using assms kept by (simp_all add: took_value_def took_key_def gave_value_def gave_key_def fun_eq_iff)
qed

text \<open>Writing to a bucket in use gives up what was in it.\<close>

lemma slot_HeldD:
  assumes "slot_of ht p = Held k v c"
  shows "b_values ht ! p \<noteq> 0" "b_values ht ! p \<noteq> SLOT_DELETED" "unsub (key_cells ht ! p) = k" "unsub (b_values ht ! p) = v"
    "(if b_hasCounts ht then b_counts ht ! p else 1) = c"
proof -
  show v: "b_values ht ! p \<noteq> 0" "b_values ht ! p \<noteq> SLOT_DELETED" using assms held_iff [of ht p] by simp_all
  have "slot_of ht p = Held (unsub (key_cells ht ! p)) (unsub (b_values ht ! p)) (if b_hasCounts ht then b_counts ht ! p else 1)"
    unfolding slot_of_def Let_def using v by presburger
  from trans [OF assms [symmetric] this] show "unsub (key_cells ht ! p) = k" "unsub (b_values ht ! p) = v" "(if b_hasCounts ht then b_counts ht ! p else 1) = c"
    by (simp_all only: slot.inject)
qed

lemma SetValue_old:
  assumes "p < length (b_values ht)" and "slot_of ht p = Held k v0 c"
  shows "CFBasicHashSetValue_at ht p v False literal =
     Some (ht\<lparr>b_values := (b_values ht)[p := if literal then v else sub v], b_trace := b_trace ht @ gave_value ht v0\<rparr>)"
  using assms(1) slot_HeldD [OF assms(2)] by (simp add: CFBasicHashSetValue_at_def eject_value Let_def gave_value_def)

lemma SetKey_old:
  assumes "b_hasKeys ht" and "p < length (b_keys ht)" and "b_keys ht ! p \<noteq> 0" "b_keys ht ! p \<noteq> SLOT_DELETED"
    and "unsub (b_keys ht ! p) = k0"
  shows "CFBasicHashSetKey_at ht p k False literal =
     Some (ht\<lparr>b_keys := (b_keys ht)[p := if literal then k else sub k], b_trace := b_trace ht @ gave_key ht k0\<rparr>)"
  using assms by (simp add: CFBasicHashSetKey_at_def eject_key Let_def gave_key_def)

lemma held_cells:
  assumes "arrays_ok ht" "p < nb ht" "slot_of ht p = Held k v c"
  shows "b_hasKeys ht \<Longrightarrow> b_keys ht ! p \<noteq> 0" "b_hasKeys ht \<Longrightarrow> b_keys ht ! p \<noteq> SLOT_DELETED"
    "b_hasKeys ht \<Longrightarrow> unsub (b_keys ht ! p) = k" "unsub (b_values ht ! p) = v"
    "b_hasCounts ht \<Longrightarrow> b_counts ht ! p = c" "\<not> b_hasCounts ht \<Longrightarrow> c = 1"
proof -
  have "key_cells ht ! p \<noteq> 0" "key_cells ht ! p \<noteq> SLOT_DELETED" using cell_cases(1,2) [OF assms(1,2)] assms(3) by simp_all
  then show "b_hasKeys ht \<Longrightarrow> b_keys ht ! p \<noteq> 0" "b_hasKeys ht \<Longrightarrow> b_keys ht ! p \<noteq> SLOT_DELETED" by (simp_all add: key_cells_def)
  show "b_hasKeys ht \<Longrightarrow> unsub (b_keys ht ! p) = k" "unsub (b_values ht ! p) = v"
    using slot_HeldD(3,4) [OF assms(3)] by (simp_all add: key_cells_def)
  show "b_hasCounts ht \<Longrightarrow> b_counts ht ! p = c" "\<not> b_hasCounts ht \<Longrightarrow> c = 1"
    using slot_HeldD(5) [OF assms(3)] by simp_all
qed

subsection \<open>Room to grow\<close>

text \<open>More than two thousand million entries with linear probing, 19302 with the other styles.\<close>

definition roomy :: "basic_hash \<Rightarrow> bool" where
  "roomy ht \<longleftrightarrow> b_used ht < CFBasicHashGetCapacityForNumBuckets (if b_style ht = 1 then 43 else 19)"

lemma grown_index:
  assumes "roomy ht" and ok: "arrays_ok ht"
  shows "\<exists>idx. new_idx ht 1 = Some idx \<and> sizes_ok (b_style ht) idx \<and>
    b_used ht + 1 \<le> CFBasicHashGetCapacityForNumBuckets idx \<and> 0 < idx"
proof -
  obtain j where j: "b_used ht < CFBasicHashGetCapacityForNumBuckets j" "j \<le> 43" "b_style ht \<noteq> 1 \<Longrightarrow> j = 19"
    using assms(1) by (cases "b_style ht = 1") (simp_all add: roomy_def)
  then obtain idx where idx: "idx \<le> j" "CFBasicHashGetNumBucketsIndexForCapacity (b_used ht + 1) = Some idx"
    using index_exists [of "b_used ht + 1" j] by auto
  have cap: "b_used ht + 1 \<le> CFBasicHashGetCapacityForNumBuckets idx" by (rule index_for_capacity(1) [OF idx(2)])
  have "CFBasicHashGetCapacityForNumBuckets 0 = 0" by (simp add: CFBasicHashGetCapacityForNumBuckets_def CFBasicHashTableCapacities_def)
  then have pos: "0 < idx" using cap by (cases idx) auto
  have "idx + 1 \<le> 44" using idx(1) j(2) by simp
  then have "CFBasicHashGetCapacityForNumBuckets idx < CFBasicHashGetCapacityForNumBuckets (idx + 1)"
    using capacities_increase [of "idx + 1" idx] by simp
  moreover have "sizes_ok (b_style ht) idx" "sizes_ok (b_style ht) (idx + 1)"
    using idx(1) j style_ok [OF ok] by (auto simp: sizes_ok_def)
  ultimately show ?thesis using idx(2) cap pos by (auto simp: new_idx_def)
qed

lemma capacity_32: "arrays_ok ht \<Longrightarrow> CFBasicHashGetCapacity ht < 2 ^ 32"
proof -
  assume "arrays_ok ht"
  then have "b_idx ht < 44 \<or> b_idx ht = 44" by (auto simp: arrays_ok_def sizes_ok_def)
  moreover have "CFBasicHashGetCapacityForNumBuckets 44 < 2 ^ 32"
    by (simp add: CFBasicHashGetCapacityForNumBuckets_def CFBasicHashTableCapacities_def)
  ultimately show ?thesis using capacities_increase [of 44 "b_idx ht"] by (auto simp: CFBasicHashGetCapacity_def)
qed

end
