(* ===== verification/BasicHashSteps.thy ===== *)
theory BasicHashSteps
  imports BasicHashChange
begin

text \<open>Adding, replacing, removing and counting at a bucket: that the steps succeed, and what they change.\<close>

subsection \<open>Settings\<close>

definition alike :: "basic_hash \<Rightarrow> basic_hash \<Rightarrow> bool" where
  "alike ht' ht \<longleftrightarrow>
     b_callbacks ht' = b_callbacks ht \<and> b_hasKeys ht' = b_hasKeys ht \<and> b_hasCounts ht' = b_hasCounts ht \<and>
     b_hasHashes ht' = b_hasHashes ht \<and> b_style ht' = b_style ht \<and> b_mutable ht' = b_mutable ht \<and>
     b_nullRC ht' = b_nullRC ht \<and> b_fastGrow ht' = b_fastGrow ht \<and> b_finalized ht' = b_finalized ht"

lemma alikeD:
  assumes "alike ht' ht"
  shows "b_callbacks ht' = b_callbacks ht" "b_hasKeys ht' = b_hasKeys ht" "b_hasCounts ht' = b_hasCounts ht"
    "b_hasHashes ht' = b_hasHashes ht" "b_style ht' = b_style ht" "b_mutable ht' = b_mutable ht"
    "b_nullRC ht' = b_nullRC ht" "b_fastGrow ht' = b_fastGrow ht" "b_finalized ht' = b_finalized ht"
  using assms by (simp_all add: alike_def)

lemma alike_refl [simp]: "alike ht ht"
  by (simp add: alike_def)

lemma alike_trans: "alike a b \<Longrightarrow> alike b c \<Longrightarrow> alike a c"
  by (simp add: alike_def)

lemma alike_rest: "rest ht' = rest (ht\<lparr>b_idx := i, b_deleted := d\<rparr>) \<Longrightarrow> alike ht' ht"
  using restD [of ht' "ht\<lparr>b_idx := i, b_deleted := d\<rparr>"] by (simp add: alike_def)

lemma alike_changes [simp]:
  "alike (fill ht p k v c h) ht' = alike ht ht'" "alike (clear ht p) ht' = alike ht ht'"
  "alike (recount ht p c w) ht' = alike ht ht'" "alike (ht\<lparr>b_used := us\<rparr>) ht' = alike ht ht'"
  "alike (ht\<lparr>b_deleted := de\<rparr>) ht' = alike ht ht'" "alike (ht\<lparr>b_trace := tr\<rparr>) ht' = alike ht ht'"
  by (simp_all add: alike_def fill_def clear_def recount_def)

lemma bump_same [simp]:
  "slot_of (bump ht) = slot_of ht" "nb (bump ht) = nb ht" "CFBasicHashGetCapacity (bump ht) = CFBasicHashGetCapacity ht"
  "arrays_ok (bump ht) = arrays_ok ht" "placed E (bump ht) = placed E ht" "entries (bump ht) = entries ht"
  "entries_but (bump ht) p = entries_but ht p" "held_slots (bump ht) = held_slots ht" "gone_slots (bump ht) = gone_slots ht"
  "table_ok E (bump ht) = table_ok E ht" "lookup E (bump ht) = lookup E ht" "alike (bump ht) ht" "alike ht' (bump ht) = alike ht' ht"
  "reaches E (bump ht) = reaches E ht" "b_used (bump ht) = b_used ht" "b_deleted (bump ht) = b_deleted ht"
  "b_trace (bump ht) = b_trace ht" "b_callbacks (bump ht) = b_callbacks ht" "b_hasKeys (bump ht) = b_hasKeys ht"
  "b_hasCounts (bump ht) = b_hasCounts ht" "b_counts (bump ht) = b_counts ht" "b_countsWidth (bump ht) = b_countsWidth ht"
  "b_style (bump ht) = b_style ht" "roomy (bump ht) = roomy ht" "b_idx (bump ht) = b_idx ht"
  by (simp_all add: bump_def alike_def roomy_def)

subsection \<open>Counts\<close>

lemma count_limits [simp]:
  "count_limit 0 = 256" "count_limit (Suc 0) = 65536" "count_limit 2 = 4294967296" "count_limit 3 = 18446744073709551616"
  by (simp_all add: count_limit_def)

lemma inc_loop:
  assumes "p < length (b_counts ht)" "b_countsWidth ht \<le> 3" "b_counts ht ! p = c" "c < 2 ^ 63 - 1" "4 \<le> n + b_countsWidth ht"
  shows "\<exists>w. b_countsWidth ht \<le> w \<and> w \<le> 3 \<and> c + 1 < count_limit w div 2 \<and>
    (c + 1 < count_limit (b_countsWidth ht) div 2 \<longrightarrow> w = b_countsWidth ht) \<and>
    IncSlotCount_loop n ht p = Some (recount ht p (c + 1) w)"
  using assms
proof (induction n arbitrary: ht)
  case (Suc n)
  show ?case
  proof (cases "c < count_limit (b_countsWidth ht) div 2 - 1")
    case True
    then show ?thesis using Suc.prems by (intro exI [of _ "b_countsWidth ht"]) (auto simp: recount_def)
  next
    case False
    have "b_countsWidth ht \<noteq> 3" using False Suc.prems(4) by (auto simp: count_limit_def)
    then have w: "b_countsWidth ht < 3" using Suc.prems(2) by simp
    let ?ht = "ht\<lparr>b_countsWidth := b_countsWidth ht + 1\<rparr>"
    obtain w' where w': "b_countsWidth ?ht \<le> w'" "w' \<le> 3" "c + 1 < count_limit w' div 2"
      "IncSlotCount_loop n ?ht p = Some (recount ?ht p (c + 1) w')"
      using Suc.IH [of ?ht] Suc.prems w by auto
    then show ?thesis using False w Suc.prems
      by (intro exI [of _ w']) (auto simp: CFBasicHashBumpCounts_def recount_def)
  qed
qed simp

lemma IncSlotCount_ok:
  assumes "p < length (b_counts ht)" "b_countsWidth ht \<le> 3" "b_counts ht ! p = c" "c < 2 ^ 63 - 1"
  shows "\<exists>w. b_countsWidth ht \<le> w \<and> w \<le> 3 \<and> c + 1 < count_limit w div 2 \<and>
    (c + 1 < count_limit (b_countsWidth ht) div 2 \<longrightarrow> w = b_countsWidth ht) \<and>
    CFBasicHashIncSlotCount ht p = Some (recount ht p (c + 1) w)"
  unfolding CFBasicHashIncSlotCount_def by (rule inc_loop [OF assms]) simp

lemma count_limit_128: "128 \<le> count_limit w div 2"
proof -
  have "2 ^ 8 \<le> (2 :: nat) ^ (8 * 2 ^ w)" by (intro power_increasing) simp_all
  then show ?thesis by (simp add: count_limit_def)
qed

lemma IncSlotCount_first:
  assumes "p < length (b_counts ht)" "b_counts ht ! p = 0"
  shows "CFBasicHashIncSlotCount ht p = Some (ht\<lparr>b_counts := (b_counts ht)[p := 1]\<rparr>)"
  using assms count_limit_128 [of "b_countsWidth ht"] by (simp add: CFBasicHashIncSlotCount_def eval_nat_numeral)

subsection \<open>Adding\<close>

text \<open>A bucket ready to take a key.\<close>

definition ready :: "hash_env \<Rightarrow> basic_hash \<Rightarrow> uintptr \<Rightarrow> nat \<Rightarrow> bool" where
  "ready E ht k p \<longleftrightarrow>
     p < nb ht \<and> \<not> held ht p \<and> reaches E ht k p \<and> arrays_ok ht \<and> placed E ht \<and>
     b_used ht = card (held_slots ht) \<and> b_used ht + 1 \<le> CFBasicHashGetCapacity ht \<and>
     b_deleted ht = card (gone_slots ht - {p}) \<and> b_deleted ht < 2 ^ 16"

definition vacant_result :: "hash_env \<Rightarrow> basic_hash \<Rightarrow> uintptr \<Rightarrow> int \<Rightarrow> bool" where
  "vacant_result E ht k x \<longleftrightarrow>
     x = kCFNotFound \<and> (\<forall>i < nb ht. held ht i) \<or> (\<exists>p < nb ht. x = int p \<and> \<not> held ht p \<and> reaches E ht k p)"

lemma place_found:
  assumes ok: "table_ok E ht" and room: "roomy ht" and x: "vacant_result E ht k x"
  shows "\<exists>p ht1. place_for E ht x k = Some (int p, ht1) \<and> ready E ht1 k p \<and> entries ht1 = entries ht \<and>
    b_used ht1 = b_used ht \<and> b_trace ht1 = b_trace ht \<and> alike ht1 ht"
proof (cases "CFBasicHashGetCapacity ht < b_used ht + 1")
  case True
  note t = table_okD [OF ok]
  obtain idx where idx: "new_idx ht 1 = Some idx" "sizes_ok (b_style ht) idx"
    "b_used ht + 1 \<le> CFBasicHashGetCapacityForNumBuckets idx" using grown_index [OF room t(2)] by blast
  have "idx < 64" using idx(2) by (auto simp: sizes_ok_def)
  then have size: "b_used ht + 1 \<le> CFBasicHashTableSizes ! idx" using capacity_le_size [of idx] idx(3) by simp
  then have "card (held_slots ht) \<le> CFBasicHashTableSizes ! idx" using t(4) by simp
  from rehash_entries [OF t(2,3,1) idx(1,2) this]
  obtain ht1 where ht1: "CFBasicHashRehash E ht 1 = Some ht1" "rehashed E ht idx (nb ht) ht1" by blast
  note r = rehashedD [OF ht1(2)]
  note same = restD [OF r(6)]
  have n: "nb ht1 = CFBasicHashTableSizes ! idx" using same(7) by (simp add: CFBasicHashGetNumBuckets_def)
  have "\<exists>q < nb ht1. \<not> held ht1 q"
  proof (rule ccontr)
    assume "\<not> (\<exists>q < nb ht1. \<not> held ht1 q)"
    then have "held_slots ht1 = {..<nb ht1}" unfolding held_slots_def by blast
    then show False using size r(4) t(4) n by simp
  qed
  then obtain q where "q < nb ht1" "\<not> held ht1 q" by blast
  moreover have "slot_of ht1 q \<noteq> Gone" using r(3) calculation(1) by (auto simp: gone_slots_def)
  ultimately have "slot_of ht1 q = Free" "q < nb ht1" by auto
  from FindBucket_NoCollision_free [OF r(1) this(2,1), of 0 E k]
  obtain p where p: "p < nb ht1" "FindBucket_NoCollision E ht1 k 0 = Some (int p)" "slot_of ht1 p = Free" "reaches E ht1 k p" by auto
  have "ready E ht1 k p" using p r same t(4) idx(3) by (simp add: ready_def CFBasicHashGetCapacity_def)
  then show ?thesis using True ht1(1) p(2) r same by (simp add: place_for_def alike_def)
next
  case False
  note t = table_okD [OF ok]
  have "x \<noteq> kCFNotFound"
  proof
    assume "x = kCFNotFound"
    then have all: "held_slots ht = {..<nb ht}" using x by (auto simp: vacant_result_def held_slots_def kCFNotFound_def)
    have "CFBasicHashGetCapacity ht \<le> nb ht"
      using capacity_le_size [of "b_idx ht"] t(2) unfolding CFBasicHashGetCapacity_def CFBasicHashGetNumBuckets_def
      by (auto simp: arrays_ok_def sizes_ok_def)
    then show False using all False t(4) by simp
  qed
  then obtain p where p: "p < nb ht" "x = int p" "\<not> held ht p" "reaches E ht k p" using x by (auto simp: vacant_result_def)
  have del: "CFBasicHashIsDeleted ht p = Some (slot_of ht p = Gone)"
    using p(1) t(2) by (simp add: CFBasicHashIsDeleted_def arrays_lengths slot_of_def Let_def)
  let ?d = "(b_deleted ht + (2 ^ 16 - 1)) mod 2 ^ 16"
  let ?ht1 = "if slot_of ht p = Gone then ht\<lparr>b_deleted := ?d\<rparr> else ht"
  have gone: "?d = card (gone_slots ht - {p}) \<and> ?d < 2 ^ 16" if "slot_of ht p = Gone"
  proof -
    have "p \<in> gone_slots ht" "finite (gone_slots ht)" using that p(1) by (simp_all add: gone_slots_def)
    then have "b_deleted ht = Suc (card (gone_slots ht - {p}))" using card_Suc_Diff1 t(6) by metis
    then show ?thesis using t(7) by simp
  qed
  have "gone_slots ht - {p} = gone_slots ht" if "slot_of ht p \<noteq> Gone" using that by (auto simp: gone_slots_def)
  then have "ready E ?ht1 k p" using p t gone False by (cases "slot_of ht p = Gone") (simp_all add: ready_def)
  moreover have "place_for E ht x k = Some (int p, ?ht1)" using False p(2) del by (simp add: place_for_def)
  ultimately show ?thesis by (intro exI [of _ p] exI [of _ ?ht1]) (simp add: alike_def)
qed

lemma trace_kept [simp]:
  "kept_key E (ht\<lparr>b_trace := tr\<rparr>) = kept_key E ht" "kept_value E (ht\<lparr>b_trace := tr\<rparr>) = kept_value E ht"
  "took_key E (ht\<lparr>b_trace := tr\<rparr>) = took_key E ht" "took_value E (ht\<lparr>b_trace := tr\<rparr>) = took_value E ht"
  "gave_key (ht\<lparr>b_trace := tr\<rparr>) = gave_key ht" "gave_value (ht\<lparr>b_trace := tr\<rparr>) = gave_value ht"
  by (rule kept_cong; simp)+

text \<open>The key and the value an entry is stored with, and the references taken for it.\<close>

definition new_key :: "hash_env \<Rightarrow> basic_hash \<Rightarrow> uintptr \<Rightarrow> uintptr \<Rightarrow> uintptr" where
  "new_key E ht k v = (if b_hasKeys ht then kept_key E ht k else kept_value E ht v)"

definition took_entry :: "hash_env \<Rightarrow> basic_hash \<Rightarrow> uintptr \<Rightarrow> uintptr \<Rightarrow> hash_event list" where
  "took_entry E ht k v = took_value E ht v @ (if b_hasKeys ht then took_key E ht k else [])"

lemma store_new_fill:
  assumes ok: "arrays_ok ht" and p: "p < nb ht" "\<not> held ht p"
  shows "store_new E ht p k v =
    Some ((fill (ht\<lparr>b_trace := b_trace ht @ took_entry E ht k v\<rparr>) p (kept_key E ht k) (kept_value E ht v) 1
      (key_code E (b_callbacks ht) k))\<lparr>b_used := (b_used ht + 1) mod 2 ^ 32\<rparr>)"
proof -
  note cells = free_cells [OF ok p]
  note lens = arrays_lengths [OF ok]
  have count: "b_hasCounts ht \<Longrightarrow> b_counts ht ! p = 0" using ok p by (auto simp: arrays_ok_def)
  show ?thesis using cells lens count p(1)
    by (cases "b_hasKeys ht"; cases "b_hasCounts ht"; cases "b_hasHashes ht")
      (simp_all add: store_new_def Let_def import_value import_key SetValue_new SetKey_new IncSlotCount_first fill_def
        took_entry_def hash_key)
qed

definition added :: "hash_env \<Rightarrow> basic_hash \<Rightarrow> uintptr \<Rightarrow> uintptr \<Rightarrow> basic_hash \<Rightarrow> bool" where
  "added E ht k v ht' \<longleftrightarrow>
     table_ok E ht' \<and> entries ht' = insert (new_key E ht k v, kept_value E ht v, 1) (entries ht) \<and>
     b_trace ht' = b_trace ht @ took_entry E ht k v \<and> b_used ht' = b_used ht + 1 \<and> alike ht' ht"

lemma new_key_ok:
  assumes law: "lawful E (b_callbacks ht) (b_hasKeys ht)" and k: "\<not> is_sub k" "\<not> is_sub v" "b_hasKeys ht \<or> v = k"
  shows "same_key E (b_callbacks ht) (new_key E ht k v) k \<and> \<not> is_sub (new_key E ht k v) \<and> \<not> is_sub (kept_value E ht v)"
  using kept_key [OF law k(1)] kept_value [OF law k(2)] k(3) by (auto simp: new_key_def)

lemma store_new_added:
  assumes ok: "ready E ht k p" and law: "lawful E (b_callbacks ht) (b_hasKeys ht)"
    and k: "\<not> is_sub k" "\<not> is_sub v" "b_hasKeys ht \<or> v = k"
    and none: "\<And>a b e. (a, b, e) \<in> entries ht \<Longrightarrow> \<not> same_key E (b_callbacks ht) a k"
  shows "\<exists>ht'. store_new E ht p k v = Some ht' \<and> added E ht k v ht'"
proof -
  have r: "p < nb ht" "\<not> held ht p" "reaches E ht k p" "arrays_ok ht" "placed E ht" "b_used ht = card (held_slots ht)"
    "b_used ht + 1 \<le> CFBasicHashGetCapacity ht" "b_deleted ht = card (gone_slots ht - {p})" "b_deleted ht < 2 ^ 16"
    using ok by (simp_all add: ready_def)
  let ?t = "ht\<lparr>b_trace := b_trace ht @ took_entry E ht k v\<rparr>"
  let ?f = "fill ?t p (kept_key E ht k) (kept_value E ht v) 1 (key_code E (b_callbacks ht) k)"
  let ?ht' = "?f\<lparr>b_used := (b_used ht + 1) mod 2 ^ 32\<rparr>"
  note key = new_key_ok [OF law k]
  have notsub: "\<not> is_sub (kept_value E ht v)" "b_hasKeys ?t \<Longrightarrow> \<not> is_sub (kept_key E ht k)"
    using key kept_key [OF law k(1)] by simp_all
  have tok: "arrays_ok ?t" "placed E ?t" "p < nb ?t" using r by simp_all
  have used: "(b_used ht + 1) mod 2 ^ 32 = b_used ht + 1" using r(7) capacity_32 [OF r(4)] by simp
  have count: "1 < count_limit (b_countsWidth ht) div 2" using count_limit_128 [of "b_countsWidth ht"] by simp
  have other: "\<not> same_key E (b_callbacks ht) a k" if "i < nb ht" "slot_of ht i = Held a b d" for i a b d
    using none [OF entriesI [OF that]] .
  have "arrays_ok ?f" by (rule arrays_fill [OF tok(1,3) notsub]) (use count in auto)
  moreover have "placed E ?f"
    by (rule placed_fill [OF tok(1,2) _ tok(3) notsub, where k = k])
      (use law key r(3) other in \<open>simp_all add: new_key_def\<close>)
  moreover have "held_slots ?f = insert p (held_slots ht)" "gone_slots ?f = gone_slots ht - {p}"
    using held_fill [OF tok(1,3) notsub] by simp_all
  moreover have "p \<notin> held_slots ht" "finite (held_slots ht)" using r(2) by (simp_all add: held_slots_def)
  ultimately have "table_ok E ?ht'" using law r used by (simp add: table_ok_def counters_ok_def)
  moreover have "entries ?ht' = insert (new_key E ht k v, kept_value E ht v, 1) (entries ht)"
    using entries_fill [OF tok(1,3) notsub] entries_but_free [OF r(1,2)] by (simp add: new_key_def)
  ultimately show ?thesis using store_new_fill [OF r(4,1,2)] used by (simp add: added_def)
qed

lemma new_cong:
  assumes "alike ht' ht"
  shows "new_key E ht' = new_key E ht" "kept_value E ht' = kept_value E ht" "took_entry E ht' = took_entry E ht"
proof -
  note k = alikeD [OF assms]
  note kept = kept_cong [OF k(1,7)]
  show "new_key E ht' = new_key E ht" "kept_value E ht' = kept_value E ht" "took_entry E ht' = took_entry E ht"
    using k kept by (simp_all add: new_key_def took_entry_def fun_eq_iff)
qed

theorem AddValue_at_ok:
  assumes ok: "table_ok E ht" and room: "roomy ht" and x: "vacant_result E ht k x"
    and k: "\<not> is_sub k" "\<not> is_sub v" "b_hasKeys ht \<or> v = k" and none: "lookup E ht k = None"
  shows "\<exists>ht'. CFBasicHashAddValue_at E ht x k v = Some ht' \<and> added E ht k v ht'"
proof -
  have "vacant_result E (bump ht) k x" using x by (simp add: vacant_result_def)
  then obtain p ht1 where p: "place_for E (bump ht) x k = Some (int p, ht1)" "ready E ht1 k p" "entries ht1 = entries ht"
    "b_used ht1 = b_used ht" "b_trace ht1 = b_trace ht" "alike ht1 ht"
    using place_found [of E "bump ht" k x] ok room by auto
  note same = alikeD [OF p(6)]
  have "\<exists>ht'. store_new E ht1 p k v = Some ht' \<and> added E ht1 k v ht'"
    by (rule store_new_added [OF p(2)])
      (use table_okD(1) [OF ok] k same p(3) lookup_NoneD [OF none] in auto)
  then obtain ht' where "store_new E ht1 p k v = Some ht'" "added E ht1 k v ht'" by blast
  then show ?thesis using p new_cong [OF p(6)] alike_trans [OF _ p(6)] by (auto simp: CFBasicHashAddValue_at_def added_def)
qed

end
