(* ===== verification/BasicHashEdits.thy ===== *)
theory BasicHashEdits
  imports BasicHashSteps
begin

text \<open>Replacing and removing at a bucket in use, and counting copies up and down.\<close>

subsection \<open>A bucket in use\<close>

text \<open>The bucket of a key, as a search returns it.\<close>

definition at_key :: "hash_env \<Rightarrow> basic_hash \<Rightarrow> uintptr \<Rightarrow> nat \<Rightarrow> uintptr \<Rightarrow> uintptr \<Rightarrow> nat \<Rightarrow> bool" where
  "at_key E ht k p k0 v0 c \<longleftrightarrow> p < nb ht \<and> slot_of ht p = Held k0 v0 c \<and> same_key E (b_callbacks ht) k0 k"

lemma at_keyD:
  assumes "at_key E ht k p k0 v0 c"
  shows "p < nb ht" "slot_of ht p = Held k0 v0 c" "same_key E (b_callbacks ht) k0 k"
  using assms by (simp_all add: at_key_def)

lemma at_key_other:
  assumes ok: "table_ok E ht" and at: "at_key E ht k p k0 v0 c" and i: "i < nb ht" "i \<noteq> p" "slot_of ht i = Held a b d"
  shows "\<not> same_key E (b_callbacks ht) a k"
proof
  note t = table_okD [OF ok] and a = at_keyD [OF at]
  assume "same_key E (b_callbacks ht) a k"
  then have "same_key E (b_callbacks ht) a k0" using lawful_trans [OF t(1)] lawful_sym [OF t(1) a(3)] by blast
  then show False using placed_unique [OF t(3) i(1) a(1) i(3) a(2)] i(2) by blast
qed

lemma at_key_reaches:
  assumes ok: "table_ok E ht" and at: "at_key E ht k p k0 v0 c"
  shows "reaches E ht k p" "b_hasHashes ht \<Longrightarrow> b_hashes ht ! p = key_code E (b_callbacks ht) k"
proof -
  note t = table_okD [OF ok] and a = at_keyD [OF at]
  have "reaches E ht k0 p" "b_hasHashes ht \<longrightarrow> b_hashes ht ! p = key_code E (b_callbacks ht) k0"
    using t(3) a(1,2) unfolding placed_def by blast+
  then show "reaches E ht k p" "b_hasHashes ht \<Longrightarrow> b_hashes ht ! p = key_code E (b_callbacks ht) k"
    using reaches_cong [OF a(3) t(1)] lawful_code [OF t(1) a(3)] by simp_all
qed

lemma at_key_but:
  assumes "table_ok E ht" and "at_key E ht k p k0 v0 c"
  shows "entries_but ht p = other_entries E ht k"
  using entries_but_held [OF table_okD(3,1) [OF assms(1)] at_keyD [OF assms(2)]] .

lemma at_key_count:
  assumes "table_ok E ht" and "at_key E ht k p k0 v0 c"
  shows "0 < c" "b_hasCounts ht \<Longrightarrow> c < count_limit (b_countsWidth ht) div 2" "\<not> b_hasCounts ht \<Longrightarrow> c = 1"
    "b_hasCounts ht \<Longrightarrow> b_counts ht ! p = c" "b_countsWidth ht \<le> 3 \<or> \<not> b_hasCounts ht"
proof -
  note t = table_okD [OF assms(1)] and a = at_keyD [OF assms(2)]
  note cells = held_cells [OF t(2) a(1,2)]
  show "0 < c" by (rule held_count [OF t(2) a(1,2)])
  show count: "b_hasCounts ht \<Longrightarrow> b_counts ht ! p = c" "\<not> b_hasCounts ht \<Longrightarrow> c = 1" by (rule cells; assumption)+
  have "b_hasCounts ht \<Longrightarrow> b_counts ht ! p < count_limit (b_countsWidth ht) div 2" "b_countsWidth ht \<le> 3 \<or> \<not> b_hasCounts ht"
    using t(2) a(1) by (auto simp: arrays_ok_def)
  then show "b_hasCounts ht \<Longrightarrow> c < count_limit (b_countsWidth ht) div 2" "b_countsWidth ht \<le> 3 \<or> \<not> b_hasCounts ht"
    using count by simp_all
qed

subsection \<open>Replacing\<close>

lemma replace_fill:
  assumes ok: "arrays_ok ht" and p: "p < nb ht" "slot_of ht p = Held k0 v0 c"
  shows "CFBasicHashReplaceValue_at E ht (int p) k v =
    Some ((fill (bump ht) p (kept_key E ht k) (kept_value E ht v) c (b_hashes ht ! p))
      \<lparr>b_trace := b_trace ht @ took_entry E ht k v @ gave_slot ht (slot_of ht p)\<rparr>)"
proof -
  note lens = arrays_lengths [OF ok] and cells = held_cells [OF ok p]
  note old = slot_HeldD(1,2) [OF p(2)]
  have counts: "b_hasCounts ht \<Longrightarrow> (b_counts ht)[p := c] = b_counts ht" using cells(5) by (metis list_update_id)
  have b: "b_values (bump ht) = b_values ht" "b_keys (bump ht) = b_keys ht" "b_hasHashes (bump ht) = b_hasHashes ht"
    "b_hashes (bump ht) = b_hashes ht" "b_nullRC (bump ht) = b_nullRC ht" by (simp_all add: bump_def)
  have cong: "kept_value E (bump ht) = kept_value E ht" "kept_key E (bump ht) = kept_key E ht"
    "took_value E (bump ht) = took_value E ht" "took_key E (bump ht) = took_key E ht" "gave_value (bump ht) = gave_value ht"
    "gave_key (bump ht) = gave_key ht" by (rule kept_cong; simp add: b)+
  let ?t = "(bump ht)\<lparr>b_trace := b_trace ht @ took_entry E ht k v\<rparr>"
  let ?v = "?t\<lparr>b_values := (b_values ht)[p := sub (kept_value E ht v)], b_trace := b_trace ?t @ gave_value ht v0\<rparr>"
  have gave: "gave_value ?t = gave_value ht" "gave_key ?v = gave_key ht" using cong by (simp_all add: gave_value_def gave_key_def fun_eq_iff)
  have setv: "CFBasicHashSetValue_at ?t p (kept_value E ht v) False False = Some ?v"
    using SetValue_old [of p ?t k0 v0 c "kept_value E ht v" False] p lens(1) gave by (simp add: b)
  have setk: "CFBasicHashSetKey_at ?v p (kept_key E ht k) False False =
      Some (?v\<lparr>b_keys := (b_keys ht)[p := sub (kept_key E ht k)], b_trace := b_trace ?v @ gave_key ht k0\<rparr>)" if "b_hasKeys ht"
    using SetKey_old [of ?v p k0 "kept_key E ht k" False] p(1) that lens(2) cells(1,2,3) gave by (simp add: b)
  show ?thesis
  proof (cases "b_hasKeys ht")
    case True
    then show ?thesis using setv setk [OF True] counts
      by (simp add: CFBasicHashReplaceValue_at_def import_value import_key cong p(2) gave_slot_def took_entry_def)
        (simp add: fill_def b)
  next
    case False
    then show ?thesis using setv counts
      by (simp add: CFBasicHashReplaceValue_at_def import_value cong p(2) gave_slot_def took_entry_def)
        (simp add: fill_def b)
  qed
qed

definition entry_replaced :: "hash_env \<Rightarrow> basic_hash \<Rightarrow> uintptr \<Rightarrow> uintptr \<Rightarrow> slot \<Rightarrow> nat \<Rightarrow> basic_hash \<Rightarrow> bool" where
  "entry_replaced E ht k v s c ht' \<longleftrightarrow>
     table_ok E ht' \<and> entries ht' = insert (new_key E ht k v, kept_value E ht v, c) (other_entries E ht k) \<and>
     b_trace ht' = b_trace ht @ took_entry E ht k v @ gave_slot ht s \<and> b_used ht' = b_used ht \<and> alike ht' ht"

theorem ReplaceValue_at_ok:
  assumes ok: "table_ok E ht" and at: "at_key E ht k p k0 v0 c"
    and k: "\<not> is_sub k" "\<not> is_sub v" "b_hasKeys ht \<or> v = k"
  shows "\<exists>ht'. CFBasicHashReplaceValue_at E ht (int p) k v = Some ht' \<and> entry_replaced E ht k v (slot_of ht p) c ht'"
proof -
  note t = table_okD [OF ok] and a = at_keyD [OF at]
  let ?f = "fill (bump ht) p (kept_key E ht k) (kept_value E ht v) c (b_hashes ht ! p)"
  let ?ht' = "?f\<lparr>b_trace := b_trace ht @ took_entry E ht k v @ gave_slot ht (slot_of ht p)\<rparr>"
  note key = new_key_ok [OF t(1) k]
  have notsub: "\<not> is_sub (kept_value E ht v)" "b_hasKeys (bump ht) \<Longrightarrow> \<not> is_sub (kept_key E ht k)"
    using key kept_key [OF t(1) k(1)] by simp_all
  have tok: "arrays_ok (bump ht)" "placed E (bump ht)" "p < nb (bump ht)" using t a by simp_all
  note count = at_key_count [OF ok at]
  have "arrays_ok ?f" by (rule arrays_fill [OF tok(1,3) notsub]) (use count in auto)
  moreover have "placed E ?f"
    by (rule placed_fill [OF tok(1,2) _ tok(3) notsub, where k = k])
      (use t(1) key at_key_reaches [OF ok at] at_key_other [OF ok at] in \<open>simp_all add: new_key_def bump_def\<close>)
  moreover have "held_slots ?f = held_slots ht" "gone_slots ?f = gone_slots ht"
    using held_fill [OF tok(1,3) notsub] a by (auto simp: held_slots_def gone_slots_def)
  ultimately have "table_ok E ?ht'" using t by (simp add: table_ok_def counters_ok_def)
  moreover have "entries ?ht' = insert (new_key E ht k v, kept_value E ht v, c) (other_entries E ht k)"
    using entries_fill [OF tok(1,3) notsub] at_key_but [OF ok at] count(3) by (simp add: new_key_def)
  ultimately show ?thesis using replace_fill [OF t(2) a(1,2)] by (simp add: entry_replaced_def)
qed

subsection \<open>Counting\<close>

definition counted :: "hash_env \<Rightarrow> basic_hash \<Rightarrow> uintptr \<Rightarrow> uintptr \<Rightarrow> uintptr \<Rightarrow> nat \<Rightarrow> basic_hash \<Rightarrow> bool" where
  "counted E ht k k0 v0 c ht' \<longleftrightarrow>
     table_ok E ht' \<and> entries ht' = insert (k0, v0, c) (other_entries E ht k) \<and> b_trace ht' = b_trace ht \<and>
     b_used ht' = b_used ht \<and> alike ht' ht"

lemma recount_counted:
  assumes ok: "table_ok E ht" and at: "at_key E ht k p k0 v0 c" and counts: "b_hasCounts ht"
    and c: "0 < d" "d < count_limit w div 2" "b_countsWidth ht \<le> w" "w \<le> 3"
  shows "counted E ht k k0 v0 d (recount (bump ht) p d w)"
proof -
  note t = table_okD [OF ok] and a = at_keyD [OF at]
  have tok: "arrays_ok (bump ht)" "placed E (bump ht)" and p: "p < nb (bump ht)" "b_hasCounts (bump ht)" "slot_of (bump ht) p = Held k0 v0 c"
    using t a counts by simp_all
  have "arrays_ok (recount (bump ht) p d w)" using arrays_recount [OF tok(1) p c(1,2)] c(3,4) by simp
  moreover have "placed E (recount (bump ht) p d w)" by (rule placed_recount [OF tok p])
  ultimately have "table_ok E (recount (bump ht) p d w)"
    using t held_recount [OF tok(1) p] by (simp add: table_ok_def counters_ok_def)
  then show ?thesis using entries_recount [OF tok(1) p, of d w] at_key_but [OF ok at] by (simp add: counted_def)
qed

lemma IncSlotCount_counted:
  assumes ok: "table_ok E ht" and at: "at_key E ht k p k0 v0 c" and counts: "b_hasCounts ht" and c: "c < 2 ^ 63 - 1"
  shows "\<exists>ht'. CFBasicHashIncSlotCount (bump ht) p = Some ht' \<and> counted E ht k k0 v0 (c + 1) ht'"
proof -
  note t = table_okD [OF ok] and a = at_keyD [OF at] and n = at_key_count [OF ok at]
  have "p < length (b_counts (bump ht))" "b_countsWidth (bump ht) \<le> 3" "b_counts (bump ht) ! p = c"
    using a(1) counts n arrays_lengths(3) [OF t(2) counts] by simp_all
  from IncSlotCount_ok [OF this c]
  obtain w where w: "b_countsWidth ht \<le> w" "w \<le> 3" "c + 1 < count_limit w div 2"
    "CFBasicHashIncSlotCount (bump ht) p = Some (recount (bump ht) p (c + 1) w)" by auto
  then show ?thesis using recount_counted [OF ok at counts _ w(3,1,2)] by simp
qed

lemma DecSlotCount_counted:
  assumes ok: "table_ok E ht" and at: "at_key E ht k p k0 v0 c" and counts: "b_hasCounts ht" and c: "1 < c"
  shows "\<exists>ht'. CFBasicHashDecSlotCount (bump ht) p = Some ht' \<and> counted E ht k k0 v0 (c - 1) ht'"
proof -
  note t = table_okD [OF ok] and a = at_keyD [OF at] and n = at_key_count [OF ok at]
  let ?l = "count_limit (b_countsWidth ht)"
  have less: "c < ?l div 2" using n(2) counts by simp
  have "c + (?l - 1) = (c - 1) + ?l" using c less by simp
  then have "(c + (?l - 1)) mod ?l = (c - 1) mod ?l" by simp
  also have "\<dots> = c - 1" using less by simp
  finally have "CFBasicHashDecSlotCount (bump ht) p = Some (recount (bump ht) p (c - 1) (b_countsWidth ht))"
    using a(1) n(4) counts arrays_lengths(3) [OF t(2) counts] by (simp add: CFBasicHashDecSlotCount_def recount_def bump_def)
  moreover have "counted E ht k k0 v0 (c - 1) (recount (bump ht) p (c - 1) (b_countsWidth ht))"
    using recount_counted [OF ok at counts, of "c - 1" "b_countsWidth ht"] c less n(5) counts by simp
  ultimately show ?thesis by simp
qed

subsection \<open>Removing\<close>

lemma empty_bucket_clear:
  assumes ok: "arrays_ok ht" and p: "p < nb ht" "slot_of ht p = Held k0 v0 1"
  shows "empty_bucket ht p =
    Some ((clear (ht\<lparr>b_trace := b_trace ht @ gave_slot ht (slot_of ht p)\<rparr>) p)
      \<lparr>b_used := (b_used ht + (2 ^ 32 - 1)) mod 2 ^ 32, b_deleted := (b_deleted ht + 1) mod 2 ^ 16\<rparr>)"
proof -
  note lens = arrays_lengths [OF ok] and cells = held_cells [OF ok p] and old = slot_HeldD(1,2) [OF p(2)]
  have limit: "Suc (count_limit w - Suc 0) mod count_limit w = 0" for w using count_limit_pos [of w] by (cases "count_limit w") simp_all
  show ?thesis
    using p(1) lens cells old limit unfolding p(2) gave_slot_def
    by (cases "b_hasKeys ht"; cases "b_hasCounts ht"; cases "b_hasHashes ht")
      (simp_all add: empty_bucket_def Let_def CFBasicHashSetValue_at_def CFBasicHashSetKey_at_def CFBasicHashDecSlotCount_def
        eject_value eject_key clear_def gave_value_def gave_key_def)
qed

definition removed :: "hash_env \<Rightarrow> basic_hash \<Rightarrow> nat \<Rightarrow> basic_hash \<Rightarrow> bool" where
  "removed E ht p ht' \<longleftrightarrow>
     table_ok E ht' \<and> entries ht' = entries_but ht p \<and> b_trace ht' = b_trace ht @ gave_slot ht (slot_of ht p) \<and>
     b_used ht' + 1 = b_used ht \<and> alike ht' ht"

text \<open>A rehash that does not grow the table.\<close>

lemma rehash_table:
  assumes ok: "arrays_ok ht" "placed E ht" and law: "lawful E (b_callbacks ht) (b_hasKeys ht)"
    and used: "b_used ht = card (held_slots ht)" and idx: "new_idx ht m = Some idx" "sizes_ok (b_style ht) idx"
      "b_used ht \<le> CFBasicHashGetCapacityForNumBuckets idx"
  shows "\<exists>ht'. CFBasicHashRehash E ht m = Some ht' \<and> table_ok E ht' \<and> entries ht' = entries ht \<and>
    b_trace ht' = b_trace ht \<and> b_used ht' = b_used ht \<and> alike ht' ht"
proof -
  have "idx < 64" using idx(2) by (auto simp: sizes_ok_def)
  then have "card (held_slots ht) \<le> CFBasicHashTableSizes ! idx" using capacity_le_size [of idx] idx(3) used by simp
  from rehash_entries [OF ok law idx(1,2) this]
  obtain ht' where ht': "CFBasicHashRehash E ht m = Some ht'" "rehashed E ht idx (nb ht) ht'" by blast
  note r = rehashedD [OF ht'(2)]
  note same = restD [OF r(6)]
  have "table_ok E ht'" using r same law used idx(3) by (simp add: table_ok_def counters_ok_def CFBasicHashGetCapacity_def)
  then show ?thesis using ht'(1) r same alike_rest [OF r(6)] by simp
qed

theorem RemoveValue_at_ok:
  assumes ok: "table_ok E ht" and p: "p < nb ht" "slot_of ht p = Held k0 v0 1"
  shows "\<exists>ht'. CFBasicHashRemoveValue_at E ht (int p) = Some ht' \<and> removed E ht p ht'"
proof -
  note t = table_okD [OF ok]
  let ?t = "(bump ht)\<lparr>b_trace := b_trace ht @ gave_slot ht (slot_of ht p)\<rparr>"
  let ?ht5 = "(clear ?t p)\<lparr>b_used := (b_used ht + (2 ^ 32 - 1)) mod 2 ^ 32, b_deleted := (b_deleted ht + 1) mod 2 ^ 16\<rparr>"
  have tok: "arrays_ok ?t" "placed E ?t" "p < nb ?t" using t p by simp_all
  have gave: "gave_slot (bump ht) s = gave_slot ht s" for s
    by (cases s) (simp_all add: gave_slot_def gave_value_def gave_key_def bump_def)
  have empty: "empty_bucket (bump ht) p = Some ?ht5"
    using empty_bucket_clear [of "bump ht" p k0 v0] t(2) p by (simp add: gave)
  have "p \<in> held_slots ht" "p \<notin> gone_slots ht" "finite (held_slots ht)" "finite (gone_slots ht)"
    using p by (simp_all add: held_slots_def gone_slots_def)
  then have cards: "card (held_slots ht) = Suc (card (held_slots ht - {p}))" "card (insert p (gone_slots ht)) = Suc (card (gone_slots ht))"
    using card_Suc_Diff1 by (metis, simp)
  have used: "(b_used ht + (2 ^ 32 - 1)) mod 2 ^ 32 = b_used ht - 1 \<and> b_used ht = Suc (b_used ht - 1)"
    using t(4,5) cards(1) capacity_32 [OF t(2)] by (cases "b_used ht") simp_all
  have h5: "arrays_ok ?ht5" "placed E ?ht5" "entries ?ht5 = entries_but ht p" "b_used ?ht5 = card (held_slots ?ht5)"
    "b_used ?ht5 + 1 = b_used ht" "b_trace ?ht5 = b_trace ht @ gave_slot ht (slot_of ht p)" "alike ?ht5 ht"
    "CFBasicHashGetCapacity ?ht5 = CFBasicHashGetCapacity ht" "gone_slots ?ht5 = insert p (gone_slots ht)"
    using arrays_clear [OF tok(1,3)] placed_clear [OF tok] entries_clear [OF tok(1,3)] held_clear [OF tok(1,3)] used t(4) cards(1)
    by (simp_all del: One_nat_def)
  have law: "lawful E (b_callbacks ?ht5) (b_hasKeys ?ht5)" using t(1) by simp
  have le: "b_used ?ht5 \<le> CFBasicHashGetCapacityForNumBuckets (b_idx ?ht5)" "b_idx ?ht5 = b_idx ht" "b_style ?ht5 = b_style ht"
    using h5(5) t(5) by (simp_all add: CFBasicHashGetCapacity_def del: One_nat_def)
  have sizes: "sizes_ok (b_style ?ht5) (b_idx ?ht5)" using arrays_lengths(6) [OF h5(1)] .
  have "b_idx ?ht5 < 64" using sizes by (auto simp: sizes_ok_def)
  from index_exists [OF le(1) this] obtain idx where
    idx: "idx \<le> b_idx ?ht5" "CFBasicHashGetNumBucketsIndexForCapacity (b_used ?ht5) = Some idx" by blast
  have shrink: "new_idx ?ht5 (-1) = Some idx" using idx(2) by (simp add: new_idx_def)
  have clean: "new_idx ?ht5 0 = Some (b_idx ?ht5)" by (simp add: new_idx_def)
  let ?goal = "\<lambda>ht'. table_ok E ht' \<and> entries ht' = entries ?ht5 \<and> b_trace ht' = b_trace ?ht5 \<and>
    b_used ht' = b_used ?ht5 \<and> alike ht' ?ht5"
  consider "shrink_needed ?ht5" | "\<not> shrink_needed ?ht5" "clean_needed ?ht5" | "\<not> shrink_needed ?ht5" "\<not> clean_needed ?ht5" by blast
  then have "\<exists>ht'. CFBasicHashRemoveValue_at E ht (int p) = Some ht' \<and> ?goal ht'"
  proof cases
    case 1
    then show ?thesis
      using rehash_table [OF h5(1,2) law h5(4) shrink sizes_ok_mono [OF sizes idx(1)] index_for_capacity(1) [OF idx(2)]] empty
      by (simp add: CFBasicHashRemoveValue_at_def)
  next
    case 2
    then show ?thesis using rehash_table [OF h5(1,2) law h5(4) clean sizes le(1)] empty
      by (simp add: CFBasicHashRemoveValue_at_def)
  next
    case 3
    have "b_deleted ?ht5 \<noteq> 0" using 3(2) by (simp add: clean_needed_def)
    then have "b_deleted ht + 1 \<noteq> 2 ^ 16" by auto
    then have "b_deleted ?ht5 = card (gone_slots ?ht5)" "b_deleted ?ht5 < 2 ^ 16" using t(6,7) cards(2) h5(9) by simp_all
    then have "table_ok E ?ht5" using h5 law t(5) by (simp add: table_ok_def counters_ok_def del: One_nat_def)
    then show ?thesis using 3 empty by (simp add: CFBasicHashRemoveValue_at_def)
  qed
  then obtain ht' where "CFBasicHashRemoveValue_at E ht (int p) = Some ht'" "?goal ht'" by blast
  then show ?thesis using h5(3,5,6,7) alike_trans [of ht' ?ht5 ht] unfolding removed_def by metis
qed

end
