(* ===== verification/BasicHashMap.thy ===== *)
theory BasicHashMap
  imports BasicHashEdits
begin

text \<open>
  The operations of a table as operations on an abstract map: from a key to the stored key, the value and the
  number of copies, where equal keys have the same entry.
\<close>

subsection \<open>The abstract map\<close>

type_synonym entry = "uintptr \<times> uintptr \<times> nat"

definition put_key :: "hash_env \<Rightarrow> hash_callbacks \<Rightarrow> uintptr \<Rightarrow> entry option \<Rightarrow> (uintptr \<Rightarrow> entry option) \<Rightarrow> uintptr \<Rightarrow> entry option" where
  "put_key E cb k e m = (\<lambda>x. if same_key E cb k x then e else m x)"

text \<open>The outcome of adding and of removing one copy.\<close>

definition add_entry :: "bool \<Rightarrow> entry option \<Rightarrow> uintptr \<Rightarrow> uintptr \<Rightarrow> bool \<times> entry option" where
  "add_entry counts e k v =
     (case e of None \<Rightarrow> (True, Some (k, v, 1))
      | Some (k0, v0, c) \<Rightarrow> if counts \<and> c < 2 ^ 63 - 1 then (True, Some (k0, v0, c + 1)) else (False, e))"

definition remove_entry :: "bool \<Rightarrow> entry option \<Rightarrow> nat \<times> entry option" where
  "remove_entry counts e =
     (case e of None \<Rightarrow> (0, None)
      | Some (k0, v0, c) \<Rightarrow>
          if c = 1 then (c, None) else if counts \<and> c < 2 ^ 63 - 1 then (c, Some (k0, v0, c - 1)) else (c, e))"

definition entry_count :: "entry option \<Rightarrow> nat" where
  "entry_count e = (case e of None \<Rightarrow> 0 | Some (k, v, c) \<Rightarrow> c)"

lemma entries_lookup:
  assumes "table_ok E ht"
  shows "lookup E ht k = Some (k0, v0, c) \<longleftrightarrow> (k0, v0, c) \<in> entries ht \<and> same_key E (b_callbacks ht) k0 k"
  using lookup_Some_iff [OF table_okD(3,1) [OF assms]] .

lemma lookup_put:
  assumes ok: "table_ok E ht" "table_ok E ht'" and cb: "b_callbacks ht' = b_callbacks ht"
    and e: "entries ht' = insert (k0, v0, c) (other_entries E ht k)" and same: "same_key E (b_callbacks ht) k0 k"
  shows "lookup E ht' = put_key E (b_callbacks ht) k (Some (k0, v0, c)) (lookup E ht)"
proof
  fix x
  note law = table_okD(1) [OF ok(1)]
  show "lookup E ht' x = put_key E (b_callbacks ht) k (Some (k0, v0, c)) (lookup E ht) x"
  proof (cases "same_key E (b_callbacks ht) k x")
    case True
    then have "lookup E ht' x = Some (k0, v0, c)" using entries_lookup [OF ok(2)] lawful_trans [OF law same True] e cb by simp
    then show ?thesis using True by (simp add: put_key_def)
  next
    case False
    have iff: "lookup E ht' x = Some (a, b, d) \<longleftrightarrow> lookup E ht x = Some (a, b, d)" for a b d
    proof -
      have no: "\<not> same_key E (b_callbacks ht) a k" if "same_key E (b_callbacks ht) a x"
        using False that lawful_sym [OF law] lawful_trans [OF law] by blast
      then have "(a, b, d) \<noteq> (k0, v0, c)" if "same_key E (b_callbacks ht) a x" using same that by auto
      then show ?thesis using entries_lookup [OF ok(1)] entries_lookup [OF ok(2)] no e cb by (auto simp: other_entries_def)
    qed
    have "lookup E ht' x = lookup E ht x"
    proof (cases "lookup E ht x")
      case None
      then show ?thesis using iff by (cases "lookup E ht' x") auto
    next
      case (Some f)
      then show ?thesis using iff by (cases f) auto
    qed
    then show ?thesis using False by (simp add: put_key_def)
  qed
qed

lemma lookup_delete:
  assumes ok: "table_ok E ht" "table_ok E ht'" and cb: "b_callbacks ht' = b_callbacks ht"
    and e: "entries ht' = other_entries E ht k"
  shows "lookup E ht' = put_key E (b_callbacks ht) k None (lookup E ht)"
proof
  fix x
  note law = table_okD(1) [OF ok(1)]
  have iff: "lookup E ht' x = Some (a, b, d) \<longleftrightarrow> lookup E ht x = Some (a, b, d) \<and> \<not> same_key E (b_callbacks ht) k x" for a b d
  proof -
    have "same_key E (b_callbacks ht) a k \<longleftrightarrow> same_key E (b_callbacks ht) k x" if "same_key E (b_callbacks ht) a x"
      using that lawful_sym [OF law] lawful_trans [OF law] by blast
    then show ?thesis using entries_lookup [OF ok(1)] entries_lookup [OF ok(2)] e cb by (auto simp: other_entries_def)
  qed
  show "lookup E ht' x = put_key E (b_callbacks ht) k None (lookup E ht) x"
  proof (cases "lookup E ht' x")
    case None
    then show ?thesis using iff by (cases "lookup E ht x") (auto simp: put_key_def)
  next
    case (Some f)
    then show ?thesis using iff [of "fst f" "fst (snd f)" "snd (snd f)"] by (simp add: put_key_def)
  qed
qed

lemma put_same: "lawful E cb hk \<Longrightarrow> (\<And>x. same_key E cb k x \<Longrightarrow> m x = e) \<Longrightarrow> put_key E cb k e m = m"
  by (auto simp: put_key_def)

lemma lookup_same_key:
  assumes ok: "table_ok E ht" and same: "same_key E (b_callbacks ht) k x"
  shows "lookup E ht x = lookup E ht k"
proof -
  note law = table_okD(1) [OF ok]
  have iff: "lookup E ht x = Some (a, b, d) \<longleftrightarrow> lookup E ht k = Some (a, b, d)" for a b d
    using entries_lookup [OF ok] same lawful_sym [OF law] lawful_trans [OF law] by blast
  show ?thesis
  proof (cases "lookup E ht k")
    case None
    then show ?thesis using iff by (cases "lookup E ht x") auto
  next
    case (Some f)
    then show ?thesis using iff by (cases f) auto
  qed
qed

lemma put_lookup: "table_ok E ht \<Longrightarrow> put_key E (b_callbacks ht) k (lookup E ht k) (lookup E ht) = lookup E ht"
  by (auto simp: put_key_def lookup_same_key)

lemma other_entries_none: "lookup E ht k = None \<Longrightarrow> other_entries E ht k = entries ht"
  using lookup_NoneD [of E ht k] by (auto simp: other_entries_def)

subsection \<open>Searching\<close>

lemma find_present:
  assumes ok: "table_ok E ht" and l: "lookup E ht k = Some (k0, v0, c)"
  shows "\<exists>p. at_key E ht k p k0 v0 c \<and> FindBucket E ht k = Some \<lparr>bk_idx = int p, bk_key = k0, bk_value = v0, bk_count = c\<rparr>"
proof -
  note t = table_okD [OF ok]
  have e: "(k0, v0, c) \<in> entries ht" "same_key E (b_callbacks ht) k0 k" using l entries_lookup [OF ok] by blast+
  then obtain p where p: "p < nb ht" "slot_of ht p = Held k0 v0 c" by (auto simp: entries_def)
  then show ?thesis using FindBucket_held [OF t(2,3,1) p e(2)] e(2) by (auto simp: at_key_def)
qed

lemma find_absent:
  assumes ok: "table_ok E ht" and l: "lookup E ht k = None"
  shows "\<exists>x. FindBucket E ht k = Some (no_bucket x) \<and> vacant_result E ht k x"
proof -
  note t = table_okD [OF ok]
  have none: "\<not> same_key E (b_callbacks ht) a k" if "i < nb ht" "slot_of ht i = Held a b e" for i a b e
    using lookup_NoneD [OF l entriesI [OF that]] .
  show ?thesis unfolding vacant_result_def by (rule FindBucket_vacant [OF t(2,3,1)]) (rule none)
qed

lemma FindBucket_lookup:
  assumes "table_ok E ht"
  shows "\<exists>bkt. FindBucket E ht k = Some bkt \<and> bk_count bkt = entry_count (lookup E ht k) \<and>
    (\<forall>k0 v0 c. lookup E ht k = Some (k0, v0, c) \<longrightarrow> 0 < c \<and> bk_key bkt = k0 \<and> bk_value bkt = v0)"
proof (cases "lookup E ht k")
  case None
  then show ?thesis using find_absent [OF assms None] by (auto simp: no_bucket_def entry_count_def)
next
  case (Some e)
  then obtain k0 v0 c where e: "lookup E ht k = Some (k0, v0, c)" by (cases e) auto
  obtain p where "at_key E ht k p k0 v0 c" "FindBucket E ht k = Some \<lparr>bk_idx = int p, bk_key = k0, bk_value = v0, bk_count = c\<rparr>"
    using find_present [OF assms e] by blast
  then show ?thesis using e at_key_count(1) [OF assms] by (auto simp: entry_count_def)
qed

lemma no_entries: "table_ok E ht \<Longrightarrow> b_used ht = 0 \<Longrightarrow> entries ht = {}"
  using table_okD(4) [of E ht] by (auto simp: held_slots_def entries_def)

lemma CFBasicHashGetCountOfKey_lookup:
  assumes ok: "table_ok E ht" and k: "\<not> is_sub k"
  shows "CFBasicHashGetCountOfKey E ht k = Some (entry_count (lookup E ht k))"
proof (cases "b_used ht = 0")
  case True
  then have "lookup E ht k = None" using no_entries [OF ok] by (simp add: lookup_None)
  then show ?thesis using True k by (simp add: CFBasicHashGetCountOfKey_def entry_count_def)
next
  case False
  then show ?thesis using FindBucket_lookup [OF ok, of k] k by (auto simp: CFBasicHashGetCountOfKey_def)
qed

subsection \<open>Changing\<close>

text \<open>What a caller has to observe: the words are not the substitutes; in a set the key is the value.\<close>

definition may_store :: "basic_hash \<Rightarrow> uintptr \<Rightarrow> uintptr \<Rightarrow> bool" where
  "may_store ht k v \<longleftrightarrow> \<not> halts ht k v \<and> (b_hasKeys ht \<or> v = k)"

lemma may_storeD:
  assumes "may_store ht k v"
  shows "\<not> halts ht k v" "\<not> is_sub k" "\<not> is_sub v" "b_hasKeys ht \<or> v = k"
  using assms by (auto simp: may_store_def halts_def)

lemma AddValue_absent:
  assumes ok: "table_ok E ht" and room: "roomy ht" and k: "may_store ht k v" and l: "lookup E ht k = None"
  shows "\<exists>ht'. CFBasicHashAddValue E ht k v = Some (True, ht') \<and> added E ht k v ht'"
    and "\<exists>ht'. CFBasicHashSetValue E ht k v = Some ht' \<and> added E ht k v ht'"
proof -
  obtain x where x: "FindBucket E ht k = Some (no_bucket x)" "vacant_result E ht k x" using find_absent [OF ok l] by blast
  note s = may_storeD [OF k]
  obtain ht' where ht': "CFBasicHashAddValue_at E ht x k v = Some ht'" "added E ht k v ht'"
    using AddValue_at_ok [OF ok room x(2) s(2,3,4) l] by blast
  then show "\<exists>ht'. CFBasicHashAddValue E ht k v = Some (True, ht') \<and> added E ht k v ht'"
    "\<exists>ht'. CFBasicHashSetValue E ht k v = Some ht' \<and> added E ht k v ht'"
    using s(1) x(1) by (simp_all add: CFBasicHashAddValue_def CFBasicHashSetValue_def no_bucket_def)
qed

lemma AddValue_present:
  assumes ok: "table_ok E ht" and k: "may_store ht k v" and l: "lookup E ht k = Some (k0, v0, c)"
  shows "b_hasCounts ht \<Longrightarrow> c < 2 ^ 63 - 1 \<Longrightarrow>
      \<exists>ht'. CFBasicHashAddValue E ht k v = Some (True, ht') \<and> counted E ht k k0 v0 (c + 1) ht'"
    and "\<not> (b_hasCounts ht \<and> c < 2 ^ 63 - 1) \<Longrightarrow> CFBasicHashAddValue E ht k v = Some (False, bump ht)"
proof -
  obtain p where p: "at_key E ht k p k0 v0 c"
    "FindBucket E ht k = Some \<lparr>bk_idx = int p, bk_key = k0, bk_value = v0, bk_count = c\<rparr>" using find_present [OF ok l] by blast
  note s = may_storeD [OF k] and n = at_key_count(1) [OF ok p(1)]
  show "\<exists>ht'. CFBasicHashAddValue E ht k v = Some (True, ht') \<and> counted E ht k k0 v0 (c + 1) ht'"
    if "b_hasCounts ht" "c < 2 ^ 63 - 1"
    using IncSlotCount_counted [OF ok p(1) that] that s(1) p(2) n by (auto simp: CFBasicHashAddValue_def)
  show "CFBasicHashAddValue E ht k v = Some (False, bump ht)" if "\<not> (b_hasCounts ht \<and> c < 2 ^ 63 - 1)"
    using that s(1) p(2) n by (auto simp: CFBasicHashAddValue_def)
qed

lemma SetValue_present:
  assumes ok: "table_ok E ht" and k: "may_store ht k v" and l: "lookup E ht k = Some (k0, v0, c)"
  shows "\<exists>ht'. CFBasicHashSetValue E ht k v = Some ht' \<and> entry_replaced E ht k v (Held k0 v0 c) c ht'"
    and "\<exists>ht'. CFBasicHashReplaceValue E ht k v = Some ht' \<and> entry_replaced E ht k v (Held k0 v0 c) c ht'"
proof -
  obtain p where p: "at_key E ht k p k0 v0 c"
    "FindBucket E ht k = Some \<lparr>bk_idx = int p, bk_key = k0, bk_value = v0, bk_count = c\<rparr>" using find_present [OF ok l] by blast
  note s = may_storeD [OF k] and n = at_key_count(1) [OF ok p(1)]
  obtain ht' where "CFBasicHashReplaceValue_at E ht (int p) k v = Some ht'" "entry_replaced E ht k v (Held k0 v0 c) c ht'"
    using ReplaceValue_at_ok [OF ok p(1) s(2,3,4)] at_keyD(2) [OF p(1)] by auto
  then show "\<exists>ht'. CFBasicHashSetValue E ht k v = Some ht' \<and> entry_replaced E ht k v (Held k0 v0 c) c ht'"
    "\<exists>ht'. CFBasicHashReplaceValue E ht k v = Some ht' \<and> entry_replaced E ht k v (Held k0 v0 c) c ht'"
    using s(1) p(2) n by (simp_all add: CFBasicHashSetValue_def CFBasicHashReplaceValue_def)
qed

lemma ReplaceValue_absent:
  assumes "table_ok E ht" "may_store ht k v" "lookup E ht k = None"
  shows "CFBasicHashReplaceValue E ht k v = Some ht"
  using find_absent [OF assms(1,3)] may_storeD(1) [OF assms(2)] by (auto simp: CFBasicHashReplaceValue_def no_bucket_def)

lemma RemoveValue_absent:
  assumes "table_ok E ht" "b_mutable ht" "lookup E ht k = None"
  shows "CFBasicHashRemoveValue E ht k = Some (0, ht)"
  using find_absent [OF assms(1,3)] assms(2) by (auto simp: CFBasicHashRemoveValue_def remove_bucket_def no_bucket_def)

lemma RemoveValue_present:
  assumes ok: "table_ok E ht" and m: "b_mutable ht" "\<not> is_sub k" and l: "lookup E ht k = Some (k0, v0, c)"
  shows "c = 1 \<Longrightarrow> \<exists>p ht'. at_key E ht k p k0 v0 1 \<and> CFBasicHashRemoveValue E ht k = Some (1, ht') \<and> removed E ht p ht'"
    and "1 < c \<Longrightarrow> b_hasCounts ht \<Longrightarrow> c < 2 ^ 63 - 1 \<Longrightarrow>
      \<exists>ht'. CFBasicHashRemoveValue E ht k = Some (c, ht') \<and> counted E ht k k0 v0 (c - 1) ht'"
    and "1 < c \<Longrightarrow> \<not> (b_hasCounts ht \<and> c < 2 ^ 63 - 1) \<Longrightarrow> CFBasicHashRemoveValue E ht k = Some (c, bump ht)"
proof -
  obtain p where p: "at_key E ht k p k0 v0 c"
    "FindBucket E ht k = Some \<lparr>bk_idx = int p, bk_key = k0, bk_value = v0, bk_count = c\<rparr>" using find_present [OF ok l] by blast
  note a = at_keyD [OF p(1)]
  have op: "CFBasicHashRemoveValue E ht k = remove_bucket E ht \<lparr>bk_idx = int p, bk_key = k0, bk_value = v0, bk_count = c\<rparr>"
    using m p(2) by (simp add: CFBasicHashRemoveValue_def)
  show "\<exists>p ht'. at_key E ht k p k0 v0 1 \<and> CFBasicHashRemoveValue E ht k = Some (1, ht') \<and> removed E ht p ht'" if "c = 1"
  proof -
    have "slot_of ht p = Held k0 v0 1" using a(2) that by simp
    then obtain ht' where "CFBasicHashRemoveValue_at E ht (int p) = Some ht'" "removed E ht p ht'"
      using RemoveValue_at_ok [OF ok a(1)] by blast
    then show ?thesis using p(1) op that by (auto simp: remove_bucket_def)
  qed
  show "\<exists>ht'. CFBasicHashRemoveValue E ht k = Some (c, ht') \<and> counted E ht k k0 v0 (c - 1) ht'"
    if "1 < c" "b_hasCounts ht" "c < 2 ^ 63 - 1"
    using DecSlotCount_counted [OF ok p(1) that(2,1)] op that by (auto simp: remove_bucket_def)
  show "CFBasicHashRemoveValue E ht k = Some (c, bump ht)" if "1 < c" "\<not> (b_hasCounts ht \<and> c < 2 ^ 63 - 1)"
    using op that by (auto simp: remove_bucket_def)
qed

end
