(* ===== verification/BasicHashReferences.thy ===== *)
theory BasicHashReferences
  imports BasicHashMap "HOL-Library.Multiset"
begin

text \<open>
  The references a table takes and gives up. At every moment what it took is what it gave up and what it owes for
  its entries; emptying it pays the debt.
\<close>

subsection \<open>Sums over the entries\<close>

definition slot_triple :: "slot \<Rightarrow> entry" where
  "slot_triple s = (case s of Held k v c \<Rightarrow> (k, v, c) | _ \<Rightarrow> (0, 0, 0))"

lemma entries_image: "entries ht = (\<lambda>i. slot_triple (slot_of ht i)) ` held_slots ht"
proof
  show "entries ht \<subseteq> (\<lambda>i. slot_triple (slot_of ht i)) ` held_slots ht"
    by (force simp: entries_def held_slots_def slot_triple_def image_iff)
  show "(\<lambda>i. slot_triple (slot_of ht i)) ` held_slots ht \<subseteq> entries ht"
  proof
    fix e assume "e \<in> (\<lambda>i. slot_triple (slot_of ht i)) ` held_slots ht"
    then obtain i where "i \<in> held_slots ht" "e = slot_triple (slot_of ht i)" by blast
    then show "e \<in> entries ht" by (cases "slot_of ht i") (auto simp: slot_triple_def held_slots_def entries_def)
  qed
qed

lemma triple_inj: "placed E ht \<Longrightarrow> inj_on (\<lambda>i. slot_triple (slot_of ht i)) (held_slots ht)"
proof (rule inj_onI)
  fix i j assume ok: "placed E ht" "i \<in> held_slots ht" "j \<in> held_slots ht" "slot_triple (slot_of ht i) = slot_triple (slot_of ht j)"
  obtain k v c where k: "slot_of ht i = Held k v c" using ok(2) by (cases "slot_of ht i") (auto simp: held_slots_def)
  obtain k' v' c' where k': "slot_of ht j = Held k' v' c'" using ok(3) by (cases "slot_of ht j") (auto simp: held_slots_def)
  have "same_key E (b_callbacks ht) k k'" using ok(4) k k' by (simp add: slot_triple_def)
  then show "i = j" using placed_unique [OF ok(1) _ _ k k'] ok(2,3) by (simp add: held_slots_def)
qed

lemma finite_held [simp]: "finite (held_slots ht)" and finite_entries [simp]: "finite (entries ht)"
  by (simp_all add: entries_image held_slots_def)

lemma sum_entries:
  fixes f :: "entry \<Rightarrow> 'a :: comm_monoid_add"
  assumes "placed E ht"
  shows "(\<Sum>e \<in> entries ht. f e) = (\<Sum>i < nb ht. case slot_of ht i of Held k v c \<Rightarrow> f (k, v, c) | _ \<Rightarrow> 0)"
proof -
  let ?g = "\<lambda>i. case slot_of ht i of Held k v c \<Rightarrow> f (k, v, c) | _ \<Rightarrow> 0"
  have "(\<Sum>e \<in> entries ht. f e) = (\<Sum>i \<in> held_slots ht. f (slot_triple (slot_of ht i)))"
    by (simp add: entries_image sum.reindex [OF triple_inj [OF assms]])
  also have "\<dots> = (\<Sum>i \<in> held_slots ht. ?g i)"
    by (rule sum.cong) (auto simp: held_slots_def slot_triple_def split: slot.split)
  also have "\<dots> = (\<Sum>i < nb ht. ?g i)"
    by (rule sum.mono_neutral_left) (auto simp: held_slots_def split: slot.split)
  finally show ?thesis .
qed

lemma card_entries: "placed E ht \<Longrightarrow> card (entries ht) = card (held_slots ht)"
  using card_image [OF triple_inj] by (simp add: entries_image)

subsection \<open>Taken, given and owed\<close>

fun release_for :: "hash_event \<Rightarrow> hash_event option" where
  "release_for (RetainedValue v) = Some (ReleasedValue v)"
| "release_for (RetainedKey k) = Some (ReleasedKey k)"
| "release_for _ = None"

definition taken :: "hash_event list \<Rightarrow> hash_event multiset" where
  "taken tr = mset (List.map_filter release_for tr)"

definition given :: "hash_event list \<Rightarrow> hash_event multiset" where
  "given tr = mset (filter (\<lambda>ev. release_for ev = None) tr)"

definition gave_entry :: "basic_hash \<Rightarrow> entry \<Rightarrow> hash_event list" where
  "gave_entry ht e = (case e of (k, v, c) \<Rightarrow> gave_slot ht (Held k v c))"

definition owed :: "basic_hash \<Rightarrow> hash_event multiset" where
  "owed ht = (\<Sum>e \<in> entries ht. mset (gave_entry ht e))"

definition refs_balanced :: "basic_hash \<Rightarrow> bool" where
  "refs_balanced ht \<longleftrightarrow> taken (b_trace ht) = given (b_trace ht) + owed ht"

text \<open>Callbacks come in pairs, and reference counting is not suppressed.\<close>

definition paired :: "basic_hash \<Rightarrow> bool" where
  "paired ht \<longleftrightarrow> \<not> b_nullRC ht \<and>
     (kcb_retainValue (b_callbacks ht) = None \<longleftrightarrow> kcb_releaseValue (b_callbacks ht) = None) \<and>
     (kcb_retainKey (b_callbacks ht) = None \<longleftrightarrow> kcb_releaseKey (b_callbacks ht) = None)"

lemma taken_append [simp]: "taken (a @ b) = taken a + taken b" "taken [] = {#}"
  by (simp_all add: taken_def map_filter_def)

lemma given_append [simp]: "given (a @ b) = given a + given b" "given [] = {#}"
  by (simp_all add: given_def)

lemma took_taken:
  "paired ht \<Longrightarrow> taken (took_value E ht v) = mset (gave_value ht (kept_value E ht v))"
  "paired ht \<Longrightarrow> taken (took_key E ht k) = mset (gave_key ht (kept_key E ht k))"
  "given (took_value E ht v) = {#}" "given (took_key E ht k) = {#}"
  by (auto simp: paired_def took_value_def took_key_def gave_value_def gave_key_def taken_def given_def map_filter_def)

lemma gave_given:
  "given (gave_value ht v) = mset (gave_value ht v)" "given (gave_key ht k) = mset (gave_key ht k)"
  "taken (gave_value ht v) = {#}" "taken (gave_key ht k) = {#}"
  by (auto simp: gave_value_def gave_key_def taken_def given_def map_filter_def)

lemma gave_slot_given: "given (gave_slot ht s) = mset (gave_slot ht s)" "taken (gave_slot ht s) = {#}"
  by (auto simp: gave_slot_def gave_given split: slot.split)

lemma took_entry_taken:
  "paired ht \<Longrightarrow> taken (took_entry E ht k v) = mset (gave_entry ht (new_key E ht k v, kept_value E ht v, c))"
  "given (took_entry E ht k v) = {#}"
  by (simp_all add: took_entry_def took_taken gave_entry_def gave_slot_def new_key_def)

lemma gave_entry_keeps: "alike ht' ht \<Longrightarrow> gave_entry ht' = gave_entry ht"
  by (auto simp: alike_def gave_entry_def gave_slot_def gave_value_def gave_key_def fun_eq_iff)

lemma paired_keeps: "alike ht' ht \<Longrightarrow> paired ht' = paired ht"
  by (simp add: alike_def paired_def)

lemma gave_entry_count: "gave_entry ht (k, v, c) = gave_entry ht (k, v, d)"
  by (simp add: gave_entry_def gave_slot_def)

lemma finite_other [simp]: "finite (other_entries E ht k)"
  by (rule finite_subset [of _ "entries ht"]) (auto simp: other_entries_def)

lemma owed_insert:
  assumes "entries ht' = insert (k0, v0, c) (other_entries E ht k)" and "same_key E (b_callbacks ht) k0 k" and "alike ht' ht"
  shows "owed ht' = mset (gave_entry ht (k0, v0, c)) + (\<Sum>e \<in> other_entries E ht k. mset (gave_entry ht e))"
proof -
  have "(k0, v0, c) \<notin> other_entries E ht k" using assms(2) by (simp add: other_entries_def)
  then show ?thesis by (simp add: owed_def assms(1) gave_entry_keeps [OF assms(3)])
qed

lemma entries_of_key:
  assumes "table_ok E ht" and "lookup E ht k = Some (k0, v0, c)"
  shows "entries ht = insert (k0, v0, c) (other_entries E ht k)" "same_key E (b_callbacks ht) k0 k"
proof -
  note t = table_okD [OF assms(1)]
  have e: "(k0, v0, c) \<in> entries ht" "same_key E (b_callbacks ht) k0 k" using entries_lookup [OF assms(1)] assms(2) by blast+
  have "a = k0 \<and> b = v0 \<and> d = c" if "(a, b, d) \<in> entries ht" "same_key E (b_callbacks ht) a k" for a b d
    using entries_unique [OF t(3) that(1) e(1)] lawful_trans [OF t(1) that(2)] lawful_sym [OF t(1) e(2)] by blast
  then show "entries ht = insert (k0, v0, c) (other_entries E ht k)" using e(1) by (auto simp: other_entries_def)
  show "same_key E (b_callbacks ht) k0 k" by (rule e(2))
qed

subsection \<open>The balance is kept\<close>

lemma balanced_added:
  assumes ok: "table_ok E ht" and p: "paired ht" "refs_balanced ht" and k: "may_store ht k v" and l: "lookup E ht k = None"
    and a: "added E ht k v ht'"
  shows "refs_balanced ht'"
proof -
  note s = may_storeD [OF k]
  have "same_key E (b_callbacks ht) (new_key E ht k v) k" using new_key_ok [OF table_okD(1) [OF ok] s(2,3,4)] by blast
  moreover have "entries ht' = insert (new_key E ht k v, kept_value E ht v, 1) (other_entries E ht k)" "alike ht' ht"
    using a other_entries_none [OF l] by (simp_all add: added_def)
  ultimately have "owed ht' = mset (gave_entry ht (new_key E ht k v, kept_value E ht v, 1)) +
      (\<Sum>e \<in> other_entries E ht k. mset (gave_entry ht e))" by (intro owed_insert)
  then have "owed ht' = mset (gave_entry ht (new_key E ht k v, kept_value E ht v, 1)) + owed ht"
    by (simp add: owed_def other_entries_none [OF l])
  then show ?thesis using p(2) took_entry_taken(1) [OF p(1), of E k v 1] took_entry_taken(2) a
    by (simp add: refs_balanced_def added_def)
qed

lemma balanced_replaced:
  assumes ok: "table_ok E ht" and p: "paired ht" "refs_balanced ht" and k: "may_store ht k v" and l: "lookup E ht k = Some (k0, v0, c)"
    and a: "entry_replaced E ht k v (Held k0 v0 c) c ht'"
  shows "refs_balanced ht'"
proof -
  note s = may_storeD [OF k]
  let ?other = "\<Sum>e \<in> other_entries E ht k. mset (gave_entry ht e)"
  have "same_key E (b_callbacks ht) (new_key E ht k v) k" using new_key_ok [OF table_okD(1) [OF ok] s(2,3,4)] by blast
  then have "owed ht' = mset (gave_entry ht (new_key E ht k v, kept_value E ht v, c)) + ?other"
    using a owed_insert by (simp add: entry_replaced_def)
  moreover have "owed ht = mset (gave_entry ht (k0, v0, c)) + ?other"
    using owed_insert [OF entries_of_key [OF ok l]] by simp
  ultimately show ?thesis
    using p(2) took_entry_taken(1) [OF p(1), of E k v c] took_entry_taken(2) gave_slot_given a
    by (simp add: refs_balanced_def entry_replaced_def gave_entry_def)
qed

lemma balanced_counted:
  assumes ok: "table_ok E ht" and p: "refs_balanced ht" and l: "lookup E ht k = Some (k0, v0, c)"
    and a: "counted E ht k k0 v0 d ht'"
  shows "refs_balanced ht'"
proof -
  note e = entries_of_key [OF ok l]
  have "owed ht' = mset (gave_entry ht (k0, v0, d)) + (\<Sum>e \<in> other_entries E ht k. mset (gave_entry ht e))"
    using a owed_insert [OF _ e(2)] by (simp add: counted_def)
  also have "\<dots> = owed ht" using owed_insert [OF e, of] gave_entry_count [of ht k0 v0 d c] by simp
  finally show ?thesis using p a by (simp add: refs_balanced_def counted_def)
qed

lemma balanced_removed:
  assumes ok: "table_ok E ht" and p: "refs_balanced ht" and at: "at_key E ht k p k0 v0 c" and a: "removed E ht p ht'"
  shows "refs_balanced ht'"
proof -
  note t = table_okD [OF ok] and k = at_keyD [OF at]
  have "(k0, v0, c) \<in> entries ht" by (rule entriesI [OF k(1,2)])
  then have l: "lookup E ht k = Some (k0, v0, c)" using entries_lookup [OF ok] k(3) by blast
  have "owed ht' = (\<Sum>e \<in> other_entries E ht k. mset (gave_entry ht e))"
    using a at_key_but [OF ok at] gave_entry_keeps [of ht' ht] by (simp add: removed_def owed_def)
  then show ?thesis using p a owed_insert [OF entries_of_key [OF ok l]] gave_slot_given k(2)
    by (simp add: refs_balanced_def removed_def gave_entry_def)
qed

lemma balanced_bump: "refs_balanced (bump ht) = refs_balanced ht"
  by (simp add: refs_balanced_def owed_def gave_entry_keeps [of "bump ht" ht])

subsection \<open>Emptying a table\<close>

lemma drain_step_gave:
  assumes "arrays_ok old" "i < nb old" "gave_slot ht = gave_slot old" "b_hasKeys ht = b_hasKeys old"
  shows "drain_step old i ht = Some (ht\<lparr>b_trace := b_trace ht @ gave_slot old (slot_of old i)\<rparr>)"
proof -
  note lens = arrays_lengths [OF assms(1)]
  show ?thesis
  proof (cases "slot_of old i")
    case (Held k v c)
    note cells = slot_HeldD(1,2,4) [OF Held] held_cells(1-3) [OF assms(1,2) Held]
    have "gave_slot ht (Held k v c) = gave_slot old (Held k v c)" using assms(3) by simp
    then have gave: "gave_value ht v @ (if b_hasKeys old then gave_key ht k else []) = gave_slot old (Held k v c)"
      using assms(4) by (simp add: gave_slot_def)
    show ?thesis unfolding Held gave [symmetric] using cells lens assms(2)
      by (simp add: drain_step_def Let_def eject_value eject_key)
  qed (use held_iff [of old i] lens assms(2) in \<open>auto simp: drain_step_def gave_slot_def\<close>)
qed

lemma drain_gave:
  assumes ok: "arrays_ok ht"
  shows "CFBasicHashDrain ht =
    Some ((bump ht)\<lparr>b_idx := 0, b_used := 0, b_deleted := 0, b_values := [], b_keys := [], b_counts := [], b_hashes := [],
      b_trace := b_trace ht @ concat (map (\<lambda>i. gave_slot ht (slot_of ht i)) [0..<nb ht])\<rparr>)"
proof -
  let ?s = "(bump ht)\<lparr>b_idx := 0, b_used := 0, b_deleted := 0, b_values := [], b_keys := [], b_counts := [], b_hashes := []\<rparr>"
  let ?P = "\<lambda>j s. s = ?s\<lparr>b_trace := b_trace ht @ concat (map (\<lambda>i. gave_slot ht (slot_of ht i)) [0..<j])\<rparr>"
  have step: "\<exists>s'. drain_step ht j s = Some s' \<and> ?P (Suc j) s'" if j: "j < nb ht" and s: "?P j s" for j s
  proof -
    have "gave_slot s = gave_slot ht" "b_hasKeys s = b_hasKeys ht"
      by (auto simp: s gave_slot_def gave_value_def gave_key_def bump_def fun_eq_iff split: slot.split)
    from drain_step_gave [OF ok j this] show ?thesis by (simp add: s)
  qed
  have "\<exists>s'. run_loop_over (drain_step ht) [0..<nb ht] ?s = Some s' \<and> ?P (nb ht) s'"
    by (rule run_loop_invariant [where P = ?P]) (simp, rule step)
  then show ?thesis by (simp add: CFBasicHashDrain_def)
qed

lemma owed_slots: "placed E ht \<Longrightarrow> owed ht = mset (concat (map (\<lambda>i. gave_slot ht (slot_of ht i)) [0..<nb ht]))"
proof -
  assume ok: "placed E ht"
  have "owed ht = (\<Sum>i < nb ht. case slot_of ht i of Held k v c \<Rightarrow> mset (gave_entry ht (k, v, c)) | _ \<Rightarrow> 0)"
    unfolding owed_def by (rule sum_entries [OF ok])
  also have "\<dots> = (\<Sum>i < nb ht. mset (gave_slot ht (slot_of ht i)))"
    by (rule sum.cong) (auto simp: gave_entry_def gave_slot_def split: slot.split)
  also have "\<dots> = mset (concat (map (\<lambda>i. gave_slot ht (slot_of ht i)) [0..<nb ht]))"
    by (induction "nb ht" rule: nat_induct) (simp_all add: mset_concat sum_list_sum_nth atLeast0LessThan)
  finally show ?thesis .
qed

lemma gone_given: "given (concat (map (\<lambda>i. gave_slot ht (s i)) is)) = mset (concat (map (\<lambda>i. gave_slot ht (s i)) is))"
  "taken (concat (map (\<lambda>i. gave_slot ht (s i)) is)) = {#}"
  by (induction "is") (simp_all add: gave_slot_given)

lemma empty_table_ok:
  assumes "lawful E (b_callbacks ht) (b_hasKeys ht)" "b_idx ht = 0" "b_used ht = 0" "b_deleted ht = 0" "b_values ht = []"
    "b_hasKeys ht \<Longrightarrow> b_keys ht = []" "b_hasCounts ht \<Longrightarrow> b_counts ht = [] \<and> b_countsWidth ht \<le> 3"
    "b_hasHashes ht \<Longrightarrow> b_hashes ht = []" "\<not> b_indirect ht" "b_style ht \<in> {1, 2, 3}"
  shows "table_ok E ht \<and> entries ht = {}"
  using assms empty_table [OF assms(2)]
  by (auto simp: table_ok_def arrays_ok_def placed_def counters_ok_def held_slots_def gone_slots_def entries_def sizes_ok_def)

definition emptied :: "hash_env \<Rightarrow> basic_hash \<Rightarrow> basic_hash \<Rightarrow> bool" where
  "emptied E ht ht' \<longleftrightarrow> table_ok E ht' \<and> entries ht' = {} \<and> alike ht' ht \<and> taken (b_trace ht') = taken (b_trace ht) \<and>
     given (b_trace ht') = given (b_trace ht) + owed ht"

lemma drain_emptied:
  assumes ok: "table_ok E ht"
  shows "\<exists>ht'. CFBasicHashDrain ht = Some ht' \<and> emptied E ht ht'"
proof -
  note t = table_okD [OF ok]
  let ?t = "(bump ht)\<lparr>b_idx := 0, b_used := 0, b_deleted := 0, b_values := [], b_keys := [], b_counts := [], b_hashes := [],
      b_trace := b_trace ht @ concat (map (\<lambda>i. gave_slot ht (slot_of ht i)) [0..<nb ht])\<rparr>"
  have "table_ok E ?t \<and> entries ?t = {}"
    by (rule empty_table_ok) (use t(1,2) style_ok [OF t(2)] in \<open>auto simp: arrays_ok_def bump_def\<close>)
  moreover have "alike ?t ht" by (simp add: alike_def bump_def)
  ultimately have "emptied E ht ?t" using owed_slots [OF t(3)] by (simp add: emptied_def gone_given)
  then show ?thesis using drain_gave [OF t(2)] by blast
qed

lemma balanced_emptied:
  assumes "refs_balanced ht" and "emptied E ht ht'"
  shows "refs_balanced ht' \<and> taken (b_trace ht') = given (b_trace ht')"
  using assms by (simp add: refs_balanced_def emptied_def owed_def)

end
