(* ===== verification/BasicHashViews.thy ===== *)
theory BasicHashViews
  imports BasicHashReferences
begin

text \<open>Counting, visiting, listing and comparing the entries of a table.\<close>

subsection \<open>Buckets\<close>

fun slot_bucket :: "nat \<Rightarrow> slot \<Rightarrow> hash_bucket list" where
  "slot_bucket i (Held k v c) = [\<lparr>bk_idx = int i, bk_key = k, bk_value = v, bk_count = c\<rparr>]"
| "slot_bucket i _ = []"

definition buckets_at :: "basic_hash \<Rightarrow> nat list \<Rightarrow> hash_bucket list" where
  "buckets_at ht idxs = concat (map (\<lambda>i. slot_bucket i (slot_of ht i)) idxs)"

lemma buckets_at_simps [simp]:
  "buckets_at ht [] = []" "buckets_at ht (i # is) = slot_bucket i (slot_of ht i) @ buckets_at ht is"
  by (simp_all add: buckets_at_def)

text \<open>The buckets in use, in the order of the array.\<close>

definition all_buckets :: "basic_hash \<Rightarrow> hash_bucket list" where
  "all_buckets ht = buckets_at ht [0..<nb ht]"

definition bucket_entry :: "hash_bucket \<Rightarrow> entry" where
  "bucket_entry bkt = (bk_key bkt, bk_value bkt, bk_count bkt)"

lemma GetBucket_slot:
  assumes ok: "arrays_ok ht" and i: "i < nb ht"
  shows "CFBasicHashGetBucket E ht i =
    Some (case slot_of ht i of Held k v c \<Rightarrow> \<lparr>bk_idx = int i, bk_key = k, bk_value = v, bk_count = c\<rparr> | _ \<Rightarrow> no_bucket (int i))"
proof -
  note lens = arrays_lengths [OF ok]
  show ?thesis
  proof (cases "slot_of ht i")
    case (Held k v c)
    note h = slot_HeldD(1-4) [OF Held] held_cells(3,5,6) [OF ok i Held] held_key_is_value [OF Held]
    show ?thesis using h lens i unfolding Held
      by (cases "b_hasKeys ht"; cases "b_hasCounts ht")
        (simp_all add: CFBasicHashGetBucket_def CFBasicHashIsEmptyOrDeleted_def CFBasicHashGetValue_def CFBasicHashGetKey_def
          CFBasicHashGetSlotCount_def)
  qed (use lens i held_iff [of ht i] in \<open>auto simp: CFBasicHashGetBucket_def CFBasicHashIsEmptyOrDeleted_def\<close>)
qed

lemma slot_count_pos: "arrays_ok ht \<Longrightarrow> i < nb ht \<Longrightarrow> bkt \<in> set (slot_bucket i (slot_of ht i)) \<Longrightarrow> 0 < bk_count bkt"
  using held_count [of ht i] by (cases "slot_of ht i") auto

lemma length_buckets_at: "distinct is \<Longrightarrow> length (buckets_at ht is) = card {i \<in> set is. held ht i}"
proof (induction "is")
  case (Cons i "is")
  have "{j \<in> set (i # is). held ht j} = (if held ht i then insert i {j \<in> set is. held ht j} else {j \<in> set is. held ht j})" by auto
  then show ?case using Cons by (cases "slot_of ht i") auto
qed simp

lemma length_all_buckets: "table_ok E ht \<Longrightarrow> length (all_buckets ht) = b_used ht"
proof -
  assume "table_ok E ht"
  moreover have "{i \<in> set [0..<nb ht]. held ht i} = held_slots ht" by (auto simp: held_slots_def)
  ultimately show ?thesis using table_okD(4) [of E ht] by (simp add: all_buckets_def length_buckets_at)
qed

lemma set_buckets_at: "bkt \<in> set (buckets_at ht is) \<longleftrightarrow> (\<exists>i \<in> set is. \<exists>k v c. slot_of ht i = Held k v c \<and>
    bkt = \<lparr>bk_idx = int i, bk_key = k, bk_value = v, bk_count = c\<rparr>)"
proof (induction "is")
  case (Cons i "is")
  then show ?case by (cases "slot_of ht i") auto
qed simp

lemma all_buckets_entries: "bucket_entry ` set (all_buckets ht) = entries ht"
proof
  show "bucket_entry ` set (all_buckets ht) \<subseteq> entries ht"
    by (auto simp: all_buckets_def set_buckets_at bucket_entry_def entries_def) blast
  show "entries ht \<subseteq> bucket_entry ` set (all_buckets ht)"
  proof
    fix e assume "e \<in> entries ht"
    then obtain i k v c where i: "i < nb ht" "slot_of ht i = Held k v c" "e = (k, v, c)" by (auto simp: entries_def)
    then have "\<lparr>bk_idx = int i, bk_key = k, bk_value = v, bk_count = c\<rparr> \<in> set (all_buckets ht)"
      by (simp add: all_buckets_def set_buckets_at)
    then show "e \<in> bucket_entry ` set (all_buckets ht)" using i(3) by (force simp: bucket_entry_def)
  qed
qed

lemma distinct_entries: "table_ok E ht \<Longrightarrow> distinct (map bucket_entry (all_buckets ht))"
proof (rule card_distinct)
  assume ok: "table_ok E ht"
  have "card (set (map bucket_entry (all_buckets ht))) = card (entries ht)" by (simp add: all_buckets_entries)
  also have "\<dots> = b_used ht" using card_entries [OF table_okD(3) [OF ok]] table_okD(4) [OF ok] by simp
  finally show "card (set (map bucket_entry (all_buckets ht))) = length (map bucket_entry (all_buckets ht))"
    using length_all_buckets [OF ok] by simp
qed

subsection \<open>Visiting\<close>

fun visit :: "(hash_bucket \<Rightarrow> 's \<Rightarrow> (bool \<times> 's) option) \<Rightarrow> hash_bucket list \<Rightarrow> 's \<Rightarrow> 's option" where
  "visit block [] s = Some s"
| "visit block (bkt # bkts) s = do { (go, s') \<leftarrow> block bkt s; if go then visit block bkts s' else Some s' }"

lemma visit_loop_visit:
  assumes ok: "arrays_ok ht" and "\<And>i. i \<in> set is \<Longrightarrow> i < nb ht" and "used = length (buckets_at ht is)"
  shows "visit_loop E ht block is used s = visit block (buckets_at ht is) s"
  using assms(2,3)
proof (induction "is" arbitrary: used s)
  case (Cons i "is")
  have i: "i < nb ht" using Cons.prems(1) by simp
  show ?case
  proof (cases "slot_of ht i")
    case (Held k v c)
    have "0 < c" by (rule held_count [OF ok i Held])
    moreover have "visit_loop E ht block is (length (buckets_at ht is)) s' = visit block (buckets_at ht is) s'" for s'
      using Cons by simp
    ultimately show ?thesis using Cons.prems(2) Held by (simp add: GetBucket_slot [OF ok i] cong: if_cong)
  next
    case Free
    then show ?thesis using Cons by (cases used) (simp_all add: GetBucket_slot [OF ok i] no_bucket_def)
  next
    case Gone
    then show ?thesis using Cons by (cases used) (simp_all add: GetBucket_slot [OF ok i] no_bucket_def)
  qed
qed simp

lemma CFBasicHashApply_visit:
  assumes "table_ok E ht"
  shows "CFBasicHashApply E ht block s = visit block (all_buckets ht) s"
  unfolding CFBasicHashApply_def all_buckets_def
  by (rule visit_loop_visit [OF table_okD(2) [OF assms]])
    (use length_all_buckets [OF assms] in \<open>simp_all add: all_buckets_def\<close>)

subsection \<open>Counting\<close>

definition total_count :: "basic_hash \<Rightarrow> nat" where
  "total_count ht = (\<Sum>(k, v, c) \<in> entries ht. c)"

lemma slice_whole: "Prelude.slice xs 0 (length xs) = xs"
  by (simp add: Prelude.slice_def)

lemma CFBasicHashGetCount_total:
  assumes ok: "table_ok E ht"
  shows "CFBasicHashGetCount ht = (if b_hasCounts ht \<and> 2 ^ 63 \<le> total_count ht then None else Some (total_count ht))"
proof -
  note t = table_okD [OF ok]
  have s: "total_count ht = (\<Sum>i < nb ht. case slot_of ht i of Held k v c \<Rightarrow> c | _ \<Rightarrow> 0)"
    unfolding total_count_def by (subst sum_entries [OF t(3)]) (auto intro!: sum.cong split: slot.split)
  show ?thesis
  proof (cases "b_hasCounts ht")
    case True
    have at: "(case slot_of ht i of Held k v c \<Rightarrow> c | _ \<Rightarrow> 0) = b_counts ht ! i" if "i < nb ht" for i
    proof (cases "slot_of ht i")
      case (Held k v c)
      then show ?thesis using held_cells(5) [OF t(2) that Held True] by simp
    qed (use t(2) that True in \<open>auto simp: arrays_ok_def\<close>)
    have len: "length (b_counts ht) = nb ht" by (rule arrays_lengths(3) [OF t(2) True])
    have "total_count ht = (\<Sum>i < nb ht. b_counts ht ! i)" unfolding s by (rule sum.cong) (simp_all add: at)
    also have "\<dots> = sum_list (b_counts ht)" by (simp add: sum_list_sum_nth len atLeast0LessThan)
    finally have "sum_list (b_counts ht) = total_count ht" by simp
    then show ?thesis using True len slice_whole [of "b_counts ht"] by (simp add: CFBasicHashGetCount_def)
  next
    case False
    have "c = 1" if "(k, v, c) \<in> entries ht" for k v c
      using that held_cells(6) [OF t(2)] False by (auto simp: entries_def)
    then have "total_count ht = (\<Sum>e \<in> entries ht. 1)" unfolding total_count_def by (intro sum.cong) auto
    also have "\<dots> = b_used ht" using card_entries [OF t(3)] t(4) by simp
    finally show ?thesis using False by (simp add: CFBasicHashGetCount_def)
  qed
qed

subsection \<open>Listing\<close>

definition bucket_pairs :: "hash_bucket \<Rightarrow> (uintptr \<times> uintptr) list" where
  "bucket_pairs bkt = replicate (bk_count bkt) (bk_value bkt, bk_key bkt)"

lemma elements_loop_take:
  assumes ok: "arrays_ok ht" and "\<And>i. i \<in> set is \<Longrightarrow> i < nb ht" and "used = length (buckets_at ht is)"
  shows "elements_loop E ht is used room = Some (take room (concat (map bucket_pairs (buckets_at ht is))))"
  using assms(2,3)
proof (induction "is" arbitrary: used room)
  case (Cons i "is")
  have i: "i < nb ht" using Cons.prems(1) by simp
  have IH: "elements_loop E ht is (length (buckets_at ht is)) room =
      Some (take room (concat (map bucket_pairs (buckets_at ht is))))" for room using Cons by simp
  show ?case
  proof (cases "slot_of ht i")
    case (Held k v c)
    have "0 < c" by (rule held_count [OF ok i Held])
    moreover have "room - min c room = room - c" by (simp add: min_def)
    moreover have "bucket_pairs \<lparr>bk_idx = int i, bk_key = k, bk_value = v, bk_count = c\<rparr> = replicate c (v, k)"
      by (simp add: bucket_pairs_def)
    ultimately show ?thesis using Cons.prems(2) Held IH [of "room - c"]
      by (simp add: GetBucket_slot [OF ok i] min.commute Let_def)
  next
    case Free
    then show ?thesis using Cons.prems(2) IH by (simp add: GetBucket_slot [OF ok i] no_bucket_def)
  next
    case Gone
    then show ?thesis using Cons.prems(2) IH by (simp add: GetBucket_slot [OF ok i] no_bucket_def)
  qed
qed simp

lemma CFBasicHashGetElements_take:
  assumes "table_ok E ht"
  shows "CFBasicHashGetElements E ht len = Some (take len (concat (map bucket_pairs (all_buckets ht))))"
  unfolding CFBasicHashGetElements_def all_buckets_def
  by (rule elements_loop_take [OF table_okD(2) [OF assms]])
    (use length_all_buckets [OF assms] in \<open>simp_all add: all_buckets_def\<close>)

subsection \<open>Comparing\<close>

definition same_entry :: "hash_env \<Rightarrow> basic_hash \<Rightarrow> entry option \<Rightarrow> entry option \<Rightarrow> bool" where
  "same_entry E ht e1 e2 =
     (case (e1, e2) of
        (None, None) \<Rightarrow> True
      | (Some (k1, v1, c1), Some (k2, v2, c2)) \<Rightarrow>
          c1 = c2 \<and> (\<not> b_hasKeys ht \<or> v1 = v2 \<or> CFBasicHashTestEqualValue E ht v1 v2)
      | _ \<Rightarrow> False)"

lemma visit_equal:
  assumes "\<And>bkt. bkt \<in> set bkts \<Longrightarrow> \<exists>b. equal_block E ht1 ht2 bkt True = Some (b, b) \<and> (b \<longleftrightarrow> P bkt)"
  shows "visit (equal_block E ht1 ht2) bkts True = Some (\<forall>bkt \<in> set bkts. P bkt)"
  using assms
proof (induction bkts)
  case (Cons bkt bkts)
  obtain b where "equal_block E ht1 ht2 bkt True = Some (b, b)" "b \<longleftrightarrow> P bkt" using Cons.prems [of bkt] by auto
  then show ?case using Cons by (cases b) auto
qed simp

definition entry_copies :: "entry \<Rightarrow> nat" where
  "entry_copies e = (case e of (k, v, c) \<Rightarrow> c)"

lemma total_copies: "total_count ht = (\<Sum>e \<in> entries ht. entry_copies e)"
  by (simp add: total_count_def entry_copies_def)

lemma entry_positive: "table_ok E ht \<Longrightarrow> (k, v, c) \<in> entries ht \<Longrightarrow> 0 < c"
  using held_count [OF table_okD(2), of E ht] by (auto simp: entries_def)

text \<open>The entry of the second table for an entry of the first.\<close>

definition partner :: "hash_env \<Rightarrow> basic_hash \<Rightarrow> entry \<Rightarrow> entry" where
  "partner E ht2 e = (case e of (k, v, c) \<Rightarrow> the (lookup E ht2 k))"

definition covered :: "hash_env \<Rightarrow> basic_hash \<Rightarrow> basic_hash \<Rightarrow> bool" where
  "covered E ht1 ht2 \<longleftrightarrow> (\<forall>(k, v, c) \<in> entries ht1. same_entry E ht1 (Some (k, v, c)) (lookup E ht2 k))"

lemma coveredD:
  assumes "covered E ht1 ht2" and "(k, v, c) \<in> entries ht1"
  obtains k' v' where "lookup E ht2 k = Some (k', v', c)" "partner E ht2 (k, v, c) = (k', v', c)"
  using assms unfolding covered_def by (cases "lookup E ht2 k") (fastforce simp: same_entry_def partner_def)+

lemma partner_inj:
  assumes ok: "table_ok E ht1" "table_ok E ht2" "b_callbacks ht2 = b_callbacks ht1" and cov: "covered E ht1 ht2"
  shows "inj_on (partner E ht2) (entries ht1)"
proof (rule inj_onI)
  fix e f assume e: "e \<in> entries ht1" and f: "f \<in> entries ht1" and eq: "partner E ht2 e = partner E ht2 f"
  note law = table_okD(1) [OF ok(1)]
  obtain k v c where ek: "e = (k, v, c)" by (cases e)
  obtain k' v' c' where fk: "f = (k', v', c')" by (cases f)
  obtain a b where a: "lookup E ht2 k = Some (a, b, c)" "partner E ht2 e = (a, b, c)"
    using coveredD [OF cov e [unfolded ek]] ek by blast
  obtain a' b' where a': "lookup E ht2 k' = Some (a', b', c')" "partner E ht2 f = (a', b', c')"
    using coveredD [OF cov f [unfolded fk]] fk by blast
  have "same_key E (b_callbacks ht1) a k" "same_key E (b_callbacks ht1) a' k'"
    using entries_lookup [OF ok(2)] a(1) a'(1) ok(3) by force+
  moreover have "a = a'" using eq a(2) a'(2) by simp
  ultimately have "same_key E (b_callbacks ht1) k k'" using lawful_sym [OF law] lawful_trans [OF law] by blast
  then show "e = f" using entries_unique [OF table_okD(3) [OF ok(1)]] e f ek fk by blast
qed

lemma partner_total:
  assumes ok: "table_ok E ht1" "table_ok E ht2" "b_callbacks ht2 = b_callbacks ht1" and cov: "covered E ht1 ht2"
  shows "(\<Sum>e \<in> partner E ht2 ` entries ht1. entry_copies e) = total_count ht1" "partner E ht2 ` entries ht1 \<subseteq> entries ht2"
proof -
  have "entry_copies (partner E ht2 e) = entry_copies e \<and> partner E ht2 e \<in> entries ht2" if "e \<in> entries ht1" for e
  proof -
    obtain k v c where e: "e = (k, v, c)" by (cases e)
    have m: "(k, v, c) \<in> entries ht1" using that e by simp
    obtain a b where "lookup E ht2 k = Some (a, b, c)" "partner E ht2 (k, v, c) = (a, b, c)" by (rule coveredD [OF cov m])
    then show ?thesis using entries_lookup [OF ok(2)] e by (auto simp: entry_copies_def)
  qed
  then show "(\<Sum>e \<in> partner E ht2 ` entries ht1. entry_copies e) = total_count ht1" "partner E ht2 ` entries ht1 \<subseteq> entries ht2"
    by (auto simp: sum.reindex [OF partner_inj [OF ok cov]] total_copies)
qed

lemma same_entries_covered:
  assumes ok: "table_ok E ht1" and all: "\<forall>k. same_entry E ht1 (lookup E ht1 k) (lookup E ht2 k)"
  shows "covered E ht1 ht2"
  unfolding covered_def
proof clarify
  fix k v c assume "(k, v, c) \<in> entries ht1"
  then have "lookup E ht1 k = Some (k, v, c)" using entries_lookup [OF ok] by simp
  then show "same_entry E ht1 (Some (k, v, c)) (lookup E ht2 k)" using all by metis
qed

lemma same_entries_onto:
  assumes ok: "table_ok E ht1" "table_ok E ht2" "b_callbacks ht2 = b_callbacks ht1"
    and all: "\<forall>k. same_entry E ht1 (lookup E ht1 k) (lookup E ht2 k)"
  shows "entries ht2 \<subseteq> partner E ht2 ` entries ht1"
proof clarify
  fix k v c assume "(k, v, c) \<in> entries ht2"
  then have l2: "lookup E ht2 k = Some (k, v, c)" using entries_lookup [OF ok(2)] by simp
  have "same_entry E ht1 (lookup E ht1 k) (Some (k, v, c))" using spec [OF all, of k] l2 by simp
  then obtain a b d where l1: "lookup E ht1 k = Some (a, b, d)" by (cases "lookup E ht1 k") (auto simp: same_entry_def)
  then have a: "(a, b, d) \<in> entries ht1" "same_key E (b_callbacks ht1) a k" using entries_lookup [OF ok(1)] by blast+
  have "lookup E ht2 a = lookup E ht2 k"
    using lookup_same_key [OF ok(2), of a k] a(2) ok(3) by simp
  then have "partner E ht2 (a, b, d) = (k, v, c)" using l2 by (simp add: partner_def)
  then show "(k, v, c) \<in> partner E ht2 ` entries ht1" using a(1) by (metis image_eqI)
qed

lemma covered_same_entries:
  assumes ok: "table_ok E ht1" "table_ok E ht2" "b_callbacks ht2 = b_callbacks ht1"
    and cov: "covered E ht1 ht2" and totals: "total_count ht1 = total_count ht2"
  shows "same_entry E ht1 (lookup E ht1 k) (lookup E ht2 k)"
proof -
  let ?img = "partner E ht2 ` entries ht1"
  note law = table_okD(1) [OF ok(1)] and pt = partner_total [OF ok cov]
  have "total_count ht2 = (\<Sum>e \<in> ?img. entry_copies e) + (\<Sum>e \<in> entries ht2 - ?img. entry_copies e)"
    unfolding total_copies by (subst add.commute, rule sum.subset_diff [OF pt(2)]) simp
  then have zero: "(\<Sum>e \<in> entries ht2 - ?img. entry_copies e) = 0" using pt(1) totals by simp
  have onto: "entries ht2 \<subseteq> ?img"
  proof
    fix e assume e: "e \<in> entries ht2"
    show "e \<in> ?img"
    proof (rule ccontr)
      assume "e \<notin> ?img"
      then have "entry_copies e = 0" using zero e by simp
      then show False using entry_positive [OF ok(2)] e by (cases e) (auto simp: entry_copies_def)
    qed
  qed
  show ?thesis
  proof (cases "lookup E ht1 k")
    case (Some e)
    obtain a b d where e: "e = (a, b, d)" by (cases e)
    then have a: "(a, b, d) \<in> entries ht1" "same_key E (b_callbacks ht1) a k" using Some entries_lookup [OF ok(1)] by blast+
    have "lookup E ht2 a = lookup E ht2 k" using lookup_same_key [OF ok(2), of a k] a(2) ok(3) by simp
    then show ?thesis using cov a(1) Some e unfolding covered_def by auto
  next
    case None
    have "lookup E ht2 k = None"
    proof (rule ccontr)
      assume "lookup E ht2 k \<noteq> None"
      then obtain x y z where x: "lookup E ht2 k = Some (x, y, z)" by auto
      then have "(x, y, z) \<in> ?img" "same_key E (b_callbacks ht1) x k" using entries_lookup [OF ok(2)] onto ok(3) by auto
      then obtain e where e: "e \<in> entries ht1" "partner E ht2 e = (x, y, z)" by auto
      obtain a b d where ea: "e = (a, b, d)" by (cases e)
      obtain p q where "lookup E ht2 a = Some (p, q, d)" "partner E ht2 (a, b, d) = (p, q, d)"
        using coveredD [OF cov e(1) [unfolded ea]] by blast
      then have "same_key E (b_callbacks ht1) x a" using entries_lookup [OF ok(2)] e(2) ea ok(3) by auto
      then have "same_key E (b_callbacks ht1) a k"
        using \<open>same_key E (b_callbacks ht1) x k\<close> lawful_sym [OF law] lawful_trans [OF law] by blast
      then show False using lookup_NoneD [OF None] e(1) ea by auto
    qed
    then show ?thesis using None by (simp add: same_entry_def)
  qed
qed

lemma equal_block_outcome:
  assumes ok: "table_ok E ht1" "table_ok E ht2" and b: "bkt \<in> set (all_buckets ht1)"
  shows "\<exists>r. equal_block E ht1 ht2 bkt True = Some (r, r) \<and>
    (r \<longleftrightarrow> same_entry E ht1 (Some (bucket_entry bkt)) (lookup E ht2 (bk_key bkt)))"
proof -
  have "bucket_entry bkt \<in> entries ht1" using b all_buckets_entries by blast
  then have pos: "0 < bk_count bkt" using entry_positive [OF ok(1)] by (auto simp: bucket_entry_def)
  obtain b2 where b2: "FindBucket E ht2 (bk_key bkt) = Some b2" "bk_count b2 = entry_count (lookup E ht2 (bk_key bkt))"
    "\<forall>k0 v0 c. lookup E ht2 (bk_key bkt) = Some (k0, v0, c) \<longrightarrow> 0 < c \<and> bk_key b2 = k0 \<and> bk_value b2 = v0"
    using FindBucket_lookup [OF ok(2), of "bk_key bkt"] by blast
  show ?thesis
  proof (cases "lookup E ht2 (bk_key bkt)")
    case None
    then show ?thesis using b2 pos
      by (intro exI [of _ False]) (simp add: equal_block_def entry_count_def same_entry_def)
  next
    case (Some e)
    obtain k0 v0 c where "e = (k0, v0, c)" by (cases e)
    then show ?thesis using b2 Some by (auto simp: equal_block_def entry_count_def same_entry_def bucket_entry_def)
  qed
qed

lemma covered_buckets:
  "covered E ht1 ht2 \<longleftrightarrow>
   (\<forall>bkt \<in> set (all_buckets ht1). same_entry E ht1 (Some (bucket_entry bkt)) (lookup E ht2 (bk_key bkt)))"
  unfolding covered_def all_buckets_entries [symmetric] by (simp add: bucket_entry_def)

theorem CFBasicHashesAreEqual_iff:
  assumes ok: "table_ok E ht1" "table_ok E ht2" and cb: "b_callbacks ht2 = b_callbacks ht1"
    and counts: "total_count ht1 < 2 ^ 63" "total_count ht2 < 2 ^ 63"
  shows "CFBasicHashesAreEqual E ht1 ht2 = Some (\<forall>k. same_entry E ht1 (lookup E ht1 k) (lookup E ht2 k))"
proof -
  have c1: "CFBasicHashGetCount ht1 = Some (total_count ht1)" and c2: "CFBasicHashGetCount ht2 = Some (total_count ht2)"
    using CFBasicHashGetCount_total [OF ok(1)] CFBasicHashGetCount_total [OF ok(2)] counts by auto
  have applied: "CFBasicHashApply E ht1 (equal_block E ht1 ht2) True = Some (covered E ht1 ht2)"
    unfolding CFBasicHashApply_visit [OF ok(1)] covered_buckets by (rule visit_equal) (rule equal_block_outcome [OF ok])
  let ?same = "\<forall>k. same_entry E ht1 (lookup E ht1 k) (lookup E ht2 k)"
  have totals: "total_count ht1 = total_count ht2" if ?same
  proof -
    have cov: "covered E ht1 ht2" by (rule same_entries_covered [OF ok(1) that])
    have "partner E ht2 ` entries ht1 = entries ht2"
      using partner_total(2) [OF ok cb cov] same_entries_onto [OF ok cb that] by blast
    then show ?thesis using partner_total(1) [OF ok cb cov] by (simp add: total_copies)
  qed
  have iff: "?same \<longleftrightarrow> covered E ht1 ht2" if "total_count ht1 = total_count ht2"
    using same_entries_covered [OF ok(1)] covered_same_entries [OF ok cb _ that] by blast
  have empty: "covered E ht1 ht2" if "total_count ht1 = 0"
  proof -
    have "(k, v, c) \<notin> entries ht1" for k v c
    proof
      assume e: "(k, v, c) \<in> entries ht1"
      then have "c = 0" using that by (auto simp: total_copies entry_copies_def)
      then show False using entry_positive [OF ok(1) e] by simp
    qed
    then show ?thesis by (auto simp: covered_def)
  qed
  show ?thesis
  proof (cases "total_count ht1 = total_count ht2")
    case False
    then have "\<not> ?same" using totals by blast
    then show ?thesis using False c1 c2 by (simp add: CFBasicHashesAreEqual_def)
  next
    case True
    show ?thesis
    proof (cases "total_count ht1 = 0")
      case zero: True
      then have ?same using iff [OF True] empty by blast
      then show ?thesis using True zero c1 c2 by (simp add: CFBasicHashesAreEqual_def)
    next
      case False
      then show ?thesis using True c1 c2 applied iff [OF True] by (simp add: CFBasicHashesAreEqual_def)
    qed
  qed
qed

end
