(* ===== verification/BasicHashCopy.thy ===== *)
theory BasicHashCopy
  imports BasicHashViews
begin

text \<open>Copies of a table, and setting its capacity.\<close>

subsection \<open>The loop of the copy\<close>

definition copied_value :: "hash_env \<Rightarrow> basic_hash \<Rightarrow> nat \<Rightarrow> uintptr" where
  "copied_value E src i =
     (if held src i then sub (kept_value E src (unsub (b_values src ! i))) else b_values src ! i)"

definition copied_key :: "hash_env \<Rightarrow> basic_hash \<Rightarrow> nat \<Rightarrow> uintptr" where
  "copied_key E src i =
     (if held src i then sub (kept_key E src (unsub (b_keys src ! i))) else b_values src ! i)"

definition took_slot :: "hash_env \<Rightarrow> basic_hash \<Rightarrow> slot \<Rightarrow> hash_event list" where
  "took_slot E ht s = (case s of Held k v c \<Rightarrow> took_entry E ht k v | _ \<Rightarrow> [])"

definition filled :: "(nat \<Rightarrow> uintptr) \<Rightarrow> nat \<Rightarrow> nat \<Rightarrow> uintptr list" where
  "filled f n j = map f [0..<j] @ replicate (n - j) 0"

lemma filled_next: "j < n \<Longrightarrow> (filled f n j)[j := f j] = filled f n (Suc j)"
proof -
  assume "j < n"
  then have "replicate (n - j) (0 :: uintptr) = 0 # replicate (n - Suc j) 0" by (metis Suc_diff_Suc replicate_Suc)
  then show ?thesis by (simp add: filled_def list_update_append)
qed

lemma length_filled [simp]: "j \<le> n \<Longrightarrow> length (filled f n j) = n"
  by (simp add: filled_def)

lemma filled_all: "filled f n n = map f [0..<n]" "filled f n 0 = replicate n 0"
  by (simp_all add: filled_def)

definition copy_state :: "hash_env \<Rightarrow> basic_hash \<Rightarrow> nat \<Rightarrow> basic_hash" where
  "copy_state E src j =
     src\<lparr>b_mutable := True, b_finalized := False, b_mutations := 1,
         b_values := filled (copied_value E src) (nb src) j,
         b_keys := (if b_hasKeys src then filled (copied_key E src) (nb src) j else []),
         b_counts := [], b_hashes := [],
         b_trace := concat (map (\<lambda>i. took_slot E src (slot_of src i)) [0..<j])\<rparr>"

lemma copy_state_fields [simp]:
  "b_values (copy_state E src j) = filled (copied_value E src) (nb src) j"
  "b_hasKeys (copy_state E src j) = b_hasKeys src"
  "b_hasKeys src \<Longrightarrow> b_keys (copy_state E src j) = filled (copied_key E src) (nb src) j"
  "b_trace (copy_state E src j) = concat (map (\<lambda>i. took_slot E src (slot_of src i)) [0..<j])"
  by (simp_all add: copy_state_def)

lemma copy_state_kept [simp]:
  "kept_value E (copy_state E src j) = kept_value E src" "kept_key E (copy_state E src j) = kept_key E src"
  "took_value E (copy_state E src j) = took_value E src" "took_key E (copy_state E src j) = took_key E src"
  by (rule kept_cong; simp add: copy_state_def)+

lemma SetValue_ignore:
  "p < length (b_values ht) \<Longrightarrow>
   CFBasicHashSetValue_at ht p v True literal = Some (ht\<lparr>b_values := (b_values ht)[p := if literal then v else sub v]\<rparr>)"
  by (simp add: CFBasicHashSetValue_at_def)

lemma SetKey_ignore:
  "b_hasKeys ht \<Longrightarrow> p < length (b_keys ht) \<Longrightarrow>
   CFBasicHashSetKey_at ht p k True literal = Some (ht\<lparr>b_keys := (b_keys ht)[p := if literal then k else sub k]\<rparr>)"
  by (simp add: CFBasicHashSetKey_at_def)

lemma copy_step_next:
  assumes ok: "arrays_ok src" and j: "j < nb src"
  shows "copy_step E src j (copy_state E src j) = Some (copy_state E src (Suc j))"
proof -
  note lens = arrays_lengths [OF ok]
  have kept: "kept_key E ((copy_state E src j)\<lparr>b_trace := t, b_values := vs\<rparr>) = kept_key E src"
    "took_key E ((copy_state E src j)\<lparr>b_trace := t, b_values := vs\<rparr>) = took_key E src" for t vs
    by (rule kept_cong; simp add: copy_state_def)+
  show ?thesis
  proof (cases "slot_of src j")
    case (Held k v c)
    note h = slot_HeldD(1,2,4) [OF Held] held_cells(3) [OF ok j Held]
    have cv: "copied_value E src j = sub (kept_value E src v)" using Held h(3) by (simp add: copied_value_def)
    have ck: "copied_key E src j = sub (kept_key E src k)" if "b_hasKeys src" using Held h(4) that by (simp add: copied_key_def)
    show ?thesis
    proof (cases "b_hasKeys src")
      case True
      then show ?thesis using h lens j filled_next [OF j, of "copied_value E src"] filled_next [OF j, of "copied_key E src"] cv ck Held
        by (simp add: copy_step_def import_value import_key SetValue_ignore SetKey_ignore kept)
          (simp add: copy_state_def took_slot_def took_entry_def)
    next
      case False
      then show ?thesis using h lens j filled_next [OF j, of "copied_value E src"] cv Held
        by (simp add: copy_step_def import_value SetValue_ignore) (simp add: copy_state_def took_slot_def took_entry_def)
    qed
  next
    case Free
    then have "b_values src ! j = 0" "copied_value E src j = 0" "copied_key E src j = 0"
      using cell_cases(1) [OF ok j] ok j held_iff [of src j] by (auto simp: copied_value_def copied_key_def slot_of_def Let_def split: if_splits)
    then show ?thesis using lens j filled_next [OF j, of "copied_value E src"] filled_next [OF j, of "copied_key E src"] Free
      by (cases "b_hasKeys src")
        (simp_all add: copy_step_def SetValue_ignore SetKey_ignore, simp_all add: copy_state_def took_slot_def)
  next
    case Gone
    then have "b_values src ! j = SLOT_DELETED" "copied_value E src j = SLOT_DELETED" "copied_key E src j = SLOT_DELETED"
      by (auto simp: copied_value_def copied_key_def slot_of_def Let_def split: if_splits)
    then show ?thesis using lens j filled_next [OF j, of "copied_value E src"] filled_next [OF j, of "copied_key E src"] Gone
      by (cases "b_hasKeys src")
        (simp_all add: copy_step_def SetValue_ignore SetKey_ignore, simp_all add: copy_state_def took_slot_def)
  qed
qed

definition copy_of :: "hash_env \<Rightarrow> basic_hash \<Rightarrow> basic_hash" where
  "copy_of E src =
     (copy_state E src (nb src))
       \<lparr>b_counts := (if b_hasCounts src then b_counts src else []), b_hashes := (if b_hasHashes src then b_hashes src else [])\<rparr>"

lemma CFBasicHashCreateCopy_eq:
  assumes ok: "arrays_ok src"
  shows "CFBasicHashCreateCopy E src = Some (copy_of E src)"
proof -
  have start: "src\<lparr>b_mutable := True, b_finalized := False, b_mutations := 1, b_values := replicate (nb src) 0,
       b_keys := (if b_hasKeys src then replicate (nb src) 0 else []), b_counts := [], b_hashes := [], b_trace := []\<rparr> =
     copy_state E src 0" by (simp add: copy_state_def filled_all)
  have "\<exists>s. run_loop_over (copy_step E src) [0..<nb src] (copy_state E src 0) = Some s \<and> s = copy_state E src (nb src)"
    by (rule run_loop_invariant [where P = "\<lambda>j s. s = copy_state E src j"]) (simp_all add: copy_step_next [OF ok])
  then have loop: "run_loop_over (copy_step E src) [0..<nb src] (copy_state E src 0) = Some (copy_state E src (nb src))" by simp
  have arrays: "b_hasCounts src \<Longrightarrow> readn (b_counts src) 0 (nb src) = Some (b_counts src)"
    "b_hasHashes src \<Longrightarrow> readn (b_hashes src) 0 (nb src) = Some (b_hashes src)"
    using arrays_lengths(3,4) [OF ok] slice_whole [of "b_counts src"] slice_whole [of "b_hashes src"] by simp_all
  have none: "nb src = 0 \<Longrightarrow> copy_of E src = copy_state E src 0"
    using arrays_lengths(3,4) [OF ok] by (simp add: copy_of_def copy_state_def)
  show ?thesis unfolding CFBasicHashCreateCopy_def Let_def start
    using loop arrays none by (simp add: copy_of_def)
qed

subsection \<open>The copy\<close>

definition copy_entry :: "hash_env \<Rightarrow> basic_hash \<Rightarrow> entry \<Rightarrow> entry" where
  "copy_entry E src e = (case e of (k, v, c) \<Rightarrow> (new_key E src k v, kept_value E src v, c))"

lemma copy_of_fields [simp]:
  "b_callbacks (copy_of E src) = b_callbacks src" "b_hasKeys (copy_of E src) = b_hasKeys src"
  "b_hasCounts (copy_of E src) = b_hasCounts src" "b_hasHashes (copy_of E src) = b_hasHashes src"
  "b_style (copy_of E src) = b_style src" "b_indirect (copy_of E src) = b_indirect src" "b_idx (copy_of E src) = b_idx src"
  "b_used (copy_of E src) = b_used src" "b_deleted (copy_of E src) = b_deleted src" "nb (copy_of E src) = nb src"
  "b_countsWidth (copy_of E src) = b_countsWidth src" "b_nullRC (copy_of E src) = b_nullRC src"
  "b_values (copy_of E src) = map (copied_value E src) [0..<nb src]"
  "b_hasKeys src \<Longrightarrow> b_keys (copy_of E src) = map (copied_key E src) [0..<nb src]"
  "b_hasCounts src \<Longrightarrow> b_counts (copy_of E src) = b_counts src" "b_hasHashes src \<Longrightarrow> b_hashes (copy_of E src) = b_hashes src"
  "b_trace (copy_of E src) = concat (map (\<lambda>i. took_slot E src (slot_of src i)) [0..<nb src])"
  "b_mutable (copy_of E src)" "\<not> b_finalized (copy_of E src)" "CFBasicHashGetCapacity (copy_of E src) = CFBasicHashGetCapacity src"
  "spot E (copy_of E src) = spot E src"
  by (simp_all add: copy_of_def copy_state_def CFBasicHashGetNumBuckets_def CFBasicHashGetCapacity_def filled_all spot_def fun_eq_iff)

lemma slot_copy:
  assumes ok: "arrays_ok src" and law: "lawful E (b_callbacks src) (b_hasKeys src)" and i: "i < nb src"
  shows "slot_of (copy_of E src) i =
    (case slot_of src i of Held k v c \<Rightarrow> Held (new_key E src k v) (kept_value E src v) c | s \<Rightarrow> s)"
proof (cases "slot_of src i")
  case (Held k v c)
  note h = slot_HeldD(1,2,4) [OF Held] held_cells(3,5,6) [OF ok i Held] held_not_sub [OF Held]
  have notsub: "\<not> is_sub (kept_value E src v)" "\<not> is_sub (kept_key E src k)"
    using kept_value [OF law] kept_key [OF law] h(7) by blast+
  have cv: "copied_value E src i = sub (kept_value E src v)" using Held h(3) by (simp add: copied_value_def)
  have ck: "copied_key E src i = sub (kept_key E src k)" if "b_hasKeys src" using Held h(4) that by (simp add: copied_key_def)
  show ?thesis using Held i cv ck notsub h(5,6)
    by (cases "b_hasKeys src") (simp_all add: slot_of_def [of "copy_of E src"] key_cells_def new_key_def)
next
  case Free
  then have "copied_value E src i = 0" by (auto simp: copied_value_def slot_of_def Let_def split: if_splits)
  then show ?thesis using Free i by (simp add: slot_of_def [of "copy_of E src"])
next
  case Gone
  then have "copied_value E src i = SLOT_DELETED" by (auto simp: copied_value_def slot_of_def Let_def split: if_splits)
  then show ?thesis using Gone i by (simp add: slot_of_def [of "copy_of E src"])
qed

lemma copy_slots:
  assumes ok: "arrays_ok src" and law: "lawful E (b_callbacks src) (b_hasKeys src)" and i: "i < nb src"
  shows "slot_of (copy_of E src) i = Free \<longleftrightarrow> slot_of src i = Free" "slot_of (copy_of E src) i = Gone \<longleftrightarrow> slot_of src i = Gone"
    "slot_of (copy_of E src) i = Held k v c \<Longrightarrow>
       \<exists>k0 v0. slot_of src i = Held k0 v0 c \<and> k = new_key E src k0 v0 \<and> v = kept_value E src v0 \<and> same_key E (b_callbacks src) k k0"
proof -
  have new: "same_key E (b_callbacks src) (new_key E src k0 v0) k0" if "slot_of src i = Held k0 v0 c" for k0 v0
    using new_key_ok [OF law] held_not_sub [OF that] held_key_is_value [OF that] by blast
  show "slot_of (copy_of E src) i = Free \<longleftrightarrow> slot_of src i = Free" "slot_of (copy_of E src) i = Gone \<longleftrightarrow> slot_of src i = Gone"
    by (simp_all add: slot_copy [OF ok law i] split: slot.split)
  show "\<exists>k0 v0. slot_of src i = Held k0 v0 c \<and> k = new_key E src k0 v0 \<and> v = kept_value E src v0 \<and> same_key E (b_callbacks src) k k0"
    if "slot_of (copy_of E src) i = Held k v c"
    using that new by (auto simp: slot_copy [OF ok law i] split: slot.splits)
qed

lemma copy_table_ok:
  assumes ok: "table_ok E src"
  shows "table_ok E (copy_of E src)" "entries (copy_of E src) = copy_entry E src ` entries src"
proof -
  note t = table_okD [OF ok]
  let ?c = "copy_of E src"
  note slots = copy_slots [OF t(2,1)]
  have held: "held ?c i \<longleftrightarrow> held src i" if "i < nb src" for i using slots(1,2) [OF that] by simp
  have cells: "key_cells src ! i = 0 \<longleftrightarrow> slot_of src i = Free" "key_cells src ! i = SLOT_DELETED \<longleftrightarrow> slot_of src i = Gone"
    "b_values src ! i = 0 \<longleftrightarrow> slot_of src i = Free" "b_values src ! i = SLOT_DELETED \<longleftrightarrow> slot_of src i = Gone" if "i < nb src" for i
    using cell_cases(1,2) [OF t(2) that] by (auto simp: slot_of_def Let_def)
  have pattern: "(copied_key E src i = 0 \<longleftrightarrow> copied_value E src i = 0) \<and>
      (copied_key E src i = SLOT_DELETED \<longleftrightarrow> copied_value E src i = SLOT_DELETED)" for i
    by (simp add: copied_key_def copied_value_def)
  have arrays: "arrays_ok ?c" using t(2) held pattern unfolding arrays_ok_def by simp
  have reach: "reaches E ?c k i" if i: "i < nb src" and r: "reaches E src k i" for k i
  proof -
    have "spot E src k j < nb src" for j using spot_less [OF t(2)] i by simp
    then show ?thesis using r slots(1) by (auto simp: reaches_def)
  qed
  have "reaches E ?c k i \<and> (b_hasHashes src \<longrightarrow> b_hashes src ! i = key_code E (b_callbacks src) k)"
    if i: "i < nb src" and s: "slot_of ?c i = Held k v c" for i k v c
  proof -
    obtain k0 v0 where k0: "slot_of src i = Held k0 v0 c" "same_key E (b_callbacks src) k k0" using slots(3) [OF i s] by blast
    have "reaches E src k0 i \<and> (b_hasHashes src \<longrightarrow> b_hashes src ! i = key_code E (b_callbacks src) k0)"
      using t(3) i k0(1) unfolding placed_def by blast
    then show ?thesis using reach [OF i] reaches_cong [OF k0(2) t(1)] lawful_code [OF t(1) k0(2)] by simp
  qed
  moreover have "i = j" if i: "i < nb src" "j < nb src" and s: "slot_of ?c i = Held k v c" "slot_of ?c j = Held k' v' c'"
      and same: "same_key E (b_callbacks src) k k'" for i j k v c k' v' c'
  proof -
    obtain k0 v0 where k0: "slot_of src i = Held k0 v0 c" "same_key E (b_callbacks src) k k0" using slots(3) [OF i(1) s(1)] by blast
    obtain k1 v1 where k1: "slot_of src j = Held k1 v1 c'" "same_key E (b_callbacks src) k' k1" using slots(3) [OF i(2) s(2)] by blast
    have "same_key E (b_callbacks src) k0 k1"
      using same k0(2) k1(2) lawful_sym [OF t(1)] lawful_trans [OF t(1)] by blast
    then show ?thesis using placed_unique [OF t(3) i k0(1) k1(1)] by blast
  qed
  ultimately have "placed E ?c" unfolding placed_def by simp
  moreover have "held_slots ?c = held_slots src" "gone_slots ?c = gone_slots src"
    using held slots(2) by (auto simp: held_slots_def gone_slots_def)
  ultimately show "table_ok E ?c" using t arrays by (simp add: table_ok_def counters_ok_def)
  show "entries ?c = copy_entry E src ` entries src"
  proof
    show "entries ?c \<subseteq> copy_entry E src ` entries src"
    proof
      fix e assume "e \<in> entries ?c"
      then obtain i k v c where i: "i < nb src" "slot_of ?c i = Held k v c" and e: "e = (k, v, c)" by (auto simp: entries_def)
      obtain k0 v0 where k0: "slot_of src i = Held k0 v0 c" "k = new_key E src k0 v0" "v = kept_value E src v0"
        using slots(3) [OF i] by blast
      then show "e \<in> copy_entry E src ` entries src" using entriesI [OF i(1) k0(1)] e by (force simp: copy_entry_def)
    qed
    show "copy_entry E src ` entries src \<subseteq> entries ?c"
    proof
      fix e assume "e \<in> copy_entry E src ` entries src"
      then obtain i k v c where i: "i < nb src" "slot_of src i = Held k v c" and e: "e = copy_entry E src (k, v, c)"
        by (auto simp: entries_def)
      then have "slot_of ?c i = Held (new_key E src k v) (kept_value E src v) c" by (simp add: slot_copy [OF t(2,1) i(1)])
      then show "e \<in> entries ?c" using i(1) e entriesI [of i ?c] by (simp add: copy_entry_def)
    qed
  qed
qed

lemma copy_lookup:
  assumes ok: "table_ok E src"
  shows "lookup E (copy_of E src) k = map_option (copy_entry E src) (lookup E src k)"
proof -
  note c = copy_table_ok [OF ok] and t = table_okD [OF ok]
  have new: "same_key E (b_callbacks src) (new_key E src a b) a" if e: "(a, b, d) \<in> entries src" for a b d
  proof -
    obtain i where "slot_of src i = Held a b d" using e by (auto simp: entries_def)
    then show ?thesis using new_key_ok [OF t(1)] held_not_sub held_key_is_value by blast
  qed
  show ?thesis
  proof (cases "lookup E src k")
    case (Some e)
    obtain a b d where e: "e = (a, b, d)" by (cases e)
    then have a: "(a, b, d) \<in> entries src" "same_key E (b_callbacks src) a k" using Some entries_lookup [OF ok] by blast+
    have "copy_entry E src e \<in> entries (copy_of E src)" using a(1) e c(2) by simp
    moreover have "same_key E (b_callbacks src) (new_key E src a b) k" by (rule lawful_trans [OF t(1) new [OF a(1)] a(2)])
    ultimately show ?thesis using Some e entries_lookup [OF c(1)] by (simp add: copy_entry_def)
  next
    case None
    have "\<not> same_key E (b_callbacks src) k' k" if mem: "(k', v', c') \<in> entries (copy_of E src)" for k' v' c'
    proof
      assume s: "same_key E (b_callbacks src) k' k"
      obtain a b where a: "(a, b, c') \<in> entries src" "k' = new_key E src a b" using mem c(2) by (auto simp: copy_entry_def)
      have "same_key E (b_callbacks src) a k" using s a(2) new [OF a(1)] lawful_sym [OF t(1)] lawful_trans [OF t(1)] by blast
      then show False using lookup_NoneD [OF None a(1)] by simp
    qed
    then have "lookup E (copy_of E src) k = None" unfolding lookup_None by auto
    then show ?thesis using None by simp
  qed
qed

lemma copy_balanced:
  assumes ok: "table_ok E src" and p: "paired src"
  shows "refs_balanced (copy_of E src)"
proof -
  note t = table_okD [OF ok] and c = copy_table_ok [OF ok]
  let ?c = "copy_of E src"
  have gave: "gave_slot ?c = gave_slot src"
    by (auto simp: gave_slot_def gave_value_def gave_key_def fun_eq_iff split: slot.split)
  have slot: "taken (took_slot E src (slot_of src i)) = mset (gave_slot ?c (slot_of ?c i))" if "i < nb src" for i
    using took_entry_taken(1) [OF p] that
    by (auto simp: took_slot_def slot_copy [OF t(2,1)] gave gave_entry_def gave_slot_def [of src Free] gave_slot_def [of src Gone]
        split: slot.split)
  have all: "taken (concat (map (\<lambda>i. took_slot E src (slot_of src i)) is)) = mset (concat (map (\<lambda>i. gave_slot ?c (slot_of ?c i)) is))"
    if "\<And>i. i \<in> set is \<Longrightarrow> i < nb src" for "is" using that slot by (induction "is") simp_all
  have "taken (b_trace ?c) = owed ?c" using owed_slots [OF table_okD(3) [OF c(1)]] all [of "[0..<nb src]"] by simp
  moreover have "given (concat (map (\<lambda>i. took_slot E src (slot_of src i)) is)) = {#}" for "is"
    by (induction "is") (simp_all add: took_slot_def took_entry_taken(2) split: slot.split)
  ultimately show ?thesis by (simp add: refs_balanced_def)
qed

subsection \<open>The capacity\<close>

lemma SetCapacity_ok:
  assumes ok: "table_ok E ht" and m: "b_mutable ht"
    and cap: "capacity \<le> CFBasicHashGetCapacityForNumBuckets (if b_style ht = 1 then 43 else 19)"
  shows "\<exists>ht'. CFBasicHashSetCapacity E ht capacity = Some ht' \<and> table_ok E ht' \<and> entries ht' = entries ht \<and>
    b_trace ht' = b_trace ht \<and> alike ht' ht \<and> capacity \<le> CFBasicHashGetCapacity ht'"
proof (cases "b_used ht < capacity")
  case False
  then show ?thesis using ok m table_okD(5) [OF ok] by (simp add: CFBasicHashSetCapacity_def)
next
  case True
  note t = table_okD [OF ok]
  obtain j where j: "capacity \<le> CFBasicHashGetCapacityForNumBuckets j" "j \<le> 43" "b_style ht \<noteq> 1 \<Longrightarrow> j = 19"
    using cap by (cases "b_style ht = 1") simp_all
  then obtain i where i: "i \<le> j" "CFBasicHashGetNumBucketsIndexForCapacity capacity = Some i" using index_exists [of capacity j] by auto
  have need: "b_used ht + nat (int capacity - int (b_used ht)) = capacity" "int capacity - int (b_used ht) \<noteq> 0" using True by simp_all
  obtain idx where idx: "new_idx (bump ht) (int capacity - int (b_used ht)) = Some idx" "idx = i \<or> idx = i + 1"
    using i(2) need by (auto simp: new_idx_def)
  have "i + 1 \<le> 44" using i(1) j(2) by simp
  then have "capacity \<le> CFBasicHashGetCapacityForNumBuckets idx"
    using index_for_capacity(1) [OF i(2)] capacities_increase [of "i + 1" i] idx(2) by auto
  moreover have sizes: "sizes_ok (b_style (bump ht)) idx" using i(1) j idx(2) style_ok [OF t(2)] by (auto simp: sizes_ok_def)
  ultimately have room: "b_used (bump ht) \<le> CFBasicHashGetCapacityForNumBuckets idx" "capacity \<le> CFBasicHashGetCapacityForNumBuckets idx"
    using True by simp_all
  have b: "arrays_ok (bump ht)" "placed E (bump ht)" "lawful E (b_callbacks (bump ht)) (b_hasKeys (bump ht))"
    "b_used (bump ht) = card (held_slots (bump ht))" using t by simp_all
  have size: "card (held_slots (bump ht)) \<le> CFBasicHashTableSizes ! idx"
    using room(1) capacity_le_size [of idx] sizes b(4) by (auto simp: sizes_ok_def)
  obtain ht' where r: "CFBasicHashRehash E (bump ht) (int capacity - int (b_used ht)) = Some ht'" "rehashed E (bump ht) idx (nb (bump ht)) ht'"
    using rehash_entries [OF b(1,2,3) idx(1) sizes size] by blast
  obtain ht'' where r': "CFBasicHashRehash E (bump ht) (int capacity - int (b_used ht)) = Some ht''" "table_ok E ht''"
    "entries ht'' = entries ht" "b_trace ht'' = b_trace ht" "alike ht'' ht"
    using rehash_table [OF b idx(1) sizes room(1)] by auto
  have "b_idx ht' = idx" using restD(7) [OF rehashedD(6) [OF r(2)]] by simp
  then show ?thesis using r r' True m room(2) by (simp add: CFBasicHashSetCapacity_def CFBasicHashGetCapacity_def)
qed

end
