(* ===== verification/BasicHashTheorems.thy ===== *)
theory BasicHashTheorems
  imports BasicHashCopy
begin

text \<open>The properties of \<^verbatim>\<open>CFBasicHash\<close>: the operations implement a map, and references are accounted for.\<close>

subsection \<open>Operations\<close>

datatype hash_op = AddOp uintptr uintptr | SetOp uintptr uintptr | ReplaceOp uintptr uintptr | RemoveOp uintptr
  | RemoveAllOp | CapacityOp nat

fun do_op :: "hash_env \<Rightarrow> basic_hash \<Rightarrow> hash_op \<Rightarrow> basic_hash option" where
  "do_op E ht (AddOp k v) = map_option snd (CFBasicHashAddValue E ht k v)"
| "do_op E ht (SetOp k v) = CFBasicHashSetValue E ht k v"
| "do_op E ht (ReplaceOp k v) = CFBasicHashReplaceValue E ht k v"
| "do_op E ht (RemoveOp k) = map_option snd (CFBasicHashRemoveValue E ht k)"
| "do_op E ht RemoveAllOp = CFBasicHashRemoveAllValues ht"
| "do_op E ht (CapacityOp n) = CFBasicHashSetCapacity E ht n"

text \<open>The calls that do not halt and stay within the sizes of the tables.\<close>

fun op_fits :: "basic_hash \<Rightarrow> hash_op \<Rightarrow> bool" where
  "op_fits ht (AddOp k v) \<longleftrightarrow> may_store ht k v \<and> roomy ht"
| "op_fits ht (SetOp k v) \<longleftrightarrow> may_store ht k v \<and> roomy ht"
| "op_fits ht (ReplaceOp k v) \<longleftrightarrow> may_store ht k v"
| "op_fits ht (RemoveOp k) \<longleftrightarrow> b_mutable ht \<and> \<not> is_sub k"
| "op_fits ht RemoveAllOp \<longleftrightarrow> b_mutable ht"
| "op_fits ht (CapacityOp n) \<longleftrightarrow> b_mutable ht \<and> n \<le> CFBasicHashGetCapacityForNumBuckets (if b_style ht = 1 then 43 else 19)"

text \<open>The same on the abstract map.\<close>

definition set_entry :: "entry option \<Rightarrow> uintptr \<Rightarrow> uintptr \<Rightarrow> entry" where
  "set_entry e k v = (case e of None \<Rightarrow> (k, v, 1) | Some (k0, v0, c) \<Rightarrow> (k, v, c))"

fun map_op :: "hash_env \<Rightarrow> basic_hash \<Rightarrow> hash_op \<Rightarrow> (uintptr \<Rightarrow> entry option) \<Rightarrow> uintptr \<Rightarrow> entry option" where
  "map_op E ht (AddOp k v) m =
     put_key E (b_callbacks ht) k (snd (add_entry (b_hasCounts ht) (m k) (new_key E ht k v) (kept_value E ht v))) m"
| "map_op E ht (SetOp k v) m = put_key E (b_callbacks ht) k (Some (set_entry (m k) (new_key E ht k v) (kept_value E ht v))) m"
| "map_op E ht (ReplaceOp k v) m =
     (if m k = None then m
      else put_key E (b_callbacks ht) k (Some (set_entry (m k) (new_key E ht k v) (kept_value E ht v))) m)"
| "map_op E ht (RemoveOp k) m = put_key E (b_callbacks ht) k (snd (remove_entry (b_hasCounts ht) (m k))) m"
| "map_op E ht RemoveAllOp m = (\<lambda>k. None)"
| "map_op E ht (CapacityOp n) m = m"

definition step_ok :: "hash_env \<Rightarrow> basic_hash \<Rightarrow> (uintptr \<Rightarrow> entry option) \<Rightarrow> basic_hash \<Rightarrow> bool" where
  "step_ok E ht m ht' \<longleftrightarrow> table_ok E ht' \<and> alike ht' ht \<and> lookup E ht' = m \<and> (paired ht \<longrightarrow> refs_balanced ht \<longrightarrow> refs_balanced ht')"

lemma step_added:
  assumes ok: "table_ok E ht" and k: "may_store ht k v" and l: "lookup E ht k = None" and a: "added E ht k v ht'"
  shows "step_ok E ht (put_key E (b_callbacks ht) k (Some (new_key E ht k v, kept_value E ht v, 1)) (lookup E ht)) ht'"
proof -
  note s = may_storeD [OF k]
  have same: "same_key E (b_callbacks ht) (new_key E ht k v) k" using new_key_ok [OF table_okD(1) [OF ok] s(2,3,4)] by blast
  have a': "table_ok E ht'" "alike ht' ht" "entries ht' = insert (new_key E ht k v, kept_value E ht v, 1) (other_entries E ht k)"
    using a other_entries_none [OF l] by (simp_all add: added_def)
  show ?thesis using a'(1,2) lookup_put [OF ok a'(1) alikeD(1) [OF a'(2)] a'(3) same] balanced_added [OF ok _ _ k l a]
    by (simp add: step_ok_def)
qed

lemma step_replaced:
  assumes ok: "table_ok E ht" and k: "may_store ht k v" and l: "lookup E ht k = Some (k0, v0, c)"
    and a: "entry_replaced E ht k v (Held k0 v0 c) c ht'"
  shows "step_ok E ht (put_key E (b_callbacks ht) k (Some (new_key E ht k v, kept_value E ht v, c)) (lookup E ht)) ht'"
proof -
  note s = may_storeD [OF k]
  have same: "same_key E (b_callbacks ht) (new_key E ht k v) k" using new_key_ok [OF table_okD(1) [OF ok] s(2,3,4)] by blast
  have a': "table_ok E ht'" "alike ht' ht" "entries ht' = insert (new_key E ht k v, kept_value E ht v, c) (other_entries E ht k)"
    using a by (simp_all add: entry_replaced_def)
  show ?thesis using a'(1,2) lookup_put [OF ok a'(1) alikeD(1) [OF a'(2)] a'(3) same] balanced_replaced [OF ok _ _ k l a]
    by (simp add: step_ok_def)
qed

lemma step_counted:
  assumes ok: "table_ok E ht" and l: "lookup E ht k = Some (k0, v0, c)" and a: "counted E ht k k0 v0 d ht'"
  shows "step_ok E ht (put_key E (b_callbacks ht) k (Some (k0, v0, d)) (lookup E ht)) ht'"
proof -
  have a': "table_ok E ht'" "alike ht' ht" "entries ht' = insert (k0, v0, d) (other_entries E ht k)"
    using a by (simp_all add: counted_def)
  show ?thesis using a'(1,2) lookup_put [OF ok a'(1) alikeD(1) [OF a'(2)] a'(3) entries_of_key(2) [OF ok l]]
      balanced_counted [OF ok _ l a] by (simp add: step_ok_def)
qed

lemma step_removed:
  assumes ok: "table_ok E ht" and at: "at_key E ht k p k0 v0 c" and a: "removed E ht p ht'"
  shows "step_ok E ht (put_key E (b_callbacks ht) k None (lookup E ht)) ht'"
proof -
  have a': "table_ok E ht'" "alike ht' ht" "entries ht' = other_entries E ht k"
    using a at_key_but [OF ok at] by (simp_all add: removed_def)
  show ?thesis using a'(1,2) lookup_delete [OF ok a'(1) alikeD(1) [OF a'(2)] a'(3)] balanced_removed [OF ok _ at a]
    by (simp add: step_ok_def)
qed

lemma step_bump: "table_ok E ht \<Longrightarrow> step_ok E ht (lookup E ht) (bump ht)"
  by (simp add: step_ok_def balanced_bump)

lemma step_id: "table_ok E ht \<Longrightarrow> step_ok E ht (lookup E ht) ht"
  by (simp add: step_ok_def)

subsection \<open>Each operation\<close>

lemma add_step:
  assumes ok: "table_ok E ht" and k: "may_store ht k v" "roomy ht"
  shows "\<exists>ht'. CFBasicHashAddValue E ht k v =
      Some (fst (add_entry (b_hasCounts ht) (lookup E ht k) (new_key E ht k v) (kept_value E ht v)), ht') \<and>
    step_ok E ht (map_op E ht (AddOp k v) (lookup E ht)) ht'"
proof (cases "lookup E ht k")
  case None
  then show ?thesis using AddValue_absent(1) [OF ok k(2,1) None] step_added [OF ok k(1) None] by (auto simp: add_entry_def)
next
  case (Some e)
  obtain k0 v0 c where "e = (k0, v0, c)" by (cases e)
  then have l: "lookup E ht k = Some (k0, v0, c)" using Some by simp
  note p = AddValue_present [OF ok k(1) l]
  show ?thesis
  proof (cases "b_hasCounts ht \<and> c < 2 ^ 63 - 1")
    case True
    then show ?thesis using p(1) step_counted [OF ok l, of "c + 1"] l by (auto simp: add_entry_def)
  next
    case False
    then show ?thesis using p(2) step_bump [OF ok] put_lookup [OF ok, of k] l by (auto simp: add_entry_def)
  qed
qed

lemma set_step:
  assumes ok: "table_ok E ht" and k: "may_store ht k v" "roomy ht"
  shows "\<exists>ht'. CFBasicHashSetValue E ht k v = Some ht' \<and> step_ok E ht (map_op E ht (SetOp k v) (lookup E ht)) ht'"
proof (cases "lookup E ht k")
  case None
  then show ?thesis using AddValue_absent(2) [OF ok k(2,1) None] step_added [OF ok k(1) None] by (auto simp: set_entry_def)
next
  case (Some e)
  obtain k0 v0 c where "e = (k0, v0, c)" by (cases e)
  then have l: "lookup E ht k = Some (k0, v0, c)" using Some by simp
  show ?thesis using SetValue_present(1) [OF ok k(1) l] step_replaced [OF ok k(1) l] l by (auto simp: set_entry_def)
qed

lemma replace_step:
  assumes ok: "table_ok E ht" and k: "may_store ht k v"
  shows "\<exists>ht'. CFBasicHashReplaceValue E ht k v = Some ht' \<and> step_ok E ht (map_op E ht (ReplaceOp k v) (lookup E ht)) ht'"
proof (cases "lookup E ht k")
  case None
  then show ?thesis using ReplaceValue_absent [OF ok k None] step_id [OF ok] by auto
next
  case (Some e)
  obtain k0 v0 c where "e = (k0, v0, c)" by (cases e)
  then have l: "lookup E ht k = Some (k0, v0, c)" using Some by simp
  show ?thesis using SetValue_present(2) [OF ok k l] step_replaced [OF ok k l] l by (auto simp: set_entry_def)
qed

lemma remove_step:
  assumes ok: "table_ok E ht" and k: "b_mutable ht" "\<not> is_sub k"
  shows "\<exists>ht'. CFBasicHashRemoveValue E ht k = Some (entry_count (lookup E ht k), ht') \<and>
    step_ok E ht (map_op E ht (RemoveOp k) (lookup E ht)) ht'"
proof (cases "lookup E ht k")
  case None
  then show ?thesis using RemoveValue_absent [OF ok k(1) None] step_id [OF ok] put_lookup [OF ok, of k]
    by (auto simp: remove_entry_def entry_count_def)
next
  case (Some e)
  obtain k0 v0 c where "e = (k0, v0, c)" by (cases e)
  then have l: "lookup E ht k = Some (k0, v0, c)" using Some by simp
  have pos: "0 < c" using entry_positive [OF ok] entries_lookup [OF ok] l by blast
  note r = RemoveValue_present [OF ok k l]
  consider "c = 1" | "1 < c" "b_hasCounts ht \<and> c < 2 ^ 63 - 1" | "1 < c" "\<not> (b_hasCounts ht \<and> c < 2 ^ 63 - 1)"
    using pos by linarith
  then show ?thesis
  proof cases
    case 1
    then show ?thesis using r(1) step_removed [OF ok] l by (fastforce simp: remove_entry_def entry_count_def)
  next
    case 2
    then show ?thesis using r(2) step_counted [OF ok l, of "c - 1"] l by (auto simp: remove_entry_def entry_count_def)
  next
    case 3
    then show ?thesis using r(3) step_bump [OF ok] put_lookup [OF ok, of k] l by (auto simp: remove_entry_def entry_count_def)
  qed
qed

lemma no_lookup: "entries ht = {} \<Longrightarrow> lookup E ht = (\<lambda>k. None)"
  by (simp add: fun_eq_iff lookup_None)

lemma remove_all_step:
  assumes ok: "table_ok E ht" and m: "b_mutable ht"
  shows "\<exists>ht'. CFBasicHashRemoveAllValues ht = Some ht' \<and> step_ok E ht (\<lambda>k. None) ht'"
proof (cases "b_idx ht = 0")
  case True
  then have "entries ht = {}" using empty_table [of ht] by (auto simp: entries_def)
  then show ?thesis using True m step_id [OF ok] no_lookup [of ht E] by (simp add: CFBasicHashRemoveAllValues_def)
next
  case False
  obtain ht' where ht': "CFBasicHashDrain ht = Some ht'" "emptied E ht ht'" using drain_emptied [OF ok] by blast
  then have "step_ok E ht (\<lambda>k. None) ht'" using balanced_emptied [of ht E ht'] no_lookup [of ht' E]
    by (simp add: step_ok_def emptied_def)
  then show ?thesis using False m ht'(1) by (simp add: CFBasicHashRemoveAllValues_def)
qed

lemma capacity_step:
  assumes ok: "table_ok E ht" and m: "b_mutable ht"
    and cap: "n \<le> CFBasicHashGetCapacityForNumBuckets (if b_style ht = 1 then 43 else 19)"
  shows "\<exists>ht'. CFBasicHashSetCapacity E ht n = Some ht' \<and> step_ok E ht (lookup E ht) ht'"
proof -
  obtain ht' where ht': "CFBasicHashSetCapacity E ht n = Some ht'" "table_ok E ht'" "entries ht' = entries ht"
    "b_trace ht' = b_trace ht" "alike ht' ht" using SetCapacity_ok [OF ok m cap] by blast
  have "lookup E ht' = lookup E ht"
    using lookup_cong [OF table_okD(3) [OF ok] table_okD(3) [OF ht'(2)] table_okD(1) [OF ok] alikeD(1) [OF ht'(5)] ht'(3)] .
  moreover have "refs_balanced ht' = refs_balanced ht" using ht'(3,4) gave_entry_keeps [OF ht'(5)] by (simp add: refs_balanced_def owed_def)
  ultimately show ?thesis using ht' by (simp add: step_ok_def)
qed

lemma do_op_step:
  assumes ok: "table_ok E ht" and fits: "op_fits ht op"
  shows "\<exists>ht'. do_op E ht op = Some ht' \<and> step_ok E ht (map_op E ht op (lookup E ht)) ht'"
proof (cases op)
  case (AddOp k v)
  then show ?thesis using add_step [OF ok, of k v] fits by fastforce
next
  case (SetOp k v)
  then show ?thesis using set_step [OF ok, of k v] fits by simp
next
  case (ReplaceOp k v)
  then show ?thesis using replace_step [OF ok, of k v] fits by simp
next
  case (RemoveOp k)
  then show ?thesis using remove_step [OF ok, of k] fits by fastforce
next
  case RemoveAllOp
  then show ?thesis using remove_all_step [OF ok] fits by simp
next
  case (CapacityOp n)
  then show ?thesis using capacity_step [OF ok, of n] fits by simp
qed

subsection \<open>Sessions\<close>

inductive hash_session :: "hash_env \<Rightarrow> basic_hash \<Rightarrow> basic_hash \<Rightarrow> bool" for E where
  start: "hash_session E ht ht"
| call: "hash_session E ht ht' \<Longrightarrow> op_fits ht' op \<Longrightarrow> do_op E ht' op = Some ht'' \<Longrightarrow> hash_session E ht ht''"

definition plain_flags :: "nat \<Rightarrow> bool" where
  "plain_flags flags \<longleftrightarrow> \<not> flag flags 12 \<and> (flags div 2 ^ 13) mod 4 \<in> {1, 2, 3}"

lemma if_Some: "(if c then None else Some x) = Some y \<Longrightarrow> y = x"
  by (simp split: if_splits)

lemma create_ok:
  assumes "CFBasicHashCreate flags cb = Some ht" and "lawful E cb (flag flags 0)" and "plain_flags flags"
  shows "table_ok E ht" "entries ht = {}" "b_trace ht = []" "\<not> b_nullRC ht" "\<not> b_finalized ht" "b_mutable ht"
    "b_callbacks ht = cb" "b_hasKeys ht = flag flags 0" "b_hasCounts ht = flag flags 1" "b_used ht = 0" "b_style ht \<in> {1, 2, 3}"
proof -
  note ht = if_Some [OF assms(1) [unfolded CFBasicHashCreate_def Let_def]]
  show f: "b_trace ht = []" "\<not> b_nullRC ht" "\<not> b_finalized ht" "b_mutable ht" "b_callbacks ht = cb" "b_hasKeys ht = flag flags 0"
    "b_hasCounts ht = flag flags 1" "b_used ht = 0" unfolding ht by simp_all
  show s: "b_style ht \<in> {1, 2, 3}" unfolding ht using assms(3) by (simp add: plain_flags_def)
  have "b_idx ht = 0" "b_deleted ht = 0" "b_values ht = []" "b_keys ht = []" "b_counts ht = []" "b_hashes ht = []" "b_countsWidth ht = 0"
    "\<not> b_indirect ht" unfolding ht using assms(3) by (simp_all add: plain_flags_def)
  then show "table_ok E ht" "entries ht = {}" using empty_table_ok [of E ht] assms(2) f s by simp_all
qed

lemma session_ok:
  assumes "hash_session E ht0 ht" and "table_ok E ht0"
  shows "table_ok E ht \<and> alike ht ht0 \<and> (paired ht0 \<longrightarrow> refs_balanced ht0 \<longrightarrow> refs_balanced ht)"
  using assms
proof (induction rule: hash_session.induct)
  case (call ht0 ht1 op ht2)
  then have t: "table_ok E ht1" "alike ht1 ht0" "paired ht0 \<longrightarrow> refs_balanced ht0 \<longrightarrow> refs_balanced ht1" by simp_all
  obtain ht' where "do_op E ht1 op = Some ht'" "step_ok E ht1 (map_op E ht1 op (lookup E ht1)) ht'"
    using do_op_step [OF t(1) call.hyps(2)] by blast
  then have "step_ok E ht1 (map_op E ht1 op (lookup E ht1)) ht2" using call.hyps(3) by simp
  then show ?case using t alike_trans [of ht2 ht1 ht0] paired_keeps [OF t(2)] by (auto simp: step_ok_def)
qed simp

lemma finalized_owed: "owed (ht\<lparr>b_finalized := fi\<rparr>) = owed ht"
proof -
  have "gave_entry (ht\<lparr>b_finalized := fi\<rparr>) = gave_entry ht"
    by (auto simp: gave_entry_def gave_slot_def gave_value_def gave_key_def fun_eq_iff)
  then show ?thesis by (simp add: owed_def)
qed

lemma deallocate_released:
  assumes ok: "table_ok E ht" and b: "refs_balanced ht" and f: "\<not> b_finalized ht"
  shows "\<exists>ht'. CFBasicHashDeallocate ht = Some ht' \<and> taken (b_trace ht') = given (b_trace ht')"
proof -
  let ?f = "ht\<lparr>b_finalized := True\<rparr>"
  have "table_ok E ?f" using ok by simp
  then obtain ht' where ht': "CFBasicHashDrain ?f = Some ht'" "emptied E ?f ht'" using drain_emptied by blast
  have "refs_balanced ?f" using b by (simp add: refs_balanced_def finalized_owed)
  then show ?thesis using balanced_emptied ht' f by (auto simp: CFBasicHashDeallocate_def)
qed

subsection \<open>A dictionary to try the theorems on\<close>

definition plain_env :: hash_env where
  "plain_env = \<lparr>he_retain = \<lambda>f x. x, he_equal = \<lambda>f a b. a = b, he_hash = \<lambda>f x. x, he_getKey = \<lambda>f x. x\<rparr>"

definition object_callbacks :: hash_callbacks where
  "object_callbacks =
     \<lparr>kcb_retainValue = Some 1, kcb_retainKey = Some 1, kcb_releaseValue = Some 2, kcb_releaseKey = Some 2,
      kcb_equateValues = Some 3, kcb_equateKeys = Some 3, kcb_hashKey = Some 4, kcb_getIndirectKey = None\<rparr>"

lemma plain_lawful: "lawful plain_env object_callbacks hk"
  by (simp add: lawful_def same_key_def key_code_def plain_env_def object_callbacks_def)

text \<open>A table with keys, and one with counts; both with linear probing.\<close>

definition empty_dict :: basic_hash where
  "empty_dict = the (CFBasicHashCreate 8193 object_callbacks)"

definition empty_bag :: basic_hash where
  "empty_bag = the (CFBasicHashCreate 8194 object_callbacks)"

lemma created_dict: "CFBasicHashCreate 8193 object_callbacks = Some empty_dict" "plain_flags 8193"
  by (simp_all add: empty_dict_def CFBasicHashCreate_def flag_def plain_flags_def)

lemma created_bag: "CFBasicHashCreate 8194 object_callbacks = Some empty_bag" "plain_flags 8194"
  by (simp_all add: empty_bag_def CFBasicHashCreate_def flag_def plain_flags_def)

lemmas dict_ok = create_ok [OF created_dict(1) plain_lawful created_dict(2)]

lemmas bag_ok = create_ok [OF created_bag(1) plain_lawful created_bag(2)]

lemma sample_fits:
  "op_fits empty_dict (AddOp 5 7)" "op_fits empty_bag (AddOp 5 5)"
  by (simp_all add: empty_dict_def empty_bag_def CFBasicHashCreate_def flag_def may_store_def halts_def is_sub_def roomy_def
      CFBasicHashSubABZero_def CFBasicHashSubABOne_def CFBasicHashGetCapacityForNumBuckets_def CFBasicHashTableCapacities_def)

lemma sample_kept: "kept_value plain_env empty_dict v = v" "new_key plain_env empty_dict k v = k"
  by (simp_all add: kept_value_def new_key_def kept_key_def empty_dict_def CFBasicHashCreate_def flag_def
      CFBasicHashImportValue_def CFBasicHashImportKey_def object_callbacks_def plain_env_def)

lemma dict_lookup: "lookup plain_env empty_dict = (\<lambda>k. None)"
  by (rule no_lookup [OF dict_ok(2)])

subsection \<open>The properties\<close>

text \<open>C1: Adding, setting, replacing and removing in a table, emptying it and changing its capacity implement the
  corresponding operations of an abstract map from keys to entries, where keys the callbacks call equal are one key;
  every call of a well-formed table returns a well-formed table.\<close>

theorem hash_ops_refine_map:
  assumes "table_ok E ht" and "op_fits ht op"
  shows "\<exists>ht'. do_op E ht op = Some ht' \<and> table_ok E ht' \<and> alike ht' ht \<and>
    lookup E ht' = map_op E ht op (lookup E ht)"
  using do_op_step [OF assms] by (auto simp: step_ok_def)

theorem hash_ops_refine_map_witness:
  "\<exists>ht'. do_op plain_env empty_dict (AddOp 5 7) = Some ht' \<and> table_ok plain_env ht' \<and> lookup plain_env ht' 5 = Some (5, 7, 1)"
  using hash_ops_refine_map [OF dict_ok(1) sample_fits(1)] by (auto simp: put_key_def add_entry_def sample_kept dict_lookup)

text \<open>C3: \<^verbatim>\<open>CFBasicHashFindBucket\<close> returns the bucket of the entry with an equal key, or one with a count of 0
  when there is none, and \<^verbatim>\<open>CFBasicHashGetCountOfKey\<close> the number of copies of that entry.\<close>

theorem find_bucket_correct:
  assumes "table_ok E ht" and "\<not> is_sub k"
  shows "\<exists>bkt. CFBasicHashFindBucket E ht k = Some bkt \<and> bk_count bkt = entry_count (lookup E ht k) \<and>
    CFBasicHashGetCountOfKey E ht k = Some (bk_count bkt) \<and>
    (\<forall>k0 v0 c. lookup E ht k = Some (k0, v0, c) \<longrightarrow> 0 < c \<and> bk_key bkt = k0 \<and> bk_value bkt = v0)"
  using FindBucket_lookup [OF assms(1), of k] CFBasicHashGetCountOfKey_lookup [OF assms] assms(2)
  by (auto simp: CFBasicHashFindBucket_def)

theorem find_bucket_correct_witness:
  "\<exists>ht bkt. do_op plain_env empty_dict (AddOp 5 7) = Some ht \<and> CFBasicHashFindBucket plain_env ht 5 = Some bkt \<and>
    bk_count bkt = 1 \<and> bk_value bkt = 7"
proof -
  obtain ht where ht: "do_op plain_env empty_dict (AddOp 5 7) = Some ht" "step_ok plain_env empty_dict
      (map_op plain_env empty_dict (AddOp 5 7) (lookup plain_env empty_dict)) ht" using do_op_step [OF dict_ok(1) sample_fits(1)] by blast
  then have "table_ok plain_env ht" "lookup plain_env ht 5 = Some (5, 7, 1)"
    by (auto simp: step_ok_def put_key_def add_entry_def sample_kept dict_lookup)
  moreover have "\<not> is_sub 5" by (simp add: is_sub_def CFBasicHashSubABZero_def CFBasicHashSubABOne_def)
  ultimately show ?thesis using find_bucket_correct [of plain_env ht 5] ht(1) by (auto simp: entry_count_def)
qed

text \<open>C2: Over any session of calls on a new table, the references it has taken are those it has given up and one for
  the key and the value of each entry; destroying it then gives up exactly the rest.\<close>

theorem hash_references:
  assumes "CFBasicHashCreate flags cb = Some ht0" and "lawful E cb (flag flags 0)" and "plain_flags flags" and "paired ht0"
    and "hash_session E ht0 ht"
  shows "table_ok E ht \<and> taken (b_trace ht) = given (b_trace ht) + owed ht \<and>
    (\<exists>ht'. CFBasicHashDeallocate ht = Some ht' \<and> taken (b_trace ht') = given (b_trace ht'))"
proof -
  note c = create_ok [OF assms(1-3)]
  have "refs_balanced ht0" using c(2,3) by (simp add: refs_balanced_def owed_def)
  then have s: "table_ok E ht" "alike ht ht0" "refs_balanced ht" using session_ok [OF assms(5) c(1)] assms(4) by simp_all
  have "\<not> b_finalized ht" using alikeD(9) [OF s(2)] c(5) by simp
  then show ?thesis using deallocate_released [OF s(1,3)] s(1,3) by (simp add: refs_balanced_def)
qed

theorem hash_references_witness:
  "\<exists>ht ht'. hash_session plain_env empty_dict ht \<and> lookup plain_env ht 5 = Some (5, 7, 1) \<and>
    CFBasicHashDeallocate ht = Some ht' \<and> taken (b_trace ht') = given (b_trace ht')"
proof -
  obtain ht where ht: "do_op plain_env empty_dict (AddOp 5 7) = Some ht" "step_ok plain_env empty_dict
      (map_op plain_env empty_dict (AddOp 5 7) (lookup plain_env empty_dict)) ht" using do_op_step [OF dict_ok(1) sample_fits(1)] by blast
  have s: "hash_session plain_env empty_dict ht" by (rule hash_session.call [OF hash_session.start sample_fits(1) ht(1)])
  have "paired empty_dict" using dict_ok(4,7) by (simp add: paired_def object_callbacks_def)
  from hash_references [OF created_dict(1) plain_lawful created_dict(2) this s]
  show ?thesis using s ht(2) by (auto simp: step_ok_def put_key_def add_entry_def sample_kept dict_lookup)
qed

text \<open>\<^verbatim>\<open>CFBasicHashAddValue\<close> reports whether an entry or a copy was added, \<^verbatim>\<open>CFBasicHashRemoveValue\<close> the
  number of copies there were.\<close>

theorem hash_results:
  assumes "table_ok E ht" and "may_store ht k v" and "roomy ht"
  shows "map_option fst (CFBasicHashAddValue E ht k v) =
      Some (lookup E ht k = None \<or> b_hasCounts ht \<and> entry_count (lookup E ht k) < 2 ^ 63 - 1) \<and>
    map_option fst (CFBasicHashRemoveValue E ht k) = Some (entry_count (lookup E ht k))"
proof -
  have "b_mutable ht" "\<not> is_sub k" using assms(2) by (auto simp: may_store_def halts_def)
  then obtain ht' where "CFBasicHashRemoveValue E ht k = Some (entry_count (lookup E ht k), ht')"
    using remove_step [OF assms(1)] by blast
  moreover have "fst (add_entry (b_hasCounts ht) (lookup E ht k) (new_key E ht k v) (kept_value E ht v)) =
      (lookup E ht k = None \<or> b_hasCounts ht \<and> entry_count (lookup E ht k) < 2 ^ 63 - 1)"
    by (auto simp: add_entry_def entry_count_def split: option.split)
  ultimately show ?thesis using add_step [OF assms] by auto
qed

theorem hash_results_witness: "map_option fst (CFBasicHashAddValue plain_env empty_bag 5 5) = Some True"
  using hash_results [OF bag_ok(1), of 5 5] sample_fits(2) no_lookup [OF bag_ok(2), of plain_env] by simp

text \<open>C20: \<^verbatim>\<open>CFBasicHashesAreEqual\<close> holds exactly when both tables have entries for the same keys, with the same
  number of copies and, in tables with keys, equal values.\<close>

theorem hashes_equal_iff:
  assumes "table_ok E ht1" and "table_ok E ht2" and "b_callbacks ht2 = b_callbacks ht1"
    and "total_count ht1 < 2 ^ 63" and "total_count ht2 < 2 ^ 63"
  shows "CFBasicHashesAreEqual E ht1 ht2 = Some (\<forall>k. same_entry E ht1 (lookup E ht1 k) (lookup E ht2 k))"
  by (rule CFBasicHashesAreEqual_iff [OF assms])

theorem hashes_equal_iff_witness:
  "CFBasicHashesAreEqual plain_env empty_dict empty_bag = Some (\<forall>k. same_entry plain_env empty_dict None None)"
  using hashes_equal_iff [OF dict_ok(1) bag_ok(1)] dict_ok(2,7) bag_ok(2,7)
    no_lookup [OF dict_ok(2), of plain_env] no_lookup [OF bag_ok(2), of plain_env] by (simp add: total_count_def)

definition collect_block :: "hash_bucket \<Rightarrow> entry list \<Rightarrow> (bool \<times> entry list) option" where
  "collect_block bkt es = Some (True, es @ [bucket_entry bkt])"

lemma visit_collect: "visit collect_block bkts es = Some (es @ map bucket_entry bkts)"
  by (induction bkts arbitrary: es) (simp_all add: collect_block_def)

text \<open>\<^verbatim>\<open>CFBasicHashApply\<close> visits every entry exactly once, \<^verbatim>\<open>CFBasicHashGetElements\<close> fills its buffers with
  the copies of the entries in the same order, as far as they have room, and \<^verbatim>\<open>CFBasicHashGetCount\<close> is the number of
  these copies.\<close>

theorem visits_all_entries:
  assumes "table_ok E ht"
  shows "\<exists>es. CFBasicHashApply E ht collect_block [] = Some es \<and> distinct es \<and> set es = entries ht \<and>
    (\<forall>len. CFBasicHashGetElements E ht len = Some (take len (concat (map (\<lambda>(k, v, c). replicate c (v, k)) es)))) \<and>
    (total_count ht < 2 ^ 63 \<longrightarrow>
      CFBasicHashGetCount ht = Some (length (concat (map (\<lambda>(k, v, c). replicate c (v, k)) es))))"
proof -
  let ?es = "map bucket_entry (all_buckets ht)"
  have pairs: "map bucket_pairs (all_buckets ht) = map (\<lambda>(k, v, c). replicate c (v, k)) ?es"
    by (simp add: bucket_pairs_def bucket_entry_def)
  have dist: "distinct ?es" and set: "set ?es = entries ht"
    using distinct_entries [OF assms] all_buckets_entries by simp_all
  have "length (concat (map (\<lambda>(k, v, c). replicate c (v, k)) ?es)) = sum_list (map entry_copies ?es)"
    by (simp add: length_concat o_def entry_copies_def bucket_entry_def)
  also have "\<dots> = total_count ht"
    unfolding total_copies set [symmetric] by (rule sum_list_distinct_conv_sum_set [OF dist])
  finally have count: "total_count ht < 2 ^ 63 \<longrightarrow>
      CFBasicHashGetCount ht = Some (length (concat (map (\<lambda>(k, v, c). replicate c (v, k)) ?es)))"
    using CFBasicHashGetCount_total [OF assms] by simp
  show ?thesis
  proof (intro exI conjI)
    show "CFBasicHashApply E ht collect_block [] = Some ?es" by (simp add: CFBasicHashApply_visit [OF assms] visit_collect)
    show "\<forall>len. CFBasicHashGetElements E ht len = Some (take len (concat (map (\<lambda>(k, v, c). replicate c (v, k)) ?es)))"
      by (simp add: CFBasicHashGetElements_take [OF assms] pairs)
  qed (rule dist set count)+
qed

theorem visits_all_entries_witness: "CFBasicHashApply plain_env empty_dict collect_block [] = Some []"
  using visits_all_entries [OF dict_ok(1)] dict_ok(2) by auto

text \<open>C21: \<^verbatim>\<open>CFBasicHashCreateCopy\<close> makes a well-formed mutable table with the same entries, whose keys and values it
  retains anew.\<close>

theorem copy_same_entries:
  assumes "table_ok E src"
  shows "\<exists>ht. CFBasicHashCreateCopy E src = Some ht \<and> table_ok E ht \<and> b_mutable ht \<and> (paired src \<longrightarrow> refs_balanced ht) \<and>
    (\<forall>k. lookup E ht k = map_option (\<lambda>(k0, v0, c). (new_key E src k0 v0, kept_value E src v0, c)) (lookup E src k))"
proof -
  have "map_option (copy_entry E src) e = map_option (\<lambda>(k0, v0, c). (new_key E src k0 v0, kept_value E src v0, c)) e" for e
    by (cases e) (simp_all add: copy_entry_def)
  then show ?thesis
    using CFBasicHashCreateCopy_eq [OF table_okD(2) [OF assms]] copy_table_ok(1) [OF assms] copy_lookup [OF assms] copy_balanced [OF assms]
    by simp
qed

theorem copy_same_entries_witness:
  "\<exists>ht. CFBasicHashCreateCopy plain_env empty_dict = Some ht \<and> table_ok plain_env ht \<and> lookup plain_env ht 5 = None"
  using copy_same_entries [OF dict_ok(1)] dict_lookup by auto

text \<open>C22: Counting a copy up never wraps: up to 2^63 - 2 copies the count grows by one, in the narrowest sufficient
  width from the present one on, with room below half of its range, and the other counts stay as they are.\<close>

theorem slot_count_widens:
  assumes "p < length (b_counts ht)" and "b_countsWidth ht \<le> 3" and "b_counts ht ! p = c" and "c < 2 ^ 63 - 1"
  shows "\<exists>ht'. CFBasicHashIncSlotCount ht p = Some ht' \<and> b_counts ht' = (b_counts ht)[p := c + 1] \<and>
    b_countsWidth ht \<le> b_countsWidth ht' \<and> b_countsWidth ht' \<le> 3 \<and> c + 1 < count_limit (b_countsWidth ht') div 2 \<and>
    (c + 1 < count_limit (b_countsWidth ht) div 2 \<longrightarrow> b_countsWidth ht' = b_countsWidth ht)"
  using IncSlotCount_ok [OF assms] by auto

theorem slot_count_widens_witness:
  "\<exists>ht'. CFBasicHashIncSlotCount (empty_bag\<lparr>b_counts := [127, 5]\<rparr>) 0 = Some ht' \<and> b_counts ht' = [128, 5]"
  using slot_count_widens [of 0 "empty_bag\<lparr>b_counts := [127, 5]\<rparr>" 127]
  by (simp add: empty_bag_def CFBasicHashCreate_def flag_def) blast

text \<open>C4: With each of the three hash styles the probe sequence of a key comes to every bucket within as many steps as
  there are buckets; for linear probing with every size of the table, for the two others up to 50683 buckets, where the
  sizes are prime and the tabulated roots primitive.\<close>

theorem probing_visits_all:
  assumes "sizes_ok style idx" and "0 < idx"
  shows "(\<lambda>i. fst ((next_probe style (CFBasicHashTableSizes ! idx) (CFBasicHashPrimitiveRoots ! idx) hash_code ^^ i)
      (hash1 (CFBasicHashTableSizes ! idx) hash_code, CFBasicHashPrimitiveRoots ! idx))) ` {..<CFBasicHashTableSizes ! idx} =
    {..<CFBasicHashTableSizes ! idx}"
  by (rule probe_sequence_covers [OF assms])

theorem probing_visits_all_witness:
  "(\<lambda>i. fst ((next_probe 3 (CFBasicHashTableSizes ! 2) (CFBasicHashPrimitiveRoots ! 2) 5 ^^ i)
      (hash1 (CFBasicHashTableSizes ! 2) 5, CFBasicHashPrimitiveRoots ! 2))) ` {..<CFBasicHashTableSizes ! 2} =
    {..<CFBasicHashTableSizes ! 2}"
  by (rule probing_visits_all) (simp_all add: sizes_ok_def)

subsection \<open>Removing a number that is not there\<close>

text \<open>The loop looks at each number as it was, and remembers the last bucket that holds the one to remove.\<close>

lemma renumber_down_step:
  assumes ok: "arrays_ok ht" and j: "j < nb ht"
    and s: "length (b_values ht') = nb ht" "\<forall>i < nb ht. j \<le> i \<longrightarrow> b_values ht' ! i = b_values ht ! i"
  shows "\<exists>ht''. renumber_down n j (b, ht') = Some (if \<exists>k c. slot_of ht j = Held k n c then int j else b, ht'') \<and>
    length (b_values ht'') = nb ht \<and> (\<forall>i < nb ht. Suc j \<le> i \<longrightarrow> b_values ht'' ! i = b_values ht ! i)"
proof -
  have v: "b_values ht' ! j = b_values ht ! j" using s(2) j by simp
  show ?thesis
  proof (cases "held ht j")
    case True
    then obtain k w c where h: "slot_of ht j = Held k w c" by (cases "slot_of ht j") auto
    note cell = slot_HeldD(1,2,4) [OF h]
    show ?thesis using cell v s j h by (auto simp: renumber_down_def CFBasicHashIsEmptyOrDeleted_def CFBasicHashGetValue_def
          SetValue_ignore bump_def)
  next
    case False
    then show ?thesis using held_iff [of ht j] v s j
      by (auto simp: renumber_down_def CFBasicHashIsEmptyOrDeleted_def CFBasicHashGetValue_def)
  qed
qed

lemma renumber_down_loop:
  assumes ok: "table_ok E ht"
  shows "\<exists>b ht'. run_loop_over (renumber_down n) [0..<nb ht] (-1, ht) = Some (b, ht') \<and>
    (b = -1 \<longleftrightarrow> (\<forall>k c. (k, n, c) \<notin> entries ht))"
proof -
  let ?here = "\<lambda>i. \<exists>k c. slot_of ht i = Held k n c"
  let ?P = "\<lambda>j s. length (b_values (snd s)) = nb ht \<and> (\<forall>i < nb ht. j \<le> i \<longrightarrow> b_values (snd s) ! i = b_values ht ! i) \<and>
    (fst s = -1 \<longleftrightarrow> (\<forall>i < j. \<not> ?here i))"
  have "\<exists>s'. run_loop_over (renumber_down n) [0..<nb ht] (-1, ht) = Some s' \<and> ?P (nb ht) s'"
  proof (rule run_loop_invariant [where P = ?P])
    show "?P 0 (-1, ht)" using arrays_lengths(1) [OF table_okD(2) [OF ok]] by simp
    fix j and s :: "int \<times> basic_hash" assume j: "j < nb ht" and P: "?P j s"
    obtain u where u: "renumber_down n j (fst s, snd s) = Some (if ?here j then int j else fst s, u)" "length (b_values u) = nb ht"
      "\<forall>i < nb ht. Suc j \<le> i \<longrightarrow> b_values u ! i = b_values ht ! i"
      using renumber_down_step [OF table_okD(2) [OF ok] j, of "snd s" n "fst s"] P by blast
    have "(if ?here j then int j else fst s) = -1 \<longleftrightarrow> (\<forall>i < Suc j. \<not> ?here i)" using P by (simp add: All_less_Suc)
    then show "\<exists>s'. renumber_down n j s = Some s' \<and> ?P (Suc j) s'"
      using u by (intro exI [of _ "(if ?here j then int j else fst s, u)"]) simp
  qed
  moreover have "(\<forall>i < nb ht. \<not> ?here i) \<longleftrightarrow> (\<forall>k c. (k, n, c) \<notin> entries ht)" by (auto simp: entries_def)
  ultimately show ?thesis by auto
qed

text \<open>C23: On a mutable table, for a number other than the two substitutes, \<^verbatim>\<open>CFBasicHashRemoveIntValueAndDec\<close> reads and writes
  the bucket of index -1, in front of the array of the values, exactly when no entry holds the number: the program does not
  halt there, and nothing else makes it leave the array so.\<close>

theorem remove_int_absent:
  assumes "table_ok E ht" and "b_mutable ht" and "\<not> is_sub n"
  shows "CFBasicHashRemoveIntValueAndDec E ht n = Inl (Outside_values (-1)) \<longleftrightarrow> (\<forall>k c. (k, n, c) \<notin> entries ht)"
proof -
  obtain b ht' where "run_loop_over (renumber_down n) [0..<nb ht] (-1, ht) = Some (b, ht')"
    "b = -1 \<longleftrightarrow> (\<forall>k c. (k, n, c) \<notin> entries ht)"
    using renumber_down_loop [OF assms(1)] by blast
  then show ?thesis using assms(2,3) by (auto simp: CFBasicHashRemoveIntValueAndDec_def split: option.splits)
qed

theorem remove_int_absent_witness: "CFBasicHashRemoveIntValueAndDec plain_env empty_dict 5 = Inl (Outside_values (-1))"
proof -
  have "b_mutable empty_dict" "\<not> is_sub 5" by (simp_all add: empty_dict_def CFBasicHashCreate_def flag_def is_sub_def CFBasicHashSubABZero_def CFBasicHashSubABOne_def)
  from remove_int_absent [OF dict_ok(1) this] show ?thesis by (simp add: dict_ok(2))
qed

end
