(* ===== verification/CFCollections.thy ===== *)
theory CFCollections
  imports BasicHashTheorems
begin

text \<open>
  \<^verbatim>\<open>CFDictionary.c\<close>, \<^verbatim>\<open>CFSet.c\<close> and \<^verbatim>\<open>CFBag.c\<close>, three expansions of one template over \<^verbatim>\<open>CFBasicHash\<close>: a dictionary
  has keys, a set is a table whose values are their keys, and a bag counts them. Objective-C dispatch, the type
  checks, the assertions, the notifications of observers and the branches for garbage collection are left out.
\<close>

subsection \<open>Callbacks\<close>

record key_callbacks =
  kc_retain :: "fptr option"
  kc_release :: "fptr option"
  kc_equal :: "fptr option"
  kc_hash :: "fptr option"

record value_callbacks =
  vc_retain :: "fptr option"
  vc_release :: "fptr option"
  vc_equal :: "fptr option"

text \<open>A missing record of callbacks is one without functions; \<open>opt\<close> reads a field.\<close>

definition opt :: "('r \<Rightarrow> fptr option) \<Rightarrow> 'r option \<Rightarrow> fptr option" where
  "opt f r = (case r of None \<Rightarrow> None | Some r \<Rightarrow> f r)"

definition key_value_callbacks :: "key_callbacks option \<Rightarrow> value_callbacks option \<Rightarrow> hash_callbacks" where
  "key_value_callbacks kcb vcb =
     \<lparr>kcb_retainValue = opt vc_retain vcb, kcb_retainKey = opt kc_retain kcb,
      kcb_releaseValue = opt vc_release vcb, kcb_releaseKey = opt kc_release kcb,
      kcb_equateValues = opt vc_equal vcb, kcb_equateKeys = opt kc_equal kcb,
      kcb_hashKey = opt kc_hash kcb, kcb_getIndirectKey = None\<rparr>"

definition member_callbacks :: "key_callbacks option \<Rightarrow> hash_callbacks" where
  "member_callbacks kcb =
     \<lparr>kcb_retainValue = opt kc_retain kcb, kcb_retainKey = opt kc_retain kcb,
      kcb_releaseValue = opt kc_release kcb, kcb_releaseKey = opt kc_release kcb,
      kcb_equateValues = opt kc_equal kcb, kcb_equateKeys = opt kc_equal kcb,
      kcb_hashKey = opt kc_hash kcb, kcb_getIndirectKey = None\<rparr>"

text \<open>The loop that adds the values of two C arrays.\<close>

definition add_pair :: "hash_env \<Rightarrow> uintptr \<times> uintptr \<Rightarrow> basic_hash \<Rightarrow> basic_hash option" where
  "add_pair E kv ht = map_option snd (CFBasicHashAddValue E ht (fst kv) (snd kv))"

definition add_value_list :: "hash_env \<Rightarrow> uintptr list \<Rightarrow> uintptr list \<Rightarrow> int \<Rightarrow> basic_hash \<Rightarrow> basic_hash option" where
  "add_value_list E klist vlist numValues ht =
     do { ht1 \<leftarrow> (if 0 < numValues then CFBasicHashSetCapacity E ht (nat numValues) else Some ht);
          ks \<leftarrow> readn klist 0 (nat numValues);
          vs \<leftarrow> readn vlist 0 (nat numValues);
          run_loop_over (add_pair E) (zip ks vs) ht1 }"

definition found_value :: "hash_bucket \<Rightarrow> uintptr" where
  "found_value bkt = (if 0 < bk_count bkt then bk_value bkt else 0)"

subsection \<open>CFDictionary\<close>

definition CFDictionaryFlags :: "nat" where
  "CFDictionaryFlags = 2 ^ 13 + 1"

definition CFDictionaryEqual :: "hash_env \<Rightarrow> basic_hash \<Rightarrow> basic_hash \<Rightarrow> bool option" where
  "CFDictionaryEqual E cf1 cf2 = CFBasicHashesAreEqual E cf1 cf2"

definition CFDictionaryHash :: "basic_hash \<Rightarrow> nat option" where
  "CFDictionaryHash cf = CFBasicHashHash cf"

definition CFDictionaryDeallocate :: "basic_hash \<Rightarrow> basic_hash option" where
  "CFDictionaryDeallocate cf = CFBasicHashDeallocate cf"

definition CFDictionaryCreateGeneric :: "key_callbacks option \<Rightarrow> value_callbacks option \<Rightarrow> basic_hash option" where
  "CFDictionaryCreateGeneric keyCallBacks valueCallBacks = CFBasicHashCreate CFDictionaryFlags (key_value_callbacks keyCallBacks valueCallBacks)"

text \<open>The callbacks for objects, \<^verbatim>\<open>kCFTypeDictionaryKeyCallBacks\<close> and \<^verbatim>\<open>kCFTypeDictionaryValueCallBacks\<close>, are an argument.\<close>

definition CFDictionaryCreateTransfer :: "hash_env \<Rightarrow> key_callbacks option \<Rightarrow> value_callbacks option \<Rightarrow> uintptr list \<Rightarrow> uintptr list \<Rightarrow> int \<Rightarrow> basic_hash option" where
  "CFDictionaryCreateTransfer E keyCallBacks valueCallBacks klist vlist numValues =
     do { ht \<leftarrow> CFBasicHashCreate CFDictionaryFlags (key_value_callbacks keyCallBacks valueCallBacks);
          ht1 \<leftarrow> add_value_list E klist vlist numValues (CFBasicHashSuppressRC ht);
          Some (CFBasicHashMakeImmutable (CFBasicHashUnsuppressRC ht1)) }"

definition CFDictionaryCreate :: "hash_env \<Rightarrow> uintptr list \<Rightarrow> uintptr list \<Rightarrow> int \<Rightarrow> key_callbacks option \<Rightarrow> value_callbacks option \<Rightarrow> basic_hash option" where
  "CFDictionaryCreate E klist vlist numValues keyCallBacks valueCallBacks =
     do { ht \<leftarrow> CFDictionaryCreateGeneric keyCallBacks valueCallBacks;
          ht1 \<leftarrow> add_value_list E klist vlist numValues ht;
          Some (CFBasicHashMakeImmutable ht1) }"

definition CFDictionaryCreateMutable :: "key_callbacks option \<Rightarrow> value_callbacks option \<Rightarrow> basic_hash option" where
  "CFDictionaryCreateMutable keyCallBacks valueCallBacks = CFDictionaryCreateGeneric keyCallBacks valueCallBacks"

definition CFDictionaryCreateCopy :: "hash_env \<Rightarrow> basic_hash \<Rightarrow> basic_hash option" where
  "CFDictionaryCreateCopy E other = map_option CFBasicHashMakeImmutable (CFBasicHashCreateCopy E other)"

definition CFDictionaryCreateMutableCopy :: "hash_env \<Rightarrow> basic_hash \<Rightarrow> basic_hash option" where
  "CFDictionaryCreateMutableCopy E other = CFBasicHashCreateCopy E other"

definition CFDictionaryGetCount :: "basic_hash \<Rightarrow> nat option" where
  "CFDictionaryGetCount hc = CFBasicHashGetCount hc"

definition CFDictionaryGetCountOfKey :: "hash_env \<Rightarrow> basic_hash \<Rightarrow> uintptr \<Rightarrow> nat option" where
  "CFDictionaryGetCountOfKey E hc key = CFBasicHashGetCountOfKey E hc key"

definition CFDictionaryContainsKey :: "hash_env \<Rightarrow> basic_hash \<Rightarrow> uintptr \<Rightarrow> bool option" where
  "CFDictionaryContainsKey E hc key = map_option (\<lambda>n. 0 < n) (CFBasicHashGetCountOfKey E hc key)"

definition CFDictionaryGetValue :: "hash_env \<Rightarrow> basic_hash \<Rightarrow> uintptr \<Rightarrow> uintptr option" where
  "CFDictionaryGetValue E hc key = map_option found_value (CFBasicHashFindBucket E hc key)"

text \<open>The flag, and the word stored through the pointer when there is one.\<close>

definition CFDictionaryGetValueIfPresent :: "hash_env \<Rightarrow> basic_hash \<Rightarrow> uintptr \<Rightarrow> (bool \<times> uintptr option) option" where
  "CFDictionaryGetValueIfPresent E hc key =
     map_option (\<lambda>bkt. if 0 < bk_count bkt then (True, Some (bk_value bkt)) else (False, None)) (CFBasicHashFindBucket E hc key)"

definition CFDictionaryGetCountOfValue :: "hash_env \<Rightarrow> basic_hash \<Rightarrow> uintptr \<Rightarrow> nat option" where
  "CFDictionaryGetCountOfValue E hc v = CFBasicHashGetCountOfValue E hc v"

definition CFDictionaryContainsValue :: "hash_env \<Rightarrow> basic_hash \<Rightarrow> uintptr \<Rightarrow> bool option" where
  "CFDictionaryContainsValue E hc v = map_option (\<lambda>n. 0 < n) (CFBasicHashGetCountOfValue E hc v)"

definition CFDictionaryGetKeyIfPresent :: "hash_env \<Rightarrow> basic_hash \<Rightarrow> uintptr \<Rightarrow> (bool \<times> uintptr option) option" where
  "CFDictionaryGetKeyIfPresent E hc key =
     map_option (\<lambda>bkt. if 0 < bk_count bkt then (True, Some (bk_key bkt)) else (False, None)) (CFBasicHashFindBucket E hc key)"

text \<open>The values and keys put into the buffers, and the calls of the applier.\<close>

definition CFDictionaryGetKeysAndValues :: "hash_env \<Rightarrow> basic_hash \<Rightarrow> (uintptr \<times> uintptr) list option" where
  "CFDictionaryGetKeysAndValues E hc = do { n \<leftarrow> CFDictionaryGetCount hc; CFBasicHashGetElements E hc n }"

definition CFDictionaryApplyFunction :: "hash_env \<Rightarrow> basic_hash \<Rightarrow> (uintptr \<times> uintptr) list option" where
  "CFDictionaryApplyFunction E hc =
     CFBasicHashApply E hc (\<lambda>bkt calls. Some (True, calls @ [(bk_key bkt, bk_value bkt)])) []"

definition CFDictionaryFastEnumeration :: "hash_env \<Rightarrow> basic_hash \<Rightarrow> nat \<Rightarrow> nat \<Rightarrow> (uintptr list \<times> nat) option" where
  "CFDictionaryFastEnumeration E hc st len = CFBasicHashFastEnumeration E hc st len"

definition CFDictionaryIsMutable :: "basic_hash \<Rightarrow> bool" where
  "CFDictionaryIsMutable hc = b_mutable hc"

definition CFDictionarySetCapacity :: "hash_env \<Rightarrow> basic_hash \<Rightarrow> nat \<Rightarrow> basic_hash option" where
  "CFDictionarySetCapacity E hc cap = CFBasicHashSetCapacity E hc cap"

definition CFDictionaryAddValue :: "hash_env \<Rightarrow> basic_hash \<Rightarrow> uintptr \<Rightarrow> uintptr \<Rightarrow> basic_hash option" where
  "CFDictionaryAddValue E hc key value = map_option snd (CFBasicHashAddValue E hc key value)"

definition CFDictionaryReplaceValue :: "hash_env \<Rightarrow> basic_hash \<Rightarrow> uintptr \<Rightarrow> uintptr \<Rightarrow> basic_hash option" where
  "CFDictionaryReplaceValue E hc key value = CFBasicHashReplaceValue E hc key value"

definition CFDictionarySetValue :: "hash_env \<Rightarrow> basic_hash \<Rightarrow> uintptr \<Rightarrow> uintptr \<Rightarrow> basic_hash option" where
  "CFDictionarySetValue E hc key value = CFBasicHashSetValue E hc key value"

definition CFDictionaryRemoveValue :: "hash_env \<Rightarrow> basic_hash \<Rightarrow> uintptr \<Rightarrow> basic_hash option" where
  "CFDictionaryRemoveValue E hc key = map_option snd (CFBasicHashRemoveValue E hc key)"

definition CFDictionaryRemoveAllValues :: "basic_hash \<Rightarrow> basic_hash option" where
  "CFDictionaryRemoveAllValues hc = CFBasicHashRemoveAllValues hc"

subsection \<open>CFSet\<close>

definition CFSetFlags :: "nat" where
  "CFSetFlags = 2 ^ 13"

definition CFSetEqual :: "hash_env \<Rightarrow> basic_hash \<Rightarrow> basic_hash \<Rightarrow> bool option" where
  "CFSetEqual E cf1 cf2 = CFBasicHashesAreEqual E cf1 cf2"

definition CFSetHash :: "basic_hash \<Rightarrow> nat option" where
  "CFSetHash cf = CFBasicHashHash cf"

definition CFSetDeallocate :: "basic_hash \<Rightarrow> basic_hash option" where
  "CFSetDeallocate cf = CFBasicHashDeallocate cf"

definition CFSetCreateGeneric :: "key_callbacks option \<Rightarrow> basic_hash option" where
  "CFSetCreateGeneric keyCallBacks = CFBasicHashCreate CFSetFlags (member_callbacks keyCallBacks)"

text \<open>The callbacks for objects, \<^verbatim>\<open>kCFTypeSetCallBacks\<close>, are an argument.\<close>

definition CFSetCreateTransfer :: "hash_env \<Rightarrow> key_callbacks option \<Rightarrow> uintptr list \<Rightarrow> int \<Rightarrow> basic_hash option" where
  "CFSetCreateTransfer E keyCallBacks klist numValues =
     do { ht \<leftarrow> CFBasicHashCreate CFSetFlags (member_callbacks keyCallBacks);
          ht1 \<leftarrow> add_value_list E klist klist numValues (CFBasicHashSuppressRC ht);
          Some (CFBasicHashMakeImmutable (CFBasicHashUnsuppressRC ht1)) }"

definition CFSetCreate :: "hash_env \<Rightarrow> uintptr list \<Rightarrow> int \<Rightarrow> key_callbacks option \<Rightarrow> basic_hash option" where
  "CFSetCreate E klist numValues keyCallBacks =
     do { ht \<leftarrow> CFSetCreateGeneric keyCallBacks;
          ht1 \<leftarrow> add_value_list E klist klist numValues ht;
          Some (CFBasicHashMakeImmutable ht1) }"

definition CFSetCreateMutable :: "key_callbacks option \<Rightarrow> basic_hash option" where
  "CFSetCreateMutable keyCallBacks = CFSetCreateGeneric keyCallBacks"

definition CFSetCreateCopy :: "hash_env \<Rightarrow> basic_hash \<Rightarrow> basic_hash option" where
  "CFSetCreateCopy E other = map_option CFBasicHashMakeImmutable (CFBasicHashCreateCopy E other)"

definition CFSetCreateMutableCopy :: "hash_env \<Rightarrow> basic_hash \<Rightarrow> basic_hash option" where
  "CFSetCreateMutableCopy E other = CFBasicHashCreateCopy E other"

definition CFSetGetCount :: "basic_hash \<Rightarrow> nat option" where
  "CFSetGetCount hc = CFBasicHashGetCount hc"

definition CFSetGetCountOfValue :: "hash_env \<Rightarrow> basic_hash \<Rightarrow> uintptr \<Rightarrow> nat option" where
  "CFSetGetCountOfValue E hc key = CFBasicHashGetCountOfKey E hc key"

definition CFSetContainsValue :: "hash_env \<Rightarrow> basic_hash \<Rightarrow> uintptr \<Rightarrow> bool option" where
  "CFSetContainsValue E hc key = map_option (\<lambda>n. 0 < n) (CFBasicHashGetCountOfKey E hc key)"

definition CFSetGetValue :: "hash_env \<Rightarrow> basic_hash \<Rightarrow> uintptr \<Rightarrow> uintptr option" where
  "CFSetGetValue E hc key = map_option found_value (CFBasicHashFindBucket E hc key)"

text \<open>The flag, and the word stored through the pointer when there is one.\<close>

definition CFSetGetValueIfPresent :: "hash_env \<Rightarrow> basic_hash \<Rightarrow> uintptr \<Rightarrow> (bool \<times> uintptr option) option" where
  "CFSetGetValueIfPresent E hc key =
     map_option (\<lambda>bkt. if 0 < bk_count bkt then (True, Some (bk_value bkt)) else (False, None)) (CFBasicHashFindBucket E hc key)"

text \<open>The keys put into the buffer, and the calls of the applier.\<close>

definition CFSetGetValues :: "hash_env \<Rightarrow> basic_hash \<Rightarrow> uintptr list option" where
  "CFSetGetValues E hc = do { n \<leftarrow> CFSetGetCount hc; map_option (map snd) (CFBasicHashGetElements E hc n) }"

definition CFSetApplyFunction :: "hash_env \<Rightarrow> basic_hash \<Rightarrow> uintptr list option" where
  "CFSetApplyFunction E hc =
     CFBasicHashApply E hc (\<lambda>bkt calls. Some (True, calls @ [bk_value bkt])) []"

definition CFSetFastEnumeration :: "hash_env \<Rightarrow> basic_hash \<Rightarrow> nat \<Rightarrow> nat \<Rightarrow> (uintptr list \<times> nat) option" where
  "CFSetFastEnumeration E hc st len = CFBasicHashFastEnumeration E hc st len"

definition CFSetIsMutable :: "basic_hash \<Rightarrow> bool" where
  "CFSetIsMutable hc = b_mutable hc"

definition CFSetSetCapacity :: "hash_env \<Rightarrow> basic_hash \<Rightarrow> nat \<Rightarrow> basic_hash option" where
  "CFSetSetCapacity E hc cap = CFBasicHashSetCapacity E hc cap"

definition CFSetAddValue :: "hash_env \<Rightarrow> basic_hash \<Rightarrow> uintptr \<Rightarrow> basic_hash option" where
  "CFSetAddValue E hc key = map_option snd (CFBasicHashAddValue E hc key key)"

definition CFSetReplaceValue :: "hash_env \<Rightarrow> basic_hash \<Rightarrow> uintptr \<Rightarrow> basic_hash option" where
  "CFSetReplaceValue E hc key = CFBasicHashReplaceValue E hc key key"

definition CFSetSetValue :: "hash_env \<Rightarrow> basic_hash \<Rightarrow> uintptr \<Rightarrow> basic_hash option" where
  "CFSetSetValue E hc key = CFBasicHashSetValue E hc key key"

definition CFSetRemoveValue :: "hash_env \<Rightarrow> basic_hash \<Rightarrow> uintptr \<Rightarrow> basic_hash option" where
  "CFSetRemoveValue E hc key = map_option snd (CFBasicHashRemoveValue E hc key)"

definition CFSetRemoveAllValues :: "basic_hash \<Rightarrow> basic_hash option" where
  "CFSetRemoveAllValues hc = CFBasicHashRemoveAllValues hc"

subsection \<open>CFBag\<close>

definition CFBagFlags :: "nat" where
  "CFBagFlags = 2 ^ 13 + 2"

definition CFBagEqual :: "hash_env \<Rightarrow> basic_hash \<Rightarrow> basic_hash \<Rightarrow> bool option" where
  "CFBagEqual E cf1 cf2 = CFBasicHashesAreEqual E cf1 cf2"

definition CFBagHash :: "basic_hash \<Rightarrow> nat option" where
  "CFBagHash cf = CFBasicHashHash cf"

definition CFBagDeallocate :: "basic_hash \<Rightarrow> basic_hash option" where
  "CFBagDeallocate cf = CFBasicHashDeallocate cf"

definition CFBagCreateGeneric :: "key_callbacks option \<Rightarrow> basic_hash option" where
  "CFBagCreateGeneric keyCallBacks = CFBasicHashCreate CFBagFlags (member_callbacks keyCallBacks)"

text \<open>The callbacks for objects, \<^verbatim>\<open>kCFTypeBagCallBacks\<close>, are an argument.\<close>

definition CFBagCreateTransfer :: "hash_env \<Rightarrow> key_callbacks option \<Rightarrow> uintptr list \<Rightarrow> int \<Rightarrow> basic_hash option" where
  "CFBagCreateTransfer E keyCallBacks klist numValues =
     do { ht \<leftarrow> CFBasicHashCreate CFBagFlags (member_callbacks keyCallBacks);
          ht1 \<leftarrow> add_value_list E klist klist numValues (CFBasicHashSuppressRC ht);
          Some (CFBasicHashMakeImmutable (CFBasicHashUnsuppressRC ht1)) }"

definition CFBagCreate :: "hash_env \<Rightarrow> uintptr list \<Rightarrow> int \<Rightarrow> key_callbacks option \<Rightarrow> basic_hash option" where
  "CFBagCreate E klist numValues keyCallBacks =
     do { ht \<leftarrow> CFBagCreateGeneric keyCallBacks;
          ht1 \<leftarrow> add_value_list E klist klist numValues ht;
          Some (CFBasicHashMakeImmutable ht1) }"

definition CFBagCreateMutable :: "key_callbacks option \<Rightarrow> basic_hash option" where
  "CFBagCreateMutable keyCallBacks = CFBagCreateGeneric keyCallBacks"

definition CFBagCreateCopy :: "hash_env \<Rightarrow> basic_hash \<Rightarrow> basic_hash option" where
  "CFBagCreateCopy E other = map_option CFBasicHashMakeImmutable (CFBasicHashCreateCopy E other)"

definition CFBagCreateMutableCopy :: "hash_env \<Rightarrow> basic_hash \<Rightarrow> basic_hash option" where
  "CFBagCreateMutableCopy E other = CFBasicHashCreateCopy E other"

definition CFBagGetCount :: "basic_hash \<Rightarrow> nat option" where
  "CFBagGetCount hc = CFBasicHashGetCount hc"

definition CFBagGetCountOfValue :: "hash_env \<Rightarrow> basic_hash \<Rightarrow> uintptr \<Rightarrow> nat option" where
  "CFBagGetCountOfValue E hc key = CFBasicHashGetCountOfKey E hc key"

definition CFBagContainsValue :: "hash_env \<Rightarrow> basic_hash \<Rightarrow> uintptr \<Rightarrow> bool option" where
  "CFBagContainsValue E hc key = map_option (\<lambda>n. 0 < n) (CFBasicHashGetCountOfKey E hc key)"

definition CFBagGetValue :: "hash_env \<Rightarrow> basic_hash \<Rightarrow> uintptr \<Rightarrow> uintptr option" where
  "CFBagGetValue E hc key = map_option found_value (CFBasicHashFindBucket E hc key)"

text \<open>The flag, and the word stored through the pointer when there is one.\<close>

definition CFBagGetValueIfPresent :: "hash_env \<Rightarrow> basic_hash \<Rightarrow> uintptr \<Rightarrow> (bool \<times> uintptr option) option" where
  "CFBagGetValueIfPresent E hc key =
     map_option (\<lambda>bkt. if 0 < bk_count bkt then (True, Some (bk_value bkt)) else (False, None)) (CFBasicHashFindBucket E hc key)"

text \<open>The keys put into the buffer, and the calls of the applier.\<close>

definition CFBagGetValues :: "hash_env \<Rightarrow> basic_hash \<Rightarrow> uintptr list option" where
  "CFBagGetValues E hc = do { n \<leftarrow> CFBagGetCount hc; map_option (map snd) (CFBasicHashGetElements E hc n) }"

definition CFBagApplyFunction :: "hash_env \<Rightarrow> basic_hash \<Rightarrow> uintptr list option" where
  "CFBagApplyFunction E hc =
     CFBasicHashApply E hc (\<lambda>bkt calls. Some (True, calls @ replicate (bk_count bkt) (bk_value bkt))) []"

definition CFBagFastEnumeration :: "hash_env \<Rightarrow> basic_hash \<Rightarrow> nat \<Rightarrow> nat \<Rightarrow> (uintptr list \<times> nat) option" where
  "CFBagFastEnumeration E hc st len = CFBasicHashFastEnumeration E hc st len"

definition CFBagIsMutable :: "basic_hash \<Rightarrow> bool" where
  "CFBagIsMutable hc = b_mutable hc"

definition CFBagSetCapacity :: "hash_env \<Rightarrow> basic_hash \<Rightarrow> nat \<Rightarrow> basic_hash option" where
  "CFBagSetCapacity E hc cap = CFBasicHashSetCapacity E hc cap"

definition CFBagAddValue :: "hash_env \<Rightarrow> basic_hash \<Rightarrow> uintptr \<Rightarrow> basic_hash option" where
  "CFBagAddValue E hc key = map_option snd (CFBasicHashAddValue E hc key key)"

definition CFBagReplaceValue :: "hash_env \<Rightarrow> basic_hash \<Rightarrow> uintptr \<Rightarrow> basic_hash option" where
  "CFBagReplaceValue E hc key = CFBasicHashReplaceValue E hc key key"

definition CFBagSetValue :: "hash_env \<Rightarrow> basic_hash \<Rightarrow> uintptr \<Rightarrow> basic_hash option" where
  "CFBagSetValue E hc key = CFBasicHashSetValue E hc key key"

definition CFBagRemoveValue :: "hash_env \<Rightarrow> basic_hash \<Rightarrow> uintptr \<Rightarrow> basic_hash option" where
  "CFBagRemoveValue E hc key = map_option snd (CFBasicHashRemoveValue E hc key)"

definition CFBagRemoveAllValues :: "basic_hash \<Rightarrow> basic_hash option" where
  "CFBagRemoveAllValues hc = CFBasicHashRemoveAllValues hc"

end
