(* ===== verification/CFCollectionTheorems.thy ===== *)
theory CFCollectionTheorems
  imports CFCollections
begin

text \<open>
  Dictionaries, sets and bags: what a collection made from C arrays holds, and what a dictionary answers after a
  change. The collections rely on the interface \<open>keyed_table\<close>, which \<^verbatim>\<open>CFBasicHash\<close> provides.
\<close>

subsection \<open>The interface\<close>

text \<open>
  A table with an operation that adds a pair under its invariant: the entry of the key changes as \<open>after\<close> says, the
  others stay; \<open>room t n\<close> says that \<open>n\<close> more pairs can be added, \<open>like\<close> that two tables have the same settings.
\<close>

locale keyed_table =
  fixes inv :: "'t \<Rightarrow> bool"
    and fits :: "'t \<Rightarrow> 'k \<times> 'v \<Rightarrow> bool"
    and room :: "'t \<Rightarrow> nat \<Rightarrow> bool"
    and like :: "'t \<Rightarrow> 't \<Rightarrow> bool"
    and same :: "'t \<Rightarrow> 'k \<Rightarrow> 'k \<Rightarrow> bool"
    and look :: "'t \<Rightarrow> 'k \<Rightarrow> 'e option"
    and after :: "'t \<Rightarrow> 'k \<times> 'v \<Rightarrow> 'e option \<Rightarrow> 'e option"
    and add :: "'k \<times> 'v \<Rightarrow> 't \<Rightarrow> 't option"
  assumes add_ok: "inv t \<Longrightarrow> fits t kv \<Longrightarrow> room t (Suc n) \<Longrightarrow>
      \<exists>t'. add kv t = Some t' \<and> inv t' \<and> room t' n \<and> like t' t \<and>
        look t' = (\<lambda>x. if same t (fst kv) x then after t kv (look t (fst kv)) else look t x)"
    and look_same: "inv t \<Longrightarrow> same t k x \<Longrightarrow> look t x = look t k"
    and like_settings: "like t' t \<Longrightarrow> fits t' = fits t \<and> same t' = same t \<and> after t' = after t"
    and like_refl: "like t t"
    and like_trans: "like t'' t' \<Longrightarrow> like t' t \<Longrightarrow> like t'' t"
begin

text \<open>Adding the pairs of a list: every key is looked up in the pairs that have an equal key, in their order.\<close>

lemma add_all:
  "inv t \<Longrightarrow> room t (length kvs) \<Longrightarrow> (\<And>kv. kv \<in> set kvs \<Longrightarrow> fits t kv) \<Longrightarrow>
   \<exists>t'. run_loop_over add kvs t = Some t' \<and> inv t' \<and> like t' t \<and>
     (\<forall>x. look t' x = fold (after t) (filter (\<lambda>kv. same t (fst kv) x) kvs) (look t x))"
proof (induction kvs arbitrary: t)
  case Nil
  then show ?case by (simp add: like_refl)
next
  case (Cons kv kvs)
  obtain t1 where t1: "add kv t = Some t1" "inv t1" "room t1 (length kvs)" "like t1 t"
    "look t1 = (\<lambda>x. if same t (fst kv) x then after t kv (look t (fst kv)) else look t x)"
    using add_ok [OF Cons.prems(1), of kv "length kvs"] Cons.prems(2,3) by auto
  note l = like_settings [OF t1(4)]
  obtain t2 where t2: "run_loop_over add kvs t1 = Some t2" "inv t2" "like t2 t1"
    "\<And>x. look t2 x = fold (after t1) (filter (\<lambda>kv. same t1 (fst kv) x) kvs) (look t1 x)"
    using Cons.IH [OF t1(2,3)] Cons.prems(3) l by auto
  have "look t2 x = fold (after t) (filter (\<lambda>kv. same t (fst kv) x) (kv # kvs)) (look t x)" for x
    using t2(4) [of x] t1(5) l look_same [OF Cons.prems(1), of "fst kv" x] by simp
  then show ?case using t1(1) t2(1,2) like_trans [OF t2(3) t1(4)] by simp
qed

end

subsection \<open>The table behind the collections\<close>

definition room_for :: "basic_hash \<Rightarrow> nat \<Rightarrow> bool" where
  "room_for ht n \<longleftrightarrow> b_used ht + n \<le> CFBasicHashGetCapacityForNumBuckets (if b_style ht = 1 then 43 else 19)"

definition entry_after :: "hash_env \<Rightarrow> basic_hash \<Rightarrow> uintptr \<times> uintptr \<Rightarrow> entry option \<Rightarrow> entry option" where
  "entry_after E ht kv e = snd (add_entry (b_hasCounts ht) e (new_key E ht (fst kv) (snd kv)) (kept_value E ht (snd kv)))"

definition pair_fits :: "basic_hash \<Rightarrow> uintptr \<times> uintptr \<Rightarrow> bool" where
  "pair_fits ht kv \<longleftrightarrow> may_store ht (fst kv) (snd kv)"

definition equal_keys :: "hash_env \<Rightarrow> basic_hash \<Rightarrow> uintptr \<Rightarrow> uintptr \<Rightarrow> bool" where
  "equal_keys E ht = same_key E (b_callbacks ht)"

lemma add_value_used:
  assumes ok: "table_ok E ht" and k: "may_store ht k v" "roomy ht" and op: "CFBasicHashAddValue E ht k v = Some (r, ht')"
  shows "b_used ht' \<le> b_used ht + 1"
proof (cases "lookup E ht k")
  case None
  then show ?thesis using AddValue_absent(1) [OF ok k(2,1) None] op by (auto simp: added_def)
next
  case (Some e)
  obtain k0 v0 c where "e = (k0, v0, c)" by (cases e)
  then have l: "lookup E ht k = Some (k0, v0, c)" using Some by simp
  show ?thesis using AddValue_present [OF ok k(1) l] op by (cases "b_hasCounts ht \<and> c < 2 ^ 63 - 1") (auto simp: counted_def)
qed

lemma add_pair_ok:
  assumes ok: "table_ok E ht" and fits: "pair_fits ht kv" and room: "room_for ht (Suc n)"
  shows "\<exists>ht'. add_pair E kv ht = Some ht' \<and> table_ok E ht' \<and> room_for ht' n \<and> alike ht' ht \<and>
    lookup E ht' = (\<lambda>x. if equal_keys E ht (fst kv) x then entry_after E ht kv (lookup E ht (fst kv)) else lookup E ht x)"
proof -
  have k: "may_store ht (fst kv) (snd kv)" "roomy ht"
    using fits room by (simp_all add: pair_fits_def room_for_def roomy_def)
  obtain r ht' where op: "CFBasicHashAddValue E ht (fst kv) (snd kv) = Some (r, ht')"
    "step_ok E ht (map_op E ht (AddOp (fst kv) (snd kv)) (lookup E ht)) ht'" using add_step [OF ok k] by blast
  have s: "table_ok E ht'" "alike ht' ht" "lookup E ht' = map_op E ht (AddOp (fst kv) (snd kv)) (lookup E ht)"
    using op(2) by (simp_all add: step_ok_def)
  have "room_for ht' n" using add_value_used [OF ok k op(1)] room alikeD(5) [OF s(2)] by (simp add: room_for_def)
  then show ?thesis using op(1) s by (simp add: add_pair_def put_key_def equal_keys_def entry_after_def cong: if_cong)
qed

lemma alike_settings:
  assumes "alike ht' ht"
  shows "pair_fits ht' = pair_fits ht \<and> equal_keys E ht' = equal_keys E ht \<and> entry_after E ht' = entry_after E ht"
  using alikeD [OF assms] new_cong [OF assms]
  by (auto simp: fun_eq_iff pair_fits_def may_store_def halts_def equal_keys_def entry_after_def)

lemma equal_keys_same: "table_ok E ht \<Longrightarrow> equal_keys E ht k x \<Longrightarrow> lookup E ht x = lookup E ht k"
  by (simp add: equal_keys_def lookup_same_key)

interpretation hash_table: keyed_table "table_ok E" pair_fits room_for alike "equal_keys E" "lookup E" "entry_after E" "add_pair E" for E
  by unfold_locales (rule add_pair_ok equal_keys_same alike_settings alike_refl alike_trans; assumption)+

subsection \<open>Making a collection\<close>

lemma immutable_frame:
  "table_ok E (CFBasicHashMakeImmutable ht) = table_ok E ht" "lookup E (CFBasicHashMakeImmutable ht) = lookup E ht"
  by (simp_all add: CFBasicHashMakeImmutable_def)

lemma add_value_list_ok:
  assumes c: "CFBasicHashCreate flags cb = Some ht" "lawful E cb (flag flags 0)" "plain_flags flags"
    and n: "length klist = n" "length vlist = n"
      "n \<le> CFBasicHashGetCapacityForNumBuckets (if b_style ht = 1 then 43 else 19)"
    and words: "\<And>k. k \<in> set klist \<union> set vlist \<Longrightarrow> \<not> is_sub k" and keys: "flag flags 0 \<or> vlist = klist"
  shows "\<exists>ht'. add_value_list E klist vlist (int n) ht = Some ht' \<and> table_ok E ht' \<and> alike ht' ht \<and>
    (\<forall>x. lookup E ht' x = fold (entry_after E ht) (filter (\<lambda>kv. same_key E cb (fst kv) x) (zip klist vlist)) None)"
proof -
  note created = create_ok [OF c]
  note cap = n(3)
  have "\<exists>h1. (if 0 < int n then CFBasicHashSetCapacity E ht (nat (int n)) else Some ht) = Some h1 \<and>
      table_ok E h1 \<and> entries h1 = {} \<and> alike h1 ht \<and> b_used h1 = 0"
  proof (cases "n = 0")
    case False
    then obtain h1 where h1: "CFBasicHashSetCapacity E ht n = Some h1" "table_ok E h1" "entries h1 = entries ht" "alike h1 ht"
      using SetCapacity_ok [OF created(1,6) cap] by blast
    have "b_used h1 = card (entries h1)" using card_entries [OF table_okD(3) [OF h1(2)]] table_okD(4) [OF h1(2)] by simp
    then show ?thesis using False h1 created(2) by simp
  qed (use created in simp)
  then obtain h1 where h1: "(if 0 < int n then CFBasicHashSetCapacity E ht (nat (int n)) else Some ht) = Some h1"
    "table_ok E h1" "entries h1 = {}" "alike h1 ht" "b_used h1 = 0" by blast
  note k1 = alikeD [OF h1(4)] and set1 = alike_settings [OF h1(4)]
  have fits: "pair_fits h1 kv" if "kv \<in> set (zip klist vlist)" for kv
  proof -
    obtain k v where kv: "kv = (k, v)" by (cases kv)
    have "\<not> is_sub k" "\<not> is_sub v" using that words set_zip_leftD set_zip_rightD kv by (metis UnCI)+
    moreover have "flag flags 0 \<or> v = k" using keys that kv by (auto simp: set_zip)
    ultimately show ?thesis using created(6,8) k1 kv by (simp add: pair_fits_def may_store_def halts_def)
  qed
  have room: "room_for h1 (length (zip klist vlist))" using cap h1(5) k1(5) n by (simp add: room_for_def)
  obtain h2 where h2: "run_loop_over (add_pair E) (zip klist vlist) h1 = Some h2" "table_ok E h2" "alike h2 h1"
    "\<And>x. lookup E h2 x = fold (entry_after E h1) (filter (\<lambda>kv. equal_keys E h1 (fst kv) x) (zip klist vlist)) (lookup E h1 x)"
    using hash_table.add_all [OF h1(2) room fits] by auto
  have "readn klist 0 n = Some klist" "readn vlist 0 n = Some vlist"
    using slice_whole [of klist] slice_whole [of vlist] n by simp_all
  then have "add_value_list E klist vlist (int n) ht = Some h2" using h1(1) h2(1) by (simp add: add_value_list_def)
  moreover have "alike h2 ht" by (rule alike_trans [OF h2(3) h1(4)])
  moreover have "lookup E h2 x = fold (entry_after E ht) (filter (\<lambda>kv. same_key E cb (fst kv) x) (zip klist vlist)) None" for x
    using h2(4) [of x] no_lookup [OF h1(3), of E] set1 created(7) k1(1) by (simp add: equal_keys_def)
  ultimately show ?thesis using h2(2) by blast
qed

lemma first_wins:
  "\<not> b_hasCounts ht \<Longrightarrow> fold (entry_after E ht) kvs (Some e) = Some e"
  by (induction kvs) (simp_all add: entry_after_def add_entry_def split: prod.split)

lemma fold_first:
  "\<not> b_hasCounts ht \<Longrightarrow> fold (entry_after E ht) kvs None =
   (case kvs of [] \<Rightarrow> None | (k, v) # _ \<Rightarrow> Some (new_key E ht k v, kept_value E ht v, 1))"
  using first_wins [of ht E] by (cases kvs) (auto simp: entry_after_def [of _ _ "hd _"] entry_after_def add_entry_def)

lemma fold_counts:
  "b_hasCounts ht \<Longrightarrow> c + length kvs < 2 ^ 63 \<Longrightarrow> fold (entry_after E ht) kvs (Some (k0, v0, c)) = Some (k0, v0, c + length kvs)"
proof (induction kvs arbitrary: c)
  case (Cons kv kvs)
  then have "entry_after E ht kv (Some (k0, v0, c)) = Some (k0, v0, c + 1)" by (simp add: entry_after_def add_entry_def)
  then show ?case using Cons.IH [of "c + 1"] Cons.prems by simp
qed simp

lemma fold_copies:
  assumes "b_hasCounts ht" and "length kvs < 2 ^ 63"
  shows "entry_count (fold (entry_after E ht) kvs None) = length kvs"
proof (cases kvs)
  case (Cons kv rest)
  have "entry_after E ht kv None = Some (new_key E ht (fst kv) (snd kv), kept_value E ht (snd kv), 1)"
    by (simp add: entry_after_def add_entry_def)
  then show ?thesis using fold_counts [OF assms(1), of 1 rest] assms(2) Cons by (simp add: entry_count_def)
qed (simp add: entry_count_def)

subsection \<open>What the collections answer\<close>

text \<open>The value a collection keeps for the one it is given.\<close>

definition kept_by :: "hash_env \<Rightarrow> hash_callbacks \<Rightarrow> uintptr \<Rightarrow> uintptr" where
  "kept_by E cb v = (case kcb_retainValue cb of None \<Rightarrow> v | Some f \<Rightarrow> he_retain E f v)"

definition value_of :: "entry option \<Rightarrow> uintptr" where
  "value_of e = (case e of None \<Rightarrow> 0 | Some (k, v, c) \<Rightarrow> v)"

definition max_values :: nat where
  "max_values = CFBasicHashGetCapacityForNumBuckets 43"

lemma kept_by_value: "\<not> b_nullRC ht \<Longrightarrow> kept_value E ht v = kept_by E (b_callbacks ht) v"
  by (simp add: kept_value_def kept_by_def CFBasicHashImportValue_def split: option.split)

lemma find_value:
  assumes "table_ok E ht" and "\<not> is_sub x"
  shows "map_option found_value (CFBasicHashFindBucket E ht x) = Some (value_of (lookup E ht x))"
proof -
  obtain bkt where b: "FindBucket E ht x = Some bkt" "bk_count bkt = entry_count (lookup E ht x)"
    "\<forall>k0 v0 c. lookup E ht x = Some (k0, v0, c) \<longrightarrow> 0 < c \<and> bk_key bkt = k0 \<and> bk_value bkt = v0"
    using FindBucket_lookup [OF assms(1), of x] by blast
  have "found_value bkt = value_of (lookup E ht x)"
    using b(2,3) by (cases "lookup E ht x") (auto simp: found_value_def value_of_def entry_count_def)
  then show ?thesis using b(1) assms(2) by (simp add: CFBasicHashFindBucket_def)
qed

lemma find_filter: "List.find P xs = (case filter P xs of [] \<Rightarrow> None | y # ys \<Rightarrow> Some y)"
  by (induction xs) simp_all

lemma created_style:
  assumes "CFBasicHashCreate flags cb = Some ht"
  shows "b_style ht = (flags div 2 ^ 13) mod 4"
proof -
  note ht = if_Some [OF assms [unfolded CFBasicHashCreate_def Let_def]]
  show ?thesis unfolding ht by simp
qed

lemma collection_flags:
  "plain_flags CFDictionaryFlags" "plain_flags CFSetFlags" "plain_flags CFBagFlags"
  "flag CFDictionaryFlags 0" "\<not> flag CFSetFlags 0" "\<not> flag CFBagFlags 0"
  "\<not> flag CFDictionaryFlags 1" "\<not> flag CFSetFlags 1" "flag CFBagFlags 1"
  "(CFDictionaryFlags div 2 ^ 13) mod 4 = 1" "(CFSetFlags div 2 ^ 13) mod 4 = 1" "(CFBagFlags div 2 ^ 13) mod 4 = 1"
  by (simp_all add: plain_flags_def flag_def CFDictionaryFlags_def CFSetFlags_def CFBagFlags_def)

lemma create_defined:
  "\<exists>ht. CFBasicHashCreate CFDictionaryFlags cb = Some ht" "\<exists>ht. CFBasicHashCreate CFSetFlags cb = Some ht"
  "\<exists>ht. CFBasicHashCreate CFBagFlags cb = Some ht"
  by (simp_all add: CFBasicHashCreate_def flag_def CFDictionaryFlags_def CFSetFlags_def CFBagFlags_def)

text \<open>A collection made from arrays.\<close>

lemma made_collection:
  assumes c: "CFBasicHashCreate flags cb = Some ht" "lawful E cb (flag flags 0)" "plain_flags flags" "(flags div 2 ^ 13) mod 4 = 1"
    and n: "length klist = n" "length vlist = n" "n \<le> max_values"
    and words: "\<And>k. k \<in> set klist \<union> set vlist \<Longrightarrow> \<not> is_sub k" and keys: "flag flags 0 \<or> vlist = klist"
  shows "\<exists>ht'. map_option CFBasicHashMakeImmutable (add_value_list E klist vlist (int n) ht) = Some ht' \<and> table_ok E ht' \<and>
    \<not> b_mutable ht' \<and>
    (\<forall>x. lookup E ht' x = fold (entry_after E ht) (filter (\<lambda>kv. same_key E cb (fst kv) x) (zip klist vlist)) None)"
proof -
  have "n \<le> CFBasicHashGetCapacityForNumBuckets (if b_style ht = 1 then 43 else 19)"
    using n(3) created_style [OF c(1)] c(4) by (simp add: max_values_def)
  from add_value_list_ok [OF c(1-3) n(1,2) this words keys] show ?thesis
    by (auto simp: immutable_frame) (simp add: CFBasicHashMakeImmutable_def)
qed

text \<open>C17: A dictionary made by \<^verbatim>\<open>CFDictionaryCreate\<close> is immutable and answers for a key with the value of the first
  pair whose key is equal to it, as the dictionary keeps it, and with 0 when there is none.\<close>

theorem dictionary_create:
  assumes "lawful E (key_value_callbacks kcb vcb) True" and "length klist = n" and "length vlist = n" and "n \<le> max_values"
    and "\<And>k. k \<in> set klist \<union> set vlist \<Longrightarrow> \<not> is_sub k"
  shows "\<exists>d. CFDictionaryCreate E klist vlist (int n) kcb vcb = Some d \<and> table_ok E d \<and> \<not> CFDictionaryIsMutable d \<and>
    (\<forall>x. \<not> is_sub x \<longrightarrow> CFDictionaryGetValue E d x =
      Some (case List.find (\<lambda>kv. same_key E (key_value_callbacks kcb vcb) (fst kv) x) (zip klist vlist) of
              None \<Rightarrow> 0 | Some (k, v) \<Rightarrow> kept_by E (key_value_callbacks kcb vcb) v))"
proof -
  let ?cb = "key_value_callbacks kcb vcb"
  obtain ht where ht: "CFBasicHashCreate CFDictionaryFlags ?cb = Some ht" using create_defined(1) by blast
  have law: "lawful E ?cb (flag CFDictionaryFlags 0)" using assms(1) collection_flags(4) by simp
  note created = create_ok [OF ht law collection_flags(1)]
  obtain d where d: "map_option CFBasicHashMakeImmutable (add_value_list E klist vlist (int n) ht) = Some d" "table_ok E d" "\<not> b_mutable d"
    "\<And>x. lookup E d x = fold (entry_after E ht) (filter (\<lambda>kv. same_key E ?cb (fst kv) x) (zip klist vlist)) None"
    using made_collection [OF ht law collection_flags(1,10) assms(2,3,4,5)] collection_flags(4) by blast
  have counts: "\<not> b_hasCounts ht" using created(9) collection_flags(7) by simp
  have "value_of (lookup E d x) = (case List.find (\<lambda>kv. same_key E ?cb (fst kv) x) (zip klist vlist) of
      None \<Rightarrow> 0 | Some (k, v) \<Rightarrow> kept_by E ?cb v)" for x
    using kept_by_value [OF created(4), of E] created(7)
    by (simp add: d(4) fold_first [OF counts] find_filter value_of_def split: list.split prod.split)
  then have "CFDictionaryGetValue E d x = Some (case List.find (\<lambda>kv. same_key E ?cb (fst kv) x) (zip klist vlist) of
      None \<Rightarrow> 0 | Some (k, v) \<Rightarrow> kept_by E ?cb v)" if "\<not> is_sub x" for x
    unfolding CFDictionaryGetValue_def by (simp add: find_value [OF d(2) that])
  moreover have "CFDictionaryCreate E klist vlist (int n) kcb vcb = Some d"
    using d(1) by (auto simp: CFDictionaryCreate_def CFDictionaryCreateGeneric_def ht)
  ultimately show ?thesis using d(2,3) by (simp add: CFDictionaryIsMutable_def)
qed

definition object_keys :: key_callbacks where
  "object_keys = \<lparr>kc_retain = Some 1, kc_release = Some 2, kc_equal = Some 3, kc_hash = Some 4\<rparr>"

definition object_values :: value_callbacks where
  "object_values = \<lparr>vc_retain = Some 1, vc_release = Some 2, vc_equal = Some 3\<rparr>"

lemma object_lawful:
  "lawful plain_env (key_value_callbacks (Some object_keys) (Some object_values)) hk"
  "lawful plain_env (member_callbacks (Some object_keys)) hk"
  using plain_lawful by (simp_all add: key_value_callbacks_def member_callbacks_def object_callbacks_def opt_def object_keys_def object_values_def)

lemma small_words: "\<not> is_sub 5" "\<not> is_sub 6" "\<not> is_sub 7" "\<not> is_sub 8" "3 \<le> max_values"
  by (simp_all add: is_sub_def CFBasicHashSubABZero_def CFBasicHashSubABOne_def max_values_def
      CFBasicHashGetCapacityForNumBuckets_def CFBasicHashTableCapacities_def)

definition sample_pairs :: hash_callbacks where
  "sample_pairs = key_value_callbacks (Some object_keys) (Some object_values)"

theorem dictionary_create_witness:
  "\<exists>d. CFDictionaryCreate plain_env [5, 6, 5] [7, 8, 8] 3 (Some object_keys) (Some object_values) = Some d \<and>
    CFDictionaryGetValue plain_env d 5 = Some 7"
proof -
  have w: "\<not> is_sub k" if "k \<in> set [5, 6, 5] \<union> set [7, 8, 8]" for k using that small_words by auto
  obtain d where d: "CFDictionaryCreate plain_env [5, 6, 5] [7, 8, 8] 3 (Some object_keys) (Some object_values) = Some d"
    "\<And>x. \<not> is_sub x \<Longrightarrow> CFDictionaryGetValue plain_env d x =
      Some (case List.find (\<lambda>kv. same_key plain_env sample_pairs (fst kv) x) (zip [5, 6, 5] [7, 8, 8]) of
              None \<Rightarrow> 0 | Some (k, v) \<Rightarrow> kept_by plain_env sample_pairs v)"
    using dictionary_create [where klist = "[5, 6, 5]" and vlist = "[7, 8, 8]" and n = 3, OF object_lawful(1) _ _ small_words(5) w]
    by (auto simp: sample_pairs_def)
  have "CFDictionaryGetValue plain_env d 5 = Some 7"
    using d(2) [OF small_words(1)]
    by (simp add: same_key_def kept_by_def sample_pairs_def plain_env_def key_value_callbacks_def opt_def object_values_def)
  then show ?thesis using d(1) by blast
qed

text \<open>C19: A bag made by \<^verbatim>\<open>CFBagCreate\<close> counts for a value how many of the given values are equal to it.\<close>

theorem bag_create_counts:
  assumes "lawful E (member_callbacks kcb) False" and "length klist = n" and "n \<le> max_values"
    and "\<And>k. k \<in> set klist \<Longrightarrow> \<not> is_sub k"
  shows "\<exists>b. CFBagCreate E klist (int n) kcb = Some b \<and> table_ok E b \<and> \<not> CFBagIsMutable b \<and>
    (\<forall>x. \<not> is_sub x \<longrightarrow>
      CFBagGetCountOfValue E b x = Some (length (filter (\<lambda>k. same_key E (member_callbacks kcb) k x) klist)))"
proof -
  let ?cb = "member_callbacks kcb"
  obtain ht where ht: "CFBasicHashCreate CFBagFlags ?cb = Some ht" using create_defined(3) by blast
  have law: "lawful E ?cb (flag CFBagFlags 0)" using assms(1) collection_flags(6) by simp
  note created = create_ok [OF ht law collection_flags(3)]
  obtain b where b: "map_option CFBasicHashMakeImmutable (add_value_list E klist klist (int n) ht) = Some b" "table_ok E b" "\<not> b_mutable b"
    "\<And>x. lookup E b x = fold (entry_after E ht) (filter (\<lambda>kv. same_key E ?cb (fst kv) x) (zip klist klist)) None"
    using made_collection [OF ht law collection_flags(3,12) assms(2,2,3)] assms(4) by auto
  have counts: "b_hasCounts ht" using created(9) collection_flags(9) by simp
  have "max_values < 2 ^ 63"
    by (simp add: max_values_def CFBasicHashGetCapacityForNumBuckets_def CFBasicHashTableCapacities_def)
  then have bound: "length (filter P (zip klist klist)) < 2 ^ 63" for P
    using length_filter_le [of P "zip klist klist"] assms(2,3) by simp
  have "length (filter (\<lambda>kv. same_key E ?cb (fst kv) x) (zip klist klist)) = length (filter (\<lambda>k. same_key E ?cb k x) klist)" for x
    by (simp add: zip_same_conv_map filter_map o_def)
  then have "entry_count (lookup E b x) = length (filter (\<lambda>k. same_key E ?cb k x) klist)" for x
    by (simp add: b(4) fold_copies [OF counts bound])
  then have "CFBagGetCountOfValue E b x = Some (length (filter (\<lambda>k. same_key E ?cb k x) klist))" if "\<not> is_sub x" for x
    using CFBasicHashGetCountOfKey_lookup [OF b(2) that] by (simp add: CFBagGetCountOfValue_def)
  moreover have "CFBagCreate E klist (int n) kcb = Some b" using b(1) by (auto simp: CFBagCreate_def CFBagCreateGeneric_def ht)
  ultimately show ?thesis using b(2,3) by (simp add: CFBagIsMutable_def)
qed

theorem bag_create_counts_witness:
  "\<exists>b. CFBagCreate plain_env [5, 6, 5] 3 (Some object_keys) = Some b \<and> CFBagGetCountOfValue plain_env b 5 = Some 2"
proof -
  have w: "\<not> is_sub k" if "k \<in> set [5, 6, 5]" for k using that small_words by auto
  obtain b where b: "CFBagCreate plain_env [5, 6, 5] 3 (Some object_keys) = Some b"
    "\<And>x. \<not> is_sub x \<Longrightarrow> CFBagGetCountOfValue plain_env b x =
      Some (length (filter (\<lambda>k. same_key plain_env (member_callbacks (Some object_keys)) k x) [5, 6, 5]))"
    using bag_create_counts [where klist = "[5, 6, 5]" and n = 3, OF object_lawful(2) _ small_words(5) w] by auto
  have "CFBagGetCountOfValue plain_env b 5 = Some 2"
    using b(2) [OF small_words(1)] by (simp add: same_key_def plain_env_def member_callbacks_def opt_def object_keys_def)
  then show ?thesis using b(1) by blast
qed

text \<open>A set made by \<^verbatim>\<open>CFSetCreate\<close> contains exactly the values that are equal to one of those given, each once.\<close>

theorem set_create_members:
  assumes "lawful E (member_callbacks kcb) False" and "length klist = n" and "n \<le> max_values"
    and "\<And>k. k \<in> set klist \<Longrightarrow> \<not> is_sub k"
  shows "\<exists>s. CFSetCreate E klist (int n) kcb = Some s \<and> table_ok E s \<and> \<not> CFSetIsMutable s \<and>
    (\<forall>x. \<not> is_sub x \<longrightarrow>
      CFSetContainsValue E s x = Some (\<exists>k \<in> set klist. same_key E (member_callbacks kcb) k x) \<and>
      CFSetGetCountOfValue E s x = Some (if \<exists>k \<in> set klist. same_key E (member_callbacks kcb) k x then 1 else 0))"
proof -
  let ?cb = "member_callbacks kcb"
  obtain ht where ht: "CFBasicHashCreate CFSetFlags ?cb = Some ht" using create_defined(2) by blast
  have law: "lawful E ?cb (flag CFSetFlags 0)" using assms(1) collection_flags(5) by simp
  note created = create_ok [OF ht law collection_flags(2)]
  obtain s where s: "map_option CFBasicHashMakeImmutable (add_value_list E klist klist (int n) ht) = Some s" "table_ok E s" "\<not> b_mutable s"
    "\<And>x. lookup E s x = fold (entry_after E ht) (filter (\<lambda>kv. same_key E ?cb (fst kv) x) (zip klist klist)) None"
    using made_collection [OF ht law collection_flags(2,11) assms(2,2,3)] assms(4) by auto
  have counts: "\<not> b_hasCounts ht" using created(9) collection_flags(8) by simp
  have count: "entry_count (lookup E s x) = (if \<exists>k \<in> set klist. same_key E ?cb k x then 1 else 0)" for x
  proof (cases "filter (\<lambda>kv. same_key E ?cb (fst kv) x) (zip klist klist)")
    case Nil
    then have "\<not> (\<exists>k \<in> set klist. same_key E ?cb k x)" by (auto simp: filter_empty_conv zip_same_conv_map)
    then show ?thesis using Nil by (simp add: s(4) entry_count_def)
  next
    case (Cons kv rest)
    then have "kv \<in> set (filter (\<lambda>kv. same_key E ?cb (fst kv) x) (zip klist klist))" by simp
    then have "\<exists>k \<in> set klist. same_key E ?cb k x" by (auto simp: zip_same_conv_map)
    moreover have "entry_count (lookup E s x) = 1"
      unfolding s(4) fold_first [OF counts] Cons by (cases kv) (simp add: entry_count_def)
    ultimately show ?thesis by simp
  qed
  have "CFBasicHashGetCountOfKey E s x = Some (if \<exists>k \<in> set klist. same_key E ?cb k x then 1 else 0)" if "\<not> is_sub x" for x
    using CFBasicHashGetCountOfKey_lookup [OF s(2) that] count by simp
  moreover have "CFSetCreate E klist (int n) kcb = Some s" using s(1) by (auto simp: CFSetCreate_def CFSetCreateGeneric_def ht)
  ultimately show ?thesis using s(2,3) by (simp add: CFSetIsMutable_def CFSetContainsValue_def CFSetGetCountOfValue_def)
qed

theorem set_create_members_witness:
  "\<exists>s. CFSetCreate plain_env [5, 6, 5] 3 (Some object_keys) = Some s \<and> CFSetContainsValue plain_env s 7 = Some False"
proof -
  have w: "\<not> is_sub k" if "k \<in> set [5, 6, 5]" for k using that small_words by auto
  obtain s where s: "CFSetCreate plain_env [5, 6, 5] 3 (Some object_keys) = Some s"
    "\<And>x. \<not> is_sub x \<Longrightarrow> CFSetContainsValue plain_env s x =
      Some (\<exists>k \<in> set [5, 6, 5]. same_key plain_env (member_callbacks (Some object_keys)) k x)"
    using set_create_members [where klist = "[5, 6, 5]" and n = 3, OF object_lawful(2) _ small_words(5) w] by auto
  have "CFSetContainsValue plain_env s 7 = Some False"
    using s(2) [OF small_words(3)] by (simp add: same_key_def plain_env_def member_callbacks_def opt_def object_keys_def)
  then show ?thesis using s(1) by blast
qed

text \<open>C18: After \<^verbatim>\<open>CFDictionarySetValue\<close> a dictionary answers with the new value for every key equal to the one set, and
  as before for the others; after a further \<^verbatim>\<open>CFDictionaryRemoveValue\<close> it has no value for the key and is otherwise as
  it was at first.\<close>

theorem dictionary_set_remove:
  assumes "table_ok E d" and "\<not> b_hasCounts d" and "may_store d key v" and "roomy d"
  shows "\<exists>d1 d2. CFDictionarySetValue E d key v = Some d1 \<and> CFDictionaryRemoveValue E d1 key = Some d2 \<and>
    table_ok E d1 \<and> table_ok E d2 \<and>
    (\<forall>x. \<not> is_sub x \<longrightarrow>
      CFDictionaryGetValue E d1 x =
        (if same_key E (b_callbacks d) key x then Some (kept_value E d v) else CFDictionaryGetValue E d x) \<and>
      CFDictionaryGetValue E d2 x = (if same_key E (b_callbacks d) key x then Some 0 else CFDictionaryGetValue E d x))"
proof -
  note k = may_storeD [OF assms(3)]
  obtain d1 where d1: "CFBasicHashSetValue E d key v = Some d1" "step_ok E d (map_op E d (SetOp key v) (lookup E d)) d1"
    using set_step [OF assms(1,3,4)] by blast
  have s1: "table_ok E d1" "alike d1 d" "lookup E d1 = map_op E d (SetOp key v) (lookup E d)" using d1(2) by (simp_all add: step_ok_def)
  note k1 = alikeD [OF s1(2)]
  have "b_mutable d1" "\<not> is_sub key" using k k1 by (auto simp: halts_def)
  then obtain d2 where d2: "CFDictionaryRemoveValue E d1 key = Some d2" "step_ok E d1 (map_op E d1 (RemoveOp key) (lookup E d1)) d2"
    using remove_step [OF s1(1)] by (fastforce simp: CFDictionaryRemoveValue_def)
  have s2: "table_ok E d2" "lookup E d2 = map_op E d1 (RemoveOp key) (lookup E d1)" using d2(2) by (simp_all add: step_ok_def)
  have one: "c = 1" if "lookup E d key = Some (k0, v0, c)" for k0 v0 c
    using that entries_lookup [OF assms(1)] held_cells(6) [OF table_okD(2) [OF assms(1)]] assms(2) by (auto simp: entries_def)
  have set: "set_entry (lookup E d key) (new_key E d key v) (kept_value E d v) = (new_key E d key v, kept_value E d v, 1)"
    using one by (auto simp: set_entry_def split: option.split)
  have l1: "lookup E d1 x = (if same_key E (b_callbacks d) key x then Some (new_key E d key v, kept_value E d v, 1) else lookup E d x)" for x
    unfolding s1(3) by (simp add: put_key_def set)
  have l2: "lookup E d2 x = (if same_key E (b_callbacks d) key x then None else lookup E d x)" for x
    unfolding s2(2) using k1(1) by (simp add: put_key_def l1 remove_entry_def)
  have get: "CFDictionaryGetValue E t x = Some (value_of (lookup E t x))" if "table_ok E t" "\<not> is_sub x" for t x
    unfolding CFDictionaryGetValue_def by (rule find_value [OF that])
  show ?thesis using d1(1) d2(1) s1(1) s2(1) get [OF assms(1)] get [OF s1(1)] get [OF s2(1)]
    by (intro exI [of _ d1] exI [of _ d2]) (simp add: CFDictionarySetValue_def l1 l2 value_of_def)
qed

theorem dictionary_set_remove_witness:
  "\<exists>d1 d2. CFDictionarySetValue plain_env empty_dict 5 7 = Some d1 \<and> CFDictionaryRemoveValue plain_env d1 5 = Some d2 \<and>
    CFDictionaryGetValue plain_env d1 5 = Some 7 \<and> CFDictionaryGetValue plain_env d2 5 = Some 0"
proof -
  have "\<not> b_hasCounts empty_dict" using dict_ok(9) by (simp add: flag_def)
  then show ?thesis using dictionary_set_remove [OF dict_ok(1), of 5 7] sample_fits(1) small_words(1) sample_kept(1)
    by fastforce
qed

end
