(* ===== verification/CFArray.thy ===== *)
theory CFArray
  imports Prelude
begin

text \<open>
  \<^verbatim>\<open>CFArray.c\<close>: the immutable (inline) and the mutable (deque) array. The deque is a block of
  \<^verbatim>\<open>_capacity\<close> buckets whose live values occupy \<^verbatim>\<open>_count\<close> buckets from \<^verbatim>\<open>_leftIdx\<close>; every operation is
  translated on that block. A bucket is \<open>Some v\<close>, or \<open>None\<close> where nothing was written since the
  block was allocated or where the code stored \<^verbatim>\<open>NULL\<close>. The retain, release and equal callbacks
  are function pointers; \<open>env\<close> gives their meaning, and the calls made are recorded in \<open>a_trace\<close>.
  The garbage-collector branches (\<^verbatim>\<open>CF_IS_COLLECTABLE_ALLOCATOR\<close>) and the ObjC dispatch are not
  modelled: the array is a CF object with an ordinary allocator.
\<close>

subsection \<open>Data\<close>

type_synonym 'v bucket = "'v option"

record callbacks =
  cb_retain :: "fptr option"
  cb_release :: "fptr option"
  cb_copyDescription :: "fptr option"
  cb_equal :: "fptr option"

record 'v env =
  retain_fn :: "fptr \<Rightarrow> 'v bucket \<Rightarrow> 'v bucket"
  equal_fn :: "fptr \<Rightarrow> 'v bucket \<Rightarrow> 'v bucket \<Rightarrow> bool"

text \<open>The addresses of \<^verbatim>\<open>__CFTypeCollectionRetain\<close>, \<^verbatim>\<open>__CFTypeCollectionRelease\<close>,
  \<^verbatim>\<open>CFCopyDescription\<close> and \<^verbatim>\<open>CFEqual\<close> are four distinct numbers.\<close>

definition kCFTypeArrayCallBacks :: callbacks where
  "kCFTypeArrayCallBacks =
     \<lparr>cb_retain = Some 1, cb_release = Some 2, cb_copyDescription = Some 3, cb_equal = Some 4\<rparr>"

definition kCFNullArrayCallBacks :: callbacks where
  "kCFNullArrayCallBacks =
     \<lparr>cb_retain = None, cb_release = None, cb_copyDescription = None, cb_equal = None\<rparr>"

datatype array_type = Immutable | Deque

datatype cb_variety = HasNullCallBacks | HasCFTypeCallBacks | HasCustomCallBacks

datatype 'v cb_event = Retained "'v bucket" | Released "'v bucket"

record 'v deque =
  leftIdx :: nat
  capacity :: nat
  buckets :: "'v bucket list"

record 'v cfarray =
  a_type :: array_type
  a_cbbits :: cb_variety
  a_finalized :: bool
  a_count :: nat
  a_mutations :: nat
  a_store :: "'v deque option"
  a_inline :: "'v bucket list"
  a_custom :: callbacks
  a_trace :: "'v cb_event list"

abbreviation LONG_MAX :: nat where
  "LONG_MAX \<equiv> 2 ^ 63 - 1"

definition CFArrayDequeRoundUpCapacity :: "nat \<Rightarrow> nat option" where
  "CFArrayDequeRoundUpCapacity cap =
     (if cap < 4 then Some 4 else map_option (\<lambda>c. min c LONG_MAX) (shl1 (flsl cap)))"

definition CFArrayGetCallBacks :: "'v cfarray \<Rightarrow> callbacks" where
  "CFArrayGetCallBacks a =
     (case a_cbbits a of
        HasNullCallBacks \<Rightarrow> kCFNullArrayCallBacks
      | HasCFTypeCallBacks \<Rightarrow> kCFTypeArrayCallBacks
      | HasCustomCallBacks \<Rightarrow> a_custom a)"

definition CFArrayCallBacksMatchNull :: "callbacks option \<Rightarrow> bool" where
  "CFArrayCallBacksMatchNull c =
     (case c of None \<Rightarrow> True
      | Some c \<Rightarrow> cb_retain c = cb_retain kCFNullArrayCallBacks \<and>
                  cb_release c = cb_release kCFNullArrayCallBacks \<and>
                  cb_copyDescription c = cb_copyDescription kCFNullArrayCallBacks \<and>
                  cb_equal c = cb_equal kCFNullArrayCallBacks)"

definition CFArrayCallBacksMatchCFType :: "callbacks option \<Rightarrow> bool" where
  "CFArrayCallBacksMatchCFType c =
     (case c of None \<Rightarrow> False
      | Some c \<Rightarrow> cb_retain c = cb_retain kCFTypeArrayCallBacks \<and>
                  cb_release c = cb_release kCFTypeArrayCallBacks \<and>
                  cb_copyDescription c = cb_copyDescription kCFTypeArrayCallBacks \<and>
                  cb_equal c = cb_equal kCFTypeArrayCallBacks)"

text \<open>\<^verbatim>\<open>__CFArrayGetBucketAtIndex\<close>, with the read of \<^verbatim>\<open>_item\<close>: \<open>None\<close> is an access outside the block.\<close>

definition CFArrayGetBucketAtIndex :: "'v cfarray \<Rightarrow> nat \<Rightarrow> 'v bucket option" where
  "CFArrayGetBucketAtIndex a idx =
     (case a_type a of
        Immutable \<Rightarrow> peek (a_inline a) idx
      | Deque \<Rightarrow> do { d \<leftarrow> a_store a; peek (buckets d) (leftIdx d + idx) })"

subsection \<open>Releasing values\<close>

fun release_loop :: "bool \<Rightarrow> 'v bucket list \<Rightarrow> 'v cb_event list \<Rightarrow> nat \<Rightarrow> nat
    \<Rightarrow> ('v bucket list \<times> 'v cb_event list) option" where
  "release_loop rel m t p 0 = Some (m, t)"
| "release_loop rel m t p (Suc n) =
     do { v \<leftarrow> peek m p;
          m' \<leftarrow> poke m p None;
          release_loop rel m' (if rel then t @ [Released v] else t) (Suc p) n }"

definition CFArrayReleaseValues :: "'v cfarray \<Rightarrow> nat \<Rightarrow> nat \<Rightarrow> bool \<Rightarrow> 'v cfarray option" where
  "CFArrayReleaseValues a loc len releaseStorageIfPossible =
     (let rel = cb_release (CFArrayGetCallBacks a) \<noteq> None in
      case a_type a of
        Immutable \<Rightarrow>
          (if rel \<and> 0 < len \<and> \<not> a_finalized a then
             do { (m, t) \<leftarrow> release_loop True (a_inline a) (a_trace a) loc len;
                  Some (a\<lparr>a_inline := m, a_trace := t\<rparr>) }
           else Some a)
      | Deque \<Rightarrow>
          do { a1 \<leftarrow> (case a_store a of
                 None \<Rightarrow> Some a
               | Some d \<Rightarrow>
                   (if 0 < len \<and> \<not> a_finalized a then
                      do { (m, t) \<leftarrow> release_loop rel (buckets d) (a_trace a) (leftIdx d + loc) len;
                           Some (a\<lparr>a_store := Some (d\<lparr>buckets := m\<rparr>), a_trace := t\<rparr>) }
                    else Some a));
               Some (if releaseStorageIfPossible \<and> loc = 0 \<and> a_count a = len
                     then a1\<lparr>a_count := 0, a_store := None\<rparr> else a1) })"

subsection \<open>Moving the regions of the deque\<close>

text \<open>
  \<^verbatim>\<open>__CFArrayRepositionDequeRegions\<close>: \<open>range\<close> is about to be replaced by \<open>newCount\<close> values. The C
  variables \<^verbatim>\<open>R\<close>, \<^verbatim>\<open>numNewElems\<close> are signed, so they are \<open>int\<close> here; the cast
  \<^verbatim>\<open>(uint32_t)futureCnt\<close> of the first test is written out.
\<close>

definition CFArrayRepositionDequeRegions :: "'v cfarray \<Rightarrow> nat \<Rightarrow> nat \<Rightarrow> nat \<Rightarrow> 'v cfarray option" where
  "CFArrayRepositionDequeRegions a loc len newCount =
   do {
     deq \<leftarrow> a_store a;
     let cnt = a_count a;
     let futureCnt = cnt + newCount - len;
     let L = leftIdx deq;
     let A = loc;
     let B = len;
     let C = cnt - B - A;
     let R = int (capacity deq) - int cnt - int L;
     let numNewElems = int newCount - int B;
     let wiggle = (if capacity deq div 2 ^ 17 < 4 then 4 else capacity deq div 2 ^ 17);
     if capacity deq < futureCnt mod 2 ^ 32 \<or> (cnt < futureCnt \<and> int L + R < int wiggle) then
       do { cap \<leftarrow> CFArrayDequeRoundUpCapacity (futureCnt + wiggle);
            let newL = (cap - futureCnt) div 2;
            let oldC0 = L + A + B;
            let newC0 = newL + A + newCount;
            m1 \<leftarrow> memmove (replicate cap None) newL (buckets deq) L A;
            m2 \<leftarrow> memmove m1 newC0 (buckets deq) oldC0 C;
            Some (a\<lparr>a_store := Some \<lparr>leftIdx = newL, capacity = cap, buckets = m2\<rparr>\<rparr>) }
     else if (numNewElems < 0 \<and> C < A) \<or> (numNewElems \<le> R \<and> C < A) then
       do { let oldC0 = L + A + B;
            let newC0 = L + A + newCount;
            m1 \<leftarrow> memmove (buckets deq) newC0 (buckets deq) oldC0 C;
            m2 \<leftarrow> (if newC0 < oldC0 then blit m1 (newC0 + C) (replicate (oldC0 - newC0) None) else Some m1);
            Some (a\<lparr>a_store := Some (deq\<lparr>buckets := m2\<rparr>)\<rparr>) }
     else if numNewElems < 0 \<or> (numNewElems \<le> int L \<and> A \<le> C) then
       do { let newL = nat (int L - numNewElems);
            m1 \<leftarrow> memmove (buckets deq) newL (buckets deq) L A;
            m2 \<leftarrow> (if L < newL then blit m1 L (replicate (newL - L) None) else Some m1);
            Some (a\<lparr>a_store := Some (deq\<lparr>leftIdx := newL, buckets := m2\<rparr>)\<rparr>) }
     else
       do { let half = nat ((int L + R - numNewElems) div 2);
            let newL = half - half div 2;
            let oldC0 = L + A + B;
            let newC0 = newL + A + newCount;
            if newL < L then
              do { m1 \<leftarrow> memmove (buckets deq) newL (buckets deq) L A;
                   m2 \<leftarrow> memmove m1 newC0 m1 oldC0 C;
                   m3 \<leftarrow> (if newC0 < oldC0 then blit m2 (newC0 + C) (replicate (oldC0 - newC0) None)
                          else Some m2);
                   Some (a\<lparr>a_store := Some (deq\<lparr>leftIdx := newL, buckets := m3\<rparr>)\<rparr>) }
            else
              do { m1 \<leftarrow> memmove (buckets deq) newC0 (buckets deq) oldC0 C;
                   m2 \<leftarrow> memmove m1 newL m1 L A;
                   m3 \<leftarrow> (if L < newL then blit m2 L (replicate (newL - L) None) else Some m2);
                   Some (a\<lparr>a_store := Some (deq\<lparr>leftIdx := newL, buckets := m3\<rparr>)\<rparr>) } } }"

text \<open>\<^verbatim>\<open>_CFArraySetCapacity\<close>: a block of the new size, the whole old block copied into it.\<close>

definition CFArraySetCapacity :: "'v cfarray \<Rightarrow> nat \<Rightarrow> 'v cfarray option" where
  "CFArraySetCapacity a cap =
     (if a_type a = Immutable \<or> cap < a_count a then None
      else do {
        c \<leftarrow> CFArrayDequeRoundUpCapacity cap;
        case a_store a of
          None \<Rightarrow>
            Some (a\<lparr>a_store := Some \<lparr>leftIdx = c div 2, capacity = c, buckets = replicate c None\<rparr>\<rparr>)
        | Some d \<Rightarrow>
            do { m \<leftarrow> memmove (replicate c None) 0 (buckets d) 0 (capacity d);
                 Some (a\<lparr>a_store := Some (d\<lparr>capacity := c, buckets := m\<rparr>)\<rparr>) } })"

subsection \<open>Replacing a range\<close>

fun retain_values :: "('v bucket \<Rightarrow> 'v bucket) option \<Rightarrow> 'v bucket list \<Rightarrow> 'v bucket list" where
  "retain_values None vs = vs"
| "retain_values (Some f) vs = map f vs"

definition retain_events :: "('v bucket \<Rightarrow> 'v bucket) option \<Rightarrow> 'v bucket list \<Rightarrow> 'v cb_event list" where
  "retain_events r vs = (if r = None then [] else map Retained vs)"

definition retainer :: "'v env \<Rightarrow> 'v cfarray \<Rightarrow> ('v bucket \<Rightarrow> 'v bucket) option" where
  "retainer E a =
     (case cb_retain (CFArrayGetCallBacks a) of
        Some f \<Rightarrow> if a_finalized a then None else Some (retain_fn E f)
      | None \<Rightarrow> None)"

definition CFArrayReplaceValues_raw ::
    "'v env \<Rightarrow> 'v cfarray \<Rightarrow> nat \<Rightarrow> nat \<Rightarrow> 'v bucket list \<Rightarrow> 'v cfarray option" where
  "CFArrayReplaceValues_raw E a loc len newValues =
   do {
     let cnt = a_count a;
     let newCount = length newValues;
     let futureCnt = cnt + newCount - len;
     let r = retainer E a;
     let newv = retain_values r newValues;
     let a0 = a\<lparr>a_trace := a_trace a @ retain_events r newValues, a_mutations := a_mutations a + 1\<rparr>;
     a1 \<leftarrow> (if 0 < len then CFArrayReleaseValues a0 loc len False else Some a0);
     a2 \<leftarrow> (case a_store a1 of
              None \<Rightarrow>
                do { cap \<leftarrow> CFArrayDequeRoundUpCapacity futureCnt;
                     Some (a1\<lparr>a_store := Some \<lparr>leftIdx = (cap - newCount) div 2, capacity = cap,
                                                buckets = replicate cap None\<rparr>\<rparr>) }
            | Some _ \<Rightarrow>
                (if len \<noteq> newCount then CFArrayRepositionDequeRegions a1 loc len newCount else Some a1));
     a3 \<leftarrow> (if 0 < newCount then
              do { d \<leftarrow> a_store a2;
                   m \<leftarrow> blit (buckets d) (leftIdx d + loc) newv;
                   Some (a2\<lparr>a_store := Some (d\<lparr>buckets := m\<rparr>)\<rparr>) }
            else Some a2);
     Some (a3\<lparr>a_count := futureCnt\<rparr>) }"

subsection \<open>The sequence a CFArray stands for\<close>

definition wf :: "'v cfarray \<Rightarrow> bool" where
  "wf a =
     (case a_type a of
        Immutable \<Rightarrow> a_count a \<le> length (a_inline a)
      | Deque \<Rightarrow>
          (case a_store a of
             None \<Rightarrow> a_count a = 0
           | Some d \<Rightarrow> length (buckets d) = capacity d \<and> leftIdx d + a_count a \<le> capacity d))"

definition contents :: "'v cfarray \<Rightarrow> 'v bucket list" where
  "contents a =
     (case a_type a of
        Immutable \<Rightarrow> slice (a_inline a) 0 (a_count a)
      | Deque \<Rightarrow>
          (case a_store a of None \<Rightarrow> [] | Some d \<Rightarrow> slice (buckets d) (leftIdx d) (a_count a)))"

lemma length_contents [simp]: "wf a \<Longrightarrow> length (contents a) = a_count a"
  by (auto simp: wf_def contents_def split: array_type.splits option.splits)

lemma bucket_contents:
  "wf a \<Longrightarrow> i < a_count a \<Longrightarrow> CFArrayGetBucketAtIndex a i = Some (contents a ! i)"
  by (auto simp: wf_def contents_def CFArrayGetBucketAtIndex_def nth_slice
      split: array_type.splits option.splits)

lemma round_up_capacity:
  assumes "cap < 2 ^ 30"
  obtains c where "CFArrayDequeRoundUpCapacity cap = Some c" and "cap \<le> c" and "c \<le> 2 ^ 30"
proof (cases "cap < 4")
  case True
  then show thesis using that by (simp add: CFArrayDequeRoundUpCapacity_def)
next
  case False
  have "flsl cap \<le> 30" using assms by (rule flsl_le)
  then have "(2::nat) ^ flsl cap \<le> 2 ^ 30" by (rule power_increasing) simp
  moreover have "cap < 2 ^ flsl cap" by (rule less_pow_flsl)
  moreover have "CFArrayDequeRoundUpCapacity cap = Some (2 ^ flsl cap)"
    using False \<open>flsl cap \<le> 30\<close> calculation(1) by (simp add: CFArrayDequeRoundUpCapacity_def)
  ultimately show thesis using False that by (metis le_trans less_imp_le not_less)
qed

lemma release_loop_spec:
  "p + n \<le> length m \<Longrightarrow>
   \<exists>m'. release_loop rel m t p n = Some (m', t @ (if rel then map Released (slice m p n) else [])) \<and>
        length m' = length m \<and>
        (\<forall>q k. q + k \<le> p \<or> p + n \<le> q \<longrightarrow> q + k \<le> length m \<longrightarrow> slice m' q k = slice m q k)"
proof (induction n arbitrary: m t p)
  case 0
  show ?case by simp
next
  case (Suc n)
  let ?m = "m[p := None]" and ?t = "if rel then t @ [Released (m ! p)] else t"
  have p: "p < length m" and "Suc p + n \<le> length ?m" using Suc.prems by simp_all
  from Suc.IH [OF this(2), of ?t] obtain m' where
    m': "release_loop rel ?m ?t (Suc p) n =
        Some (m', ?t @ (if rel then map Released (slice ?m (Suc p) n) else []))"
    and len: "length m' = length ?m"
    and out: "\<forall>q k. q + k \<le> Suc p \<or> Suc p + n \<le> q \<longrightarrow> q + k \<le> length ?m \<longrightarrow> slice m' q k = slice ?m q k"
    by blast
  have same: "slice ?m (Suc p) n = slice m (Suc p) n"
    using Suc.prems by (simp add: slice_list_update_outside)
  have run: "release_loop rel m t p (Suc n) = Some (m', t @ (if rel then map Released (slice m p (Suc n)) else []))"
    using m' p same by (simp add: slice_Cons)
  have "slice m' q k = slice m q k" if "q + k \<le> p \<or> p + Suc n \<le> q" "q + k \<le> length m" for q k
  proof -
    have "q + k \<le> Suc p \<or> Suc p + n \<le> q" and "q + k \<le> length ?m" using that by auto
    then have "slice m' q k = slice ?m q k" using out by blast
    also have "\<dots> = slice m q k" using that by (intro slice_list_update_outside) auto
    finally show ?thesis .
  qed
  with run len show ?case by simp
qed

text \<open>
  \<open>movable d loc n C\<close>: the block \<open>d\<close> holds regions A, B, C of \<open>loc\<close>, \<open>n\<close> and \<open>C\<close> values;
  \<open>moved d d' loc n k C\<close>: the block \<open>d'\<close> holds the same A and C around a gap of \<open>k\<close> values.
\<close>

definition movable :: "'v deque \<Rightarrow> nat \<Rightarrow> nat \<Rightarrow> nat \<Rightarrow> bool" where
  "movable d loc n C \<longleftrightarrow> length (buckets d) = capacity d \<and> leftIdx d + (loc + n + C) \<le> capacity d"

definition moved :: "'v deque \<Rightarrow> 'v deque \<Rightarrow> nat \<Rightarrow> nat \<Rightarrow> nat \<Rightarrow> nat \<Rightarrow> bool" where
  "moved d d' loc n k C \<longleftrightarrow> movable d' loc k C \<and>
     slice (buckets d') (leftIdx d') loc = slice (buckets d) (leftIdx d) loc \<and>
     slice (buckets d') (leftIdx d' + loc + k) C = slice (buckets d) (leftIdx d + loc + n) C"

lemma grow_moved:
  assumes d: "movable d loc n C" and l: "l + (loc + k + C) \<le> c"
  obtains m1 m2 where "memmove (replicate c None) l (buckets d) (leftIdx d) loc = Some m1"
    and "memmove m1 (l + loc + k) (buckets d) (leftIdx d + loc + n) C = Some m2"
    and "moved d \<lparr>leftIdx = l, capacity = c, buckets = m2\<rparr> loc n k C"
proof -
  obtain m1 where m1: "memmove (replicate c None) l (buckets d) (leftIdx d) loc = Some m1" "length m1 = c"
    "slice m1 l loc = slice (buckets d) (leftIdx d) loc"
    by (rule memmove_spec [of "leftIdx d" loc "buckets d" l "replicate c None"])
       (use l d in \<open>simp_all add: movable_def\<close>)
  obtain m2 where m2: "memmove m1 (l + loc + k) (buckets d) (leftIdx d + loc + n) C = Some m2"
    "length m2 = c" "slice m2 (l + loc + k) C = slice (buckets d) (leftIdx d + loc + n) C"
    "slice m2 l loc = slice m1 l loc"
    by (rule memmove_spec [of "leftIdx d + loc + n" C "buckets d" "l + loc + k" m1])
       (use l d m1 in \<open>simp_all add: movable_def\<close>)
  show thesis by (rule that [OF m1(1) m2(1)]) (use l m1 m2 in \<open>simp add: moved_def movable_def\<close>)
qed

lemma moveC_moved:
  assumes d: "movable d loc n C" and fit: "movable d loc k C"
  obtains m1 m2 where "memmove (buckets d) (leftIdx d + loc + k) (buckets d) (leftIdx d + loc + n) C = Some m1"
    and "(if leftIdx d + loc + k < leftIdx d + loc + n then blit m1 (leftIdx d + loc + k + C)
          (replicate (leftIdx d + loc + n - (leftIdx d + loc + k)) None) else Some m1) = Some m2"
    and "moved d (d\<lparr>buckets := m2\<rparr>) loc n k C"
proof -
  let ?L = "leftIdx d"
  obtain m1 where m1: "memmove (buckets d) (?L + loc + k) (buckets d) (?L + loc + n) C = Some m1"
    "length m1 = capacity d" "slice m1 (?L + loc + k) C = slice (buckets d) (?L + loc + n) C"
    "slice m1 ?L loc = slice (buckets d) ?L loc"
    by (rule memmove_spec [of "?L + loc + n" C "buckets d" "?L + loc + k" "buckets d"])
       (use d fit in \<open>simp_all add: movable_def\<close>)
  obtain m2 where m2: "(if ?L + loc + k < ?L + loc + n then blit m1 (?L + loc + k + C)
      (replicate (?L + loc + n - (?L + loc + k)) None) else Some m1) = Some m2"
    "length m2 = capacity d" "slice m2 (?L + loc + k) C = slice m1 (?L + loc + k) C"
    "slice m2 ?L loc = slice m1 ?L loc"
    by (rule clear_spec [of "?L + loc + k < ?L + loc + n" "?L + loc + k + C"
          "?L + loc + n - (?L + loc + k)" m1 None]) (use d fit m1(2) in \<open>simp_all add: movable_def\<close>)
  show thesis by (rule that [OF m1(1) m2(1)]) (use fit m1 m2 in \<open>simp add: moved_def movable_def\<close>)
qed

lemma moveA_moved:
  assumes d: "movable d loc n C" and eq: "l + k = leftIdx d + n"
  obtains m1 m2 where "memmove (buckets d) l (buckets d) (leftIdx d) loc = Some m1"
    and "(if leftIdx d < l then blit m1 (leftIdx d) (replicate (l - leftIdx d) None) else Some m1) = Some m2"
    and "moved d (d\<lparr>leftIdx := l, buckets := m2\<rparr>) loc n k C"
proof -
  let ?L = "leftIdx d"
  have lA: "l + loc \<le> ?L + loc + n" and lC: "l + loc + k = ?L + loc + n" using eq by simp_all
  obtain m1 where m1: "memmove (buckets d) l (buckets d) ?L loc = Some m1"
    "length m1 = capacity d" "slice m1 l loc = slice (buckets d) ?L loc"
    "slice m1 (?L + loc + n) C = slice (buckets d) (?L + loc + n) C"
    by (rule memmove_spec [of ?L loc "buckets d" l "buckets d"])
       (use lA d in \<open>simp_all add: movable_def\<close>)
  obtain m2 where m2: "(if ?L < l then blit m1 ?L (replicate (l - ?L) None) else Some m1) = Some m2"
    "length m2 = capacity d" "slice m2 l loc = slice m1 l loc"
    "slice m2 (?L + loc + n) C = slice m1 (?L + loc + n) C"
    by (rule clear_spec [of "?L < l" ?L "l - ?L" m1 None])
       (use lA d m1(2) in \<open>auto simp: movable_def\<close>)
  have "slice m2 (l + loc + k) C = slice (buckets d) (?L + loc + n) C"
    unfolding lC using m2(4) m1(4) by simp
  moreover have "movable (d\<lparr>leftIdx := l, buckets := m2\<rparr>) loc k C"
    using d eq m2(2) by (simp add: movable_def)
  ultimately show thesis
    using that [OF m1(1) m2(1)] m2(3) m1(3) by (simp add: moved_def)
qed

lemma centre_left_moved:
  assumes d: "movable d loc n C" and l: "l + (loc + k + C) \<le> capacity d" and lt: "l < leftIdx d"
  obtains m1 m2 m3 where "memmove (buckets d) l (buckets d) (leftIdx d) loc = Some m1"
    and "memmove m1 (l + loc + k) m1 (leftIdx d + loc + n) C = Some m2"
    and "(if l + loc + k < leftIdx d + loc + n then blit m2 (l + loc + k + C)
          (replicate (leftIdx d + loc + n - (l + loc + k)) None) else Some m2) = Some m3"
    and "moved d (d\<lparr>leftIdx := l, buckets := m3\<rparr>) loc n k C"
proof -
  let ?L = "leftIdx d"
  obtain m1 where m1: "memmove (buckets d) l (buckets d) ?L loc = Some m1"
    "length m1 = capacity d" "slice m1 l loc = slice (buckets d) ?L loc"
    "slice m1 (?L + loc + n) C = slice (buckets d) (?L + loc + n) C"
    by (rule memmove_spec [of ?L loc "buckets d" l "buckets d"])
       (use lt d in \<open>simp_all add: movable_def\<close>)
  obtain m2 where m2: "memmove m1 (l + loc + k) m1 (?L + loc + n) C = Some m2"
    "length m2 = capacity d" "slice m2 (l + loc + k) C = slice m1 (?L + loc + n) C"
    "slice m2 l loc = slice m1 l loc"
    by (rule memmove_spec [of "?L + loc + n" C m1 "l + loc + k" m1])
       (use l d m1(2) in \<open>simp_all add: movable_def\<close>)
  obtain m3 where m3: "(if l + loc + k < ?L + loc + n then blit m2 (l + loc + k + C)
      (replicate (?L + loc + n - (l + loc + k)) None) else Some m2) = Some m3"
    "length m3 = capacity d" "slice m3 (l + loc + k) C = slice m2 (l + loc + k) C"
    "slice m3 l loc = slice m2 l loc"
    by (rule clear_spec [of "l + loc + k < ?L + loc + n" "l + loc + k + C"
          "?L + loc + n - (l + loc + k)" m2 None]) (use l d m2(2) in \<open>simp_all add: movable_def\<close>)
  show thesis
    by (rule that [OF m1(1) m2(1) m3(1)]) (use l m1 m2 m3 in \<open>simp add: moved_def movable_def\<close>)
qed

lemma centre_right_moved:
  assumes d: "movable d loc n C" and l: "l + (loc + k + C) \<le> capacity d" and ge: "leftIdx d \<le> l"
  obtains m1 m2 m3 where "memmove (buckets d) (l + loc + k) (buckets d) (leftIdx d + loc + n) C = Some m1"
    and "memmove m1 l m1 (leftIdx d) loc = Some m2"
    and "(if leftIdx d < l then blit m2 (leftIdx d) (replicate (l - leftIdx d) None) else Some m2) = Some m3"
    and "moved d (d\<lparr>leftIdx := l, buckets := m3\<rparr>) loc n k C"
proof -
  let ?L = "leftIdx d"
  obtain m1 where m1: "memmove (buckets d) (l + loc + k) (buckets d) (?L + loc + n) C = Some m1"
    "length m1 = capacity d" "slice m1 (l + loc + k) C = slice (buckets d) (?L + loc + n) C"
    "slice m1 ?L loc = slice (buckets d) ?L loc"
    by (rule memmove_spec [of "?L + loc + n" C "buckets d" "l + loc + k" "buckets d"])
       (use l ge d in \<open>simp_all add: movable_def\<close>)
  obtain m2 where m2: "memmove m1 l m1 ?L loc = Some m2" "length m2 = capacity d"
    "slice m2 l loc = slice m1 ?L loc" "slice m2 (l + loc + k) C = slice m1 (l + loc + k) C"
    by (rule memmove_spec [of ?L loc m1 l m1]) (use l ge d m1(2) in \<open>simp_all add: movable_def\<close>)
  obtain m3 where m3: "(if ?L < l then blit m2 ?L (replicate (l - ?L) None) else Some m2) = Some m3"
    "length m3 = capacity d" "slice m3 l loc = slice m2 l loc"
    "slice m3 (l + loc + k) C = slice m2 (l + loc + k) C"
    by (rule clear_spec [of "?L < l" ?L "l - ?L" m2 None]) (use l ge m2(2) in \<open>auto\<close>)
  show thesis
    by (rule that [OF m1(1) m2(1) m3(1)]) (use l m1 m2 m3 in \<open>simp add: moved_def movable_def\<close>)
qed

lemma reposition_spec:
  assumes store: "a_store a = Some d" and d: "movable d loc n C" and cnt: "a_count a = loc + n + C"
    and ne: "n \<noteq> k" and small: "loc + k + C + max 4 (capacity d div 2 ^ 17) < 2 ^ 30"
  obtains d' where "CFArrayRepositionDequeRegions a loc n k = Some (a\<lparr>a_store := Some d'\<rparr>)"
    and "moved d d' loc n k C" and "capacity d' \<le> max (capacity d) (2 ^ 30)"
proof -
  let ?L = "leftIdx d" and ?fut = "loc + k + C"
  let ?W = "if capacity d div 2 ^ 17 < 4 then 4 else capacity d div 2 ^ 17"
  let ?R = "int (capacity d) - int (a_count a) - int ?L" and ?k = "int k - int n"
  have fut32: "?fut mod 2 ^ 32 = ?fut" using small by simp
  have fut: "a_count a + k - n = ?fut" and C: "a_count a - n - loc = C" using cnt by simp_all
  have fit: "?L + (loc + n + C) \<le> capacity d" using d by (simp add: movable_def)
  let ?grow = "capacity d < ?fut \<or> (a_count a < ?fut \<and> int ?L + ?R < int ?W)"
  let ?moveC = "(?k < 0 \<and> C < loc) \<or> (?k \<le> ?R \<and> C < loc)"
  let ?moveA = "?k < 0 \<or> (?k \<le> int ?L \<and> loc \<le> C)"
  let ?res = "\<lambda>d. CFArrayRepositionDequeRegions a loc n k = Some (a\<lparr>a_store := Some d\<rparr>)"
  note defs = CFArrayRepositionDequeRegions_def store Let_def fut C fut32 Option.bind_lunit if_True if_False
  have cap: "capacity (d\<lparr>buckets := m\<rparr>) \<le> max (capacity d) (2 ^ 30)"
    "capacity (d\<lparr>leftIdx := l, buckets := m\<rparr>) \<le> max (capacity d) (2 ^ 30)" for l m by simp_all
  consider (grow) ?grow | (moveC) "\<not> ?grow" ?moveC | (moveA) "\<not> ?grow" "\<not> ?moveC" ?moveA
    | (centre) "\<not> ?grow" "\<not> ?moveC" "\<not> ?moveA"
    by blast
  then show thesis
  proof cases
    case grow
    have "?fut + ?W < 2 ^ 30" using small by (simp add: max_def split: if_splits)
    then obtain c where c: "CFArrayDequeRoundUpCapacity (?fut + ?W) = Some c" "?fut + ?W \<le> c" "c \<le> 2 ^ 30"
      by (rule round_up_capacity)
    from c(2) have "(c - ?fut) div 2 + ?fut \<le> c" by linarith
    from grow_moved [OF d this] obtain m1 m2 where m:
      "memmove (replicate c None) ((c - ?fut) div 2) (buckets d) ?L loc = Some m1"
      "memmove m1 ((c - ?fut) div 2 + loc + k) (buckets d) (?L + loc + n) C = Some m2"
      "moved d \<lparr>leftIdx = (c - ?fut) div 2, capacity = c, buckets = m2\<rparr> loc n k C" .
    have "c \<le> max (capacity d) (2 ^ 30)" using c(3) by simp
    with that [OF _ m(3)] show thesis by (simp only: defs grow c(1) m(1,2) deque.simps)
  next
    case moveC
    then have "movable d loc k C" using d cnt by (auto simp: movable_def)
    from moveC_moved [OF d this] obtain m1 m2 where m: "memmove (buckets d) (?L + loc + k) (buckets d) (?L + loc + n) C = Some m1"
      "(if ?L + loc + k < ?L + loc + n then blit m1 (?L + loc + k + C)
          (replicate (?L + loc + n - (?L + loc + k)) None) else Some m1) = Some m2"
      "moved d (d\<lparr>buckets := m2\<rparr>) loc n k C" .
    from that [OF _ m(3)] cap show thesis by (simp only: defs moveC m(1,2))
  next
    case moveA
    define l where "l = nat (int ?L - ?k)"
    have "l + k = ?L + n" unfolding l_def using moveA(2,3) by linarith
    from moveA_moved [OF d this] obtain m1 m2 where m: "memmove (buckets d) l (buckets d) ?L loc = Some m1"
      "(if ?L < l then blit m1 ?L (replicate (l - ?L) None) else Some m1) = Some m2"
      "moved d (d\<lparr>leftIdx := l, buckets := m2\<rparr>) loc n k C" .
    from that [OF _ m(3)] cap show thesis by (simp only: defs l_def [symmetric] moveA m(1,2))
  next
    case centre
    define h where "h = nat ((int ?L + ?R - ?k) div 2)"
    define l where "l = h - h div 2"
    have "int ?L + ?R - ?k = int (capacity d - ?fut)" using cnt centre(1) by auto
    then have "h = (capacity d - ?fut) div 2" unfolding h_def by simp
    then have l: "l + ?fut \<le> capacity d" unfolding l_def using centre(1) by linarith
    show thesis
    proof (cases "l < ?L")
      case True
      from centre_left_moved [OF d l True] obtain m1 m2 m3 where m:
        "memmove (buckets d) l (buckets d) ?L loc = Some m1"
        "memmove m1 (l + loc + k) m1 (?L + loc + n) C = Some m2"
        "(if l + loc + k < ?L + loc + n then blit m2 (l + loc + k + C)
          (replicate (?L + loc + n - (l + loc + k)) None) else Some m2) = Some m3"
        "moved d (d\<lparr>leftIdx := l, buckets := m3\<rparr>) loc n k C" .
      from that [OF _ m(4)] cap show thesis
        by (simp only: defs h_def [symmetric] l_def [symmetric] centre True m(1,2,3))
    next
      case False
      then have "?L \<le> l" by simp
      from centre_right_moved [OF d l this] obtain m1 m2 m3 where m:
        "memmove (buckets d) (l + loc + k) (buckets d) (?L + loc + n) C = Some m1"
        "memmove m1 l m1 ?L loc = Some m2"
        "(if ?L < l then blit m2 ?L (replicate (l - ?L) None) else Some m2) = Some m3"
        "moved d (d\<lparr>leftIdx := l, buckets := m3\<rparr>) loc n k C" .
      from that [OF _ m(4)] cap show thesis
        by (simp only: defs h_def [symmetric] l_def [symmetric] centre False m(1,2,3))
    qed
  qed
qed

text \<open>What a release of a range does to a deque: the calls made, and no bucket outside the range.\<close>

definition release_events :: "'v cfarray \<Rightarrow> nat \<Rightarrow> nat \<Rightarrow> 'v cb_event list" where
  "release_events a loc n =
     (if cb_release (CFArrayGetCallBacks a) \<noteq> None \<and> \<not> a_finalized a
      then map Released (slice (contents a) loc n) else [])"

lemma release_values_spec:
  assumes "wf a" and ty: "a_type a = Deque" and store: "a_store a = Some d"
    and range: "loc + n \<le> a_count a"
  shows "\<exists>m. CFArrayReleaseValues a loc n False =
             Some (a\<lparr>a_store := Some (d\<lparr>buckets := m\<rparr>), a_trace := a_trace a @ release_events a loc n\<rparr>) \<and>
           length m = capacity d \<and>
           (\<forall>q k. q + k \<le> leftIdx d + loc \<or> leftIdx d + loc + n \<le> q \<longrightarrow> q + k \<le> capacity d \<longrightarrow>
              slice m q k = slice (buckets d) q k)"
proof (cases "0 < n \<and> \<not> a_finalized a")
  case True
  have d: "length (buckets d) = capacity d" "leftIdx d + a_count a \<le> capacity d"
    using assms by (simp_all add: wf_def)
  have "slice (contents a) loc n = slice (buckets d) (leftIdx d + loc) n"
    using range ty store by (simp add: contents_def slice_def take_drop min_def add.commute)
  with True d range ty store
    release_loop_spec [of "leftIdx d + loc" n "buckets d" "cb_release (CFArrayGetCallBacks a) \<noteq> None" "a_trace a"]
  show ?thesis by (auto simp: CFArrayReleaseValues_def release_events_def Let_def)
next
  case False
  then have "release_events a loc n = []" by (auto simp: release_events_def)
  moreover have "CFArrayReleaseValues a loc n False = Some a"
    using False ty store by (auto simp: CFArrayReleaseValues_def Let_def)
  moreover have "a = a\<lparr>a_store := Some (d\<lparr>buckets := buckets d\<rparr>), a_trace := a_trace a @ []\<rparr>"
    using store by (cases a) simp
  moreover have "length (buckets d) = capacity d" using assms by (simp add: wf_def)
  ultimately show ?thesis by (intro exI [of _ "buckets d"]) simp
qed

subsection \<open>The contract of a replacement\<close>

text \<open>\<open>room a k\<close>: a count of \<open>k\<close> keeps the shift of \<^verbatim>\<open>__CFArrayDequeRoundUpCapacity\<close> within a C \<^verbatim>\<open>int\<close>.\<close>

definition room :: "'v cfarray \<Rightarrow> nat \<Rightarrow> bool" where
  "room a k \<longleftrightarrow>
     k + max 4 ((case a_store a of None \<Rightarrow> 0 | Some d \<Rightarrow> capacity d) div 2 ^ 17) < 2 ^ 30"

definition replaced :: "'v env \<Rightarrow> 'v cfarray \<Rightarrow> nat \<Rightarrow> nat \<Rightarrow> 'v bucket list \<Rightarrow> 'v bucket list" where
  "replaced E a loc n vs =
     take loc (contents a) @ retain_values (retainer E a) vs @ drop (loc + n) (contents a)"

text \<open>Every capacity the code allocates is a result of \<^verbatim>\<open>__CFArrayDequeRoundUpCapacity\<close>.\<close>

definition cap_ok :: "'v cfarray \<Rightarrow> bool" where
  "cap_ok a \<longleftrightarrow> (case a_store a of None \<Rightarrow> True | Some d \<Rightarrow> capacity d \<le> 2 ^ 30)"

lemma room_cap_ok:
  assumes "cap_ok a" and "k + 8192 < 2 ^ 30"
  shows "room a k"
proof (cases "a_store a")
  case (Some d)
  then have "capacity d div 2 ^ 17 \<le> 2 ^ 30 div 2 ^ 17" using assms(1) by (intro div_le_mono) (simp add: cap_ok_def)
  then show ?thesis using Some assms(2) by (simp add: room_def)
qed (use assms in \<open>simp add: room_def\<close>)

text \<open>\<open>same_header a b\<close>: the fields that no operation on values changes.\<close>

definition same_header :: "'v cfarray \<Rightarrow> 'v cfarray \<Rightarrow> bool" where
  "same_header a b \<longleftrightarrow> a_type b = a_type a \<and> a_cbbits b = a_cbbits a \<and>
     a_custom b = a_custom a \<and> a_finalized b = a_finalized a"

lemma length_retain_values [simp]: "length (retain_values r vs) = length vs"
  by (cases r) simp_all

lemma copy_in:
  assumes d: "movable d loc k C" and len: "length vs = k"
  obtains m where "(if 0 < k then blit (buckets d) (leftIdx d + loc) vs else Some (buckets d)) = Some m"
    and "slice m (leftIdx d) (loc + k + C) =
         slice (buckets d) (leftIdx d) loc @ vs @ slice (buckets d) (leftIdx d + loc + k) C"
    and "length m = capacity d"
proof (cases "k = 0")
  case True
  then show thesis using that [of "buckets d"] d len by (simp add: movable_def slice_append)
next
  case False
  obtain m where m: "blit (buckets d) (leftIdx d + loc) vs = Some m" "length m = capacity d"
    "slice m (leftIdx d + loc) k = vs" "slice m (leftIdx d) loc = slice (buckets d) (leftIdx d) loc"
    "slice m (leftIdx d + loc + k) C = slice (buckets d) (leftIdx d + loc + k) C"
    by (rule blit_spec [of "leftIdx d + loc" vs "buckets d"]) (use d len in \<open>simp_all add: movable_def\<close>)
  then show thesis using that [of m] False by (simp add: slice_append add.assoc)
qed

lemma header_update [simp]:
  "CFArrayGetCallBacks (a\<lparr>a_trace := t, a_mutations := u\<rparr>) = CFArrayGetCallBacks a"
  "contents (a\<lparr>a_trace := t, a_mutations := u\<rparr>) = contents a"
  "wf (a\<lparr>a_trace := t, a_mutations := u\<rparr>) = wf a"
  by (simp_all add: CFArrayGetCallBacks_def contents_def wf_def
      split: array_type.split cb_variety.split option.split)

text \<open>The release step of a replacement: the deque keeps its regions A and C.\<close>

lemma release_step:
  assumes "wf a" and ty: "a_type a = Deque" and store: "a_store a = Some d" and cnt: "a_count a = loc + n + C"
    and a0: "a0 = a\<lparr>a_trace := t, a_mutations := u\<rparr>"
  obtains m where "(if 0 < n then CFArrayReleaseValues a0 loc n False else Some a0) =
      Some (a0\<lparr>a_store := Some (d\<lparr>buckets := m\<rparr>), a_trace := t @ release_events a loc n\<rparr>)"
    and "moved d (d\<lparr>buckets := m\<rparr>) loc n n C"
proof (cases "0 < n")
  case True
  have d: "length (buckets d) = capacity d" "leftIdx d + a_count a \<le> capacity d"
    using assms by (simp_all add: wf_def)
  have "wf a0" and ev: "release_events a0 loc n = release_events a loc n"
    using assms(1) by (simp_all add: a0 release_events_def)
  from release_values_spec [OF this(1), of d loc n] obtain m where
    "CFArrayReleaseValues a0 loc n False =
        Some (a0\<lparr>a_store := Some (d\<lparr>buckets := m\<rparr>), a_trace := a_trace a0 @ release_events a0 loc n\<rparr>)"
    "length m = capacity d"
    "\<forall>q k. q + k \<le> leftIdx d + loc \<or> leftIdx d + loc + n \<le> q \<longrightarrow> q + k \<le> capacity d \<longrightarrow>
       slice m q k = slice (buckets d) q k"
    using ty store cnt by (auto simp: a0)
  then show thesis using that [of m] True cnt d unfolding ev by (simp add: a0 moved_def movable_def)
next
  case False
  then have "release_events a loc n = []" by (simp add: release_events_def)
  moreover have "a0 = a0\<lparr>a_store := Some (d\<lparr>buckets := buckets d\<rparr>)\<rparr>" using store by (cases a) (simp add: a0)
  ultimately show thesis
    using that [of "buckets d"] False assms by (simp add: moved_def movable_def wf_def)
qed

text \<open>The move step of a replacement, skipped by the code when the two lengths agree.\<close>

lemma move_step:
  assumes "a_store a = Some d" and "movable d loc n C" and "a_count a = loc + n + C"
    and "loc + k + C + max 4 (capacity d div 2 ^ 17) < 2 ^ 30"
  obtains d' where "(if n \<noteq> k then CFArrayRepositionDequeRegions a loc n k else Some a) =
      Some (a\<lparr>a_store := Some d'\<rparr>)" and "moved d d' loc n k C" and "capacity d' \<le> max (capacity d) (2 ^ 30)"
proof (cases "n = k")
  case True
  moreover have "a = a\<lparr>a_store := Some d\<rparr>" using assms(1) by (cases a) simp
  ultimately show thesis using that [of d] assms(2) by (simp add: moved_def)
next
  case False
  from reposition_spec [OF assms(1,2,3) False assms(4)] obtain d' where
    "CFArrayRepositionDequeRegions a loc n k = Some (a\<lparr>a_store := Some d'\<rparr>)" "moved d d' loc n k C"
    "capacity d' \<le> max (capacity d) (2 ^ 30)" .
  with that False show thesis by simp
qed

lemma replace_empty:
  assumes wf: "wf a" and ty: "a_type a = Deque" and None: "a_store a = None"
    and range: "loc + n \<le> a_count a" and room: "room a (a_count a + length vs - n)"
  shows "\<exists>a'. CFArrayReplaceValues_raw E a loc n vs = Some a' \<and> wf a' \<and> same_header a a' \<and>
           contents a' = replaced E a loc n vs \<and> a_count a' = a_count a + length vs - n \<and>
           a_mutations a' = a_mutations a + 1 \<and> (cap_ok a \<longrightarrow> cap_ok a') \<and>
           a_trace a' = a_trace a @ retain_events (retainer E a) vs @ release_events a loc n"
proof -
  from None wf ty range have z: "a_count a = 0" "loc = 0" "n = 0" by (simp_all add: wf_def)
  let ?vs = "retain_values (retainer E a) vs"
  from room None z have "length vs < 2 ^ 30" by (simp add: room_def)
  then obtain c where c: "CFArrayDequeRoundUpCapacity (length vs) = Some c" "length vs \<le> c" "c \<le> 2 ^ 30"
    by (rule round_up_capacity)
  let ?l = "(c - length vs) div 2"
  have l: "?l + length vs \<le> c" using c(2) by linarith
  obtain m where m: "blit (replicate c None) ?l ?vs = Some m" "length m = c" "slice m ?l (length vs) = ?vs"
    by (rule blit_spec [of ?l ?vs "replicate c None"]) (use l in simp_all)
  have "contents a = []" using ty None by (simp add: contents_def)
  then have rep: "replaced E a loc n vs = ?vs" and rel: "release_events a loc n = []"
    using z by (simp_all add: replaced_def release_events_def slice_def)
  show ?thesis
    unfolding rep rel CFArrayReplaceValues_raw_def Let_def
    using z None c m l ty
    by (cases "vs = []") (auto simp: wf_def contents_def same_header_def cap_ok_def)
qed

theorem replace_values_spec:
  assumes wf: "wf a" and ty: "a_type a = Deque" and range: "loc + n \<le> a_count a"
    and room: "room a (a_count a + length vs - n)"
  shows "\<exists>a'. CFArrayReplaceValues_raw E a loc n vs = Some a' \<and> wf a' \<and> same_header a a' \<and>
           contents a' = replaced E a loc n vs \<and> a_count a' = a_count a + length vs - n \<and>
           a_mutations a' = a_mutations a + 1 \<and> (cap_ok a \<longrightarrow> cap_ok a') \<and>
           a_trace a' = a_trace a @ retain_events (retainer E a) vs @ release_events a loc n"
proof (cases "a_store a")
  case None
  with assms show ?thesis by (intro replace_empty)
next
  case (Some d)
  obtain C where C: "a_count a = loc + n + C" using range by (metis le_iff_add)
  have fut: "a_count a + length vs - n = loc + length vs + C" using C by simp
  let ?vs = "retain_values (retainer E a) vs" and ?k = "length vs"
  let ?t = "a_trace a @ retain_events (retainer E a) vs"
  let ?a0 = "a\<lparr>a_trace := ?t, a_mutations := a_mutations a + 1\<rparr>"
  obtain m where m: "(if 0 < n then CFArrayReleaseValues ?a0 loc n False else Some ?a0) =
      Some (?a0\<lparr>a_store := Some (d\<lparr>buckets := m\<rparr>), a_trace := ?t @ release_events a loc n\<rparr>)"
    and mv1: "moved d (d\<lparr>buckets := m\<rparr>) loc n n C"
    by (rule release_step [OF wf ty Some C refl])
  let ?a1 = "?a0\<lparr>a_store := Some (d\<lparr>buckets := m\<rparr>), a_trace := ?t @ release_events a loc n\<rparr>"
  obtain d2 where d2: "(if n \<noteq> ?k then CFArrayRepositionDequeRegions ?a1 loc n ?k else Some ?a1) =
      Some (?a1\<lparr>a_store := Some d2\<rparr>)" and mv2: "moved (d\<lparr>buckets := m\<rparr>) d2 loc n ?k C"
    and cap: "capacity d2 \<le> max (capacity d) (2 ^ 30)"
    by (rule move_step [of ?a1 "d\<lparr>buckets := m\<rparr>" loc n C ?k])
       (use mv1 C room Some fut in \<open>simp_all add: moved_def room_def\<close>)
  from mv2 have "movable d2 loc ?k C" by (simp add: moved_def)
  from copy_in [OF this length_retain_values, of "retainer E a"] obtain m2 where
    m2: "(if 0 < ?k then blit (buckets d2) (leftIdx d2 + loc) ?vs else Some (buckets d2)) = Some m2"
    and sl: "slice m2 (leftIdx d2) (loc + ?k + C) =
         slice (buckets d2) (leftIdx d2) loc @ ?vs @ slice (buckets d2) (leftIdx d2 + loc + ?k) C"
    and len: "length m2 = capacity d2" .
  let ?a3 = "?a1\<lparr>a_store := Some (d2\<lparr>buckets := m2\<rparr>), a_count := loc + ?k + C\<rparr>"
  have "contents ?a3 = replaced E a loc n vs"
    using sl mv1 mv2 ty Some C
    by (simp add: replaced_def contents_def take_slice drop_slice moved_def add.assoc)
  moreover have "cap_ok a \<longrightarrow> cap_ok ?a3" using cap Some by (simp add: cap_ok_def) linarith
  moreover have "wf ?a3" using len mv2 ty by (simp add: wf_def moved_def movable_def)
  moreover have "CFArrayReplaceValues_raw E a loc n vs = Some ?a3"
    unfolding CFArrayReplaceValues_raw_def Let_def fut m Option.bind_lunit
    using d2 m2 by (cases "?k = 0") (auto split: if_splits)
  ultimately show ?thesis unfolding fut by (auto simp: same_header_def)
qed

end
