(* ===== verification/CFSortFunctions.thy ===== *)
theory CFSortFunctions
  imports Prelude
begin

text \<open>
  \<^verbatim>\<open>CFSortFunctions.c\<close>: the in-place merge sort on an index buffer, and \<^verbatim>\<open>CFQSortArray\<close> and
  \<^verbatim>\<open>CFMergeSortArray\<close> that sort through such indexes. The buffer and the scratch space are blocks
  of memory; \<open>b\<close> is the offset of the pointer \<^verbatim>\<open>listp\<close> in its block. The comparator block is an
  argument, a function that returns the C comparison result. The concurrent variant
  (\<^verbatim>\<open>__CFSortIndexesN\<close>) and failing allocations are not modelled; the values sorted are cells, so that
  both branches on \<^verbatim>\<open>elementSize\<close> copy one cell.
\<close>

subsection \<open>Merging\<close>

text \<open>\<^verbatim>\<open>while (idx--) listp[idx] = tmp[idx];\<close>\<close>

fun copy_back :: "'v list \<Rightarrow> nat \<Rightarrow> 'v list \<Rightarrow> nat \<Rightarrow> 'v list option" where
  "copy_back m b tmp 0 = Some m"
| "copy_back m b tmp (Suc i) =
     do { v \<leftarrow> peek tmp i; m' \<leftarrow> poke m (b + i) v; copy_back m' b tmp i }"

text \<open>\<^verbatim>\<open>for (t = ...; idx <= t; t--) listp[t] = listp[t - cnt2];\<close> where \<open>n\<close> steps remain.\<close>

fun shift_up :: "'v list \<Rightarrow> nat \<Rightarrow> nat \<Rightarrow> nat \<Rightarrow> nat \<Rightarrow> 'v list option" where
  "shift_up m b cnt2 idx 0 = Some m"
| "shift_up m b cnt2 idx (Suc n) =
     do { v \<leftarrow> peek m (b + (idx + n - cnt2)); m' \<leftarrow> poke m (b + (idx + n)) v; shift_up m' b cnt2 idx n }"

function merge_loop :: "('v \<Rightarrow> 'v \<Rightarrow> int) \<Rightarrow> 'v list \<Rightarrow> nat \<Rightarrow> nat \<Rightarrow> nat \<Rightarrow> 'v list \<Rightarrow> nat \<Rightarrow> nat \<Rightarrow> nat
    \<Rightarrow> ('v list \<times> 'v list) option" where
  "merge_loop cmp m b cnt1 cnt2 tmp idx idx1 idx2 =
     (if cnt1 \<le> idx1 then
        do { m1 \<leftarrow> copy_back m b tmp idx; Some (m1, tmp) }
      else if cnt1 + cnt2 \<le> idx2 then
        do { m1 \<leftarrow> shift_up m b cnt2 idx (cnt1 + cnt2 - idx);
             m2 \<leftarrow> copy_back m1 b tmp idx;
             Some (m2, tmp) }
      else
        do { v1 \<leftarrow> peek m (b + idx1);
             v2 \<leftarrow> peek m (b + idx2);
             if cmp v1 v2 \<le> 0 then
               do { tmp' \<leftarrow> poke tmp idx v1;
                    merge_loop cmp m b cnt1 cnt2 tmp' (idx + 1) (idx1 + 1) idx2 }
             else
               do { tmp' \<leftarrow> poke tmp idx v2;
                    merge_loop cmp m b cnt1 cnt2 tmp' (idx + 1) idx1 (idx2 + 1) } })"
  by pat_completeness auto
termination
  by (relation "measure (\<lambda>(cmp, m, b, cnt1, cnt2, tmp, idx, idx1, idx2). (cnt1 - idx1) + (cnt1 + cnt2 - idx2))") auto

declare merge_loop.simps [simp del]

definition CFSimpleMerge :: "('v \<Rightarrow> 'v \<Rightarrow> int) \<Rightarrow> 'v list \<Rightarrow> nat \<Rightarrow> nat \<Rightarrow> nat \<Rightarrow> 'v list
    \<Rightarrow> ('v list \<times> 'v list) option" where
  "CFSimpleMerge cmp m b cnt1 cnt2 tmp =
     (if cnt1 = 0 \<or> cnt2 = 0 then Some (m, tmp)
      else do { ordered \<leftarrow> (if 16 < cnt1 + cnt2
                  then do { x \<leftarrow> peek m (b + (cnt1 - 1)); y \<leftarrow> peek m (b + cnt1); Some (cmp x y \<le> 0) }
                  else Some False);
                if ordered then Some (m, tmp) else merge_loop cmp m b cnt1 cnt2 tmp 0 0 cnt1 })"

subsection \<open>Sorting\<close>

text \<open>The branch for three elements: three compare-and-swap steps on local variables.\<close>

definition sort3 :: "('v \<Rightarrow> 'v \<Rightarrow> int) \<Rightarrow> 'v \<Rightarrow> 'v \<Rightarrow> 'v \<Rightarrow> 'v list" where
  "sort3 cmp v0 v1 v2 =
     (let (v0, v1) = (if 0 < cmp v0 v1 then (v1, v0) else (v0, v1)) in
      if 0 < cmp v1 v2 then
        (let (v1, v2) = (v2, v1) in
         let (v0, v1) = (if 0 < cmp v0 v1 then (v1, v0) else (v0, v1)) in [v0, v1, v2])
      else [v0, v1, v2])"

function CFSimpleMergeSort :: "('v \<Rightarrow> 'v \<Rightarrow> int) \<Rightarrow> 'v list \<Rightarrow> nat \<Rightarrow> nat \<Rightarrow> 'v list
    \<Rightarrow> ('v list \<times> 'v list) option" where
  "CFSimpleMergeSort cmp m b cnt tmp =
     (if cnt < 2 then Some (m, tmp)
      else if cnt = 2 then
        do { v0 \<leftarrow> peek m b;
             v1 \<leftarrow> peek m (b + 1);
             if 0 < cmp v0 v1 then do { m1 \<leftarrow> poke m b v1; m2 \<leftarrow> poke m1 (b + 1) v0; Some (m2, tmp) }
             else Some (m, tmp) }
      else if cnt = 3 then
        do { v0 \<leftarrow> peek m b; v1 \<leftarrow> peek m (b + 1); v2 \<leftarrow> peek m (b + 2);
             m1 \<leftarrow> blit m b (sort3 cmp v0 v1 v2);
             Some (m1, tmp) }
      else
        do { (m1, t1) \<leftarrow> CFSimpleMergeSort cmp m b (cnt div 2) tmp;
             (m2, t2) \<leftarrow> CFSimpleMergeSort cmp m1 (b + cnt div 2) (cnt - cnt div 2) t1;
             CFSimpleMerge cmp m2 b (cnt div 2) (cnt - cnt div 2) t2 })"
  by pat_completeness auto
termination
  by (relation "measure (\<lambda>(cmp, m, b, cnt, tmp). cnt)") auto

declare CFSimpleMergeSort.simps [simp del]

text \<open>The index buffer: filled in one loop, or in eight chunks when it is large.\<close>

definition fill_range :: "nat list \<Rightarrow> nat \<Rightarrow> nat \<Rightarrow> nat list option" where
  "fill_range m lo hi = blit m lo [lo..<hi]"

fun fill_chunks :: "nat list \<Rightarrow> nat \<Rightarrow> nat \<Rightarrow> nat \<Rightarrow> nat \<Rightarrow> nat list option" where
  "fill_chunks m cnt sz n 0 = Some m"
| "fill_chunks m cnt sz n (Suc k) =
     do { let idx = n * sz;
          m' \<leftarrow> (if idx < min (idx + sz) cnt then fill_range m idx (min (idx + sz) cnt) else Some m);
          fill_chunks m' cnt sz (Suc n) k }"

definition CFSortIndexes :: "nat list \<Rightarrow> nat \<Rightarrow> (nat \<Rightarrow> nat \<Rightarrow> int) \<Rightarrow> nat list option" where
  "CFSortIndexes indexBuffer cnt cmp =
     (if cnt < 1 then Some indexBuffer
      else if (2 ^ 63 - 1) div 8 < cnt then Some indexBuffer
      else do {
        filled \<leftarrow> (if cnt \<le> 65536 then fill_range indexBuffer 0 cnt
                   else fill_chunks indexBuffer cnt (((cnt + 15) div 16 * 16) div 8) 0 8);
        (buf, _) \<leftarrow> CFSimpleMergeSort cmp filled 0 cnt (replicate cnt 0);
        Some buf })"

fun gather :: "'v list \<Rightarrow> nat list \<Rightarrow> 'v list option" where
  "gather m [] = Some []"
| "gather m (i # is) = do { v \<leftarrow> peek m i; vs \<leftarrow> gather m is; Some (v # vs) }"

text \<open>\<^verbatim>\<open>CFQSortArray\<close>; \<^verbatim>\<open>CFMergeSortArray\<close> has the same body, its option \<^verbatim>\<open>kCFSortStable\<close> is not read.
  The comparator reads the cells whose addresses it is given.\<close>

definition CFQSortArray :: "'v list \<Rightarrow> nat \<Rightarrow> ('v \<Rightarrow> 'v \<Rightarrow> int) \<Rightarrow> 'v list option" where
  "CFQSortArray list cnt comparator =
     (if cnt < 2 then Some list
      else do {
        indexes \<leftarrow> CFSortIndexes (replicate cnt 0) cnt (\<lambda>a b. comparator (list ! a) (list ! b));
        store \<leftarrow> gather list indexes;
        blit list 0 store })"

definition CFMergeSortArray :: "'v list \<Rightarrow> nat \<Rightarrow> ('v \<Rightarrow> 'v \<Rightarrow> int) \<Rightarrow> 'v list option" where
  "CFMergeSortArray list cnt comparator =
     (if cnt < 2 then Some list
      else do {
        indexes \<leftarrow> CFSortIndexes (replicate cnt 0) cnt (\<lambda>a b. comparator (list ! a) (list ! b));
        store \<leftarrow> gather list indexes;
        blit list 0 store })"

subsection \<open>The merge of two lists\<close>

fun merge :: "('v \<Rightarrow> 'v \<Rightarrow> int) \<Rightarrow> 'v list \<Rightarrow> 'v list \<Rightarrow> 'v list" where
  "merge cmp [] ys = ys"
| "merge cmp xs [] = xs"
| "merge cmp (x # xs) (y # ys) =
     (if cmp x y \<le> 0 then x # merge cmp xs (y # ys) else y # merge cmp (x # xs) ys)"

lemma merge_Nil2 [simp]: "merge cmp xs [] = xs"
  by (cases xs) simp_all

lemma mset_merge [simp]: "mset (merge cmp xs ys) = mset xs + mset ys"
  by (induction cmp xs ys rule: merge.induct) simp_all

lemma set_merge [simp]: "set (merge cmp xs ys) = set xs \<union> set ys"
  by (metis mset_merge set_mset_mset set_mset_union)

lemma length_merge [simp]: "length (merge cmp xs ys) = length xs + length ys"
  by (metis mset_merge size_mset size_union)

lemma blit_snoc:
  "i + length vs < length m \<Longrightarrow> blit (m[i + length vs := v]) i vs = blit m i (vs @ [v])"
  by (simp add: blit_def take_update_cancel drop_update_cancel Cons_nth_drop_Suc [symmetric])

lemma copy_back_eq:
  "i \<le> length tmp \<Longrightarrow> b + i \<le> length m \<Longrightarrow> copy_back m b tmp i = blit m b (take i tmp)"
proof (induction i arbitrary: m)
  case 0
  then show ?case by (simp add: blit_def)
next
  case (Suc i)
  then show ?case using blit_snoc [of b "take i tmp" m "tmp ! i"] by (simp add: take_Suc_conv_app_nth)
qed

lemma shift_up_eq:
  "k \<le> idx \<Longrightarrow> b + idx + n \<le> length m \<Longrightarrow>
   shift_up m b k idx n = blit m (b + idx) (slice m (b + idx - k) n)"
proof (induction n arbitrary: m)
  case 0
  then show ?case by (simp add: blit_def)
next
  case (Suc n)
  let ?v = "m ! (b + (idx + n - k))" and ?m = "m[b + (idx + n) := m ! (b + (idx + n - k))]"
  have snoc: "slice m (b + idx - k) (Suc n) = slice m (b + idx - k) n @ [?v]"
    using Suc.prems slice_append [of m "b + idx - k" n 1]
    by (simp add: slice_Cons add.assoc)
  have "shift_up m b k idx (Suc n) = shift_up ?m b k idx n" using Suc.prems by simp
  also have "\<dots> = blit ?m (b + idx) (slice ?m (b + idx - k) n)" using Suc by simp
  also have "slice ?m (b + idx - k) n = slice m (b + idx - k) n"
    using Suc.prems by (intro slice_list_update_outside) auto
  also have "blit ?m (b + idx) (slice m (b + idx - k) n) = blit m (b + idx) (slice m (b + idx - k) n @ [?v])"
    using Suc.prems blit_snoc [of "b + idx" "slice m (b + idx - k) n" m ?v] by (simp add: add.assoc)
  finally show ?case using snoc by simp
qed

lemma merge_loop_spec:
  assumes "cnt1 \<le> idx2" "idx1 \<le> cnt1" "idx2 \<le> cnt1 + cnt2" "idx + cnt1 = idx1 + idx2"
    and "b + cnt1 + cnt2 \<le> length m" "cnt1 + cnt2 \<le> length tmp"
  shows "\<exists>tmp'. length tmp' = length tmp \<and> merge_loop cmp m b cnt1 cnt2 tmp idx idx1 idx2 =
    Some (put m b (take idx tmp @ merge cmp (slice m (b + idx1) (cnt1 - idx1))
                                            (slice m (b + idx2) (cnt1 + cnt2 - idx2))), tmp')"
  using assms
proof (induction cmp m b cnt1 cnt2 tmp idx idx1 idx2 rule: merge_loop.induct)
  case (1 cmp m b cnt1 cnt2 tmp idx idx1 idx2)
  note prems = "1.prems"
  consider (a) "cnt1 \<le> idx1" | (b) "idx1 < cnt1" "cnt1 + cnt2 \<le> idx2" | (c) "idx1 < cnt1" "idx2 < cnt1 + cnt2"
    by linarith
  then show ?case
  proof cases
    case a
    then have "idx1 = cnt1" "idx = idx2" using prems by auto
    then show ?thesis using prems
      by (subst merge_loop.simps) (simp add: copy_back_eq put_append_slice)
  next
    case b
    then have i: "idx2 = cnt1 + cnt2" "idx = idx1 + cnt2" using prems by auto
    with b prems have "put (put m (b + idx) (slice m (b + idx1) (cnt1 - idx1))) b (take idx tmp) =
        put m b (take idx tmp @ slice m (b + idx1) (cnt1 - idx1))" by (intro put_put_before) auto
    with b i prems show ?thesis
      by (subst merge_loop.simps) (simp add: shift_up_eq copy_back_eq)
  next
    case c
    let ?v1 = "m ! (b + idx1)" and ?v2 = "m ! (b + idx2)"
    have sl: "slice m (b + idx1) (cnt1 - idx1) = ?v1 # slice m (b + (idx1 + 1)) (cnt1 - (idx1 + 1))"
      "slice m (b + idx2) (cnt1 + cnt2 - idx2) = ?v2 # slice m (b + (idx2 + 1)) (cnt1 + cnt2 - (idx2 + 1))"
      using c prems slice_Cons [of "b + idx1" m "cnt1 - (idx1 + 1)"]
        slice_Cons [of "b + idx2" m "cnt1 + cnt2 - (idx2 + 1)"] by (simp_all add: Suc_diff_Suc)
    have tk: "take (idx + 1) (tmp[idx := v]) = take idx tmp @ [v]" for v
      using c prems by (simp add: take_Suc_conv_app_nth)
    show ?thesis
    proof (cases "cmp ?v1 ?v2 \<le> 0")
      case True
      with c prems "1.IH"(1) [of ?v1 ?v2 "tmp[idx := ?v1]"] show ?thesis
        by (subst merge_loop.simps) (simp add: sl tk del: One_nat_def)
    next
      case False
      with c prems "1.IH"(2) [of ?v1 ?v2 "tmp[idx := ?v2]"] show ?thesis
        by (subst merge_loop.simps) (simp add: sl tk del: One_nat_def)
    qed
  qed
qed

subsection \<open>The sort of a list\<close>

definition smerge :: "('v \<Rightarrow> 'v \<Rightarrow> int) \<Rightarrow> 'v list \<Rightarrow> 'v list \<Rightarrow> 'v list" where
  "smerge cmp xs ys =
     (if xs = [] \<or> ys = [] \<or> 16 < length xs + length ys \<and> cmp (last xs) (hd ys) \<le> 0 then xs @ ys
      else merge cmp xs ys)"

function msort :: "('v \<Rightarrow> 'v \<Rightarrow> int) \<Rightarrow> 'v list \<Rightarrow> 'v list" where
  "msort cmp xs =
     (if length xs < 2 then xs
      else if length xs = 2 then (if 0 < cmp (xs ! 0) (xs ! 1) then [xs ! 1, xs ! 0] else xs)
      else if length xs = 3 then sort3 cmp (xs ! 0) (xs ! 1) (xs ! 2)
      else smerge cmp (msort cmp (take (length xs div 2) xs)) (msort cmp (drop (length xs div 2) xs)))"
  by pat_completeness auto
termination
  by (relation "measure (\<lambda>(cmp, xs). length xs)") auto

declare msort.simps [simp del]

lemma length_sort3 [simp]: "length (sort3 cmp x y z) = 3"
  by (simp add: sort3_def split: prod.splits)

lemma mset_sort3 [simp]: "mset (sort3 cmp x y z) = {#x, y, z#}"
  by (simp add: sort3_def)

lemma mset_smerge [simp]: "mset (smerge cmp xs ys) = mset xs + mset ys"
  by (simp add: smerge_def)

lemma list_len2: "length xs = 2 \<Longrightarrow> \<exists>x y. xs = [x, y]"
  by (auto simp: numeral_eq_Suc length_Suc_conv)

lemma list_len3: "length xs = 3 \<Longrightarrow> \<exists>x y z. xs = [x, y, z]"
  by (auto simp: numeral_eq_Suc length_Suc_conv)

lemma mset_msort [simp]: "mset (msort cmp xs) = mset xs"
proof (induction cmp xs rule: msort.induct)
  case (1 cmp xs)
  consider (s) "length xs < 2" | (t) "length xs = 2" | (u) "length xs = 3" | (l) "3 < length xs" by linarith
  then show ?case
  proof cases
    case t
    then obtain x y where "xs = [x, y]" using list_len2 by blast
    then show ?thesis by (simp add: msort.simps)
  next
    case u
    then obtain x y z where "xs = [x, y, z]" using list_len3 by blast
    then show ?thesis by (simp add: msort.simps numeral_2_eq_2)
  next
    case l
    let ?h = "length xs div 2"
    have "mset (msort cmp xs) = mset (take ?h xs) + mset (drop ?h xs)"
      using l 1 by (subst msort.simps) simp
    also have "\<dots> = mset xs" by (simp flip: mset_append)
    finally show ?thesis .
  qed (simp add: msort.simps)
qed

lemma length_msort [simp]: "length (msort cmp xs) = length xs"
  by (metis mset_msort size_mset)

lemma simple_merge_spec:
  assumes "b + cnt1 + cnt2 \<le> length m" and "cnt1 + cnt2 \<le> length tmp"
  shows "\<exists>tmp'. length tmp' = length tmp \<and> CFSimpleMerge cmp m b cnt1 cnt2 tmp =
    Some (put m b (smerge cmp (slice m b cnt1) (slice m (b + cnt1) cnt2)), tmp')"
proof (cases "cnt1 = 0 \<or> cnt2 = 0")
  case True
  then have "smerge cmp (slice m b cnt1) (slice m (b + cnt1) cnt2) = slice m b (cnt1 + cnt2)"
    by (auto simp: smerge_def)
  then show ?thesis using True assms by (auto simp: CFSimpleMerge_def)
next
  case False
  let ?xs = "slice m b cnt1" and ?ys = "slice m (b + cnt1) cnt2"
  have ne: "?xs \<noteq> []" "?ys \<noteq> []" using False assms by (auto simp flip: length_0_conv)
  have lst: "last ?xs = m ! (b + (cnt1 - 1))" "hd ?ys = m ! (b + cnt1)"
    using False assms ne by (simp_all add: last_conv_nth hd_conv_nth nth_slice)
  have len: "length ?xs + length ?ys = cnt1 + cnt2" and lt: "b + cnt1 - Suc 0 < length m"
    using assms False by (simp, linarith)
  show ?thesis
  proof (cases "16 < cnt1 + cnt2 \<and> cmp (last ?xs) (hd ?ys) \<le> 0")
    case True
    then have "smerge cmp ?xs ?ys = slice m b (cnt1 + cnt2)"
      unfolding smerge_def len by (simp add: slice_append)
    then show ?thesis using True False assms lt unfolding lst by (simp add: CFSimpleMerge_def)
  next
    case F2: False
    then have "smerge cmp ?xs ?ys = merge cmp ?xs ?ys" unfolding smerge_def len using ne by auto
    moreover obtain tmp' where "length tmp' = length tmp"
      "merge_loop cmp m b cnt1 cnt2 tmp 0 0 cnt1 = Some (put m b (merge cmp ?xs ?ys), tmp')"
      using merge_loop_spec [of cnt1 cnt1 0 cnt2 0 b m tmp cmp] assms by auto
    ultimately show ?thesis using F2 False assms lt unfolding lst
      by (cases "16 < cnt1 + cnt2") (auto simp: CFSimpleMerge_def)
  qed
qed

lemma simple_merge_sort_spec:
  assumes "b + cnt \<le> length m" and "cnt \<le> length tmp"
  shows "\<exists>tmp'. length tmp' = length tmp \<and> CFSimpleMergeSort cmp m b cnt tmp =
    Some (put m b (msort cmp (slice m b cnt)), tmp')"
  using assms
proof (induction cnt arbitrary: m b tmp rule: less_induct)
  case (less cnt)
  note prems = less.prems
  consider (s) "cnt < 2" | (t) "cnt = 2" | (u) "cnt = 3" | (l) "3 < cnt" by linarith
  then show ?case
  proof cases
    case s
    with prems show ?thesis by (simp add: msort.simps CFSimpleMergeSort.simps)
  next
    case t
    with prems have "slice m b cnt = [m ! b, m ! Suc b]" by (simp add: numeral_2_eq_2 slice_Cons)
    moreover have "m[b := m ! Suc b, Suc b := m ! b] = put m b [m ! Suc b, m ! b]"
      using prems t by (intro nth_equalityI)
        (auto simp: put_def nth_append nth_Cons' nth_list_update intro!: arg_cong [where f = "(!) m"])
    moreover have "put m b [m ! b, m ! Suc b] = m" using put_slice [of b cnt m] prems calculation(1) by simp
    ultimately show ?thesis using t prems by (subst CFSimpleMergeSort.simps) (simp add: msort.simps)
  next
    case u
    with prems have "slice m b cnt = [m ! b, m ! Suc b, m ! Suc (Suc b)]"
      by (simp add: numeral_3_eq_3 slice_Cons)
    then show ?thesis using u prems
      by (subst CFSimpleMergeSort.simps) (simp add: msort.simps numeral_2_eq_2)
  next
    case l
    let ?h = "cnt div 2"
    let ?xs = "slice m b ?h" and ?ys = "slice m (b + ?h) (cnt - ?h)"
    have h: "?h + (cnt - ?h) = cnt" "?h < cnt" "cnt - ?h < cnt" using l by auto
    let ?m1 = "put m b (msort cmp ?xs)"
    have len: "length (msort cmp ?xs) = ?h" "length (msort cmp ?ys) = cnt - ?h" using prems h by simp_all
    obtain t1 where t1: "length t1 = length tmp" "CFSimpleMergeSort cmp m b ?h tmp = Some (?m1, t1)"
      using less.IH [of ?h b m tmp] prems h by auto
    have ys: "slice ?m1 (b + ?h) (cnt - ?h) = ?ys" using prems h len by (intro slice_put_other) auto
    let ?m2 = "put m b (msort cmp ?xs @ msort cmp ?ys)"
    have m2: "put ?m1 (b + ?h) (msort cmp ?ys) = ?m2" using prems h len by (intro put_put_after) auto
    obtain t2 where t2: "length t2 = length tmp"
      "CFSimpleMergeSort cmp ?m1 (b + ?h) (cnt - ?h) t1 = Some (?m2, t2)"
      using less.IH [of "cnt - ?h" "b + ?h" ?m1 t1] prems h len t1(1) by (auto simp: ys m2)
    have "slice ?m2 b (?h + (cnt - ?h)) = msort cmp ?xs @ msort cmp ?ys"
      using prems h len by (intro slice_put_same) auto
    then have sl: "slice ?m2 b ?h = msort cmp ?xs" "slice ?m2 (b + ?h) (cnt - ?h) = msort cmp ?ys"
      unfolding slice_append using prems len by (simp_all add: append_eq_append_conv)
    obtain t3 where t3: "length t3 = length tmp" "CFSimpleMerge cmp ?m2 b ?h (cnt - ?h) t2 =
        Some (put ?m2 b (smerge cmp (msort cmp ?xs) (msort cmp ?ys)), t3)"
      using simple_merge_spec [of b ?h "cnt - ?h" ?m2 t2 cmp] prems h len t2(1) by (auto simp: sl)
    have "take ?h (slice m b cnt) = ?xs" "drop ?h (slice m b cnt) = ?ys" "length (slice m b cnt) = cnt"
      using prems h by (simp_all add: take_slice drop_slice min_def)
    then have "msort cmp (slice m b cnt) = smerge cmp (msort cmp ?xs) (msort cmp ?ys)"
      using l by (subst msort.simps) simp
    moreover have "put ?m2 b (msort cmp (slice m b cnt)) = put m b (msort cmp (slice m b cnt))"
      using prems h by (intro put_put_same) auto
    ultimately show ?thesis using l t1(2) t2(2) t3 by (subst CFSimpleMergeSort.simps) simp
  qed
qed

subsection \<open>Comparators\<close>

lemma merge_induct [case_names left right both]:
  fixes cmp :: "'v \<Rightarrow> 'v \<Rightarrow> int"
  assumes "\<And>ys. P [] ys" and "\<And>x xs. P (x # xs) []"
    and "\<And>x xs y ys. (cmp x y \<le> 0 \<Longrightarrow> P xs (y # ys)) \<Longrightarrow>
           (\<not> cmp x y \<le> 0 \<Longrightarrow> P (x # xs) ys) \<Longrightarrow> P (x # xs) (y # ys)"
  shows "P xs ys"
proof -
  have "c = cmp \<Longrightarrow> P xs ys" for c
    by (induction c xs ys rule: merge.induct) (use assms in auto)
  then show ?thesis by simp
qed

text \<open>What a client promises of the comparator it passes: a total preorder.\<close>

locale compare_fn =
  fixes cmp :: "'v \<Rightarrow> 'v \<Rightarrow> int"
  assumes cmp_total: "cmp x y \<le> 0 \<or> cmp y x \<le> 0"
    and cmp_trans: "cmp x y \<le> 0 \<Longrightarrow> cmp y z \<le> 0 \<Longrightarrow> cmp x z \<le> 0"
begin

definition le :: "'v \<Rightarrow> 'v \<Rightarrow> bool" where
  "le x y \<longleftrightarrow> cmp x y \<le> 0"

definition same :: "'v \<Rightarrow> 'v \<Rightarrow> bool" where
  "same x y \<longleftrightarrow> le x y \<and> le y x"

lemma le_trans: "le x y \<Longrightarrow> le y z \<Longrightarrow> le x z"
  unfolding le_def by (rule cmp_trans)

lemma not_le: "\<not> le x y \<Longrightarrow> le y x"
  using cmp_total unfolding le_def by blast

lemma le_refl [simp]: "le x x"
  using cmp_total unfolding le_def by blast

lemma cmp_le: "cmp x y \<le> 0 \<longleftrightarrow> le x y" "0 < cmp x y \<longleftrightarrow> \<not> le x y"
  unfolding le_def by auto

lemma sorted_merge:
  "sorted_wrt le xs \<Longrightarrow> sorted_wrt le ys \<Longrightarrow> sorted_wrt le (merge cmp xs ys)"
proof (induction xs ys rule: merge_induct [of _ cmp])
  case (both x xs y ys)
  show ?case
  proof (cases "le x y")
    case True
    with both show ?thesis by (auto simp: cmp_le intro: le_trans)
  next
    case False
    then have "le y x" by (rule not_le)
    with False both show ?thesis by (auto simp: cmp_le intro: le_trans)
  qed
qed simp_all

lemma sorted_append_fast:
  assumes "sorted_wrt le xs" "sorted_wrt le ys" "xs \<noteq> []" "ys \<noteq> []" "le (last xs) (hd ys)"
  shows "sorted_wrt le (xs @ ys)"
proof -
  have "le x (last xs)" if "x \<in> set xs" for x
    using that assms(1,3) by (induction xs rule: rev_induct) (auto simp: sorted_wrt_append)
  moreover have "le (hd ys) y" if "y \<in> set ys" for y
    using that assms(2,4) by (cases ys) auto
  ultimately have "le x y" if "x \<in> set xs" "y \<in> set ys" for x y
    using that assms(5) le_trans by blast
  then show ?thesis using assms by (simp add: sorted_wrt_append)
qed

lemma sorted_smerge:
  assumes "sorted_wrt le xs" "sorted_wrt le ys"
  shows "sorted_wrt le (smerge cmp xs ys)"
  using assms sorted_append_fast [OF assms] sorted_merge [OF assms]
  by (cases "xs = []"; cases "ys = []") (simp_all add: smerge_def cmp_le)

lemma sort3_eq:
  "sort3 cmp x y z =
     (if le x y then if le y z then [x, y, z] else if le x z then [x, z, y] else [z, x, y]
      else if le x z then [y, x, z] else if le y z then [y, z, x] else [z, y, x])"
  by (simp add: sort3_def cmp_le)

lemma sorted_sort3: "sorted_wrt le (sort3 cmp x y z)"
  unfolding sort3_eq by (auto dest: not_le intro: le_trans)

lemma not_same: "\<not> le x y \<Longrightarrow> same a x \<Longrightarrow> \<not> same a y"
  unfolding same_def using le_trans by blast

lemma stable_sort3: "filter (same a) (sort3 cmp x y z) = filter (same a) [x, y, z]"
  unfolding sort3_eq by (auto dest: not_same)

lemma stable_merge:
  "sorted_wrt le xs \<Longrightarrow> filter (same a) (merge cmp xs ys) = filter (same a) xs @ filter (same a) ys"
proof (induction xs ys rule: merge_induct [of _ cmp])
  case (both x xs y ys)
  show ?case
  proof (cases "\<not> le x y \<and> same a y")
    case True
    have "\<not> same a z" if "z \<in> set (x # xs)" for z
    proof
      assume "same a z"
      then have "le z y" using True le_trans unfolding same_def by blast
      moreover have "le x z" using that both.prems by auto
      ultimately show False using True le_trans by blast
    qed
    then have "filter (same a) (x # xs) = []" by (simp add: filter_empty_conv)
    then show ?thesis using True both by (simp add: cmp_le)
  next
    case False
    then show ?thesis using both by (auto simp: cmp_le)
  qed
qed simp_all

lemma stable_smerge:
  "sorted_wrt le xs \<Longrightarrow> filter (same a) (smerge cmp xs ys) = filter (same a) xs @ filter (same a) ys"
  by (simp add: smerge_def stable_merge)

lemma msort_correct: "sorted_wrt le (msort cmp xs) \<and> filter (same a) (msort cmp xs) = filter (same a) xs"
proof (induction xs rule: length_induct)
  case (1 xs)
  consider (s) "length xs < 2" | (t) "length xs = 2" | (u) "length xs = 3" | (l) "3 < length xs" by linarith
  then show ?case
  proof cases
    case s
    then show ?thesis by (cases xs) (auto simp: msort.simps)
  next
    case t
    then obtain x y where "xs = [x, y]" using list_len2 by blast
    then show ?thesis by (auto simp: msort.simps cmp_le dest: not_le not_same)
  next
    case u
    then obtain x y z where "xs = [x, y, z]" using list_len3 by blast
    then show ?thesis by (simp add: msort.simps numeral_2_eq_2 sorted_sort3 stable_sort3 del: filter.simps)
  next
    case l
    let ?h = "length xs div 2"
    have IH: "sorted_wrt le (msort cmp (take ?h xs))" "sorted_wrt le (msort cmp (drop ?h xs))"
      "filter (same a) (msort cmp (take ?h xs)) = filter (same a) (take ?h xs)"
      "filter (same a) (msort cmp (drop ?h xs)) = filter (same a) (drop ?h xs)"
      using 1 l by simp_all
    have "msort cmp xs = smerge cmp (msort cmp (take ?h xs)) (msort cmp (drop ?h xs))"
      using l by (subst msort.simps) simp
    then show ?thesis using IH by (simp add: sorted_smerge stable_smerge flip: filter_append)
  qed
qed

lemmas sorted_msort = msort_correct [THEN conjunct1]
lemmas stable_msort = msort_correct [THEN conjunct2]

end

text \<open>A comparator whose two directions agree in sign, as \<^verbatim>\<open>CFComparatorFunction\<close> documents.\<close>

locale compare_sym = compare_fn +
  assumes cmp_sym: "cmp x y < 0 \<longleftrightarrow> 0 < cmp y x"
begin

lemma cmp_less: "cmp x y < 0 \<longleftrightarrow> \<not> le y x"
  using cmp_sym [of x y] unfolding le_def by auto

end

subsection \<open>Sorting through indexes\<close>

lemma map_merge:
  "map f (merge (\<lambda>a b. c (f a) (f b)) xs ys) = merge c (map f xs) (map f ys)"
  by (induction xs ys rule: merge_induct [of _ "\<lambda>a b. c (f a) (f b)"]) auto

lemma map_smerge:
  "map f (smerge (\<lambda>a b. c (f a) (f b)) xs ys) = smerge c (map f xs) (map f ys)"
  by (cases "xs = [] \<or> ys = []") (auto simp: smerge_def map_merge last_map hd_map)

lemma map_sort3:
  "map f (sort3 (\<lambda>a b. c (f a) (f b)) x y z) = sort3 c (f x) (f y) (f z)"
  by (simp add: sort3_def)

lemma map_msort: "map f (msort (\<lambda>a b. c (f a) (f b)) xs) = msort c (map f xs)"
proof (induction xs rule: length_induct)
  case (1 xs)
  consider (s) "length xs < 2" | (t) "length xs = 2" | (u) "length xs = 3" | (l) "3 < length xs" by linarith
  then show ?case
  proof cases
    case s
    then show ?thesis by (simp add: msort.simps)
  next
    case t
    then obtain x y where "xs = [x, y]" using list_len2 by blast
    then show ?thesis by (simp add: msort.simps)
  next
    case u
    then obtain x y z where "xs = [x, y, z]" using list_len3 by blast
    then show ?thesis by (simp add: msort.simps numeral_2_eq_2 map_sort3)
  next
    case l
    with 1 show ?thesis by (subst (1 2) msort.simps) (simp add: map_smerge take_map drop_map)
  qed
qed

lemma gather_map: "set is \<subseteq> {..<length m} \<Longrightarrow> gather m is = Some (map ((!) m) is)"
  by (induction "is") simp_all

lemma fill_chunks_spec:
  assumes "cnt \<le> length m"
  shows "fill_chunks (put m 0 [0..<min (n * sz) cnt]) cnt sz n k = Some (put m 0 [0..<min ((n + k) * sz) cnt])"
proof (induction k arbitrary: n)
  case 0
  show ?case by simp
next
  case (Suc k)
  let ?lo = "min (n * sz) cnt" and ?hi = "min (n * sz + sz) cnt"
  have step: "(if n * sz < ?hi then fill_range (put m 0 [0..<?lo]) (n * sz) ?hi
        else Some (put m 0 [0..<?lo])) = Some (put m 0 [0..<?hi])"
  proof (cases "n * sz < ?hi")
    case True
    then have lo: "?lo = n * sz" by simp
    have "[0..<?lo] @ [n * sz..<?hi] = [0..<?hi]"
      using True lo upt_add_eq_append [of 0 "n * sz" "?hi - n * sz"] by simp
    then have "put (put m 0 [0..<?lo]) (n * sz) [n * sz..<?hi] = put m 0 [0..<?hi]"
      using put_put_after [of "[0..<?lo]" "n * sz" 0 "[n * sz..<?hi]" m] True assms lo by simp
    with True assms lo show ?thesis by (simp add: fill_range_def)
  next
    case False
    then have "?lo = ?hi" by linarith
    then show ?thesis using False by (simp only: if_False)
  qed
  have "n * sz + sz = Suc n * sz" by simp
  then show ?case using step Suc.IH [of "Suc n"] by (simp add: Let_def add.commute)
qed

lemma sort_indexes_spec:
  assumes "cnt \<le> length buf" and "cnt \<le> (2 ^ 63 - 1) div 8"
  shows "CFSortIndexes buf cnt cmp = Some (put buf 0 (msort cmp [0..<cnt]))"
proof (cases "cnt < 1")
  case True
  then show ?thesis by (simp add: CFSortIndexes_def put_def msort.simps)
next
  case False
  let ?sz = "(cnt + 15) div 16 * 16 div 8"
  obtain k r where k: "(cnt + 15) div 16 = k" "cnt + 15 = k * 16 + r" "r < 16 \<or> 16 = (0::nat)"
    by (rule div_mod_split)
  have "?sz = 2 * k" unfolding k(1) by simp
  then have "cnt \<le> 8 * ?sz" using k(2,3) by linarith
  then have "min (8 * ?sz) cnt = cnt" by (rule min_absorb2)
  then have "fill_chunks buf cnt ?sz 0 8 = Some (put buf 0 [0..<cnt])"
    using fill_chunks_spec [OF assms(1), of 0 ?sz 8] by (simp add: put_def)
  then have fill: "(if cnt \<le> 65536 then fill_range buf 0 cnt else fill_chunks buf cnt ?sz 0 8) =
      Some (put buf 0 [0..<cnt])" using assms by (simp add: fill_range_def)
  have "slice (put buf 0 [0..<cnt]) 0 cnt = [0..<cnt]" by (intro slice_put_same) simp_all
  then obtain t where "CFSimpleMergeSort cmp (put buf 0 [0..<cnt]) 0 cnt (replicate cnt 0) =
      Some (put (put buf 0 [0..<cnt]) 0 (msort cmp [0..<cnt]), t)"
    using simple_merge_sort_spec [of 0 cnt "put buf 0 [0..<cnt]" "replicate cnt 0" cmp] assms by auto
  moreover have "put (put buf 0 [0..<cnt]) 0 (msort cmp [0..<cnt]) = put buf 0 (msort cmp [0..<cnt])"
    using assms by (intro put_put_same) simp_all
  ultimately show ?thesis using False assms(2) fill by (simp add: CFSortIndexes_def)
qed

lemma qsort_spec:
  assumes "cnt \<le> length xs" and "cnt \<le> (2 ^ 63 - 1) div 8"
  shows "CFQSortArray xs cnt cmp = Some (put xs 0 (msort cmp (take cnt xs)))"
proof (cases "cnt < 2")
  case True
  have "put xs 0 (take cnt xs) = xs" using put_slice [of 0 cnt xs] assms by (simp add: slice_def)
  moreover have "msort cmp (take cnt xs) = take cnt xs" using True assms by (subst msort.simps) simp
  ultimately show ?thesis using True by (simp add: CFQSortArray_def)
next
  case False
  let ?c = "\<lambda>a b. cmp (xs ! a) (xs ! b)"
  have "CFSortIndexes (replicate cnt 0) cnt ?c = Some (put (replicate cnt 0) 0 (msort ?c [0..<cnt]))"
    by (rule sort_indexes_spec) (simp, rule assms)
  also have "put (replicate cnt 0) 0 (msort ?c [0..<cnt]) = msort ?c [0..<cnt]"
    by (simp add: put_def)
  finally have idx: "CFSortIndexes (replicate cnt 0) cnt ?c = Some (msort ?c [0..<cnt])" .
  have "set (msort ?c [0..<cnt]) = set [0..<cnt]" by (rule mset_eq_setD) simp
  then have "gather xs (msort ?c [0..<cnt]) = Some (map ((!) xs) (msort ?c [0..<cnt]))"
    using assms by (intro gather_map) auto
  also have "map ((!) xs) (msort ?c [0..<cnt]) = msort cmp (map ((!) xs) [0..<cnt])"
    by (rule map_msort)
  also have "map ((!) xs) [0..<cnt] = take cnt xs"
    using assms by (intro nth_equalityI) simp_all
  finally show ?thesis using False assms idx by (simp add: CFQSortArray_def)
qed

lemma merge_sort_array_eq: "CFMergeSortArray xs cnt cmp = CFQSortArray xs cnt cmp"
  by (simp add: CFMergeSortArray_def CFQSortArray_def)

subsection \<open>Properties\<close>

text \<open>C37: \<^verbatim>\<open>CFQSortArray\<close> makes no access outside its buffers and, for a comparator that is a total
  preorder, leaves the first \<open>cnt\<close> cells sorted and stably permuted and the others untouched.\<close>

theorem qsort_array_correct:
  fixes cmp :: "'v \<Rightarrow> 'v \<Rightarrow> int"
  assumes "cnt \<le> length xs" and "cnt \<le> (2 ^ 63 - 1) div 8"
    and total: "\<And>x y. cmp x y \<le> 0 \<or> cmp y x \<le> 0"
    and trans: "\<And>x y z. cmp x y \<le> 0 \<Longrightarrow> cmp y z \<le> 0 \<Longrightarrow> cmp x z \<le> 0"
  shows "\<exists>ys. CFQSortArray xs cnt cmp = Some (ys @ drop cnt xs) \<and> mset ys = mset (take cnt xs) \<and>
    sorted_wrt (\<lambda>x y. cmp x y \<le> 0) ys \<and>
    (\<forall>a. filter (\<lambda>y. cmp a y \<le> 0 \<and> cmp y a \<le> 0) ys = filter (\<lambda>y. cmp a y \<le> 0 \<and> cmp y a \<le> 0) (take cnt xs))"
proof -
  have c: "compare_fn cmp" using total trans by (simp add: compare_fn_def)
  have "put xs 0 (msort cmp (take cnt xs)) = msort cmp (take cnt xs) @ drop cnt xs"
    using assms(1) by (simp add: put_def)
  moreover note compare_fn.sorted_msort [OF c, of "take cnt xs"] compare_fn.stable_msort [OF c, of _ "take cnt xs"]
  ultimately show ?thesis
    using qsort_spec [OF assms(1,2), of cmp]
    by (intro exI [of _ "msort cmp (take cnt xs)"])
      (simp add: compare_fn.le_def [OF c, abs_def] compare_fn.same_def [OF c, abs_def])
qed

lemma qsort_array_correct_witness:
  "\<exists>ys. CFQSortArray [30, 11, 20, 12, 5 :: int] 4 (\<lambda>x y. x div 10 - y div 10) = Some (ys @ drop 4 [30, 11, 20, 12, 5]) \<and>
    mset ys = mset (take 4 [30, 11, 20, 12, 5]) \<and> sorted_wrt (\<lambda>x y. x div 10 - y div 10 \<le> 0) ys \<and>
    (\<forall>a. filter (\<lambda>y. a div 10 - y div 10 \<le> 0 \<and> y div 10 - a div 10 \<le> 0) ys =
         filter (\<lambda>y. a div 10 - y div 10 \<le> 0 \<and> y div 10 - a div 10 \<le> 0) (take 4 [30, 11, 20, 12, 5]))"
  by (rule qsort_array_correct) auto

text \<open>for any comparator whatever, \<^verbatim>\<open>CFSimpleMergeSort\<close> permutes its run of the buffer in place and
  touches nothing outside it.\<close>

theorem merge_sort_permutes:
  assumes "b + cnt \<le> length m" and "cnt \<le> length tmp"
  shows "\<exists>ys tmp'. CFSimpleMergeSort cmp m b cnt tmp = Some (take b m @ ys @ drop (b + cnt) m, tmp') \<and>
    mset ys = mset (slice m b cnt)"
proof -
  obtain tmp' where "CFSimpleMergeSort cmp m b cnt tmp = Some (put m b (msort cmp (slice m b cnt)), tmp')"
    using simple_merge_sort_spec [OF assms] by blast
  then show ?thesis using assms
    by (intro exI [of _ "msort cmp (slice m b cnt)"] exI [of _ tmp']) (simp add: put_def)
qed

lemma merge_sort_permutes_witness:
  "\<exists>ys tmp'. CFSimpleMergeSort (\<lambda>x y. 1) [9, 4, 3, 2, 1, 8 :: nat] 1 4 [0, 0, 0, 0] =
      Some (take 1 [9, 4, 3, 2, 1, 8] @ ys @ drop (1 + 4) [9, 4, 3, 2, 1, 8], tmp') \<and>
    mset ys = mset (slice [9, 4, 3, 2, 1, 8] 1 4)"
  by (rule merge_sort_permutes) simp_all

end
