(* ===== verification/CFArrayValues.thy ===== *)
theory CFArrayValues
  imports CFArray CFSortFunctions
begin

text \<open>
  The operations of \<^verbatim>\<open>CFArray.c\<close> on top of \<^verbatim>\<open>_CFArrayReplaceValues\<close>: creation, copying, reading,
  searching, appending, inserting, exchanging, removing, sorting. A failed \<^verbatim>\<open>CFAssert\<close> is \<open>None\<close>,
  \<^verbatim>\<open>kCFNotFound\<close> is \<open>-1\<close>. The functions the source marks "implemented abstractly" (\<^verbatim>\<open>__CFZSort\<close>,
  \<^verbatim>\<open>CFArrayBSearchValues\<close>) use the array only through its public accessors; they are written over
  these accessors and proved in a locale that states what the accessors promise.
\<close>

subsection \<open>Creating and destroying\<close>

definition CFArrayInit :: "array_type \<Rightarrow> nat \<Rightarrow> callbacks option \<Rightarrow> 'v cfarray" where
  "CFArrayInit ty cap callBacks =
     \<lparr>a_type = ty,
      a_cbbits = (if CFArrayCallBacksMatchNull callBacks then HasNullCallBacks
                  else if CFArrayCallBacksMatchCFType callBacks then HasCFTypeCallBacks
                  else HasCustomCallBacks),
      a_finalized = False,
      a_count = 0,
      a_mutations = (case ty of Deque \<Rightarrow> 1 | Immutable \<Rightarrow> 0),
      a_store = None,
      a_inline = (case ty of Immutable \<Rightarrow> replicate cap None | Deque \<Rightarrow> []),
      a_custom = (case callBacks of Some c \<Rightarrow> c | None \<Rightarrow> kCFNullArrayCallBacks),
      a_trace = []\<rparr>"

definition CFArrayCreateTransfer :: "'v bucket list \<Rightarrow> 'v cfarray" where
  "CFArrayCreateTransfer values =
     \<lparr>a_type = Immutable, a_cbbits = HasCFTypeCallBacks, a_finalized = False, a_count = length values,
      a_mutations = 0, a_store = None, a_inline = values, a_custom = kCFTypeArrayCallBacks, a_trace = []\<rparr>"

definition CFArrayCreate0 :: "'v env \<Rightarrow> 'v bucket list \<Rightarrow> callbacks option \<Rightarrow> 'v cfarray option" where
  "CFArrayCreate0 E values callBacks =
     (let result = CFArrayInit Immutable (length values) callBacks;
          r = map_option (retain_fn E) (cb_retain (CFArrayGetCallBacks result)) in
      do { m \<leftarrow> blit (a_inline result) 0 (retain_values r values);
           Some (result\<lparr>a_inline := m, a_trace := a_trace result @ retain_events r values,
                        a_count := length values\<rparr>) })"

definition CFArrayCreateMutable0 :: "nat \<Rightarrow> callbacks option \<Rightarrow> 'v cfarray option" where
  "CFArrayCreateMutable0 cap callBacks =
     (if LONG_MAX div 8 < cap then None else Some (CFArrayInit Deque cap callBacks))"

definition CFArrayDeallocate :: "'v cfarray \<Rightarrow> 'v cfarray option" where
  "CFArrayDeallocate a = CFArrayReleaseValues a 0 (a_count a) True"

subsection \<open>Reading\<close>

definition CFArrayGetCount :: "'v cfarray \<Rightarrow> nat" where
  "CFArrayGetCount a = a_count a"

definition CFArrayGetValueAtIndex :: "'v cfarray \<Rightarrow> nat \<Rightarrow> 'v bucket option" where
  "CFArrayGetValueAtIndex a idx = (if idx < a_count a then CFArrayGetBucketAtIndex a idx else None)"

text \<open>\<^verbatim>\<open>_CFArrayCheckAndGetValueAtIndex\<close> returns \<^verbatim>\<open>(void *)(-1)\<close> out of bounds.\<close>

datatype 'v checked = Value "'v bucket" | MinusOne

definition CFArrayCheckAndGetValueAtIndex :: "'v cfarray \<Rightarrow> int \<Rightarrow> 'v checked option" where
  "CFArrayCheckAndGetValueAtIndex a idx =
     (if 0 \<le> idx \<and> idx < int (a_count a)
      then map_option Value (CFArrayGetBucketAtIndex a (nat idx)) else Some MinusOne)"

definition CFArrayGetValues :: "'v cfarray \<Rightarrow> nat \<Rightarrow> nat \<Rightarrow> 'v bucket list option" where
  "CFArrayGetValues a loc len =
     (if 0 < len then
        (case a_type a of
           Immutable \<Rightarrow> readn (a_inline a) loc len
         | Deque \<Rightarrow> do { d \<leftarrow> a_store a; readn (buckets d) (leftIdx d + loc) len })
      else Some [])"

text \<open>The comparison of a value with an item: the same pointer, or equal under the callback.\<close>

definition matches :: "'v env \<Rightarrow> 'v cfarray \<Rightarrow> 'v bucket \<Rightarrow> 'v bucket \<Rightarrow> bool" where
  "matches E a value item \<longleftrightarrow>
     value = item \<or> (case cb_equal (CFArrayGetCallBacks a) of None \<Rightarrow> False | Some f \<Rightarrow> equal_fn E f value item)"

fun count_loop :: "'v env \<Rightarrow> 'v cfarray \<Rightarrow> nat \<Rightarrow> 'v bucket \<Rightarrow> nat \<Rightarrow> nat \<Rightarrow> nat \<Rightarrow> nat option" where
  "count_loop E a loc value cnt idx 0 = Some cnt"
| "count_loop E a loc value cnt idx (Suc n) =
     do { item \<leftarrow> CFArrayGetValueAtIndex a (loc + idx);
          count_loop E a loc value (if matches E a value item then cnt + 1 else cnt) (idx + 1) n }"

definition CFArrayGetCountOfValue :: "'v env \<Rightarrow> 'v cfarray \<Rightarrow> nat \<Rightarrow> nat \<Rightarrow> 'v bucket \<Rightarrow> nat option" where
  "CFArrayGetCountOfValue E a loc len value = count_loop E a loc value 0 0 len"

fun contains_loop :: "'v env \<Rightarrow> 'v cfarray \<Rightarrow> nat \<Rightarrow> 'v bucket \<Rightarrow> nat \<Rightarrow> nat \<Rightarrow> bool option" where
  "contains_loop E a loc value idx 0 = Some False"
| "contains_loop E a loc value idx (Suc n) =
     do { item \<leftarrow> CFArrayGetValueAtIndex a (loc + idx);
          if matches E a value item then Some True else contains_loop E a loc value (idx + 1) n }"

definition CFArrayContainsValue :: "'v env \<Rightarrow> 'v cfarray \<Rightarrow> nat \<Rightarrow> nat \<Rightarrow> 'v bucket \<Rightarrow> bool option" where
  "CFArrayContainsValue E a loc len value = contains_loop E a loc value 0 len"

fun first_loop :: "'v env \<Rightarrow> 'v cfarray \<Rightarrow> nat \<Rightarrow> 'v bucket \<Rightarrow> nat \<Rightarrow> nat \<Rightarrow> int option" where
  "first_loop E a loc value idx 0 = Some (-1)"
| "first_loop E a loc value idx (Suc n) =
     do { item \<leftarrow> CFArrayGetValueAtIndex a (loc + idx);
          if matches E a value item then Some (int (idx + loc)) else first_loop E a loc value (idx + 1) n }"

definition CFArrayGetFirstIndexOfValue :: "'v env \<Rightarrow> 'v cfarray \<Rightarrow> nat \<Rightarrow> nat \<Rightarrow> 'v bucket \<Rightarrow> int option" where
  "CFArrayGetFirstIndexOfValue E a loc len value = first_loop E a loc value 0 len"

fun last_loop :: "'v env \<Rightarrow> 'v cfarray \<Rightarrow> nat \<Rightarrow> 'v bucket \<Rightarrow> nat \<Rightarrow> int option" where
  "last_loop E a loc value 0 = Some (-1)"
| "last_loop E a loc value (Suc idx) =
     do { item \<leftarrow> CFArrayGetValueAtIndex a (loc + idx);
          if matches E a value item then Some (int (idx + loc)) else last_loop E a loc value idx }"

definition CFArrayGetLastIndexOfValue :: "'v env \<Rightarrow> 'v cfarray \<Rightarrow> nat \<Rightarrow> nat \<Rightarrow> 'v bucket \<Rightarrow> int option" where
  "CFArrayGetLastIndexOfValue E a loc len value = last_loop E a loc value len"

text \<open>The applier is a function on the state behind its \<^verbatim>\<open>context\<close>; it does not mutate the array.\<close>

fun apply_loop :: "'v cfarray \<Rightarrow> nat \<Rightarrow> ('v bucket \<Rightarrow> 's \<Rightarrow> 's) \<Rightarrow> 's \<Rightarrow> nat \<Rightarrow> nat \<Rightarrow> 's option" where
  "apply_loop a loc applier ctx idx 0 = Some ctx"
| "apply_loop a loc applier ctx idx (Suc n) =
     do { item \<leftarrow> CFArrayGetValueAtIndex a (loc + idx); apply_loop a loc applier (applier item ctx) (idx + 1) n }"

definition CFArrayApplyFunction :: "'v cfarray \<Rightarrow> nat \<Rightarrow> nat \<Rightarrow> ('v bucket \<Rightarrow> 's \<Rightarrow> 's) \<Rightarrow> 's \<Rightarrow> 's option" where
  "CFArrayApplyFunction a loc len applier ctx = apply_loop a loc applier ctx 0 len"

fun equal_loop :: "'v env \<Rightarrow> fptr option \<Rightarrow> 'v cfarray \<Rightarrow> 'v cfarray \<Rightarrow> nat \<Rightarrow> nat \<Rightarrow> bool option" where
  "equal_loop E eq a1 a2 idx 0 = Some True"
| "equal_loop E eq a1 a2 idx (Suc n) =
     do { val1 \<leftarrow> CFArrayGetBucketAtIndex a1 idx;
          val2 \<leftarrow> CFArrayGetBucketAtIndex a2 idx;
          if val1 \<noteq> val2 then
            (case eq of None \<Rightarrow> Some False
             | Some f \<Rightarrow> if \<not> equal_fn E f val1 val2 then Some False else equal_loop E eq a1 a2 (idx + 1) n)
          else equal_loop E eq a1 a2 (idx + 1) n }"

text \<open>\<open>identical\<close> is the pointer comparison \<^verbatim>\<open>array1 == array2\<close>.\<close>

definition CFArrayEqual :: "'v env \<Rightarrow> bool \<Rightarrow> 'v cfarray \<Rightarrow> 'v cfarray \<Rightarrow> bool option" where
  "CFArrayEqual E identical a1 a2 =
     (if identical then Some True
      else if a_count a1 \<noteq> a_count a2 then Some False
      else if cb_equal (CFArrayGetCallBacks a1) \<noteq> cb_equal (CFArrayGetCallBacks a2) then Some False
      else if 0 = a_count a1 then Some True
      else equal_loop E (cb_equal (CFArrayGetCallBacks a1)) a1 a2 0 (a_count a1))"

definition CFArrayHash :: "'v cfarray \<Rightarrow> nat" where
  "CFArrayHash a = a_count a"

text \<open>\<^verbatim>\<open>_CFArrayFastEnumeration\<close>: \<open>fe_items\<close> is the offset of the bucket that \<^verbatim>\<open>itemsPtr\<close> points to.\<close>

datatype mutations_ptr = ConstMu | ArrayMutations

record fast_state =
  fe_atend :: bool
  fe_mutations :: "mutations_ptr option"
  fe_items :: nat

definition CFArrayFastEnumeration :: "'v cfarray \<Rightarrow> fast_state \<Rightarrow> (fast_state \<times> nat) option" where
  "CFArrayFastEnumeration a state =
     (if a_count a = 0 then Some (state, 0)
      else case a_type a of
        Immutable \<Rightarrow>
          (if \<not> fe_atend state then
             Some (state\<lparr>fe_atend := True, fe_mutations := Some ConstMu, fe_items := 0\<rparr>, a_count a)
           else Some (state, 0))
      | Deque \<Rightarrow>
          (if \<not> fe_atend state then
             do { d \<leftarrow> a_store a;
                  Some (state\<lparr>fe_atend := True, fe_mutations := Some ArrayMutations, fe_items := leftIdx d\<rparr>,
                        a_count a) }
           else Some (state, 0)))"

subsection \<open>Changing\<close>

definition CFArrayReplaceValues ::
    "'v env \<Rightarrow> 'v cfarray \<Rightarrow> nat \<Rightarrow> nat \<Rightarrow> 'v bucket list \<Rightarrow> 'v cfarray option" where
  "CFArrayReplaceValues E a loc len newValues =
     (if \<not> loc + len \<le> a_count a \<or> a_type a = Immutable then None
      else CFArrayReplaceValues_raw E a loc len newValues)"

definition CFArrayAppendValue :: "'v env \<Rightarrow> 'v cfarray \<Rightarrow> 'v bucket \<Rightarrow> 'v cfarray option" where
  "CFArrayAppendValue E a value =
     (if a_type a = Immutable then None else CFArrayReplaceValues_raw E a (a_count a) 0 [value])"

definition set_bucket :: "'v cfarray \<Rightarrow> nat \<Rightarrow> 'v bucket \<Rightarrow> 'v cfarray option" where
  "set_bucket a idx v =
     (case a_type a of
        Immutable \<Rightarrow> do { m \<leftarrow> poke (a_inline a) idx v; Some (a\<lparr>a_inline := m\<rparr>) }
      | Deque \<Rightarrow> do { d \<leftarrow> a_store a;
                     m \<leftarrow> poke (buckets d) (leftIdx d + idx) v;
                     Some (a\<lparr>a_store := Some (d\<lparr>buckets := m\<rparr>)\<rparr>) })"

definition CFArraySetValueAtIndex :: "'v env \<Rightarrow> 'v cfarray \<Rightarrow> nat \<Rightarrow> 'v bucket \<Rightarrow> 'v cfarray option" where
  "CFArraySetValueAtIndex E a idx value =
     (if a_type a = Immutable \<or> \<not> idx \<le> a_count a then None
      else if idx = a_count a then CFArrayReplaceValues_raw E a idx 0 [value]
      else do {
        let r = retainer E a;
        let value' = (case r of None \<Rightarrow> value | Some f \<Rightarrow> f value);
        old_value \<leftarrow> CFArrayGetBucketAtIndex a idx;
        a1 \<leftarrow> set_bucket a idx value';
        let released = (if cb_release (CFArrayGetCallBacks a) \<noteq> None \<and> \<not> a_finalized a
                        then [Released old_value] else []);
        Some (a1\<lparr>a_trace := a_trace a @ retain_events r [value] @ released,
                 a_mutations := a_mutations a + 1\<rparr>) })"

definition CFArrayInsertValueAtIndex :: "'v env \<Rightarrow> 'v cfarray \<Rightarrow> nat \<Rightarrow> 'v bucket \<Rightarrow> 'v cfarray option" where
  "CFArrayInsertValueAtIndex E a idx value =
     (if a_type a = Immutable \<or> \<not> idx \<le> a_count a then None
      else CFArrayReplaceValues_raw E a idx 0 [value])"

definition CFArrayExchangeValuesAtIndices :: "'v cfarray \<Rightarrow> nat \<Rightarrow> nat \<Rightarrow> 'v cfarray option" where
  "CFArrayExchangeValuesAtIndices a idx1 idx2 =
     (if \<not> idx1 < a_count a \<or> \<not> idx2 < a_count a \<or> a_type a = Immutable then None
      else do {
        tmp \<leftarrow> CFArrayGetBucketAtIndex a idx1;
        v2 \<leftarrow> CFArrayGetBucketAtIndex a idx2;
        a1 \<leftarrow> set_bucket a idx1 v2;
        a2 \<leftarrow> set_bucket a1 idx2 tmp;
        Some (a2\<lparr>a_mutations := a_mutations a2 + 1\<rparr>) })"

definition CFArrayRemoveValueAtIndex :: "'v env \<Rightarrow> 'v cfarray \<Rightarrow> nat \<Rightarrow> 'v cfarray option" where
  "CFArrayRemoveValueAtIndex E a idx =
     (if a_type a = Immutable \<or> \<not> idx < a_count a then None
      else CFArrayReplaceValues_raw E a idx 1 [])"

definition CFArrayRemoveAllValues :: "'v cfarray \<Rightarrow> 'v cfarray option" where
  "CFArrayRemoveAllValues a =
     (if a_type a = Immutable then None
      else do { a1 \<leftarrow> CFArrayReleaseValues a 0 (a_count a) True;
                Some (a1\<lparr>a_count := 0, a_mutations := a_mutations a1 + 1\<rparr>) })"

fun append_loop :: "'v env \<Rightarrow> 'v cfarray \<Rightarrow> 'v cfarray \<Rightarrow> nat \<Rightarrow> nat \<Rightarrow> 'v cfarray option" where
  "append_loop E a other idx 0 = Some a"
| "append_loop E a other idx (Suc n) =
     do { value \<leftarrow> CFArrayGetValueAtIndex other idx;
          a' \<leftarrow> CFArrayAppendValue E a value;
          append_loop E a' other (idx + 1) n }"

definition CFArrayAppendArray :: "'v env \<Rightarrow> 'v cfarray \<Rightarrow> 'v cfarray \<Rightarrow> nat \<Rightarrow> nat \<Rightarrow> 'v cfarray option" where
  "CFArrayAppendArray E a other loc len = append_loop E a other loc len"

fun copy_values :: "'v cfarray \<Rightarrow> nat \<Rightarrow> nat \<Rightarrow> 'v bucket list option" where
  "copy_values a idx 0 = Some []"
| "copy_values a idx (Suc n) =
     do { v \<leftarrow> CFArrayGetValueAtIndex a idx; vs \<leftarrow> copy_values a (idx + 1) n; Some (v # vs) }"

definition CFArrayCreateCopy0 :: "'v env \<Rightarrow> 'v cfarray \<Rightarrow> 'v cfarray option" where
  "CFArrayCreateCopy0 E a =
     (let result = CFArrayInit Immutable (CFArrayGetCount a) (Some (CFArrayGetCallBacks a));
          r = map_option (retain_fn E) (cb_retain (CFArrayGetCallBacks result)) in
      do { values \<leftarrow> copy_values a 0 (CFArrayGetCount a);
           m \<leftarrow> blit (a_inline result) 0 (retain_values r values);
           Some (result\<lparr>a_inline := m, a_trace := a_trace result @ retain_events r values,
                        a_count := CFArrayGetCount a\<rparr>) })"

definition CFArrayCreateMutableCopy0 :: "'v env \<Rightarrow> nat \<Rightarrow> 'v cfarray \<Rightarrow> 'v cfarray option" where
  "CFArrayCreateMutableCopy0 E cap a =
     do { let result = CFArrayInit Deque cap (Some (CFArrayGetCallBacks a));
          result' \<leftarrow> (if 0 = cap then CFArraySetCapacity result (CFArrayGetCount a) else Some result);
          append_loop E result' a 0 (CFArrayGetCount a) }"

subsection \<open>Searching and sorting through the accessors\<close>

text \<open>\<open>get\<close> and \<open>exch\<close> are \<^verbatim>\<open>CFArrayGetValueAtIndex\<close> and \<^verbatim>\<open>CFArrayExchangeValuesAtIndices\<close> on a state \<open>s\<close>.\<close>

fun zsort_pass :: "('s \<Rightarrow> nat \<Rightarrow> 'x option) \<Rightarrow> ('s \<Rightarrow> nat \<Rightarrow> nat \<Rightarrow> 's option) \<Rightarrow> ('x \<Rightarrow> 'x \<Rightarrow> int)
    \<Rightarrow> 's \<Rightarrow> nat \<Rightarrow> nat \<Rightarrow> 's option" where
  "zsort_pass get exch cmp s idx 0 = Some s"
| "zsort_pass get exch cmp s idx (Suc n) =
     do { a \<leftarrow> get s idx;
          b \<leftarrow> get s (idx + 1);
          s' \<leftarrow> (if cmp b a < 0 then exch s idx (idx + 1) else Some s);
          zsort_pass get exch cmp s' (idx + 1) n }"

fun zsort :: "('s \<Rightarrow> nat \<Rightarrow> 'x option) \<Rightarrow> ('s \<Rightarrow> nat \<Rightarrow> nat \<Rightarrow> 's option) \<Rightarrow> ('x \<Rightarrow> 'x \<Rightarrow> int)
    \<Rightarrow> 's \<Rightarrow> nat \<Rightarrow> nat \<Rightarrow> 's option" where
  "zsort get exch cmp s loc 0 = Some s"
| "zsort get exch cmp s loc (Suc n) =
     (if 1 < Suc n then do { s' \<leftarrow> zsort_pass get exch cmp s loc n; zsort get exch cmp s' loc n } else Some s)"

fun bsearch_loop :: "('s \<Rightarrow> nat \<Rightarrow> 'x option) \<Rightarrow> ('x \<Rightarrow> 'x \<Rightarrow> int) \<Rightarrow> 's \<Rightarrow> nat \<Rightarrow> 'x \<Rightarrow> int \<Rightarrow> nat \<Rightarrow> int option" where
  "bsearch_loop get cmp s loc value idx 0 = Some idx"
| "bsearch_loop get cmp s loc value idx (Suc lg) =
     do { p \<leftarrow> shl1 lg;
          item \<leftarrow> get s (nat (int loc + idx + int p));
          bsearch_loop get cmp s loc value (if cmp item value < 0 then idx + int p else idx) lg }"

definition bsearch :: "('s \<Rightarrow> nat \<Rightarrow> 'x option) \<Rightarrow> ('x \<Rightarrow> 'x \<Rightarrow> int) \<Rightarrow> 's \<Rightarrow> nat \<Rightarrow> nat \<Rightarrow> 'x \<Rightarrow> nat option" where
  "bsearch get cmp s loc len value =
     (if len = 0 then Some loc
      else do {
        item \<leftarrow> get s (loc + len - 1);
        if cmp item value < 0 then Some (loc + len)
        else do {
          item \<leftarrow> get s loc;
          if cmp value item < 0 then Some loc
          else do {
            let lg = flsl len - 1;
            p \<leftarrow> shl1 lg;
            item \<leftarrow> get s (loc + p - 1);
            idx \<leftarrow> bsearch_loop get cmp s loc value (if cmp item value < 0 then int len - int p else -1) lg;
            Some (nat (idx + 1 + int loc)) } } })"

definition CFArrayBSearchValues ::
    "'v cfarray \<Rightarrow> nat \<Rightarrow> nat \<Rightarrow> 'v bucket \<Rightarrow> ('v bucket \<Rightarrow> 'v bucket \<Rightarrow> int) \<Rightarrow> nat option" where
  "CFArrayBSearchValues a loc len value comparator = bsearch CFArrayGetValueAtIndex comparator a loc len value"

definition CFZSort :: "'v cfarray \<Rightarrow> nat \<Rightarrow> nat \<Rightarrow> ('v bucket \<Rightarrow> 'v bucket \<Rightarrow> int) \<Rightarrow> 'v cfarray option" where
  "CFZSort a loc len comparator =
     zsort CFArrayGetValueAtIndex CFArrayExchangeValuesAtIndices comparator a loc len"

definition CFArraySortValues ::
    "'v env \<Rightarrow> 'v cfarray \<Rightarrow> nat \<Rightarrow> nat \<Rightarrow> ('v bucket \<Rightarrow> 'v bucket \<Rightarrow> int) \<Rightarrow> 'v cfarray option" where
  "CFArraySortValues E a loc len comparator =
     (let immutable = (a_type a = Immutable);
          cb = CFArrayGetCallBacks a in
      if \<not> immutable \<and> (cb_retain cb \<noteq> None \<and> cb_release cb = None \<or> cb_retain cb = None \<and> cb_release cb \<noteq> None)
      then CFZSort a loc len comparator
      else if len < 2 then Some a
      else do { values \<leftarrow> CFArrayGetValues a loc len;
                sorted_values \<leftarrow> CFQSortArray values len comparator;
                if \<not> immutable then CFArrayReplaceValues E a loc len sorted_values else Some a })"

text \<open>\<^verbatim>\<open>_CFArraySortValues\<close>, the variant for the whole array.\<close>

definition CFArraySortAllValues ::
    "'v env \<Rightarrow> 'v cfarray \<Rightarrow> ('v bucket \<Rightarrow> 'v bucket \<Rightarrow> int) \<Rightarrow> 'v cfarray option" where
  "CFArraySortAllValues E a comparator =
     (if CFArrayGetCount a < 2 then Some a
      else do { values \<leftarrow> CFArrayGetValues a 0 (CFArrayGetCount a);
                sorted_values \<leftarrow> CFQSortArray values (CFArrayGetCount a) comparator;
                CFArrayReplaceValues E a 0 (CFArrayGetCount a) sorted_values })"

subsection \<open>The contract of the accessors\<close>

locale array_reader =
  fixes get :: "'s \<Rightarrow> nat \<Rightarrow> 'x option"
    and seq :: "'s \<Rightarrow> 'x list"
    and ok :: "'s \<Rightarrow> bool"
  assumes get_seq: "ok s \<Longrightarrow> i < length (seq s) \<Longrightarrow> get s i = Some (seq s ! i)"
begin

text \<open>Invariant of the binary search: the least index \<open>r\<close> where \<open>P\<close> fails is in \<open>(idx, idx + 2 ^ lg]\<close>.\<close>

lemma bsearch_loop_spec:
  assumes "ok s" and "lg \<le> 30" and "-1 \<le> idx" and "idx < int r" and "int r \<le> idx + 2 ^ lg"
    and "loc + r < length (seq s)" and "idx + 2 ^ lg \<le> int n" and "loc + n \<le> length (seq s)"
    and P: "\<And>i. i < n \<Longrightarrow> cmp (seq s ! (loc + i)) v < 0 \<longleftrightarrow> i < r"
  shows "bsearch_loop get cmp s loc v idx lg = Some (int r - 1)"
  using assms(2-5,7)
proof (induction lg arbitrary: idx)
  case 0
  then show ?case by simp
next
  case (Suc lg)
  define k where "k = nat (idx + 2 ^ lg)"
  have k: "int k = idx + 2 ^ lg" and "k < n"
    using Suc.prems one_le_power [of "2::int" lg] unfolding k_def by auto
  have "nat (int loc + idx + int (2 ^ lg)) = loc + k" using k by simp
  moreover have "get s (loc + k) = Some (seq s ! (loc + k))"
    using \<open>k < n\<close> assms(1,8) by (intro get_seq) auto
  moreover have "bsearch_loop get cmp s loc v (if k < r then idx + 2 ^ lg else idx) lg = Some (int r - 1)"
    using Suc.prems k by (intro Suc.IH) (auto split: if_splits)
  ultimately show ?case using Suc.prems P [OF \<open>k < n\<close>] by (cases "k < r") simp_all
qed

text \<open>On a run that the comparator splits at \<open>r\<close>, the search returns the split point.\<close>

lemma bsearch_spec:
  assumes ok: "ok s" and len: "loc + n \<le> length (seq s)" "n < 2 ^ 31" and r: "r \<le> n"
    and P: "\<And>i. i < n \<Longrightarrow> cmp (seq s ! (loc + i)) v < 0 \<longleftrightarrow> i < r"
    and first: "0 < n \<Longrightarrow> cmp v (seq s ! loc) < 0 \<Longrightarrow> r = 0"
  shows "bsearch get cmp s loc n v = Some (loc + r)"
proof (cases "n = 0")
  case True
  then show ?thesis using r by (simp add: bsearch_def)
next
  case False
  let ?lg = "flsl n - 1"
  have lg: "?lg \<le> 30" "2 ^ ?lg \<le> n" using flsl_le [OF len(2)] pow_flsl_le [of n] False by auto
  have "n < 2 ^ Suc ?lg" using less_pow_flsl [of n] False by (cases "flsl n") auto
  then have n2: "n < 2 * 2 ^ ?lg" by simp
  have get: "get s (loc + i) = Some (seq s ! (loc + i))" if "i < n" for i
    using that ok len by (intro get_seq) auto
  have l1: "loc + n - 1 = loc + (n - 1)" using False by simp
  consider (a) "r = n" | (b) "r < n" "cmp v (seq s ! loc) < 0" | (c) "r < n" "\<not> cmp v (seq s ! loc) < 0"
    using r by linarith
  then show ?thesis
  proof cases
    case a
    then show ?thesis using False get [of "n - 1"] P [of "n - 1"] unfolding bsearch_def l1 by simp
  next
    case b
    then have "r = 0" using first False by simp
    then show ?thesis
      using b False get [of "n - 1"] get [of 0] P [of "n - 1"] unfolding bsearch_def l1 by simp
  next
    case c
    define p where "p = (2::nat) ^ ?lg"
    have p: "p \<le> n" "n < 2 * p" "0 < p" "(2::int) ^ ?lg = int p" using lg(2) n2 by (simp_all add: p_def)
    let ?i0 = "if p - 1 < r then int n - int p else -1"
    have "bsearch_loop get cmp s loc v ?i0 ?lg = Some (int r - 1)"
    proof (rule bsearch_loop_spec [where n = n])
      show "ok s" "?lg \<le> 30" "loc + n \<le> length (seq s)" using ok lg(1) len(1) by auto
      show "cmp (seq s ! (loc + i)) v < 0 \<longleftrightarrow> i < r" if "i < n" for i using P that .
      show "-1 \<le> ?i0" "?i0 < int r" using p(1-3) by auto
      show "int r \<le> ?i0 + 2 ^ ?lg" "loc + r < length (seq s)" "?i0 + 2 ^ ?lg \<le> int n"
        unfolding p(4) using p(1-3) c(1) len(1) by auto
    qed
    moreover have "p - 1 < n" "shl1 ?lg = Some p" "loc + p - 1 = loc + (p - 1)"
      using p lg(1) by (auto simp: p_def)
    moreover have "\<not> n - 1 < r" "nat (int r + int loc) = loc + r" using c(1) by linarith+
    ultimately show ?thesis
      using c False get [of "n - 1"] get [of 0] get [of "p - 1"] P [of "n - 1"] P [of "p - 1"]
      unfolding bsearch_def l1 Let_def by simp
  qed
qed

end

text \<open>The list that \<open>zsort\<close> leaves: repeated passes that carry a greatest element to the end.\<close>

fun bubble :: "('x \<Rightarrow> 'x \<Rightarrow> int) \<Rightarrow> 'x list \<Rightarrow> 'x list" where
  "bubble cmp (x # y # ys) = (if cmp y x < 0 then y # bubble cmp (x # ys) else x # bubble cmp (y # ys))"
| "bubble cmp xs = xs"

lemma mset_bubble [simp]: "mset (bubble cmp xs) = mset xs"
  by (induction cmp xs rule: bubble.induct) simp_all

lemma length_bubble [simp]: "length (bubble cmp xs) = length xs"
  by (metis mset_bubble size_mset)

function bubble_sort :: "('x \<Rightarrow> 'x \<Rightarrow> int) \<Rightarrow> 'x list \<Rightarrow> 'x list" where
  "bubble_sort cmp xs =
     (if length xs < 2 then xs
      else bubble_sort cmp (butlast (bubble cmp xs)) @ [last (bubble cmp xs)])"
  by pat_completeness auto
termination
  by (relation "measure (\<lambda>(cmp, xs). length xs)") auto

declare bubble_sort.simps [simp del]

lemma mset_bubble_sort [simp]: "mset (bubble_sort cmp xs) = mset xs"
proof (induction cmp xs rule: bubble_sort.induct)
  case (1 cmp xs)
  show ?case
  proof (cases "length xs < 2")
    case True
    then show ?thesis by (simp add: bubble_sort.simps)
  next
    case False
    then have "bubble cmp xs \<noteq> []" by (metis length_bubble list.size(3) zero_less_numeral)
    then have "mset (butlast (bubble cmp xs)) + {#last (bubble cmp xs)#} = mset (bubble cmp xs)"
      by (metis append_butlast_last_id mset.simps mset_append add_mset_add_single union_commute
          empty_neutral(2) mset_zero_iff)
    then show ?thesis using False 1 by (subst bubble_sort.simps) simp
  qed
qed

context compare_sym
begin

lemma bubble_last: "x \<in> set xs \<Longrightarrow> le x (last (bubble cmp xs))"
proof (induction "length xs" arbitrary: x xs)
  case (Suc n)
  note IH = Suc.hyps(1)
  show ?case
  proof (cases xs rule: remdups_adj.cases)
    case step: (3 x1 y ys)
    have ne: "bubble cmp (z # ys) \<noteq> []" for z by (metis length_bubble length_0_conv neq_Nil_conv)
    show ?thesis
    proof (cases "cmp y x1 < 0")
      case True
      then have "le y x1" by (simp add: cmp_less not_le)
      moreover have "le z (last (bubble cmp (x1 # ys)))" if "z \<in> set (x1 # ys)" for z
        using IH [of "x1 # ys" z] Suc.hyps(2) that step by simp
      ultimately show ?thesis using True ne Suc.prems step by (auto intro: le_trans)
    next
      case False
      then have "le x1 y" by (simp add: cmp_less)
      moreover have "le z (last (bubble cmp (y # ys)))" if "z \<in> set (y # ys)" for z
        using IH [of "y # ys" z] Suc.hyps(2) that step by simp
      ultimately show ?thesis using False ne Suc.prems step by (auto intro: le_trans)
    qed
  qed (use Suc.prems in auto)
qed simp

lemma sorted_bubble_sort: "sorted_wrt le (bubble_sort cmp xs)"
proof (induction xs rule: length_induct)
  case (1 xs)
  show ?case
  proof (cases "length xs < 2")
    case True
    then show ?thesis by (cases xs) (auto simp: bubble_sort.simps)
  next
    case False
    let ?b = "bubble cmp xs"
    have "length (butlast ?b) < length xs" using False by simp
    then have "sorted_wrt le (bubble_sort cmp (butlast ?b))" using 1 by blast
    moreover have "set (bubble_sort cmp (butlast ?b)) = set (butlast ?b)" by (rule mset_eq_setD) simp
    moreover have "set ?b = set xs" by (rule mset_eq_setD) simp
    ultimately show ?thesis using False bubble_last [of _ xs]
      by (subst bubble_sort.simps) (auto simp: sorted_wrt_append dest!: in_set_butlastD)
  qed
qed

end

text \<open>Accessors that can also exchange two values.\<close>

locale array_writer = array_reader +
  fixes exch :: "'s \<Rightarrow> nat \<Rightarrow> nat \<Rightarrow> 's option"
  assumes exch_seq: "ok s \<Longrightarrow> i < length (seq s) \<Longrightarrow> j < length (seq s) \<Longrightarrow>
    \<exists>s'. exch s i j = Some s' \<and> ok s' \<and> seq s' = (seq s)[i := seq s ! j, j := seq s ! i]"
begin

lemma zsort_pass_spec:
  "ok s \<Longrightarrow> seq s = pre @ xs @ post \<Longrightarrow> length xs = Suc n \<Longrightarrow>
   \<exists>s'. zsort_pass get exch cmp s (length pre) n = Some s' \<and> ok s' \<and> seq s' = pre @ bubble cmp xs @ post"
proof (induction n arbitrary: s pre xs)
  case 0
  then obtain x where "xs = [x]" by (auto simp: length_Suc_conv)
  with 0 show ?case by simp
next
  case (Suc n)
  then obtain x y ys where xs: "xs = x # y # ys" by (metis length_Suc_conv)
  let ?i = "length pre"
  have g: "get s ?i = Some x" "get s (?i + 1) = Some y"
    using Suc.prems get_seq [of s ?i] get_seq [of s "?i + 1"] by (simp_all add: xs nth_append)
  show ?case
  proof (cases "cmp y x < 0")
    case True
    obtain s1 where s1: "exch s ?i (?i + 1) = Some s1" "ok s1" "seq s1 = (pre @ [y]) @ (x # ys) @ post"
      using exch_seq [of s ?i "?i + 1"] Suc.prems by (auto simp: xs nth_append list_update_append)
    from Suc.IH [OF s1(2,3)] Suc.prems xs show ?thesis using True g s1 by auto
  next
    case False
    have "seq s = (pre @ [x]) @ (y # ys) @ post" using Suc.prems xs by simp
    from Suc.IH [OF Suc.prems(1) this] Suc.prems xs show ?thesis using False g by auto
  qed
qed

lemma zsort_spec:
  "ok s \<Longrightarrow> seq s = pre @ xs @ post \<Longrightarrow> length xs = n \<Longrightarrow>
   \<exists>s'. zsort get exch cmp s (length pre) n = Some s' \<and> ok s' \<and> seq s' = pre @ bubble_sort cmp xs @ post"
proof (induction n arbitrary: s xs post)
  case 0
  then show ?case by (simp add: bubble_sort.simps)
next
  case (Suc n)
  show ?case
  proof (cases n)
    case 0
    then show ?thesis using Suc.prems by (auto simp: bubble_sort.simps)
  next
    case (Suc k)
    let ?b = "bubble cmp xs"
    obtain s1 where s1: "zsort_pass get exch cmp s (length pre) n = Some s1" "ok s1" "seq s1 = pre @ ?b @ post"
      using zsort_pass_spec [OF Suc.prems, of cmp] by blast
    have "?b \<noteq> []" using Suc.prems(3) by (metis length_bubble list.size(3) nat.distinct(1))
    then have "seq s1 = pre @ butlast ?b @ (last ?b # post)" using s1(3) by simp
    from Suc.IH [OF s1(2) this] Suc.prems(3) obtain s2 where
      s2: "zsort get exch cmp s1 (length pre) n = Some s2" "ok s2"
        "seq s2 = pre @ bubble_sort cmp (butlast ?b) @ (last ?b # post)" by auto
    moreover have "bubble_sort cmp xs = bubble_sort cmp (butlast ?b) @ [last ?b]"
      using Suc.prems(3) Suc by (subst bubble_sort.simps) simp
    ultimately show ?thesis using s1 Suc by auto
  qed
qed

end

subsection \<open>The accessors of a deque\<close>

text \<open>\<open>kept a b\<close>: \<open>b\<close> is a well-formed deque with the header, the count and the callback trace of \<open>a\<close>.\<close>

definition kept :: "'v cfarray \<Rightarrow> 'v cfarray \<Rightarrow> bool" where
  "kept a b \<longleftrightarrow> wf b \<and> a_type b = Deque \<and> same_header a b \<and> a_count b = a_count a \<and>
     a_trace b = a_trace a \<and> (cap_ok a \<longrightarrow> cap_ok b)"

lemma kept_refl: "wf a \<Longrightarrow> a_type a = Deque \<Longrightarrow> kept a a"
  by (simp add: kept_def same_header_def)

lemma get_value: "wf a \<Longrightarrow> i < a_count a \<Longrightarrow> CFArrayGetValueAtIndex a i = Some (contents a ! i)"
  by (simp add: CFArrayGetValueAtIndex_def bucket_contents)

lemma set_bucket_spec:
  assumes "wf a" "a_type a = Deque" "idx < a_count a"
  shows "\<exists>d'. set_bucket a idx v = Some (a\<lparr>a_store := Some d'\<rparr>) \<and> wf (a\<lparr>a_store := Some d'\<rparr>) \<and>
           contents (a\<lparr>a_store := Some d'\<rparr>) = (contents a)[idx := v] \<and>
           cap_ok (a\<lparr>a_store := Some d'\<rparr>) = cap_ok a"
proof -
  from assms obtain d where d: "a_store a = Some d" "length (buckets d) = capacity d"
      "leftIdx d + a_count a \<le> capacity d"
    by (auto simp: wf_def split: option.splits)
  then show ?thesis using assms
    by (intro exI [of _ "d\<lparr>buckets := (buckets d)[leftIdx d + idx := v]\<rparr>"])
      (simp add: set_bucket_def wf_def contents_def slice_list_update_inside cap_ok_def)
qed

lemma exchange_spec:
  assumes "wf a" "a_type a = Deque" "i < a_count a" "j < a_count a"
  shows "\<exists>a'. CFArrayExchangeValuesAtIndices a i j = Some a' \<and> kept a a' \<and>
           contents a' = (contents a)[i := contents a ! j, j := contents a ! i] \<and>
           a_mutations a' = a_mutations a + 1"
proof -
  obtain d1 where d1: "set_bucket a i (contents a ! j) = Some (a\<lparr>a_store := Some d1\<rparr>)"
    "wf (a\<lparr>a_store := Some d1\<rparr>)" "contents (a\<lparr>a_store := Some d1\<rparr>) = (contents a)[i := contents a ! j]"
    "cap_ok (a\<lparr>a_store := Some d1\<rparr>) = cap_ok a"
    using set_bucket_spec [OF assms(1,2,3)] by blast
  let ?a1 = "a\<lparr>a_store := Some d1\<rparr>"
  obtain d2 where d2: "set_bucket ?a1 j (contents a ! i) = Some (?a1\<lparr>a_store := Some d2\<rparr>)"
    "wf (?a1\<lparr>a_store := Some d2\<rparr>)" "contents (?a1\<lparr>a_store := Some d2\<rparr>) = (contents ?a1)[j := contents a ! i]"
    "cap_ok (?a1\<lparr>a_store := Some d2\<rparr>) = cap_ok ?a1"
    using set_bucket_spec [of ?a1 j "contents a ! i"] assms d1(2) by auto
  have m: "contents (b\<lparr>a_mutations := k\<rparr>) = contents b" "wf (b\<lparr>a_mutations := k\<rparr>) = wf b"
    "cap_ok (b\<lparr>a_mutations := k\<rparr>) = cap_ok b" for b :: "'a cfarray" and k
    by (simp_all add: contents_def wf_def cap_ok_def split: array_type.split option.split)
  show ?thesis
    using assms d1 d2 by (simp add: CFArrayExchangeValuesAtIndices_def bucket_contents kept_def same_header_def m)
qed

lemma get_kept: "kept a b \<Longrightarrow> i < length (contents b) \<Longrightarrow> CFArrayGetValueAtIndex b i = Some (contents b ! i)"
  by (simp add: kept_def get_value)

lemma exchange_kept:
  "kept a b \<Longrightarrow> i < length (contents b) \<Longrightarrow> j < length (contents b) \<Longrightarrow>
   \<exists>b'. CFArrayExchangeValuesAtIndices b i j = Some b' \<and> kept a b' \<and>
        contents b' = (contents b)[i := contents b ! j, j := contents b ! i]"
  using exchange_spec [of b i j] by (fastforce simp: kept_def same_header_def)

interpretation readable: array_reader CFArrayGetValueAtIndex contents wf
  by unfold_locales (simp add: get_value)

interpretation deque: array_writer CFArrayGetValueAtIndex contents "kept a" CFArrayExchangeValuesAtIndices for a
  by unfold_locales (fact get_kept, fact exchange_kept)

subsection \<open>The list machine the operations implement\<close>

datatype 'v array_op =
    Append "'v bucket" | Insert nat "'v bucket" | SetAt nat "'v bucket" | Remove nat
  | Exchange nat nat | RemoveAll | Replace nat nat "'v bucket list"

fun apply_op :: "'v env \<Rightarrow> 'v cfarray \<Rightarrow> 'v array_op \<Rightarrow> 'v cfarray option" where
  "apply_op E a (Append v) = CFArrayAppendValue E a v"
| "apply_op E a (Insert i v) = CFArrayInsertValueAtIndex E a i v"
| "apply_op E a (SetAt i v) = CFArraySetValueAtIndex E a i v"
| "apply_op E a (Remove i) = CFArrayRemoveValueAtIndex E a i"
| "apply_op E a (Exchange i j) = CFArrayExchangeValuesAtIndices a i j"
| "apply_op E a RemoveAll = CFArrayRemoveAllValues a"
| "apply_op E a (Replace i n vs) = CFArrayReplaceValues E a i n vs"

text \<open>The operation on a list, the values it takes in and the values it drops; \<open>r\<close> is the retain callback.\<close>

fun list_op :: "('v bucket \<Rightarrow> 'v bucket) \<Rightarrow> 'v array_op \<Rightarrow> 'v bucket list \<Rightarrow> 'v bucket list option" where
  "list_op r (Append v) xs = Some (xs @ [r v])"
| "list_op r (Insert i v) xs = (if i \<le> length xs then Some (take i xs @ [r v] @ drop i xs) else None)"
| "list_op r (SetAt i v) xs =
     (if i < length xs then Some (xs[i := r v]) else if i = length xs then Some (xs @ [r v]) else None)"
| "list_op r (Remove i) xs = (if i < length xs then Some (take i xs @ drop (Suc i) xs) else None)"
| "list_op r (Exchange i j) xs =
     (if i < length xs \<and> j < length xs then Some (xs[i := xs ! j, j := xs ! i]) else None)"
| "list_op r RemoveAll xs = Some []"
| "list_op r (Replace i n vs) xs =
     (if i + n \<le> length xs then Some (take i xs @ map r vs @ drop (i + n) xs) else None)"

fun op_new :: "'v array_op \<Rightarrow> 'v bucket list" where
  "op_new (Append v) = [v]"
| "op_new (Insert i v) = [v]"
| "op_new (SetAt i v) = [v]"
| "op_new (Replace i n vs) = vs"
| "op_new _ = []"

fun op_dead :: "'v array_op \<Rightarrow> 'v bucket list \<Rightarrow> 'v bucket list" where
  "op_dead (SetAt i v) xs = (if i < length xs then [xs ! i] else [])"
| "op_dead (Remove i) xs = [xs ! i]"
| "op_dead RemoveAll xs = xs"
| "op_dead (Replace i n vs) xs = slice xs i n"
| "op_dead _ xs = []"

definition ret :: "'v env \<Rightarrow> 'v cfarray \<Rightarrow> 'v bucket \<Rightarrow> 'v bucket" where
  "ret E a v = (case retainer E a of None \<Rightarrow> v | Some f \<Rightarrow> f v)"

definition dead_events :: "'v cfarray \<Rightarrow> 'v bucket list \<Rightarrow> 'v cb_event list" where
  "dead_events a vs =
     (if cb_release (CFArrayGetCallBacks a) \<noteq> None \<and> \<not> a_finalized a then map Released vs else [])"

definition becomes :: "'v cfarray \<Rightarrow> 'v bucket list \<Rightarrow> 'v cb_event list \<Rightarrow> 'v cfarray option \<Rightarrow> bool" where
  "becomes a xs ev result \<longleftrightarrow>
     (\<exists>a'. result = Some a' \<and> wf a' \<and> same_header a a' \<and> contents a' = xs \<and>
           a_trace a' = a_trace a @ ev \<and> a_mutations a' = a_mutations a + 1 \<and> (cap_ok a \<longrightarrow> cap_ok a'))"

lemma retain_values_ret: "retain_values (retainer E a) vs = map (ret E a) vs"
  by (cases "retainer E a") (auto simp: ret_def [abs_def])

lemma release_dead: "release_events a loc n = dead_events a (slice (contents a) loc n)"
  by (simp add: release_events_def dead_events_def)

lemma dead_events_Nil [simp]: "dead_events a [] = []"
  by (simp add: dead_events_def)

lemma retain_events_Nil [simp]: "retain_events r [] = []"
  by (simp add: retain_events_def)

lemma raw_becomes:
  assumes "wf a" "a_type a = Deque" "i + n \<le> a_count a" "room a (a_count a + length vs - n)"
  shows "becomes a (take i (contents a) @ map (ret E a) vs @ drop (i + n) (contents a))
           (retain_events (retainer E a) vs @ dead_events a (slice (contents a) i n))
           (CFArrayReplaceValues_raw E a i n vs)"
  using replace_values_spec [OF assms, of E]
  by (auto simp: becomes_def replaced_def retain_values_ret release_dead)

lemma release_all:
  "a_type a = Deque \<Longrightarrow> CFArrayReleaseValues a 0 (a_count a) True =
     map_option (\<lambda>b. b\<lparr>a_count := 0, a_store := None\<rparr>) (CFArrayReleaseValues a 0 (a_count a) False)"
  by (auto simp: CFArrayReleaseValues_def Let_def split: option.splits bind_splits)

text \<open>Releasing everything gives the block back and releases the values in order.\<close>

lemma release_all_spec:
  assumes "wf a" "a_type a = Deque"
  shows "CFArrayReleaseValues a 0 (a_count a) True =
    Some (a\<lparr>a_trace := a_trace a @ dead_events a (contents a), a_count := 0, a_store := None\<rparr>)"
proof (cases "a_store a")
  case None
  moreover have "a = a\<lparr>a_count := 0, a_store := None\<rparr>" using assms None by (cases a) (simp add: wf_def)
  ultimately show ?thesis using assms
    by (simp add: CFArrayReleaseValues_def contents_def)
next
  case (Some d)
  have "slice (contents a) 0 (a_count a) = contents a" using assms by (simp add: slice_all)
  moreover obtain m where "CFArrayReleaseValues a 0 (a_count a) False =
      Some (a\<lparr>a_store := Some (d\<lparr>buckets := m\<rparr>), a_trace := a_trace a @ release_events a 0 (a_count a)\<rparr>)"
    using release_values_spec [OF assms Some, of 0 "a_count a"] by auto
  ultimately show ?thesis using assms by (simp add: release_all release_dead)
qed

lemma remove_all_becomes:
  assumes "wf a" "a_type a = Deque"
  shows "becomes a [] (dead_events a (contents a)) (CFArrayRemoveAllValues a)"
  using assms by (simp add: becomes_def CFArrayRemoveAllValues_def release_all_spec same_header_def wf_def contents_def cap_ok_def)

lemma set_becomes:
  assumes "wf a" "a_type a = Deque" "i < a_count a"
  shows "becomes a ((contents a)[i := ret E a v])
           (retain_events (retainer E a) [v] @ dead_events a [contents a ! i])
           (CFArraySetValueAtIndex E a i v)"
proof -
  obtain d' where d': "set_bucket a i (ret E a v) = Some (a\<lparr>a_store := Some d'\<rparr>)"
      "wf (a\<lparr>a_store := Some d'\<rparr>)" "contents (a\<lparr>a_store := Some d'\<rparr>) = (contents a)[i := ret E a v]"
      "cap_ok (a\<lparr>a_store := Some d'\<rparr>) = cap_ok a"
    using set_bucket_spec [OF assms] by blast
  then show ?thesis using assms
    by (simp add: becomes_def CFArraySetValueAtIndex_def bucket_contents Let_def ret_def [symmetric]
        dead_events_def same_header_def cap_ok_def)
qed

lemma op_becomes:
  assumes a: "wf a" "a_type a = Deque" and op: "list_op (ret E a) op (contents a) = Some xs"
    and room: "room a (length xs)"
  shows "becomes a xs (retain_events (retainer E a) (op_new op) @ dead_events a (op_dead op (contents a)))
           (apply_op E a op)"
proof (cases op)
  case (Append v)
  then show ?thesis using op room raw_becomes [OF a, of "a_count a" 0 "[v]" E] a
    by (auto simp: CFArrayAppendValue_def)
next
  case (Insert i v)
  then show ?thesis using op room raw_becomes [OF a, of i 0 "[v]" E] a
    by (auto simp: CFArrayInsertValueAtIndex_def split: if_splits)
next
  case (SetAt i v)
  show ?thesis
  proof (cases "i < a_count a")
    case True
    then show ?thesis using SetAt op set_becomes [OF a True] a by auto
  next
    case False
    then show ?thesis using SetAt op room raw_becomes [OF a, of "a_count a" 0 "[v]" E] a
      by (auto simp: CFArraySetValueAtIndex_def split: if_splits)
  qed
next
  case (Remove i)
  then show ?thesis using op room raw_becomes [OF a, of i 1 "[]" E] a
    by (auto simp: CFArrayRemoveValueAtIndex_def slice_Cons min_def split: if_splits)
next
  case (Exchange i j)
  then show ?thesis using op exchange_spec [OF a, of i j] a
    by (auto simp: becomes_def kept_def split: if_splits)
next
  case RemoveAll
  then show ?thesis using op remove_all_becomes [OF a] by simp
next
  case (Replace i n vs)
  then show ?thesis using op room raw_becomes [OF a, of i n vs E] a
    by (auto simp: CFArrayReplaceValues_def add.commute split: if_splits)
qed

lemma op_fails:
  assumes "wf a" "a_type a = Deque" "list_op (ret E a) op (contents a) = None"
  shows "apply_op E a op = None"
  using assms
  by (cases op) (auto simp: CFArrayInsertValueAtIndex_def CFArraySetValueAtIndex_def CFArrayRemoveValueAtIndex_def
      CFArrayExchangeValuesAtIndices_def CFArrayReplaceValues_def split: if_splits)

end
