(* ===== verification/CFArrayTheorems.thy ===== *)
theory CFArrayTheorems
  imports CFArrayValues
begin

text \<open>
  What the operations of \<^verbatim>\<open>CFArray.c\<close> guarantee: the readers against the list the array stands for,
  ownership of the retained values over whole sessions of operations, and the properties of the
  component.
\<close>

subsection \<open>The readers\<close>

lemma get_values_spec:
  "wf a \<Longrightarrow> loc + n \<le> a_count a \<Longrightarrow> CFArrayGetValues a loc n = Some (slice (contents a) loc n)"
  by (auto simp: CFArrayGetValues_def wf_def contents_def slice_def take_drop min_def add.commute add.left_commute
      split: array_type.splits option.splits)

lemma count_loop_spec:
  "wf a \<Longrightarrow> loc + idx + n \<le> a_count a \<Longrightarrow> count_loop E a loc v k idx n =
     Some (k + length (filter (matches E a v) (slice (contents a) (loc + idx) n)))"
  by (induction n arbitrary: k idx) (simp_all add: get_value slice_Cons)

lemma contains_loop_spec:
  "wf a \<Longrightarrow> loc + idx + n \<le> a_count a \<Longrightarrow> contains_loop E a loc v idx n =
     Some (\<exists>x \<in> set (slice (contents a) (loc + idx) n). matches E a v x)"
  by (induction n arbitrary: idx) (simp_all add: get_value slice_Cons)

lemma apply_loop_spec:
  "wf a \<Longrightarrow> loc + idx + n \<le> a_count a \<Longrightarrow>
   apply_loop a loc f c idx n = Some (fold f (slice (contents a) (loc + idx) n) c)"
  by (induction n arbitrary: c idx) (simp_all add: get_value slice_Cons)

text \<open>\<open>is_first\<close> and \<open>is_last\<close>: the answers a search for the indices satisfying \<open>P\<close> may give.\<close>

definition is_first :: "(nat \<Rightarrow> bool) \<Rightarrow> nat \<Rightarrow> nat \<Rightarrow> int \<Rightarrow> bool" where
  "is_first P lo hi r \<longleftrightarrow>
     (if \<exists>i. lo \<le> i \<and> i < hi \<and> P i
      then \<exists>i. r = int i \<and> lo \<le> i \<and> i < hi \<and> P i \<and> (\<forall>j. lo \<le> j \<longrightarrow> j < i \<longrightarrow> \<not> P j) else r = -1)"

definition is_last :: "(nat \<Rightarrow> bool) \<Rightarrow> nat \<Rightarrow> nat \<Rightarrow> int \<Rightarrow> bool" where
  "is_last P lo hi r \<longleftrightarrow>
     (if \<exists>i. lo \<le> i \<and> i < hi \<and> P i
      then \<exists>i. r = int i \<and> lo \<le> i \<and> i < hi \<and> P i \<and> (\<forall>j. i < j \<longrightarrow> j < hi \<longrightarrow> \<not> P j) else r = -1)"

lemma is_first_skip: "\<not> P lo \<Longrightarrow> is_first P (Suc lo) hi r \<Longrightarrow> is_first P lo hi r"
  unfolding is_first_def by (smt (verit) Suc_leD Suc_leI le_neq_implies_less not_less_eq_eq)

lemma is_last_skip: "\<not> P hi \<Longrightarrow> is_last P lo hi r \<Longrightarrow> is_last P lo (Suc hi) r"
  unfolding is_last_def by (smt (verit) less_Suc_eq)

lemma is_first_here: "P lo \<Longrightarrow> lo < hi \<Longrightarrow> is_first P lo hi (int lo)"
  unfolding is_first_def by auto

lemma is_last_here: "P hi \<Longrightarrow> lo \<le> hi \<Longrightarrow> is_last P lo (Suc hi) (int hi)"
  unfolding is_last_def by auto

lemma first_loop_spec:
  "wf a \<Longrightarrow> loc + idx + n \<le> a_count a \<Longrightarrow> \<exists>r. first_loop E a loc v idx n = Some r \<and>
     is_first (\<lambda>i. matches E a v (contents a ! i)) (loc + idx) (loc + idx + n) r"
proof (induction n arbitrary: idx)
  case 0
  then show ?case by (simp add: is_first_def)
next
  case (Suc n)
  show ?case
  proof (cases "matches E a v (contents a ! (loc + idx))")
    case True
    with is_first_here [of "\<lambda>i. matches E a v (contents a ! i)" "loc + idx" "loc + idx + Suc n"]
    show ?thesis using Suc.prems by (simp add: get_value add.commute)
  next
    case False
    then show ?thesis using Suc.prems Suc.IH [of "Suc idx"] by (auto simp: get_value intro: is_first_skip)
  qed
qed

lemma last_loop_spec:
  "wf a \<Longrightarrow> loc + n \<le> a_count a \<Longrightarrow> \<exists>r. last_loop E a loc v n = Some r \<and>
     is_last (\<lambda>i. matches E a v (contents a ! i)) loc (loc + n) r"
proof (induction n)
  case 0
  then show ?case by (simp add: is_last_def)
next
  case (Suc n)
  show ?case
  proof (cases "matches E a v (contents a ! (loc + n))")
    case True
    with is_last_here [of "\<lambda>i. matches E a v (contents a ! i)" "loc + n" loc]
    show ?thesis using Suc.prems by (simp add: get_value add.commute)
  next
    case False
    then show ?thesis using Suc by (auto simp: get_value intro: is_last_skip)
  qed
qed

definition item_eq :: "'v env \<Rightarrow> fptr option \<Rightarrow> 'v bucket \<Rightarrow> 'v bucket \<Rightarrow> bool" where
  "item_eq E eq x y \<longleftrightarrow> x = y \<or> (case eq of None \<Rightarrow> False | Some f \<Rightarrow> equal_fn E f x y)"

lemma equal_loop_spec:
  "wf a \<Longrightarrow> wf b \<Longrightarrow> idx + n \<le> a_count a \<Longrightarrow> idx + n \<le> a_count b \<Longrightarrow>
   equal_loop E eq a b idx n =
     Some (list_all2 (item_eq E eq) (slice (contents a) idx n) (slice (contents b) idx n))"
proof (induction n arbitrary: idx)
  case 0
  then show ?case by simp
next
  case (Suc n)
  have "CFArrayGetBucketAtIndex a idx = Some (contents a ! idx)"
    "CFArrayGetBucketAtIndex b idx = Some (contents b ! idx)"
    using Suc.prems by (simp_all add: bucket_contents)
  with Suc.prems Suc.IH [of "Suc idx"] show ?case
    by (cases eq) (simp_all add: slice_Cons item_eq_def)
qed

lemma copy_values_spec:
  "wf a \<Longrightarrow> idx + n \<le> a_count a \<Longrightarrow> copy_values a idx n = Some (slice (contents a) idx n)"
  by (induction n arbitrary: idx) (simp_all add: get_value slice_Cons)

subsection \<open>Ownership of the values\<close>

fun retained :: "'v cb_event list \<Rightarrow> 'v bucket list" where
  "retained [] = []"
| "retained (Retained v # t) = v # retained t"
| "retained (Released v # t) = retained t"

fun released :: "'v cb_event list \<Rightarrow> 'v bucket list" where
  "released [] = []"
| "released (Retained v # t) = released t"
| "released (Released v # t) = v # released t"

lemma retained_append [simp]: "retained (t @ u) = retained t @ retained u"
  by (induction t rule: retained.induct) simp_all

lemma released_append [simp]: "released (t @ u) = released t @ released u"
  by (induction t rule: released.induct) simp_all

lemma retained_map [simp]: "retained (map Retained vs) = vs" "retained (map Released vs) = []"
  by (induction vs) simp_all

lemma released_map [simp]: "released (map Released vs) = vs" "released (map Retained vs) = []"
  by (induction vs) simp_all

text \<open>An array owns its values when it has both callbacks and \<^verbatim>\<open>retain\<close> returns its argument, as
  \<^verbatim>\<open>CFRetain\<close> does.\<close>

definition owner :: "'v env \<Rightarrow> 'v cfarray \<Rightarrow> bool" where
  "owner E a \<longleftrightarrow> \<not> a_finalized a \<and> cb_release (CFArrayGetCallBacks a) \<noteq> None \<and>
     (\<exists>f. cb_retain (CFArrayGetCallBacks a) = Some f \<and> (\<forall>v. retain_fn E f v = v))"

definition balanced :: "'v cfarray \<Rightarrow> bool" where
  "balanced a \<longleftrightarrow> mset (retained (a_trace a)) = mset (released (a_trace a)) + mset (contents a)"

lemma owner_ret: "owner E a \<Longrightarrow> ret E a v = v"
  by (auto simp: owner_def ret_def retainer_def)

lemma owner_events:
  "owner E a \<Longrightarrow> retain_events (retainer E a) vs = map Retained vs \<and> dead_events a vs = map Released vs"
  by (auto simp: owner_def retain_events_def retainer_def dead_events_def)

lemma header_callbacks:
  assumes "same_header a b"
  shows "CFArrayGetCallBacks b = CFArrayGetCallBacks a" and "retainer E b = retainer E a" and "ret E b = ret E a"
proof -
  show cb: "CFArrayGetCallBacks b = CFArrayGetCallBacks a"
    using assms by (cases "a_cbbits a") (simp_all add: same_header_def CFArrayGetCallBacks_def)
  show r: "retainer E b = retainer E a" using assms by (simp add: retainer_def cb same_header_def split: option.split)
  show "ret E b = ret E a" by (rule ext) (simp add: ret_def r)
qed

lemma owner_header: "same_header a b \<Longrightarrow> owner E b = owner E a"
  by (simp add: owner_def header_callbacks) (simp add: same_header_def)

text \<open>No operation loses or duplicates a value: what it takes in and what it keeps are what it leaves
  and what it drops.\<close>

lemma list_op_conserves:
  assumes "list_op (\<lambda>v. v) op xs = Some ys"
  shows "mset xs + mset (op_new op) = mset ys + mset (op_dead op xs)"
proof (cases op)
  case (Insert i v)
  have "mset xs = mset (take i xs) + mset (drop i xs)" by (simp flip: mset_append)
  then show ?thesis using Insert assms by (auto split: if_splits)
next
  case (SetAt i v)
  then show ?thesis using assms
    by (auto simp: mset_update split: if_splits)
next
  case (Remove i)
  have "i < length xs \<Longrightarrow> mset xs = mset (take i xs @ xs ! i # drop (Suc i) xs)"
    by (simp add: id_take_nth_drop [symmetric])
  then show ?thesis using Remove assms by (auto split: if_splits)
next
  case (Exchange i j)
  then show ?thesis using assms by (auto simp: mset_swap split: if_splits)
next
  case (Replace i n vs)
  have "mset (take i xs) + (mset (take n (drop i xs)) + mset (drop n (drop i xs))) = mset xs"
    by (simp only: append_take_drop_id flip: mset_append)
  then have "mset (take i xs) + (mset (take n (drop i xs)) + mset (drop (i + n) xs)) = mset xs"
    by (simp add: add.commute)
  then show ?thesis using Replace assms by (auto simp: slice_def ac_simps split: if_splits)
qed (use assms in auto)

inductive array_step :: "'v env \<Rightarrow> 'v cfarray \<Rightarrow> 'v cfarray \<Rightarrow> bool" for E where
  "list_op (ret E a) op (contents a) = Some xs \<Longrightarrow> length xs + 8192 < 2 ^ 30 \<Longrightarrow>
   apply_op E a op = Some a' \<Longrightarrow> array_step E a a'"

inductive array_reach :: "'v env \<Rightarrow> callbacks \<Rightarrow> 'v cfarray \<Rightarrow> bool" for E cb where
  fresh: "CFArrayCreateMutable0 cap (Some cb) = Some a \<Longrightarrow> array_reach E cb a"
| op: "array_reach E cb a \<Longrightarrow> array_step E a a' \<Longrightarrow> array_reach E cb a'"

inductive_cases array_stepE: "array_step E a a'"

lemma step_becomes:
  assumes "array_step E a a'" and "wf a" "a_type a = Deque" "cap_ok a"
  obtains op xs where "list_op (ret E a) op (contents a) = Some xs" and "wf a'" and "same_header a a'"
    and "contents a' = xs" and "cap_ok a'"
    and "a_trace a' = a_trace a @ retain_events (retainer E a) (op_new op) @ dead_events a (op_dead op (contents a))"
  using assms(1)
proof cases
  case (1 op xs)
  have "becomes a xs (retain_events (retainer E a) (op_new op) @ dead_events a (op_dead op (contents a))) (Some a')"
    using op_becomes [OF assms(2,3) 1(1) room_cap_ok [OF assms(4) 1(2)]] 1(3) by simp
  then show thesis using that [OF 1(1)] assms(4) by (simp add: becomes_def)
qed

lemma fresh_array:
  "CFArrayCreateMutable0 cap (Some cb) = Some a \<Longrightarrow>
   wf a \<and> a_type a = Deque \<and> contents a = [] \<and> a_trace a = [] \<and> cap_ok a"
  by (auto simp: cap_ok_def CFArrayCreateMutable0_def CFArrayInit_def wf_def contents_def split: if_splits)

lemma step_balanced:
  assumes "array_step E a a'" "wf a" "a_type a = Deque" "cap_ok a" "owner E a" "balanced a"
  shows "balanced a'"
proof -
  from assms(1-4) obtain op xs where op: "list_op (ret E a) op (contents a) = Some xs" "contents a' = xs"
    "a_trace a' = a_trace a @ retain_events (retainer E a) (op_new op) @ dead_events a (op_dead op (contents a))"
    by (rule step_becomes)
  have "ret E a = (\<lambda>v. v)" using owner_ret [OF assms(5)] by auto
  with op(1) have "mset (contents a) + mset (op_new op) = mset xs + mset (op_dead op (contents a))"
    by (simp add: list_op_conserves)
  then show ?thesis using assms(6) op(2,3) owner_events [OF assms(5)] by (simp add: balanced_def)
qed

lemma reach_balanced:
  "array_reach E cb a \<Longrightarrow> wf a \<and> a_type a = Deque \<and> cap_ok a \<and> (owner E a \<longrightarrow> balanced a)"
proof (induction rule: array_reach.induct)
  case (fresh cap a)
  then show ?case using fresh_array [of cap cb a] by (simp add: balanced_def)
next
  case (op a a')
  then show ?case
    using step_balanced [OF op.hyps(2)] step_becomes [OF op.hyps(2)] owner_header
    by (metis same_header_def)
qed

subsection \<open>Copies and capacities\<close>

lemma append_loop_spec:
  assumes b: "wf b" and "idx + n \<le> a_count b" and "wf a" "a_type a = Deque" "cap_ok a"
    and "a_count a + n + 8192 < 2 ^ 30"
  shows "\<exists>a'. append_loop E a b idx n = Some a' \<and> wf a' \<and> same_header a a' \<and>
    contents a' = contents a @ map (ret E a) (slice (contents b) idx n)"
  using assms(2-)
proof (induction n arbitrary: a idx)
  case 0
  then show ?case by (simp add: same_header_def)
next
  case (Suc n)
  let ?v = "contents b ! idx"
  have "becomes a (contents a @ [ret E a ?v]) (retain_events (retainer E a) [?v] @ dead_events a [])
      (CFArrayAppendValue E a ?v)"
    using op_becomes [of a E "Append ?v"] Suc.prems room_cap_ok [of a "Suc (a_count a)"] by simp
  then obtain a1 where a1: "CFArrayAppendValue E a ?v = Some a1" "wf a1" "same_header a a1"
    "contents a1 = contents a @ [ret E a ?v]" "cap_ok a1"
    using Suc.prems by (auto simp: becomes_def)
  have "a_count a1 = Suc (a_count a)" using a1(2,4) Suc.prems(2) length_contents [of a1] by simp
  moreover have r: "ret E a1 = ret E a" by (rule header_callbacks [OF a1(3)])
  moreover have "a_type a1 = Deque" using a1(3) Suc.prems by (simp add: same_header_def)
  ultimately obtain a2 where "append_loop E a1 b (idx + 1) n = Some a2" "wf a2" "same_header a1 a2"
    "contents a2 = contents a1 @ map (ret E a) (slice (contents b) (idx + 1) n)"
    using Suc.IH [of "idx + 1" a1] Suc.prems a1 by auto
  then show ?case using Suc.prems a1 b by (auto simp: get_value slice_Cons same_header_def)
qed

lemma set_capacity_spec:
  assumes "wf a" "a_type a = Deque" "a_count a \<le> cap" "CFArrayDequeRoundUpCapacity cap = Some c" "cap \<le> c"
  shows "case a_store a of
      None \<Rightarrow> \<exists>a'. CFArraySetCapacity a cap = Some a' \<and> wf a' \<and> contents a' = contents a \<and> same_header a a' \<and>
               a_count a' = a_count a
    | Some d \<Rightarrow> if c < capacity d then CFArraySetCapacity a cap = None
        else \<exists>a'. CFArraySetCapacity a cap = Some a' \<and> wf a' \<and> contents a' = contents a \<and> same_header a a' \<and>
               a_count a' = a_count a"
proof (cases "a_store a")
  case None
  then show ?thesis using assms by (simp add: CFArraySetCapacity_def wf_def contents_def same_header_def)
next
  case (Some d)
  then have d: "length (buckets d) = capacity d" "leftIdx d + a_count a \<le> capacity d"
    using assms by (simp_all add: wf_def)
  show ?thesis
  proof (cases "c < capacity d")
    case True
    then show ?thesis using Some assms d
      by (simp add: CFArraySetCapacity_def memmove_def blit_def)
  next
    case False
    obtain m where m: "memmove (replicate c None) 0 (buckets d) 0 (capacity d) = Some m" "length m = c"
      "slice m 0 (capacity d) = slice (buckets d) 0 (capacity d)"
      by (rule memmove_spec [of 0 "capacity d" "buckets d" 0 "replicate c None"]) (use d False in simp_all)
    have "drop (leftIdx d) (slice m 0 (capacity d)) = drop (leftIdx d) (slice (buckets d) 0 (capacity d))"
      using m(3) by simp
    then have "take (a_count a) (slice m (leftIdx d) (capacity d - leftIdx d)) =
        take (a_count a) (slice (buckets d) (leftIdx d) (capacity d - leftIdx d))" by (simp add: drop_slice)
    then have "slice m (leftIdx d) (a_count a) = slice (buckets d) (leftIdx d) (a_count a)"
      using d(2) by (simp add: take_slice min_def split: if_splits)
    then show ?thesis using Some assms d m False
      by (auto simp: CFArraySetCapacity_def wf_def contents_def same_header_def)
  qed
qed

lemma init_callbacks: "CFArrayGetCallBacks (CFArrayInit ty cap (Some c)) = c"
  by (cases c) (auto simp: CFArrayGetCallBacks_def CFArrayInit_def CFArrayCallBacksMatchNull_def
      CFArrayCallBacksMatchCFType_def kCFNullArrayCallBacks_def kCFTypeArrayCallBacks_def)

lemma init_deque:
  "wf (CFArrayInit Deque cap cb)" "contents (CFArrayInit Deque cap cb) = []"
  "a_type (CFArrayInit Deque cap cb) = Deque" "a_count (CFArrayInit Deque cap cb) = 0"
  "a_store (CFArrayInit Deque cap cb) = None" "a_finalized (CFArrayInit Deque cap cb) = False"
  by (simp_all add: CFArrayInit_def wf_def contents_def)

text \<open>The value a copy holds for \<open>v\<close>: what the retain callback of the source returns.\<close>

definition copied :: "'v env \<Rightarrow> 'v cfarray \<Rightarrow> 'v bucket \<Rightarrow> 'v bucket" where
  "copied E a v = (case cb_retain (CFArrayGetCallBacks a) of None \<Rightarrow> v | Some f \<Rightarrow> retain_fn E f v)"

lemma ret_copied:
  "same_header (CFArrayInit Deque cap (Some (CFArrayGetCallBacks a))) b \<Longrightarrow> ret E b = copied E a"
  by (rule ext) (simp add: header_callbacks ret_def retainer_def copied_def init_callbacks init_deque split: option.split)

lemma mutable_copy_spec:
  fixes a :: "'v cfarray"
  assumes a: "wf a" and small: "a_count a + 8192 < 2 ^ 30"
  shows "\<exists>b. CFArrayCreateMutableCopy0 E cap a = Some b \<and> wf b \<and> a_type b = Deque \<and>
    contents b = map (copied E a) (contents a) \<and> CFArrayGetCallBacks b = CFArrayGetCallBacks a"
proof -
  let ?i = "CFArrayInit Deque cap (Some (CFArrayGetCallBacks a)) :: 'v cfarray"
  obtain c where c: "CFArrayDequeRoundUpCapacity (a_count a) = Some c" "a_count a \<le> c" "c \<le> 2 ^ 30"
    by (rule round_up_capacity [of "a_count a"]) (use small in simp)
  obtain r where r: "(if 0 = cap then CFArraySetCapacity ?i (CFArrayGetCount a) else Some ?i) = Some r"
    "wf r" "contents r = []" "same_header ?i r" "a_count r = 0" "cap_ok r"
  proof (cases "0 = cap")
    case True
    let ?r = "?i\<lparr>a_store := Some \<lparr>leftIdx = c div 2, capacity = c, buckets = replicate c None\<rparr>\<rparr>"
    have "CFArraySetCapacity ?i (CFArrayGetCount a) = Some ?r"
      using c by (simp add: CFArraySetCapacity_def CFArrayGetCount_def init_deque)
    moreover have "wf ?r" "contents ?r = []" "same_header ?i ?r" "a_count ?r = 0" "cap_ok ?r"
      using c(3) by (simp_all add: wf_def contents_def same_header_def init_deque cap_ok_def)
    ultimately show thesis using that [of ?r] True by simp
  next
    case False
    with that [of ?i] show thesis by (simp add: init_deque same_header_def cap_ok_def)
  qed
  have ty: "a_type r = Deque" using r(4) by (simp add: same_header_def init_deque)
  obtain b where b: "append_loop E r a 0 (a_count a) = Some b" "wf b" "same_header r b"
    "contents b = contents r @ map (ret E r) (slice (contents a) 0 (a_count a))"
    using append_loop_spec [OF a, of 0 "a_count a" r E] r ty small by auto
  have "slice (contents a) 0 (a_count a) = contents a" using a by (simp add: slice_all)
  then have "contents b = map (copied E a) (contents a)" using b(4) r(3) ret_copied [OF r(4), of E] by simp
  moreover have "CFArrayCreateMutableCopy0 E cap a = Some b"
    using r(1) b(1) by (simp add: CFArrayCreateMutableCopy0_def CFArrayGetCount_def)
  moreover have "CFArrayGetCallBacks b = CFArrayGetCallBacks a"
    using header_callbacks(1) [OF r(4)] header_callbacks(1) [OF b(3)] by (simp add: init_callbacks)
  ultimately show ?thesis using b(2,3) ty by (auto simp: same_header_def)
qed

lemma create_copy_spec:
  fixes a :: "'v cfarray"
  assumes "wf a"
  shows "\<exists>b. CFArrayCreateCopy0 E a = Some b \<and> wf b \<and> a_type b = Immutable \<and>
    contents b = map (copied E a) (contents a) \<and> CFArrayGetCallBacks b = CFArrayGetCallBacks a"
proof -
  let ?n = "a_count a"
  let ?i = "CFArrayInit Immutable ?n (Some (CFArrayGetCallBacks a)) :: 'v cfarray"
  let ?r = "map_option (retain_fn E) (cb_retain (CFArrayGetCallBacks a))"
  have vals: "copy_values a 0 ?n = Some (contents a)"
    using copy_values_spec [OF assms, of 0 ?n] assms by (simp add: slice_all)
  have ret: "retain_values ?r vs = map (copied E a) vs" for vs
    by (cases "cb_retain (CFArrayGetCallBacks a)") (auto simp: copied_def [abs_def])
  have inl: "length (a_inline ?i) = ?n" by (simp add: CFArrayInit_def)
  then have blt: "blit (a_inline ?i) 0 (map (copied E a) (contents a)) = Some (map (copied E a) (contents a))"
    using assms by (simp add: put_def)
  let ?b = "?i\<lparr>a_inline := map (copied E a) (contents a), a_trace := a_trace ?i @ retain_events ?r (contents a),
       a_count := ?n\<rparr>"
  have "CFArrayCreateCopy0 E a = Some ?b"
    using vals blt by (simp add: CFArrayCreateCopy0_def CFArrayGetCount_def init_callbacks ret Let_def)
  moreover have "a_type ?b = Immutable" by (simp add: CFArrayInit_def)
  moreover have "CFArrayGetCallBacks ?b = CFArrayGetCallBacks ?i"
    by (simp add: CFArrayGetCallBacks_def split: cb_variety.split)
  moreover have "wf ?b" "contents ?b = map (copied E a) (contents a)"
    using assms calculation(2) by (simp_all add: wf_def [of ?b] contents_def [of ?b] slice_all)
  ultimately show ?thesis by (simp add: init_callbacks)
qed

subsection \<open>Properties\<close>

text \<open>C33: every operation that changes a mutable array does to the list the array stands for what the
  list machine does, fails exactly where the list machine fails, retains the values it takes in and
  then releases the values it drops, counts one mutation and keeps the array well formed.\<close>

theorem array_ops_refine_list:
  assumes "wf a" and "a_type a = Deque"
    and "\<And>xs. list_op (ret E a) op (contents a) = Some xs \<Longrightarrow> room a (length xs)"
  shows "case list_op (ret E a) op (contents a) of
      None \<Rightarrow> apply_op E a op = None
    | Some xs \<Rightarrow> becomes a xs (retain_events (retainer E a) (op_new op) @ dead_events a (op_dead op (contents a)))
                 (apply_op E a op)"
  using op_becomes [OF assms(1,2)] op_fails [OF assms(1,2)] assms(3) by (auto split: option.split)

definition sample :: "nat cfarray" where
  "sample = \<lparr>a_type = Deque, a_cbbits = HasCFTypeCallBacks, a_finalized = False, a_count = 3, a_mutations = 4,
     a_store = Some \<lparr>leftIdx = 1, capacity = 4, buckets = [None, Some 10, Some 20, Some 30]\<rparr>, a_inline = [],
     a_custom = kCFNullArrayCallBacks, a_trace = []\<rparr>"

definition sample_env :: "nat env" where
  "sample_env = \<lparr>retain_fn = (\<lambda>f v. v), equal_fn = (\<lambda>f v w. v = w)\<rparr>"

lemma sample_simps:
  "wf sample" "a_type sample = Deque" "contents sample = [Some 10, Some 20, Some 30]"
  "ret sample_env sample v = v" "a_count sample = 3" "room sample n \<longleftrightarrow> n + 4 < 2 ^ 30"
  by (simp_all add: wf_def sample_def contents_def slice_def sample_env_def ret_def retainer_def
      CFArrayGetCallBacks_def kCFTypeArrayCallBacks_def room_def)

lemma array_ops_refine_list_witness:
  "case list_op (ret sample_env sample) (Insert 1 (Some 7)) (contents sample) of
      None \<Rightarrow> apply_op sample_env sample (Insert 1 (Some 7)) = None
    | Some xs \<Rightarrow> becomes sample xs
        (retain_events (retainer sample_env sample) (op_new (Insert 1 (Some 7))) @
         dead_events sample (op_dead (Insert 1 (Some 7)) (contents sample)))
        (apply_op sample_env sample (Insert 1 (Some 7)))"
  by (rule array_ops_refine_list) (simp_all add: sample_simps)

text \<open>C34: for arrays that own their values, those whose callbacks are both present and whose \<^verbatim>\<open>retain\<close> returns
  its argument, as with \<^verbatim>\<open>kCFTypeArrayCallBacks\<close>: whatever operations such a mutable array went through since its
  creation, the values it retained are those it released and those it holds; destroying it retains nothing more and
  leaves every value released exactly as often as it was retained. (Without a \<^verbatim>\<open>retain\<close> callback an array releases
  values it never retained.)\<close>

theorem array_ownership:
  assumes "array_reach E cb a" and "owner E a"
  shows "mset (retained (a_trace a)) = mset (released (a_trace a)) + mset (contents a) \<and>
    (\<exists>a'. CFArrayDeallocate a = Some a' \<and> a_count a' = 0 \<and> a_store a' = None \<and>
      retained (a_trace a') = retained (a_trace a) \<and> mset (released (a_trace a')) = mset (retained (a_trace a')))"
  using reach_balanced [OF assms(1)] assms(2) owner_events [OF assms(2)]
  by (simp add: CFArrayDeallocate_def release_all_spec balanced_def)

text \<open>An array to which one value was appended.\<close>

definition new_sample :: "nat cfarray" where
  "new_sample = CFArrayInit Deque 0 (Some kCFTypeArrayCallBacks)"

lemma new_sample:
  "array_reach sample_env kCFTypeArrayCallBacks new_sample" "owner sample_env new_sample"
proof -
  show "array_reach sample_env kCFTypeArrayCallBacks new_sample"
    unfolding new_sample_def by (rule array_reach.fresh [of 0]) (simp add: CFArrayCreateMutable0_def)
  show "owner sample_env new_sample"
    by (simp add: new_sample_def owner_def init_callbacks init_deque sample_env_def kCFTypeArrayCallBacks_def)
qed

lemma array_ownership_witness:
  "\<exists>a a'. CFArrayAppendValue sample_env new_sample (Some 7) = Some a \<and> contents a = [Some 7] \<and> CFArrayDeallocate a = Some a' \<and>
    a_count a' = 0 \<and> released (a_trace a') = [Some 7]"
proof -
  have new: "wf new_sample" "a_type new_sample = Deque" "contents new_sample = []" "a_trace new_sample = []" "cap_ok new_sample"
    using fresh_array [of 0 kCFTypeArrayCallBacks new_sample] by (simp_all add: CFArrayCreateMutable0_def new_sample_def)
  have op: "list_op (ret sample_env new_sample) (Append (Some 7)) (contents new_sample) = Some [Some 7]"
    using new(3) owner_ret [OF new_sample(2)] by simp
  have "becomes new_sample [Some 7] (retain_events (retainer sample_env new_sample) [Some 7] @ dead_events new_sample [])
      (CFArrayAppendValue sample_env new_sample (Some 7))"
    using op_becomes [OF new(1,2) op room_cap_ok [OF new(5)]] by simp
  then obtain a where a: "CFArrayAppendValue sample_env new_sample (Some 7) = Some a" "same_header new_sample a" "contents a = [Some 7]"
    "a_trace a = [Retained (Some 7)]"
    using owner_events [OF new_sample(2), of "[Some 7]"] owner_events [OF new_sample(2), of "[]"] new(4) by (auto simp: becomes_def split: option.splits)
  have "array_step sample_env new_sample a" by (rule array_step.intros [OF op]) (simp_all add: a(1))
  then have r: "array_reach sample_env kCFTypeArrayCallBacks a" by (rule array_reach.op [OF new_sample(1)])
  have "owner sample_env a" using owner_header [OF a(2)] new_sample(2) by simp
  from array_ownership [OF r this] a(4) obtain a' where "CFArrayDeallocate a = Some a'" "a_count a' = 0"
    "mset (released (a_trace a')) = mset [Some 7]" by auto
  then show ?thesis using a(1,3) by auto
qed

text \<open>C35: on a range the comparator sorts, \<^verbatim>\<open>CFArrayBSearchValues\<close> returns the least index at which
  the value may be inserted: all items before it are smaller and none from it on is.\<close>

theorem bsearch_lower_bound:
  assumes "wf a" and "loc + n \<le> a_count a" and "n < 2 ^ 31" and "r \<le> n"
    and "\<And>i. i < n \<Longrightarrow> comparator (contents a ! (loc + i)) v < 0 \<longleftrightarrow> i < r"
    and "0 < n \<Longrightarrow> comparator v (contents a ! loc) < 0 \<Longrightarrow> r = 0"
  shows "CFArrayBSearchValues a loc n v comparator = Some (loc + r)"
  unfolding CFArrayBSearchValues_def using assms by (intro readable.bsearch_spec) simp_all

lemma bsearch_lower_bound_witness:
  "CFArrayBSearchValues sample 0 3 (Some 20) (\<lambda>x y. int (the x) - int (the y)) = Some (0 + 1)"
proof (rule bsearch_lower_bound)
  fix i :: nat
  assume "i < 3"
  then have "i = 0 \<or> i = 1 \<or> i = 2" by linarith
  then show "int (the (contents sample ! (0 + i))) - int (the (Some 20)) < 0 \<longleftrightarrow> i < 1"
    by (auto simp: sample_simps)
qed (simp_all add: sample_simps)

lemma zsort_sorts:
  assumes a: "wf a" "a_type a = Deque" and range: "loc + n \<le> a_count a"
  shows "\<exists>a'. CFZSort a loc n cmp = Some a' \<and> kept a a' \<and>
    contents a' = take loc (contents a) @ bubble_sort cmp (slice (contents a) loc n) @ drop (loc + n) (contents a)"
proof -
  have "contents a = take loc (contents a) @ slice (contents a) loc n @ drop (loc + n) (contents a)"
    unfolding slice_def by (metis append_take_drop_id drop_drop add.commute)
  moreover have "length (take loc (contents a)) = loc" "length (slice (contents a) loc n) = n"
    using range a by simp_all
  ultimately show ?thesis
    using deque.zsort_spec [OF kept_refl [OF a], of "take loc (contents a)" "slice (contents a) loc n"
        "drop (loc + n) (contents a)" n cmp] by (simp add: CFZSort_def)
qed

lemma qsort_sorts:
  assumes a: "wf a" "a_type a = Deque" and range: "loc + n \<le> a_count a" "a_count a < 2 ^ 59"
    and room: "room a (a_count a)"
  shows "\<exists>vs a'. CFArrayGetValues a loc n = Some vs \<and> CFQSortArray vs n cmp = Some (msort cmp vs) \<and>
    vs = slice (contents a) loc n \<and> CFArrayReplaceValues E a loc n (msort cmp vs) = Some a' \<and> wf a' \<and>
    contents a' = take loc (contents a) @ map (ret E a) (msort cmp vs) @ drop (loc + n) (contents a)"
proof -
  let ?vs = "slice (contents a) loc n"
  have len: "length ?vs = n" using range a by simp
  have "n \<le> LONG_MAX div 8" using range by simp
  then have "CFQSortArray ?vs n cmp = Some (put ?vs 0 (msort cmp (take n ?vs)))"
    by (intro qsort_spec) (simp_all only: len)
  moreover have "put ?vs 0 (msort cmp (take n ?vs)) = msort cmp ?vs"
    using len by (simp add: put_def take_slice)
  moreover have "becomes a (take loc (contents a) @ map (ret E a) (msort cmp ?vs) @ drop (loc + n) (contents a))
      (retain_events (retainer E a) (msort cmp ?vs) @ dead_events a ?vs)
      (CFArrayReplaceValues_raw E a loc n (msort cmp ?vs))"
    by (rule raw_becomes) (use a range room len in simp_all)
  ultimately show ?thesis using get_values_spec [OF a(1) range(1)] range a
    by (auto simp: CFArrayReplaceValues_def becomes_def)
qed

text \<open>\<^verbatim>\<open>CFArraySortValues\<close> sorts the range of a mutable array in place, whichever of its two
  algorithms it takes, and leaves the values around the range; the callbacks keep the values as they
  are.\<close>

theorem sort_values_sorts:
  assumes "wf a" and "a_type a = Deque" and "loc + n \<le> a_count a" and "room a (a_count a)" and "a_count a < 2 ^ 59"
    and "\<And>v. ret E a v = v"
    and "\<And>x y. comparator x y \<le> 0 \<or> comparator y x \<le> (0::int)"
    and "\<And>x y z. comparator x y \<le> 0 \<Longrightarrow> comparator y z \<le> 0 \<Longrightarrow> comparator x z \<le> 0"
    and "\<And>x y. comparator x y < 0 \<longleftrightarrow> 0 < comparator y x"
  shows "\<exists>a' ys. CFArraySortValues E a loc n comparator = Some a' \<and> wf a' \<and>
    contents a' = take loc (contents a) @ ys @ drop (loc + n) (contents a) \<and>
    mset ys = mset (slice (contents a) loc n) \<and> sorted_wrt (\<lambda>x y. comparator x y \<le> 0) ys"
proof -
  have c: "compare_sym comparator" using assms(7-9) by unfold_locales auto
  note cf = compare_sym.axioms(1) [OF c]
  have le: "compare_fn.le comparator = (\<lambda>x y. comparator x y \<le> 0)"
    by (intro ext) (simp add: compare_fn.le_def [OF cf])
  have id: "map (ret E a) vs = vs" for vs using assms(6) by (simp add: map_idI)
  let ?xs = "slice (contents a) loc n"
  have same: "n < 2 \<Longrightarrow> sorted_wrt (\<lambda>x y. comparator x y \<le> 0) ?xs" using assms(1,3)
    by (cases "?xs"; cases "tl ?xs") (auto dest: arg_cong [of _ _ length])
  have whole: "contents a = take loc (contents a) @ ?xs @ drop (loc + n) (contents a)"
    unfolding slice_def by (metis append_take_drop_id drop_drop add.commute)
  show ?thesis
    using zsort_sorts [OF assms(1,2,3), of comparator] qsort_sorts [OF assms(1,2,3,5,4), of comparator E]
      compare_sym.sorted_bubble_sort [OF c, of ?xs] compare_fn.sorted_msort [OF cf, of ?xs] same whole assms(1,2)
    unfolding le id by (auto simp: CFArraySortValues_def Let_def kept_def)
qed

lemma sort_values_sorts_witness:
  "\<exists>a' ys. CFArraySortValues sample_env sample 0 3 (\<lambda>x y. int (the y) - int (the x)) = Some a' \<and> wf a' \<and>
    contents a' = take 0 (contents sample) @ ys @ drop (0 + 3) (contents sample) \<and>
    mset ys = mset (slice (contents sample) 0 3) \<and>
    sorted_wrt (\<lambda>x y. int (the y) - int (the x) \<le> 0) ys"
  by (rule sort_values_sorts) (auto simp: sample_simps)

text \<open>C36: \<^verbatim>\<open>_CFArraySetCapacity\<close> keeps the values, except when the rounded capacity is smaller than
  the one the array has: then it copies the whole old block past the end of the new one.\<close>

theorem set_capacity_overflows:
  assumes "wf a" "a_type a = Deque" "a_count a \<le> cap" "CFArrayDequeRoundUpCapacity cap = Some c" "cap \<le> c"
    and "a_store a = Some d"
  shows "if c < capacity d then CFArraySetCapacity a cap = None
    else map_option contents (CFArraySetCapacity a cap) = Some (contents a)"
  using set_capacity_spec [OF assms(1-5)] assms(6) by (auto split: if_splits)

lemma set_capacity_overflows_witness:
  "CFArraySetCapacity (sample\<lparr>a_count := 0,
     a_store := Some \<lparr>leftIdx = 1, capacity = 16, buckets = replicate 16 None\<rparr>\<rparr>) 4 = None"
  using set_capacity_overflows [of "sample\<lparr>a_count := 0,
      a_store := Some \<lparr>leftIdx = 1, capacity = 16, buckets = replicate 16 None\<rparr>\<rparr>" 4 8
      "\<lparr>leftIdx = 1, capacity = 16, buckets = replicate 16 None\<rparr>"]
  by (simp add: wf_def sample_def CFArrayDequeRoundUpCapacity_def flsl.simps)

text \<open>the searches return the first and the last index of the range whose item matches, or
  \<^verbatim>\<open>kCFNotFound\<close>, and the count of the matching items; they read no bucket outside the array.\<close>

theorem searches_correct:
  assumes "wf a" and "loc + n \<le> a_count a"
  shows "(\<exists>r. CFArrayGetFirstIndexOfValue E a loc n v = Some r \<and>
            is_first (\<lambda>i. matches E a v (contents a ! i)) loc (loc + n) r) \<and>
         (\<exists>r. CFArrayGetLastIndexOfValue E a loc n v = Some r \<and>
            is_last (\<lambda>i. matches E a v (contents a ! i)) loc (loc + n) r) \<and>
         CFArrayGetCountOfValue E a loc n v = Some (length (filter (matches E a v) (slice (contents a) loc n))) \<and>
         CFArrayContainsValue E a loc n v = Some (\<exists>x \<in> set (slice (contents a) loc n). matches E a v x)"
  using first_loop_spec [OF assms(1), of loc 0 n E v] last_loop_spec [OF assms, of E v]
    count_loop_spec [OF assms(1), of loc 0 n E v 0] contains_loop_spec [OF assms(1), of loc 0 n E v] assms(2)
  by (simp add: CFArrayGetFirstIndexOfValue_def CFArrayGetLastIndexOfValue_def CFArrayGetCountOfValue_def
      CFArrayContainsValue_def)

lemma searches_correct_witness:
  "(\<exists>r. CFArrayGetFirstIndexOfValue sample_env sample 0 3 (Some 20) = Some r \<and>
      is_first (\<lambda>i. matches sample_env sample (Some 20) (contents sample ! i)) 0 (0 + 3) r) \<and>
   (\<exists>r. CFArrayGetLastIndexOfValue sample_env sample 0 3 (Some 20) = Some r \<and>
      is_last (\<lambda>i. matches sample_env sample (Some 20) (contents sample ! i)) 0 (0 + 3) r) \<and>
   CFArrayGetCountOfValue sample_env sample 0 3 (Some 20) =
     Some (length (filter (matches sample_env sample (Some 20)) (slice (contents sample) 0 3))) \<and>
   CFArrayContainsValue sample_env sample 0 3 (Some 20) =
     Some (\<exists>x \<in> set (slice (contents sample) 0 3). matches sample_env sample (Some 20) x)"
  by (rule searches_correct) (simp_all add: sample_simps)

text \<open>\<^verbatim>\<open>CFEqual\<close> on two arrays holds exactly when they have the same count, the same \<^verbatim>\<open>equal\<close>
  callback and pairwise equal items, and then their hashes agree.\<close>

theorem array_equal_iff:
  assumes "wf a" and "wf b"
  shows "CFArrayEqual E False a b =
      Some (cb_equal (CFArrayGetCallBacks a) = cb_equal (CFArrayGetCallBacks b) \<and>
            list_all2 (item_eq E (cb_equal (CFArrayGetCallBacks a))) (contents a) (contents b)) \<and>
    (CFArrayEqual E False a b = Some True \<longrightarrow> CFArrayHash a = CFArrayHash b)"
proof -
  have "slice (contents a) 0 (a_count a) = contents a" "slice (contents b) 0 (a_count b) = contents b"
    using assms by (simp_all add: slice_all)
  moreover have "a_count a \<noteq> a_count b \<Longrightarrow> \<not> list_all2 P (contents a) (contents b)" for P
    using assms by (metis length_contents list_all2_lengthD)
  moreover have "0 = a_count a \<Longrightarrow> contents a = []" "0 = a_count b \<Longrightarrow> contents b = []"
    using assms by (metis length_0_conv length_contents)+
  ultimately show ?thesis
    using equal_loop_spec [OF assms, of 0 "a_count a" E "cb_equal (CFArrayGetCallBacks a)"]
    by (cases "a_count a = a_count b") (auto simp: CFArrayEqual_def CFArrayHash_def)
qed

lemma array_equal_iff_witness:
  "CFArrayEqual sample_env False sample (sample\<lparr>a_mutations := 9\<rparr>) = Some True \<and>
   CFArrayHash sample = CFArrayHash (sample\<lparr>a_mutations := 9\<rparr>)"
proof -
  have "wf sample" "wf (sample\<lparr>a_mutations := 9\<rparr>)" by (simp_all add: sample_def wf_def)
  note eq = array_equal_iff [OF this, of sample_env]
  have "contents (sample\<lparr>a_mutations := 9\<rparr>) = contents sample"
    "CFArrayGetCallBacks (sample\<lparr>a_mutations := 9\<rparr>) = CFArrayGetCallBacks sample"
    by (simp_all add: sample_def contents_def CFArrayGetCallBacks_def)
  then show ?thesis using eq by (simp add: sample_simps item_eq_def)
qed

text \<open>both copies of an array stand for the list of its values, each passed through the retain
  callback, and carry the callbacks of the original.\<close>

theorem copies_agree:
  assumes "wf a" and "a_count a + 8192 < 2 ^ 30"
  shows "\<exists>b c. CFArrayCreateCopy0 E a = Some b \<and> CFArrayCreateMutableCopy0 E cap a = Some c \<and>
    wf b \<and> wf c \<and> a_type b = Immutable \<and> a_type c = Deque \<and>
    contents b = map (copied E a) (contents a) \<and> contents c = contents b \<and>
    CFArrayGetCallBacks b = CFArrayGetCallBacks a \<and> CFArrayGetCallBacks c = CFArrayGetCallBacks a"
  using create_copy_spec [OF assms(1), of E] mutable_copy_spec [OF assms, of E cap] by auto

lemma copies_agree_witness:
  "\<exists>b c. CFArrayCreateCopy0 sample_env sample = Some b \<and> CFArrayCreateMutableCopy0 sample_env 0 sample = Some c \<and>
    wf b \<and> wf c \<and> a_type b = Immutable \<and> a_type c = Deque \<and>
    contents b = map (copied sample_env sample) (contents sample) \<and> contents c = contents b \<and>
    CFArrayGetCallBacks b = CFArrayGetCallBacks sample \<and> CFArrayGetCallBacks c = CFArrayGetCallBacks sample"
  by (rule copies_agree) (simp_all add: sample_simps)

end
