(* ===== verification/CFBinaryHeap.thy ===== *)
theory CFBinaryHeap
  imports CFSortFunctions
begin

text \<open>
  \<^verbatim>\<open>CFBinaryHeap.c\<close>: a priority queue in an array of buckets. A bucket is \<open>None\<close> until it is first
  written, and reading it then is \<open>None\<close>: a theorem that an operation returns \<open>Some\<close> includes that it
  reads no uninitialised bucket. The callbacks are function pointers; \<open>heap_env\<close> gives their meaning
  (with the compare context fixed) and the address of a value, which orders the values of a heap
  without a compare callback. Descriptions and garbage collection are not modelled.
\<close>

subsection \<open>Data and operations\<close>

record heap_callbacks =
  hcb_retain :: "fptr option"
  hcb_release :: "fptr option"
  hcb_compare :: "fptr option"

record 'v heap_env =
  heap_retain :: "fptr \<Rightarrow> 'v \<Rightarrow> 'v"
  heap_compare :: "fptr \<Rightarrow> 'v \<Rightarrow> 'v \<Rightarrow> int"
  heap_addr :: "'v \<Rightarrow> nat"

datatype 'v heap_event = HRetained 'v | HReleased 'v

record 'v heap =
  h_count :: nat
  h_capacity :: nat
  h_callbacks :: heap_callbacks
  h_buckets :: "'v option list"
  h_mutable :: bool
  h_trace :: "'v heap_event list"

definition kCFCompareEqualTo :: int where
  "kCFCompareEqualTo = 0"

definition kCFCompareGreaterThan :: int where
  "kCFCompareGreaterThan = 1"

definition CFBinaryHeapRoundUpCapacity :: "nat \<Rightarrow> nat option" where
  "CFBinaryHeapRoundUpCapacity cap = (if cap < 4 then Some 4 else shl1 (flsl cap))"

text \<open>The test \<^verbatim>\<open>(!compare && x > y) || (compare && kCFCompareGreaterThan == compare(x, y, info))\<close>.\<close>

definition heap_gt :: "'v heap_env \<Rightarrow> fptr option \<Rightarrow> 'v \<Rightarrow> 'v \<Rightarrow> bool" where
  "heap_gt E cmp x y =
     (case cmp of None \<Rightarrow> heap_addr E y < heap_addr E x
      | Some f \<Rightarrow> kCFCompareGreaterThan = heap_compare E f x y)"

definition fetch :: "'v option list \<Rightarrow> nat \<Rightarrow> 'v option" where
  "fetch m i = do { b \<leftarrow> peek m i; b }"

definition CFBinaryHeapGrow :: "'v heap \<Rightarrow> nat \<Rightarrow> 'v heap option" where
  "CFBinaryHeapGrow h numNewValues =
     do { cap \<leftarrow> CFBinaryHeapRoundUpCapacity (h_count h + numNewValues);
          Some (h\<lparr>h_capacity := cap,
                  h_buckets := take cap (h_buckets h) @ replicate (cap - length (h_buckets h)) None\<rparr>) }"

text \<open>The loop of \<^verbatim>\<open>CFBinaryHeapAddValue\<close>: the buckets and the index where the value goes.\<close>

function add_loop :: "('v \<Rightarrow> 'v \<Rightarrow> bool) \<Rightarrow> 'v option list \<Rightarrow> 'v \<Rightarrow> nat \<Rightarrow> ('v option list \<times> nat) option" where
  "add_loop gt m value idx =
     (if 0 < idx then
        do { let pidx = (idx - 1) div 2;
             item \<leftarrow> fetch m pidx;
             if \<not> gt item value then Some (m, idx)
             else do { m' \<leftarrow> poke m idx (Some item); add_loop gt m' value pidx } }
      else Some (m, idx))"
  by pat_completeness auto
termination
  by (relation "measure (\<lambda>(gt, m, value, idx). idx)") auto

declare add_loop.simps [simp del]

definition CFBinaryHeapAddValue :: "'v heap_env \<Rightarrow> 'v heap \<Rightarrow> 'v \<Rightarrow> 'v heap option" where
  "CFBinaryHeapAddValue E h value =
     do { h1 \<leftarrow> (if h_mutable h \<and> h_count h = h_capacity h then CFBinaryHeapGrow h 1 else Some h);
          let cnt = h_count h1;
          (m, idx) \<leftarrow> add_loop (heap_gt E (hcb_compare (h_callbacks h1))) (h_buckets h1) value cnt;
          let value' = (case hcb_retain (h_callbacks h1) of None \<Rightarrow> value | Some f \<Rightarrow> heap_retain E f value);
          m' \<leftarrow> poke m idx (Some value');
          Some (h1\<lparr>h_count := cnt + 1, h_buckets := m',
                   h_trace := h_trace h1 @ (if hcb_retain (h_callbacks h1) = None then [] else [HRetained value])\<rparr>) }"

fun add_values :: "'v heap_env \<Rightarrow> 'v heap \<Rightarrow> 'v list \<Rightarrow> 'v heap option" where
  "add_values E h [] = Some h"
| "add_values E h (v # vs) = do { h' \<leftarrow> CFBinaryHeapAddValue E h v; add_values E h' vs }"

definition CFBinaryHeapInit :: "'v heap_env \<Rightarrow> 'v list \<Rightarrow> heap_callbacks option \<Rightarrow> 'v heap option" where
  "CFBinaryHeapInit E values callBacks =
     do { cap \<leftarrow> CFBinaryHeapRoundUpCapacity 1;
          let cb = (case callBacks of Some c \<Rightarrow> c
                    | None \<Rightarrow> \<lparr>hcb_retain = None, hcb_release = None, hcb_compare = None\<rparr>);
          add_values E \<lparr>h_count = 0, h_capacity = cap, h_callbacks = cb, h_buckets = replicate cap None,
                       h_mutable = True, h_trace = []\<rparr> values }"

definition CFBinaryHeapCreate :: "'v heap_env \<Rightarrow> heap_callbacks option \<Rightarrow> 'v heap option" where
  "CFBinaryHeapCreate E callBacks = CFBinaryHeapInit E [] callBacks"

fun read_values :: "'v option list \<Rightarrow> nat \<Rightarrow> nat \<Rightarrow> 'v list option" where
  "read_values m idx 0 = Some []"
| "read_values m idx (Suc n) = do { v \<leftarrow> fetch m idx; vs \<leftarrow> read_values m (idx + 1) n; Some (v # vs) }"

definition CFBinaryHeapCreateCopy :: "'v heap_env \<Rightarrow> 'v heap \<Rightarrow> 'v heap option" where
  "CFBinaryHeapCreateCopy E h =
     do { values \<leftarrow> read_values (h_buckets h) 0 (h_count h);
          CFBinaryHeapInit E values (Some (h_callbacks h)) }"

definition CFBinaryHeapGetCount :: "'v heap \<Rightarrow> nat" where
  "CFBinaryHeapGetCount h = h_count h"

definition heap_matches :: "'v heap_env \<Rightarrow> 'v heap \<Rightarrow> 'v \<Rightarrow> 'v \<Rightarrow> bool" where
  "heap_matches E h value item \<longleftrightarrow>
     value = item \<or>
     (case hcb_compare (h_callbacks h) of None \<Rightarrow> False
      | Some f \<Rightarrow> kCFCompareEqualTo = heap_compare E f value item)"

fun heap_count_loop :: "'v heap_env \<Rightarrow> 'v heap \<Rightarrow> 'v \<Rightarrow> nat \<Rightarrow> nat \<Rightarrow> nat \<Rightarrow> nat option" where
  "heap_count_loop E h value cnt idx 0 = Some cnt"
| "heap_count_loop E h value cnt idx (Suc n) =
     do { item \<leftarrow> fetch (h_buckets h) idx;
          heap_count_loop E h value (if heap_matches E h value item then cnt + 1 else cnt) (idx + 1) n }"

definition CFBinaryHeapGetCountOfValue :: "'v heap_env \<Rightarrow> 'v heap \<Rightarrow> 'v \<Rightarrow> nat option" where
  "CFBinaryHeapGetCountOfValue E h value = heap_count_loop E h value 0 0 (h_count h)"

fun heap_contains_loop :: "'v heap_env \<Rightarrow> 'v heap \<Rightarrow> 'v \<Rightarrow> nat \<Rightarrow> nat \<Rightarrow> bool option" where
  "heap_contains_loop E h value idx 0 = Some False"
| "heap_contains_loop E h value idx (Suc n) =
     do { item \<leftarrow> fetch (h_buckets h) idx;
          if heap_matches E h value item then Some True else heap_contains_loop E h value (idx + 1) n }"

definition CFBinaryHeapContainsValue :: "'v heap_env \<Rightarrow> 'v heap \<Rightarrow> 'v \<Rightarrow> bool option" where
  "CFBinaryHeapContainsValue E h value = heap_contains_loop E h value 0 (h_count h)"

definition CFBinaryHeapGetMinimum :: "'v heap \<Rightarrow> 'v option" where
  "CFBinaryHeapGetMinimum h = (if 0 < h_count h then fetch (h_buckets h) 0 else None)"

definition CFBinaryHeapGetMinimumIfPresent :: "'v heap \<Rightarrow> 'v option option" where
  "CFBinaryHeapGetMinimumIfPresent h =
     (if h_count h = 0 then Some None else map_option Some (fetch (h_buckets h) 0))"

text \<open>The loop of \<^verbatim>\<open>CFBinaryHeapRemoveMinimumValue\<close>; \<open>n\<close> is the new count.\<close>

function remove_loop :: "('v \<Rightarrow> 'v \<Rightarrow> bool) \<Rightarrow> nat \<Rightarrow> 'v \<Rightarrow> 'v option list \<Rightarrow> nat \<Rightarrow> ('v option list \<times> nat) option" where
  "remove_loop gt n val m idx =
     (let cidx = 2 * idx + 1 in
      if cidx < n then
        do { item \<leftarrow> fetch m cidx;
             (c, item) \<leftarrow> (if cidx + 1 < n then
                 do { item2 \<leftarrow> fetch m (cidx + 1);
                      Some (if gt item item2 then (cidx + 1, item2) else (cidx, item)) }
               else Some (cidx, item));
             if gt item val then Some (m, idx)
             else do { m' \<leftarrow> poke m idx (Some item);
                       remove_loop gt n val m' c } }
      else Some (m, idx))"
  by pat_completeness auto
termination
  by (relation "measure (\<lambda>(gt, n, val, m, idx). n - idx)") (auto split: if_splits bind_splits)

declare remove_loop.simps [simp del]

definition CFBinaryHeapRemoveMinimumValue :: "'v heap_env \<Rightarrow> 'v heap \<Rightarrow> 'v heap option" where
  "CFBinaryHeapRemoveMinimumValue E h =
     (if h_count h = 0 then Some h
      else do {
        let cnt = h_count h;
        first \<leftarrow> fetch (h_buckets h) 0;
        let released = (if hcb_release (h_callbacks h) = None then [] else [HReleased first]);
        val \<leftarrow> fetch (h_buckets h) (cnt - 1);
        (m, idx) \<leftarrow> remove_loop (heap_gt E (hcb_compare (h_callbacks h))) (cnt - 1) val (h_buckets h) 0;
        m' \<leftarrow> poke m idx (Some val);
        Some (h\<lparr>h_count := cnt - 1, h_buckets := m', h_trace := h_trace h @ released\<rparr>) })"

definition CFBinaryHeapRemoveAllValues :: "'v heap \<Rightarrow> 'v heap option" where
  "CFBinaryHeapRemoveAllValues h =
     (if hcb_release (h_callbacks h) = None then Some (h\<lparr>h_count := 0\<rparr>)
      else do { vs \<leftarrow> read_values (h_buckets h) 0 (h_count h);
                Some (h\<lparr>h_count := 0, h_trace := h_trace h @ map HReleased vs\<rparr>) })"

definition CFBinaryHeapDeallocate :: "'v heap \<Rightarrow> 'v heap option" where
  "CFBinaryHeapDeallocate h =
     do { h' \<leftarrow> CFBinaryHeapRemoveAllValues h; Some (if h_mutable h' then h'\<lparr>h_buckets := []\<rparr> else h') }"

subsection \<open>Heaps as lists\<close>

text \<open>The two loops with the value kept in the list: exchanges along a path of the tree.\<close>

definition parent :: "nat \<Rightarrow> nat" where
  "parent i = (i - 1) div 2"

definition exchange :: "'v list \<Rightarrow> nat \<Rightarrow> nat \<Rightarrow> 'v list" where
  "exchange ws i j = ws[i := ws ! j, j := ws ! i]"

lemma length_exchange [simp]: "length (exchange ws i j) = length ws"
  by (simp add: exchange_def)

lemma mset_exchange [simp]: "i < length ws \<Longrightarrow> j < length ws \<Longrightarrow> mset (exchange ws i j) = mset ws"
  unfolding exchange_def by (rule mset_swap)

lemma nth_exchange:
  "i < length ws \<Longrightarrow> j < length ws \<Longrightarrow> k < length ws \<Longrightarrow>
   exchange ws i j ! k = (if k = j then ws ! i else if k = i then ws ! j else ws ! k)"
  by (auto simp: exchange_def nth_list_update)

function sift_up :: "('v \<Rightarrow> 'v \<Rightarrow> bool) \<Rightarrow> 'v list \<Rightarrow> nat \<Rightarrow> 'v list" where
  "sift_up gt ws i =
     (if 0 < i \<and> gt (ws ! parent i) (ws ! i) then sift_up gt (exchange ws i (parent i)) (parent i) else ws)"
  by pat_completeness auto
termination
  by (relation "measure (\<lambda>(gt, ws, i). i)") (auto simp: parent_def)

declare sift_up.simps [simp del]

definition least_child :: "('v \<Rightarrow> 'v \<Rightarrow> bool) \<Rightarrow> 'v list \<Rightarrow> nat \<Rightarrow> nat" where
  "least_child gt ws i =
     (if 2 * i + 2 < length ws \<and> gt (ws ! (2 * i + 1)) (ws ! (2 * i + 2)) then 2 * i + 2 else 2 * i + 1)"

function sift_down :: "('v \<Rightarrow> 'v \<Rightarrow> bool) \<Rightarrow> 'v list \<Rightarrow> nat \<Rightarrow> 'v list" where
  "sift_down gt ws i =
     (if 2 * i + 1 < length ws \<and> \<not> gt (ws ! least_child gt ws i) (ws ! i)
      then sift_down gt (exchange ws i (least_child gt ws i)) (least_child gt ws i) else ws)"
  by pat_completeness auto
termination
  by (relation "measure (\<lambda>(gt, ws, i). length ws - i)") (auto simp: least_child_def)

declare sift_down.simps [simp del]

lemma parent_less [simp]: "0 < i \<Longrightarrow> parent i < i"
  unfolding parent_def by linarith

lemma parent_neq: "0 < i \<Longrightarrow> parent i \<noteq> i \<and> i \<noteq> parent i"
  using parent_less [of i] by linarith

lemma parent_less_length [simp]: "i < length ws \<Longrightarrow> parent i < length ws"
  unfolding parent_def by linarith

lemma least_child: "2 * i + 1 < length ws \<Longrightarrow>
    i < least_child gt ws i \<and> least_child gt ws i < length ws \<and> parent (least_child gt ws i) = i"
  by (auto simp: least_child_def parent_def)

lemma mset_sift_up [simp]: "i < length ws \<Longrightarrow> mset (sift_up gt ws i) = mset ws"
proof (induction gt ws i rule: sift_up.induct)
  case (1 gt ws i)
  then show ?case by (subst sift_up.simps) simp
qed

lemma mset_sift_down [simp]: "i < length ws \<Longrightarrow> mset (sift_down gt ws i) = mset ws"
proof (induction gt ws i rule: sift_down.induct)
  case (1 gt ws i)
  then show ?case using least_child [of i ws gt] by (subst sift_down.simps) simp
qed

lemma length_sift [simp]:
  "i < length ws \<Longrightarrow> length (sift_up gt ws i) = length ws"
  "i < length ws \<Longrightarrow> length (sift_down gt ws i) = length ws"
  using mset_sift_up mset_sift_down by (metis size_mset)+

text \<open>The loops of the code compute these lists, with the value to be stored last.\<close>

lemma hole_step:
  assumes "m[i := Some (ws ! i)] = map Some ws @ rest" and "i < length ws" "j < length ws" "i \<noteq> j"
  shows "fetch m j = Some (ws ! j)"
    and "(m[i := Some (ws ! j)])[j := Some (exchange ws i j ! j)] = map Some (exchange ws i j) @ rest"
    and "exchange ws i j ! j = ws ! i" and "i < length m"
proof -
  have len: "length m = length ws + length rest" using arg_cong [OF assms(1), of length] by simp
  have "m ! j = (m[i := Some (ws ! i)]) ! j" using assms(4) by simp
  also have "\<dots> = Some (ws ! j)" using assms(1,3) by (simp add: nth_append)
  finally show "fetch m j = Some (ws ! j)" using len assms(3) by (simp add: fetch_def)
  show ex: "exchange ws i j ! j = ws ! i" using assms by (simp add: nth_exchange)
  show "i < length m" using len assms by simp
  have "m[i := Some (ws ! j)] = (m[i := Some (ws ! i)])[i := Some (ws ! j)]" by simp
  then show "(m[i := Some (ws ! j)])[j := Some (exchange ws i j ! j)] = map Some (exchange ws i j) @ rest"
    unfolding ex using assms by (simp add: exchange_def list_update_append map_update)
qed

lemma add_loop_spec:
  "m[i := Some (ws ! i)] = map Some ws @ rest \<Longrightarrow> i < length ws \<Longrightarrow>
   \<exists>m' j. add_loop gt m (ws ! i) i = Some (m', j) \<and> j < length m' \<and>
          m'[j := Some (ws ! i)] = map Some (sift_up gt ws i) @ rest"
proof (induction gt ws i arbitrary: m rule: sift_up.induct)
  case (1 gt ws i)
  have len: "i < length m" using arg_cong [OF "1.prems"(1), of length] "1.prems"(2) by simp
  show ?case
  proof (cases "0 < i")
    case True
    let ?p = "parent i"
    note hole = hole_step [OF "1.prems", of ?p]
    have p: "?p < length ws" "i \<noteq> ?p" using True "1.prems"(2) parent_neq by simp_all
    show ?thesis
    proof (cases "gt (ws ! ?p) (ws ! i)")
      case T: True
      obtain m' j where "add_loop gt (m[i := Some (ws ! ?p)]) (ws ! i) ?p = Some (m', j)" "j < length m'"
        "m'[j := Some (ws ! i)] = map Some (sift_up gt (exchange ws i ?p) ?p) @ rest"
        using "1.IH" [OF conjI [OF True T], of "m[i := Some (ws ! ?p)]"] hole(2,3) [OF p] p by auto
      then show ?thesis using True T hole(1) [OF p] len
        by (subst add_loop.simps, subst sift_up.simps) (simp add: Let_def parent_def [symmetric] del: One_nat_def)
    next
      case False
      then show ?thesis using True hole(1) [OF p] len "1.prems"
        by (subst add_loop.simps, subst sift_up.simps) (simp add: Let_def parent_def [symmetric] del: One_nat_def)
    qed
  next
    case False
    then show ?thesis using "1.prems" len by (subst add_loop.simps, subst sift_up.simps) simp
  qed
qed

lemma remove_loop_spec:
  "m[i := Some (ws ! i)] = map Some ws @ rest \<Longrightarrow> i < length ws \<Longrightarrow>
   \<exists>m' j. remove_loop gt (length ws) (ws ! i) m i = Some (m', j) \<and> j < length m' \<and>
          m'[j := Some (ws ! i)] = map Some (sift_down gt ws i) @ rest"
proof (induction gt ws i arbitrary: m rule: sift_down.induct)
  case (1 gt ws i)
  have len: "i < length m" using arg_cong [OF "1.prems"(1), of length] "1.prems"(2) by simp
  show ?case
  proof (cases "2 * i + 1 < length ws")
    case True
    let ?c = "least_child gt ws i"
    have c: "?c < length ws" "i \<noteq> ?c" using least_child [OF True, of gt] by auto
    have f: "fetch m (2 * i + 1) = Some (ws ! (2 * i + 1))"
      "2 * i + 2 < length ws \<Longrightarrow> fetch m (2 * i + 2) = Some (ws ! (2 * i + 2))"
      using hole_step(1) [OF "1.prems"] True by auto
    have pick: "(if 2 * i + 1 + 1 < length ws then
          do { item2 \<leftarrow> fetch m (2 * i + 1 + 1);
               Some (if gt (ws ! (2 * i + 1)) item2 then (2 * i + 1 + 1, item2) else (2 * i + 1, ws ! (2 * i + 1))) }
        else Some (2 * i + 1, ws ! (2 * i + 1))) = Some (?c, ws ! ?c)"
      using f(2) by (auto simp: least_child_def)
    show ?thesis
    proof (cases "gt (ws ! ?c) (ws ! i)")
      case T: True
      show ?thesis
        by (rule exI [of _ m], rule exI [of _ i], subst remove_loop.simps, subst sift_down.simps)
          (use True T len "1.prems" in \<open>simp only: Let_def f(1) pick Option.bind_lunit if_True if_False split_conv simp_thms\<close>)
    next
      case False
      obtain m' j where m': "remove_loop gt (length ws) (ws ! i) (m[i := Some (ws ! ?c)]) ?c = Some (m', j)"
        "j < length m'"
        "m'[j := Some (ws ! i)] = map Some (sift_down gt (exchange ws i ?c) ?c) @ rest"
        using "1.IH" [OF conjI [OF True False], of "m[i := Some (ws ! ?c)]"]
          hole_step(2,3) [OF "1.prems" c] c by auto
      have "poke m i (Some (ws ! ?c)) = Some (m[i := Some (ws ! ?c)])" using len by simp
      then show ?thesis using m'
        by (subst remove_loop.simps, subst sift_down.simps)
          (simp only: Let_def True False f(1) pick Option.bind_lunit if_True if_False split_conv simp_thms,
           auto)
    qed
  next
    case False
    then show ?thesis using "1.prems" len
      by (subst remove_loop.simps, subst sift_down.simps) (simp add: Let_def)
  qed
qed

subsection \<open>The order of a heap\<close>

definition is_heap :: "('v \<Rightarrow> 'v \<Rightarrow> bool) \<Rightarrow> 'v list \<Rightarrow> bool" where
  "is_heap gt ws \<longleftrightarrow> (\<forall>i. 0 < i \<longrightarrow> i < length ws \<longrightarrow> \<not> gt (ws ! parent i) (ws ! i))"

text \<open>\<open>up_ok\<close>: a heap but for the value at \<open>i\<close> and its parent; \<open>down_ok\<close>: but for \<open>i\<close> and its children.\<close>

definition up_ok :: "('v \<Rightarrow> 'v \<Rightarrow> bool) \<Rightarrow> 'v list \<Rightarrow> nat \<Rightarrow> bool" where
  "up_ok gt ws i \<longleftrightarrow>
     (\<forall>k. 0 < k \<longrightarrow> k < length ws \<longrightarrow> k \<noteq> i \<longrightarrow> \<not> gt (ws ! parent k) (ws ! k)) \<and>
     (\<forall>k. 0 < i \<longrightarrow> 0 < k \<longrightarrow> k < length ws \<longrightarrow> parent k = i \<longrightarrow> \<not> gt (ws ! parent i) (ws ! k))"

definition down_ok :: "('v \<Rightarrow> 'v \<Rightarrow> bool) \<Rightarrow> 'v list \<Rightarrow> nat \<Rightarrow> bool" where
  "down_ok gt ws i \<longleftrightarrow>
     (\<forall>k. 0 < k \<longrightarrow> k < length ws \<longrightarrow> parent k \<noteq> i \<longrightarrow> \<not> gt (ws ! parent k) (ws ! k)) \<and>
     (\<forall>k. 0 < i \<longrightarrow> 0 < k \<longrightarrow> k < length ws \<longrightarrow> parent k = i \<longrightarrow> \<not> gt (ws ! parent i) (ws ! k))"

locale heap_order =
  fixes gt :: "'v \<Rightarrow> 'v \<Rightarrow> bool"
  assumes gt_asym: "gt x y \<Longrightarrow> \<not> gt y x"
    and gt_trans: "\<not> gt x y \<Longrightarrow> \<not> gt y z \<Longrightarrow> \<not> gt x z"
begin

lemma up_step:
  assumes ok: "up_ok gt ws i" and i: "0 < i" "i < length ws" and gt: "gt (ws ! parent i) (ws ! i)"
  shows "up_ok gt (exchange ws i (parent i)) (parent i)"
proof -
  let ?p = "parent i" and ?w = "exchange ws i (parent i)"
  have p: "?p < length ws" "?p \<noteq> i" using i parent_neq by simp_all
  note nth = nth_exchange [OF i(2) p(1)]
  have below: "\<not> gt (ws ! i) (ws ! ?p)" using gt by (rule gt_asym)
  have kids: "\<not> gt (ws ! ?p) (ws ! k)" if "0 < k" "k < length ws" "parent k = ?p" "k \<noteq> i" for k
    using ok that unfolding up_ok_def by metis
  have "\<not> gt (?w ! parent k) (?w ! k)" if k: "0 < k" "k < length ws" "k \<noteq> ?p" for k
  proof -
    have pk: "parent k < length ws" using k by simp
    consider "k = i" | "k \<noteq> i" "parent k = i" | "k \<noteq> i" "parent k = ?p" | "k \<noteq> i" "parent k \<noteq> i" "parent k \<noteq> ?p"
      by blast
    then show ?thesis
    proof cases
      case 3
      then show ?thesis using gt_trans [OF below kids [OF k(1,2)]] k p nth [OF k(2)] nth [OF pk] by simp
    qed (use ok i k p pk below nth [OF k(2)] nth [OF pk] in \<open>auto simp: up_ok_def\<close>)
  qed
  moreover have "\<not> gt (?w ! parent ?p) (?w ! k)" if k: "0 < ?p" "0 < k" "k < length ws" "parent k = ?p" for k
  proof -
    have pp: "parent ?p < length ws" "parent ?p \<noteq> ?p" "parent ?p \<noteq> i"
      using k p i parent_less [OF i(1)] parent_less [OF k(1)] by auto
    have "\<not> gt (ws ! parent ?p) (ws ! ?p)" using ok k p by (auto simp: up_ok_def)
    then show ?thesis using gt_trans [OF _ kids [OF k(2-4)]] nth [OF k(3)] nth [OF pp(1)] pp k by auto
  qed
  ultimately show ?thesis by (simp add: up_ok_def)
qed

lemma up_done: "up_ok gt ws i \<Longrightarrow> \<not> (0 < i \<and> gt (ws ! parent i) (ws ! i)) \<Longrightarrow> is_heap gt ws"
  by (auto simp: up_ok_def is_heap_def)

lemma is_heap_sift_up: "up_ok gt ws i \<Longrightarrow> i < length ws \<Longrightarrow> is_heap gt (sift_up gt ws i)"
proof (induction i arbitrary: ws rule: less_induct)
  case (less i)
  show ?case
  proof (cases "0 < i \<and> gt (ws ! parent i) (ws ! i)")
    case True
    then have "is_heap gt (sift_up gt (exchange ws i (parent i)) (parent i))"
      using less.prems up_step [of ws i] by (intro less.IH) auto
    with True show ?thesis by (subst sift_up.simps) simp
  next
    case False
    with up_done [OF less.prems(1)] show ?thesis by (subst sift_up.simps) auto
  qed
qed

lemma least_child_le:
  assumes "0 < k" "k < length ws" "parent k = i"
  shows "\<not> gt (ws ! least_child gt ws i) (ws ! k)"
proof -
  have "k = 2 * i + 1 \<or> k = 2 * i + 2" using assms unfolding parent_def by linarith
  then show ?thesis using assms(2) gt_asym by (auto simp: least_child_def)
qed

lemma down_step:
  assumes ok: "down_ok gt ws i" and i: "2 * i + 1 < length ws"
    and gt: "\<not> gt (ws ! least_child gt ws i) (ws ! i)"
  shows "down_ok gt (exchange ws i (least_child gt ws i)) (least_child gt ws i)"
proof -
  let ?c = "least_child gt ws i" and ?w = "exchange ws i (least_child gt ws i)"
  have c: "?c < length ws" "i \<noteq> ?c" "parent ?c = i" "0 < ?c" and il: "i < length ws"
    using least_child [OF i, of gt] i by auto
  note nth = nth_exchange [OF il c(1)]
  have "\<not> gt (?w ! parent k) (?w ! k)" if k: "0 < k" "k < length ws" "parent k \<noteq> ?c" for k
  proof -
    have pk: "parent k < length ws" using k by simp
    consider "k = ?c" | "k \<noteq> ?c" "parent k = i" | "k = i" | "k \<noteq> ?c" "k \<noteq> i" "parent k \<noteq> i" by blast
    then show ?thesis
    proof cases
      case 1
      then show ?thesis using gt c nth [OF c(1)] nth [OF il] by simp
    next
      case 2
      then have "k \<noteq> i" using k(1) parent_neq [of k] by auto
      with 2 show ?thesis using least_child_le [OF k(1,2) 2(2)] c nth [OF k(2)] nth [OF il] by simp
    next
      case 3
      then have "\<not> gt (ws ! parent i) (ws ! ?c)" using ok c k(1) by (auto simp: down_ok_def)
      moreover have "parent i \<noteq> i" using 3 k(1) parent_neq by simp
      ultimately show ?thesis using 3 k c nth [OF il] nth [OF pk] by simp
    next
      case 4
      then show ?thesis using ok k nth [OF k(2)] nth [OF pk] by (simp add: down_ok_def)
    qed
  qed
  moreover have "\<not> gt (?w ! parent ?c) (?w ! k)" if k: "0 < k" "k < length ws" "parent k = ?c" for k
  proof -
    have "k \<noteq> ?c" using k(1,3) parent_neq [of k] by auto
    moreover have "i < ?c" using least_child [OF i, of gt] by simp
    then have "k \<noteq> i" using k(1,3) parent_less [of k] by auto
    moreover have "\<not> gt (ws ! ?c) (ws ! k)" using ok k c(2) unfolding down_ok_def by metis
    ultimately show ?thesis using c nth [OF k(2)] nth [OF il] by simp
  qed
  ultimately show ?thesis by (simp add: down_ok_def)
qed

lemma down_done:
  assumes ok: "down_ok gt ws i"
    and stop: "\<not> (2 * i + 1 < length ws \<and> \<not> gt (ws ! least_child gt ws i) (ws ! i))"
  shows "is_heap gt ws"
proof -
  have "\<not> gt (ws ! parent k) (ws ! k)" if k: "0 < k" "k < length ws" for k
  proof (cases "parent k = i")
    case True
    then have "2 * i + 1 < length ws" using k unfolding parent_def by linarith
    with stop have "\<not> gt (ws ! i) (ws ! least_child gt ws i)" using gt_asym by blast
    from gt_trans [OF this least_child_le [OF k True]] show ?thesis using True by simp
  qed (use ok k in \<open>simp add: down_ok_def\<close>)
  then show ?thesis by (simp add: is_heap_def)
qed

lemma is_heap_sift_down: "down_ok gt ws i \<Longrightarrow> i < length ws \<Longrightarrow> is_heap gt (sift_down gt ws i)"
proof (induction "length ws - i" arbitrary: i ws rule: less_induct)
  case less
  let ?c = "least_child gt ws i"
  show ?case
  proof (cases "2 * i + 1 < length ws \<and> \<not> gt (ws ! ?c) (ws ! i)")
    case True
    then have "is_heap gt (sift_down gt (exchange ws i ?c) ?c)"
      using less.prems least_child [of i ws gt] by (intro less.hyps down_step) auto
    with True show ?thesis by (subst sift_down.simps) simp
  next
    case False
    with down_done [OF less.prems(1) False] show ?thesis by (subst sift_down.simps) auto
  qed
qed

text \<open>The root of a heap is a minimum.\<close>

lemma heap_root: "is_heap gt ws \<Longrightarrow> i < length ws \<Longrightarrow> \<not> gt (ws ! 0) (ws ! i)"
proof (induction i rule: less_induct)
  case (less i)
  show ?case
  proof (cases "i = 0")
    case True
    then show ?thesis using gt_asym by blast
  next
    case False
    then have "\<not> gt (ws ! 0) (ws ! parent i)" "\<not> gt (ws ! parent i) (ws ! i)"
      using less by (auto simp: is_heap_def)
    then show ?thesis by (rule gt_trans)
  qed
qed

lemma heap_snoc: "is_heap gt ws \<Longrightarrow> up_ok gt (ws @ [v]) (length ws)"
  unfolding up_ok_def is_heap_def
proof (intro conjI allI impI)
  fix k
  assume "\<forall>i. 0 < i \<longrightarrow> i < length ws \<longrightarrow> \<not> gt (ws ! parent i) (ws ! i)"
    and k: "0 < k" "k < length (ws @ [v])" "k \<noteq> length ws"
  moreover have "k < length ws" "parent k < length ws" using k parent_less [of k] by auto
  ultimately show "\<not> gt ((ws @ [v]) ! parent k) ((ws @ [v]) ! k)" by (simp add: nth_append)
next
  fix k
  assume "0 < k" "k < length (ws @ [v])" "parent k = length ws"
  then show "\<not> gt ((ws @ [v]) ! parent (length ws)) ((ws @ [v]) ! k)" using parent_less [of k] by simp
qed

lemma heap_pop: "is_heap gt (ws @ [v]) \<Longrightarrow> down_ok gt (ws[0 := v]) 0"
  unfolding down_ok_def is_heap_def
proof (intro conjI allI impI)
  fix k
  assume "\<forall>i. 0 < i \<longrightarrow> i < length (ws @ [v]) \<longrightarrow> \<not> gt ((ws @ [v]) ! parent i) ((ws @ [v]) ! i)"
    and k: "0 < k" "k < length (ws[0 := v])" "parent k \<noteq> 0"
  moreover have "parent k < length ws" using k by simp
  ultimately show "\<not> gt (ws[0 := v] ! parent k) (ws[0 := v] ! k)"
    by (metis length_append_singleton length_list_update less_SucI nth_append nth_list_update_neq not_gr_zero)
qed simp

end

text \<open>Without a compare callback the values are ordered by address.\<close>

interpretation by_address: heap_order "heap_gt E None" for E :: "'v heap_env"
  by unfold_locales (simp_all add: heap_gt_def)

subsection \<open>Adding and removing\<close>

definition heap_values :: "'v heap \<Rightarrow> 'v list" where
  "heap_values h = map the (take (h_count h) (h_buckets h))"

abbreviation gt_of :: "'v heap_env \<Rightarrow> 'v heap \<Rightarrow> 'v \<Rightarrow> 'v \<Rightarrow> bool" where
  "gt_of E h \<equiv> heap_gt E (hcb_compare (h_callbacks h))"

definition heap_inv :: "'v heap_env \<Rightarrow> 'v heap \<Rightarrow> bool" where
  "heap_inv E h \<longleftrightarrow> h_mutable h \<and> length (h_buckets h) = h_capacity h \<and> h_count h \<le> h_capacity h \<and>
     None \<notin> set (take (h_count h) (h_buckets h)) \<and> is_heap (gt_of E h) (heap_values h)"

text \<open>The retain callback returns its argument, as \<^verbatim>\<open>CFRetain\<close> does.\<close>

definition heap_retains :: "'v heap_env \<Rightarrow> 'v heap \<Rightarrow> bool" where
  "heap_retains E h \<longleftrightarrow> (\<forall>f v. hcb_retain (h_callbacks h) = Some f \<longrightarrow> heap_retain E f v = v)"

lemma heap_buckets:
  assumes "heap_inv E h"
  obtains rest where "h_buckets h = map Some (heap_values h) @ rest" and "length (heap_values h) = h_count h"
    and "length rest = h_capacity h - h_count h"
proof -
  have "map Some (heap_values h) = take (h_count h) (h_buckets h)"
    unfolding heap_values_def using assms by (intro map_Some_the) (simp add: heap_inv_def)
  then have "h_buckets h = map Some (heap_values h) @ drop (h_count h) (h_buckets h)" by simp
  with assms that show thesis by (simp add: heap_values_def heap_inv_def)
qed

lemma heap_inv_intro:
  assumes "h_buckets h = map Some ws @ rest" "h_count h = length ws" "h_capacity h = length (h_buckets h)"
    and "h_mutable h" "is_heap (gt_of E h) ws"
  shows "heap_inv E h \<and> heap_values h = ws"
proof -
  have "heap_values h = ws" using assms by (simp add: heap_values_def comp_def)
  then show ?thesis using assms by (auto simp: heap_inv_def)
qed

lemma heap_round_up:
  assumes "n < 2 ^ 30"
  obtains c where "CFBinaryHeapRoundUpCapacity n = Some c" and "n \<le> c"
proof (cases "n < 4")
  case True
  then show thesis using that by (simp add: CFBinaryHeapRoundUpCapacity_def)
next
  case False
  have "flsl n \<le> 30" using assms by (rule flsl_le)
  then show thesis using that [of "2 ^ flsl n"] False less_pow_flsl [of n]
    by (simp add: CFBinaryHeapRoundUpCapacity_def)
qed

text \<open>The capacity check of \<^verbatim>\<open>CFBinaryHeapAddValue\<close> leaves a free bucket.\<close>

lemma make_room:
  assumes inv: "heap_inv E h" and small: "h_count h + 1 < 2 ^ 30"
  obtains h1 rest where
    "(if h_mutable h \<and> h_count h = h_capacity h then CFBinaryHeapGrow h 1 else Some h) = Some h1"
    and "h_buckets h1 = map Some (heap_values h) @ rest" and "rest \<noteq> []"
    and "h_capacity h1 = length (h_buckets h1)"
    and "h_callbacks h1 = h_callbacks h" and "h_count h1 = h_count h" and "h_trace h1 = h_trace h" and "h_mutable h1"
proof -
  from inv obtain rest where rest: "h_buckets h = map Some (heap_values h) @ rest"
    "length (heap_values h) = h_count h" "length rest = h_capacity h - h_count h" by (rule heap_buckets)
  have cap: "h_mutable h" "length (h_buckets h) = h_capacity h" "h_count h \<le> h_capacity h"
    using inv by (simp_all add: heap_inv_def)
  show thesis
  proof (cases "h_count h = h_capacity h")
    case True
    obtain c where c: "CFBinaryHeapRoundUpCapacity (h_count h + 1) = Some c" "h_count h + 1 \<le> c"
      using small by (rule heap_round_up)
    let ?h = "h\<lparr>h_capacity := c, h_buckets := h_buckets h @ replicate (c - h_capacity h) None\<rparr>"
    show thesis
      by (rule that [of ?h "rest @ replicate (c - h_capacity h) None"])
        (use c cap True rest in \<open>simp_all add: CFBinaryHeapGrow_def\<close>)
  next
    case False
    then have "rest \<noteq> []" using rest(3) cap by auto
    then show thesis using that [of h rest] False rest(1) cap by simp
  qed
qed

lemma add_value_spec:
  assumes inv: "heap_inv E h" and ord: "heap_order (gt_of E h)" and ret: "heap_retains E h"
    and small: "h_count h + 1 < 2 ^ 30"
  shows "\<exists>h'. CFBinaryHeapAddValue E h v = Some h' \<and> heap_inv E h' \<and> h_callbacks h' = h_callbacks h \<and>
    mset (heap_values h') = add_mset v (mset (heap_values h)) \<and> h_count h' = h_count h + 1 \<and>
    h_trace h' = h_trace h @ (if hcb_retain (h_callbacks h) = None then [] else [HRetained v])"
proof -
  let ?ws = "heap_values h" and ?gt = "gt_of E h" and ?n = "h_count h"
  have n: "length ?ws = ?n" and heap: "is_heap ?gt ?ws"
    using inv by (auto simp: heap_values_def heap_inv_def)
  obtain h1 rest where h1: "(if h_mutable h \<and> ?n = h_capacity h then CFBinaryHeapGrow h 1 else Some h) = Some h1"
    "h_buckets h1 = map Some ?ws @ rest" "rest \<noteq> []" "h_capacity h1 = length (h_buckets h1)"
    and fields: "h_callbacks h1 = h_callbacks h" "h_count h1 = ?n" "h_trace h1 = h_trace h" "h_mutable h1"
    using inv small by (rule make_room)
  obtain r rs where "rest = r # rs" using h1(3) by (cases rest) auto
  have last: "(?ws @ [v]) ! ?n = v" using n nth_append_length [of ?ws v "[]"] by simp
  have "(h_buckets h1)[?n := Some ((?ws @ [v]) ! ?n)] = map Some (?ws @ [v]) @ rs"
    using h1(2) n \<open>rest = r # rs\<close> unfolding last by (simp add: list_update_append)
  from add_loop_spec [OF this, of ?gt] n obtain m j where
    m: "add_loop ?gt (h_buckets h1) v ?n = Some (m, j)" "j < length m"
      "m[j := Some v] = map Some (sift_up ?gt (?ws @ [v]) ?n) @ rs" unfolding last by auto
  let ?us = "sift_up ?gt (?ws @ [v]) ?n"
  have us: "is_heap ?gt ?us" "length ?us = ?n + 1" "mset ?us = add_mset v (mset ?ws)"
    using heap_order.is_heap_sift_up [OF ord heap_order.heap_snoc [OF ord heap]] n by simp_all
  have ret': "(case hcb_retain (h_callbacks h) of None \<Rightarrow> v | Some f \<Rightarrow> heap_retain E f v) = v"
    using ret by (auto simp: heap_retains_def split: option.split)
  let ?h' = "h1\<lparr>h_count := ?n + 1, h_buckets := m[j := Some v],
      h_trace := h_trace h @ (if hcb_retain (h_callbacks h) = None then [] else [HRetained v])\<rparr>"
  have "CFBinaryHeapAddValue E h v = Some ?h'"
    unfolding CFBinaryHeapAddValue_def h1(1) Option.bind_lunit Let_def using m fields ret' by simp
  moreover have "length (m[j := Some v]) = length (h_buckets h1)"
    unfolding m(3) h1(2) using us n \<open>rest = r # rs\<close> by simp
  then have "heap_inv E ?h' \<and> heap_values ?h' = ?us"
    using m(3) us fields h1(4) by (intro heap_inv_intro) simp_all
  ultimately show ?thesis using us fields by simp
qed

lemma remove_minimum_spec:
  assumes inv: "heap_inv E h" and ord: "heap_order (gt_of E h)" and pos: "0 < h_count h"
  shows "\<exists>h'. CFBinaryHeapRemoveMinimumValue E h = Some h' \<and> heap_inv E h' \<and> h_callbacks h' = h_callbacks h \<and>
    mset (heap_values h) = add_mset (heap_values h ! 0) (mset (heap_values h')) \<and> h_count h' = h_count h - 1 \<and>
    h_trace h' = h_trace h @ (if hcb_release (h_callbacks h) = None then [] else [HReleased (heap_values h ! 0)])"
proof -
  let ?ws = "heap_values h" and ?gt = "gt_of E h" and ?n = "h_count h - 1"
  obtain rest where rest: "h_buckets h = map Some ?ws @ rest" "length ?ws = h_count h"
    using inv by (rule heap_buckets)
  have heap: "is_heap ?gt ?ws" and mut: "h_mutable h" and cap: "length (h_buckets h) = h_capacity h"
    using inv by (auto simp: heap_inv_def)
  obtain us v where us: "?ws = us @ [v]" using pos rest(2) by (cases ?ws rule: rev_cases) auto
  then have n: "length us = ?n" using rest(2) by simp
  have f: "fetch (h_buckets h) 0 = Some (?ws ! 0)" "fetch (h_buckets h) ?n = Some v"
    using rest pos n us by (auto simp: fetch_def nth_append)
  let ?tr = "h_trace h @ (if hcb_release (h_callbacks h) = None then [] else [HReleased (?ws ! 0)])"
  obtain m j xs where m: "remove_loop ?gt ?n v (h_buckets h) 0 = Some (m, j)" "j < length m"
      "m[j := Some v] = map Some xs @ Some v # rest \<or> us = [] \<and> xs = [] \<and> m[j := Some v] = map Some ?ws @ rest"
    and xs: "is_heap ?gt xs" "mset ?ws = add_mset (?ws ! 0) (mset xs)" "length xs = ?n"
  proof (cases "us = []")
    case True
    then have "remove_loop ?gt ?n v (h_buckets h) 0 = Some (h_buckets h, 0)"
      using n by (subst remove_loop.simps) simp
    then show thesis
      using True us rest(1) n by (intro that [of "h_buckets h" 0 "[]"]) (auto simp: is_heap_def)
  next
    case False
    then have v: "(us[0 := v]) ! 0 = v" "0 < length (us[0 := v])" "length (us[0 := v]) = ?n" using n by (cases us, simp_all)+
    have "(h_buckets h)[0 := Some ((us[0 := v]) ! 0)] = map Some (us[0 := v]) @ Some v # rest"
      unfolding v using rest(1) us False by (simp add: list_update_append map_update)
    from remove_loop_spec [OF this v(2), of ?gt] obtain m j where
      "remove_loop ?gt ?n v (h_buckets h) 0 = Some (m, j)" "j < length m"
      "m[j := Some v] = map Some (sift_down ?gt (us[0 := v]) 0) @ Some v # rest" unfolding v by blast
    moreover have "is_heap ?gt (sift_down ?gt (us[0 := v]) 0)"
      using heap_order.is_heap_sift_down [OF ord heap_order.heap_pop [OF ord]] heap us v(2) by simp
    moreover have "mset ?ws = add_mset (?ws ! 0) (mset (sift_down ?gt (us[0 := v]) 0))"
      using False v(2) us by (cases us) simp_all
    moreover have "length (sift_down ?gt (us[0 := v]) 0) = ?n" using length_sift(2) [OF v(2)] v(3) by simp
    ultimately show thesis
      by (intro that [of m j "sift_down ?gt (us[0 := v]) 0"]) simp_all
  qed
  let ?h' = "h\<lparr>h_count := ?n, h_buckets := m[j := Some v], h_trace := ?tr\<rparr>"
  have "CFBinaryHeapRemoveMinimumValue E h = Some ?h'"
    unfolding CFBinaryHeapRemoveMinimumValue_def Let_def f m(1) Option.bind_lunit using pos m(2) by simp
  moreover have "heap_inv E ?h' \<and> heap_values ?h' = xs"
  proof -
    obtain rest' where "m[j := Some v] = map Some xs @ rest'"
      using m(3) by (metis append_Nil list.simps(8))
    moreover have "length (m[j := Some v]) = length (map Some xs @ Some v # rest)"
      using m(3) us by (elim disjE conjE) (simp_all only: list.map append.simps)
    then have "length (m[j := Some v]) = h_capacity h" using xs(3) rest n us cap by simp
    ultimately show ?thesis using xs mut by (intro heap_inv_intro) simp_all
  qed
  ultimately show ?thesis using xs by simp
qed

subsection \<open>Priority queues\<close>

text \<open>\<open>drain\<close> is the loop \<^verbatim>\<open>while (0 < count) { value = minimum; remove minimum; ... }\<close> of
  \<^verbatim>\<open>CFBinaryHeapGetValues\<close> and \<^verbatim>\<open>CFBinaryHeapApplyFunction\<close>; \<open>f\<close> is its body.\<close>

partial_function (option) drain ::
    "('q \<Rightarrow> nat) \<Rightarrow> ('q \<Rightarrow> 'v option) \<Rightarrow> ('q \<Rightarrow> 'q option) \<Rightarrow> ('v \<Rightarrow> 's \<Rightarrow> 's) \<Rightarrow> 'q \<Rightarrow> 's \<Rightarrow> 's option" where
  "drain cnt minimum remove f q acc =
     (if 0 < cnt q
      then do { v \<leftarrow> minimum q; q' \<leftarrow> remove q; drain cnt minimum remove f q' (f v acc) }
      else Some acc)"

locale priority_queue =
  fixes ok :: "'q \<Rightarrow> bool"
    and elems :: "'q \<Rightarrow> 'v multiset"
    and cnt :: "'q \<Rightarrow> nat"
    and minimum :: "'q \<Rightarrow> 'v option"
    and remove :: "'q \<Rightarrow> 'q option"
    and before :: "'v \<Rightarrow> 'v \<Rightarrow> bool"
  assumes cnt_size: "ok q \<Longrightarrow> cnt q = size (elems q)"
    and minimum_ok: "ok q \<Longrightarrow> 0 < cnt q \<Longrightarrow> \<exists>x. minimum q = Some x \<and> (\<forall>y \<in># elems q. before x y)"
    and remove_ok: "ok q \<Longrightarrow> minimum q = Some x \<Longrightarrow> 0 < cnt q \<Longrightarrow>
      \<exists>q'. remove q = Some q' \<and> ok q' \<and> elems q = add_mset x (elems q')"
begin

text \<open>Draining returns, and passes the elements to the loop body in order.\<close>

lemma drain_spec:
  "ok q \<Longrightarrow> \<exists>xs. drain cnt minimum remove f q acc = Some (fold f xs acc) \<and> mset xs = elems q \<and>
     sorted_wrt before xs"
proof (induction "cnt q" arbitrary: q acc)
  case 0
  then have "elems q = {#}" using cnt_size [of q] by simp
  then show ?case using 0 by (subst drain.simps) (auto intro: exI [of _ "[]"])
next
  case (Suc n)
  then have pos: "0 < cnt q" by simp
  obtain x where x: "minimum q = Some x" "\<forall>y \<in># elems q. before x y"
    using minimum_ok [OF Suc.prems pos] by blast
  obtain q' where q': "remove q = Some q'" "ok q'" "elems q = add_mset x (elems q')"
    using remove_ok [OF Suc.prems x(1) pos] by blast
  have "n = cnt q'" using Suc.hyps(2) cnt_size [OF Suc.prems] cnt_size [OF q'(2)] q'(3) by simp
  from Suc.hyps(1) [OF this q'(2), of "f x acc"] obtain xs where
    xs: "drain cnt minimum remove f q' (f x acc) = Some (fold f xs (f x acc))" "mset xs = elems q'"
      "sorted_wrt before xs" by blast
  have "sorted_wrt before (x # xs)" using xs(2,3) x(2) q'(3) by (auto simp flip: set_mset_mset)
  then show ?case using pos x(1) q' xs
    by (intro exI [of _ "x # xs"]) (subst drain.simps, simp)
qed

end

text \<open>The heap is a priority queue whenever its comparison is an order.\<close>

definition pq_ok :: "'v heap_env \<Rightarrow> fptr option \<Rightarrow> 'v heap \<Rightarrow> bool" where
  "pq_ok E cmp h \<longleftrightarrow> heap_inv E h \<and> hcb_compare (h_callbacks h) = cmp \<and> heap_order (heap_gt E cmp)"

definition pq_elems :: "'v heap \<Rightarrow> 'v multiset" where
  "pq_elems h = mset (heap_values h)"

lemma length_heap_values: "heap_inv E h \<Longrightarrow> length (heap_values h) = h_count h"
  by (auto simp: heap_inv_def heap_values_def)

lemma get_minimum:
  assumes "heap_inv E h" and "0 < h_count h"
  shows "CFBinaryHeapGetMinimum h = Some (heap_values h ! 0)"
proof -
  obtain rest where "h_buckets h = map Some (heap_values h) @ rest" "length (heap_values h) = h_count h"
    using assms(1) by (rule heap_buckets)
  then show ?thesis using assms(2) by (simp add: CFBinaryHeapGetMinimum_def fetch_def nth_append)
qed

interpretation bheap: priority_queue "pq_ok E cmp" pq_elems CFBinaryHeapGetCount CFBinaryHeapGetMinimum
  "CFBinaryHeapRemoveMinimumValue E" "\<lambda>x y. \<not> heap_gt E cmp x y" for E :: "'v heap_env" and cmp
proof
  fix h :: "'v heap"
  assume ok: "pq_ok E cmp h"
  then have inv: "heap_inv E h" and ord: "heap_order (gt_of E h)" and c: "hcb_compare (h_callbacks h) = cmp"
    by (auto simp: pq_ok_def)
  show "CFBinaryHeapGetCount h = size (pq_elems h)"
    using length_heap_values [OF inv] by (simp add: CFBinaryHeapGetCount_def pq_elems_def)
  {
    assume pos: "0 < CFBinaryHeapGetCount h"
    then have p: "0 < h_count h" by (simp add: CFBinaryHeapGetCount_def)
    have "\<not> heap_gt E cmp (heap_values h ! 0) y" if "y \<in># pq_elems h" for y
      using that heap_order.heap_root [OF ord] inv c by (auto simp: pq_elems_def in_set_conv_nth heap_inv_def)
    then show "\<exists>x. CFBinaryHeapGetMinimum h = Some x \<and> (\<forall>y \<in># pq_elems h. \<not> heap_gt E cmp x y)"
      using get_minimum [OF inv p] by blast
    fix x
    assume "CFBinaryHeapGetMinimum h = Some x"
    then have "x = heap_values h ! 0" using get_minimum [OF inv p] by simp
    then show "\<exists>h'. CFBinaryHeapRemoveMinimumValue E h = Some h' \<and> pq_ok E cmp h' \<and> pq_elems h = add_mset x (pq_elems h')"
      using remove_minimum_spec [OF inv ord p] ord c by (auto simp: pq_ok_def pq_elems_def)
  }
qed

subsection \<open>Reading all values\<close>

definition CFBinaryHeapGetValues :: "'v heap_env \<Rightarrow> 'v heap \<Rightarrow> 'v list option" where
  "CFBinaryHeapGetValues E h =
     (if h_count h = 0 then Some []
      else do { heapCopy \<leftarrow> CFBinaryHeapCreateCopy E h;
                drain CFBinaryHeapGetCount CFBinaryHeapGetMinimum (CFBinaryHeapRemoveMinimumValue E)
                  (\<lambda>v values. values @ [v]) heapCopy [] })"

definition CFBinaryHeapApplyFunction :: "'v heap_env \<Rightarrow> 'v heap \<Rightarrow> ('v \<Rightarrow> 's \<Rightarrow> 's) \<Rightarrow> 's \<Rightarrow> 's option" where
  "CFBinaryHeapApplyFunction E h applier ctx =
     (if h_count h = 0 then Some ctx
      else do { heapCopy \<leftarrow> CFBinaryHeapCreateCopy E h;
                drain CFBinaryHeapGetCount CFBinaryHeapGetMinimum (CFBinaryHeapRemoveMinimumValue E)
                  applier heapCopy ctx })"

text \<open>The loop of \<^verbatim>\<open>__CFBinaryHeapEqual\<close>: it takes the comparison result for a boolean.\<close>

fun heap_equal_loop :: "'v heap_env \<Rightarrow> fptr option \<Rightarrow> 'v list \<Rightarrow> 'v list \<Rightarrow> bool" where
  "heap_equal_loop E cmp (val1 # list1) (val2 # list2) =
     (if val1 \<noteq> val2 then
        (case cmp of None \<Rightarrow> False
         | Some f \<Rightarrow> if heap_compare E f val1 val2 = 0 then False else heap_equal_loop E cmp list1 list2)
      else heap_equal_loop E cmp list1 list2)"
| "heap_equal_loop E cmp _ _ = True"

definition CFBinaryHeapEqual :: "'v heap_env \<Rightarrow> 'v heap \<Rightarrow> 'v heap \<Rightarrow> bool option" where
  "CFBinaryHeapEqual E heap1 heap2 =
     (let compare = hcb_compare (h_callbacks heap1) in
      if h_count heap1 \<noteq> h_count heap2 then Some False
      else if compare \<noteq> hcb_compare (h_callbacks heap2) then Some False
      else if h_count heap1 = 0 then Some True
      else do { list1 \<leftarrow> CFBinaryHeapGetValues E heap1;
                list2 \<leftarrow> CFBinaryHeapGetValues E heap2;
                Some (heap_equal_loop E compare list1 list2) })"

definition CFBinaryHeapHash :: "'v heap \<Rightarrow> nat" where
  "CFBinaryHeapHash h = h_count h"

lemma add_values_spec:
  "heap_inv E h \<Longrightarrow> heap_order (gt_of E h) \<Longrightarrow> heap_retains E h \<Longrightarrow> h_count h + length vs < 2 ^ 30 \<Longrightarrow>
   \<exists>h'. add_values E h vs = Some h' \<and> heap_inv E h' \<and> h_callbacks h' = h_callbacks h \<and>
     mset (heap_values h') = mset (heap_values h) + mset vs"
proof (induction vs arbitrary: h)
  case Nil
  then show ?case by simp
next
  case (Cons v vs)
  then obtain h1 where h1: "CFBinaryHeapAddValue E h v = Some h1" "heap_inv E h1" "h_callbacks h1 = h_callbacks h"
    "mset (heap_values h1) = add_mset v (mset (heap_values h))" "h_count h1 = h_count h + 1"
    using add_value_spec [OF Cons.prems(1-3), of v] by auto
  have "heap_order (gt_of E h1)" "heap_retains E h1" "h_count h1 + length vs < 2 ^ 30"
    using Cons.prems h1 by (simp_all add: heap_retains_def)
  from Cons.IH [OF h1(2) this] h1 show ?case by auto
qed

text \<open>A heap is created from values in any order.\<close>

lemma init_spec:
  fixes vs :: "'v list"
  assumes "heap_order (heap_gt E (hcb_compare cb))" and "\<And>f v. hcb_retain cb = Some f \<Longrightarrow> heap_retain E f v = v"
    and "length vs < 2 ^ 30"
  shows "\<exists>h. CFBinaryHeapInit E vs (Some cb) = Some h \<and> heap_inv E h \<and> h_callbacks h = cb \<and>
    mset (heap_values h) = mset vs"
proof -
  let ?h = "\<lparr>h_count = 0, h_capacity = 4, h_callbacks = cb, h_buckets = replicate 4 None, h_mutable = True,
      h_trace = []\<rparr> :: 'v heap"
  have "heap_inv E ?h" by (simp add: heap_inv_def heap_values_def is_heap_def)
  moreover have "heap_values ?h = []" by (simp add: heap_values_def)
  ultimately show ?thesis
    using add_values_spec [of E ?h vs] assms
    by (simp add: CFBinaryHeapInit_def CFBinaryHeapRoundUpCapacity_def heap_retains_def)
qed

lemma read_values_spec: "m = pre @ map Some vs @ rest \<Longrightarrow> read_values m (length pre) (length vs) = Some vs"
proof (induction vs arbitrary: pre)
  case (Cons v vs)
  then show ?case using Cons.IH [of "pre @ [Some v]"] by (simp add: fetch_def)
qed simp

lemma create_copy_heap:
  assumes inv: "heap_inv E h" and ord: "heap_order (gt_of E h)" and ret: "heap_retains E h"
    and small: "h_count h < 2 ^ 30"
  shows "\<exists>c. CFBinaryHeapCreateCopy E h = Some c \<and> pq_ok E (hcb_compare (h_callbacks h)) c \<and> pq_elems c = pq_elems h"
proof -
  obtain rest where rest: "h_buckets h = [] @ map Some (heap_values h) @ rest" "length (heap_values h) = h_count h"
    using inv by (elim heap_buckets) simp
  then have "read_values (h_buckets h) 0 (h_count h) = Some (heap_values h)"
    using read_values_spec [OF rest(1)] by simp
  then show ?thesis using init_spec [of E "h_callbacks h" "heap_values h"] ord ret small rest(2)
    by (auto simp: CFBinaryHeapCreateCopy_def pq_ok_def pq_elems_def heap_retains_def)
qed

lemma fold_snoc: "fold (\<lambda>v values. values @ [v]) xs acc = acc @ xs"
  by (induction xs arbitrary: acc) simp_all

lemma drain_copy:
  assumes "heap_inv E h" "heap_order (gt_of E h)" "heap_retains E h" "h_count h < 2 ^ 30"
  shows "\<exists>c xs. CFBinaryHeapCreateCopy E h = Some c \<and> mset xs = mset (heap_values h) \<and>
    sorted_wrt (\<lambda>x y. \<not> gt_of E h x y) xs \<and>
    drain CFBinaryHeapGetCount CFBinaryHeapGetMinimum (CFBinaryHeapRemoveMinimumValue E) f c acc =
      Some (fold f xs acc)"
proof -
  obtain c where c: "CFBinaryHeapCreateCopy E h = Some c" "pq_ok E (hcb_compare (h_callbacks h)) c"
    "pq_elems c = pq_elems h"
    using create_copy_heap [OF assms] by blast
  from bheap.drain_spec [OF c(2), of f acc] c show ?thesis unfolding pq_elems_def by auto
qed

subsection \<open>Properties\<close>

text \<open>C38: adding a value to a heap and removing its minimum do to the multiset of its values what a
  priority queue does, keep the heap order, and never read a bucket that was not written; the
  minimum returned is least under the comparison.\<close>

theorem heap_is_priority_queue:
  assumes "heap_inv E h" and "heap_order (gt_of E h)" and "heap_retains E h" and "h_count h + 1 < 2 ^ 30"
  shows "(\<exists>h'. CFBinaryHeapAddValue E h v = Some h' \<and> heap_inv E h' \<and>
            mset (heap_values h') = add_mset v (mset (heap_values h))) \<and>
    (if h_count h = 0 then CFBinaryHeapRemoveMinimumValue E h = Some h
     else \<exists>x h'. CFBinaryHeapGetMinimum h = Some x \<and> (\<forall>y. y \<in># mset (heap_values h') \<longrightarrow> \<not> gt_of E h x y) \<and>
            CFBinaryHeapRemoveMinimumValue E h = Some h' \<and> heap_inv E h' \<and>
            mset (heap_values h) = add_mset x (mset (heap_values h')))"
proof (cases "h_count h = 0")
  case True
  then show ?thesis using add_value_spec [OF assms, of v] by (auto simp: CFBinaryHeapRemoveMinimumValue_def)
next
  case False
  then obtain h' where h': "CFBinaryHeapRemoveMinimumValue E h = Some h'" "heap_inv E h'"
    "mset (heap_values h) = add_mset (heap_values h ! 0) (mset (heap_values h'))"
    using remove_minimum_spec [OF assms(1,2)] by auto
  have "\<not> gt_of E h (heap_values h ! 0) y" if "y \<in># mset (heap_values h')" for y
  proof -
    have "y \<in># mset (heap_values h)" using that h'(3) by simp
    then show ?thesis using heap_order.heap_root [OF assms(2)] assms(1)
      by (auto simp: in_set_conv_nth heap_inv_def)
  qed
  then show ?thesis using add_value_spec [OF assms, of v] get_minimum [OF assms(1)] False h' by auto
qed

definition int_heap_env :: "int heap_env" where
  "int_heap_env = \<lparr>heap_retain = (\<lambda>f v. v), heap_compare = (\<lambda>f x y. sgn (x - y)), heap_addr = nat\<rparr>"

definition int_heap :: "int list \<Rightarrow> int heap" where
  "int_heap vs = \<lparr>h_count = length vs, h_capacity = length vs,
     h_callbacks = \<lparr>hcb_retain = Some 1, hcb_release = Some 2, hcb_compare = Some 3\<rparr>,
     h_buckets = map Some vs, h_mutable = True, h_trace = []\<rparr>"

lemma int_heap_gt: "gt_of int_heap_env (int_heap vs) x y \<longleftrightarrow> y < x"
  by (simp add: heap_gt_def int_heap_def int_heap_env_def kCFCompareGreaterThan_def sgn_if)

lemma int_heap_facts:
  "heap_order (gt_of int_heap_env (int_heap vs))" "heap_retains int_heap_env (int_heap vs)"
  "heap_values (int_heap vs) = vs" "h_count (int_heap vs) = length vs"
  "heap_inv int_heap_env (int_heap vs) \<longleftrightarrow> is_heap (\<lambda>x y. y < x) vs"
proof -
  have gt: "gt_of int_heap_env (int_heap vs) = (\<lambda>x y. y < x)" by (intro ext) (rule int_heap_gt)
  show "heap_order (gt_of int_heap_env (int_heap vs))" unfolding gt by unfold_locales auto
  show "heap_values (int_heap vs) = vs" by (simp add: heap_values_def int_heap_def comp_def)
  then show "heap_inv int_heap_env (int_heap vs) \<longleftrightarrow> is_heap (\<lambda>x y. y < x) vs"
    unfolding heap_inv_def gt by (auto simp: int_heap_def)
qed (simp_all add: int_heap_def heap_retains_def int_heap_env_def)

lemma is_heap_123: "is_heap (\<lambda>x y. y < x) [1, 3, 2 :: int]"
proof -
  have "\<not> [1, 3, 2] ! k < [1, 3, 2 :: int] ! parent k" if "0 < k" "k < 3" for k
  proof -
    have "k = 1 \<or> k = 2" using that by linarith
    then show ?thesis by (auto simp: parent_def)
  qed
  then show ?thesis by (simp add: is_heap_def)
qed

lemma heap_is_priority_queue_witness:
  "(\<exists>h'. CFBinaryHeapAddValue int_heap_env (int_heap [1, 3, 2]) 0 = Some h' \<and> heap_inv int_heap_env h' \<and>
      mset (heap_values h') = {#0, 1, 3, 2#}) \<and>
   (\<exists>h'. CFBinaryHeapRemoveMinimumValue int_heap_env (int_heap [1, 3, 2]) = Some h' \<and>
      mset [1, 3, 2] = add_mset 1 (mset (heap_values h')))"
proof -
  have "heap_inv int_heap_env (int_heap [1, 3, 2])" using is_heap_123 by (simp add: int_heap_facts)
  from heap_is_priority_queue [OF this int_heap_facts(1,2), of 0] get_minimum [OF this] show ?thesis
    by (auto simp: int_heap_facts)
qed

text \<open>\<^verbatim>\<open>CFBinaryHeapGetValues\<close> returns all the values of a heap in ascending order.\<close>

theorem heap_get_values_sorted:
  assumes "heap_inv E h" and "heap_order (gt_of E h)" and "heap_retains E h" and "h_count h < 2 ^ 30"
  shows "\<exists>xs. CFBinaryHeapGetValues E h = Some xs \<and> mset xs = mset (heap_values h) \<and>
    sorted_wrt (\<lambda>x y. \<not> gt_of E h x y) xs"
  using drain_copy [OF assms, of "\<lambda>v values. values @ [v]" "[]"] length_heap_values [OF assms(1)]
  by (auto simp: CFBinaryHeapGetValues_def fold_snoc)

lemma heap_get_values_sorted_witness:
  "\<exists>xs. CFBinaryHeapGetValues int_heap_env (int_heap [1, 3, 2]) = Some xs \<and> mset xs = {#1, 3, 2#} \<and> sorted_wrt (\<le>) xs"
  using heap_get_values_sorted [of int_heap_env "int_heap [1, 3, 2]"] is_heap_123
  by (simp add: int_heap_facts int_heap_gt not_less)

text \<open>\<^verbatim>\<open>__CFBinaryHeapEqual\<close> reads the comparison result as a boolean, so that two heaps with no
  value in common are equal as soon as no two of their values in order compare as equal.\<close>

theorem heap_equal_inverted:
  assumes "heap_inv E h" "heap_inv E k" and "heap_order (gt_of E h)" and "heap_retains E h" "heap_retains E k"
    and "h_count h < 2 ^ 30" and "hcb_compare (h_callbacks h) = Some f" "hcb_compare (h_callbacks k) = Some f"
    and "h_count k = h_count h"
    and "\<And>x y. x \<in> set (heap_values h) \<Longrightarrow> y \<in> set (heap_values k) \<Longrightarrow> heap_compare E f x y \<noteq> 0"
  shows "CFBinaryHeapEqual E h k = Some True"
proof -
  have loop: "heap_equal_loop E (Some f) xs ys"
    if "\<And>x y. x \<in> set xs \<Longrightarrow> y \<in> set ys \<Longrightarrow> heap_compare E f x y \<noteq> 0" for xs ys
    using that by (induction E "Some f" xs ys rule: heap_equal_loop.induct) auto
  obtain xs where xs: "CFBinaryHeapGetValues E h = Some xs" "mset xs = mset (heap_values h)"
    using heap_get_values_sorted [OF assms(1,3,4,6)] by blast
  obtain ys where ys: "CFBinaryHeapGetValues E k = Some ys" "mset ys = mset (heap_values k)"
    using heap_get_values_sorted [OF assms(2) _ assms(5)] assms(3,6-9) by auto
  have "heap_equal_loop E (Some f) xs ys"
    using assms(10) mset_eq_setD [OF xs(2)] mset_eq_setD [OF ys(2)] by (intro loop) auto
  then show ?thesis using xs ys assms(7-9) by (simp add: CFBinaryHeapEqual_def)
qed

lemma heap_equal_inverted_witness:
  "CFBinaryHeapEqual int_heap_env (int_heap [1]) (int_heap [2]) = Some True"
  by (rule heap_equal_inverted [where f = 3])
    (simp_all add: int_heap_facts is_heap_def, simp_all add: int_heap_def int_heap_env_def)

end
