(* ===== verification/CFBitVector.thy ===== *)
theory CFBitVector
  imports Prelude "HOL-Library.Word"
begin

unbundle bit_operations_syntax

text \<open>
  \<^verbatim>\<open>CFBitVector.c\<close>: bits packed in byte buckets, bit 0 the most significant bit of the first bucket.
  Buckets are \<open>8 word\<close>s; a mapper of \<^verbatim>\<open>__CFBitVectorInternalMap\<close> is a function on its context, the
  bucket value and the mask. \<^verbatim>\<open>CFBit\<close> is an unsigned number. Descriptions, allocation failures and
  the garbage-collector calls are not modelled.
\<close>

subsection \<open>Data\<close>

type_synonym bucket8 = "8 word"

datatype bv_variety = BVImmutable | BVMutable

record bitvector =
  bv_count :: nat
  bv_capacity :: nat
  bv_buckets :: "bucket8 list"
  bv_variety :: bv_variety

definition CFBitVectorRoundUpCapacity :: "nat \<Rightarrow> nat" where
  "CFBitVectorRoundUpCapacity cap = ((if cap = 0 then 1 else cap) + 63) div 64 * 64"

definition CFBitVectorNumBuckets :: "bitvector \<Rightarrow> nat" where
  "CFBitVectorNumBuckets bv = bv_capacity bv div 8 + 1"

definition CFBitBucketMask :: "nat \<Rightarrow> nat \<Rightarrow> bucket8" where
  "CFBitBucketMask bottomBit topBit =
     (let shiftL = 8 - topBit + bottomBit - 1 in drop_bit bottomBit (push_bit shiftL (NOT 0)))"

definition CFBitVectorBit :: "bucket8 list \<Rightarrow> nat \<Rightarrow> nat option" where
  "CFBitVectorBit bs idx =
     do { b \<leftarrow> peek bs (idx div 8); Some (unat (drop_bit (8 - 1 - idx mod 8) b AND 1)) }"

definition CFSetBitVectorBit :: "bucket8 list \<Rightarrow> nat \<Rightarrow> nat \<Rightarrow> bucket8 list option" where
  "CFSetBitVectorBit bs idx value =
     do { b \<leftarrow> peek bs (idx div 8);
          poke bs (idx div 8)
            (if value \<noteq> 0 then b OR push_bit (8 - 1 - idx mod 8) 1
             else b AND NOT (push_bit (8 - 1 - idx mod 8) 1)) }"

definition CFFlipBitVectorBit :: "bucket8 list \<Rightarrow> nat \<Rightarrow> bucket8 list option" where
  "CFFlipBitVectorBit bs idx =
     do { b \<leftarrow> peek bs (idx div 8); poke bs (idx div 8) (b XOR push_bit (8 - 1 - idx mod 8) 1) }"

fun bv_equal_loop :: "bucket8 list \<Rightarrow> bucket8 list \<Rightarrow> nat \<Rightarrow> nat \<Rightarrow> bool option" where
  "bv_equal_loop bs1 bs2 idx 0 = Some True"
| "bv_equal_loop bs1 bs2 idx (Suc n) =
     do { val1 \<leftarrow> peek bs1 idx;
          val2 \<leftarrow> peek bs2 idx;
          if val1 \<noteq> val2 then Some False else bv_equal_loop bs1 bs2 (idx + 1) n }"

definition CFBitVectorEqual :: "bitvector \<Rightarrow> bitvector \<Rightarrow> bool option" where
  "CFBitVectorEqual bv1 bv2 =
     (if bv_count bv1 \<noteq> bv_count bv2 then Some False
      else if bv_count bv1 = 0 then Some True
      else bv_equal_loop (bv_buckets bv1) (bv_buckets bv2) 0 (bv_count bv1 div 8 + 1))"

definition CFBitVectorHash :: "bitvector \<Rightarrow> nat" where
  "CFBitVectorHash bv = bv_count bv"

definition CFBitVectorInit :: "bv_variety \<Rightarrow> bucket8 list option \<Rightarrow> nat \<Rightarrow> bitvector option" where
  "CFBitVectorInit flags bytes numBits =
     (let cap = CFBitVectorRoundUpCapacity numBits;
          zero = replicate (cap div 8 + 1) 0 in
      do { bs \<leftarrow> (case bytes of None \<Rightarrow> Some zero
                  | Some src \<Rightarrow> memmove zero 0 src 0 (numBits div 8 + (if numBits mod 8 \<noteq> 0 then 1 else 0)));
           Some \<lparr>bv_count = numBits, bv_capacity = cap, bv_buckets = bs, bv_variety = flags\<rparr> })"

definition CFBitVectorCreate :: "bucket8 list \<Rightarrow> nat \<Rightarrow> bitvector option" where
  "CFBitVectorCreate bytes numBits = CFBitVectorInit BVImmutable (Some bytes) numBits"

definition CFBitVectorCreateMutable :: "bitvector option" where
  "CFBitVectorCreateMutable = CFBitVectorInit BVMutable None 0"

definition CFBitVectorCreateCopy :: "bitvector \<Rightarrow> bitvector option" where
  "CFBitVectorCreateCopy bv = CFBitVectorInit BVImmutable (Some (bv_buckets bv)) (bv_count bv)"

definition CFBitVectorCreateMutableCopy :: "bitvector \<Rightarrow> bitvector option" where
  "CFBitVectorCreateMutableCopy bv = CFBitVectorInit BVMutable (Some (bv_buckets bv)) (bv_count bv)"

definition CFBitVectorGetCount :: "bitvector \<Rightarrow> nat" where
  "CFBitVectorGetCount bv = bv_count bv"

subsection \<open>Mapping over a range of bits\<close>

type_synonym 'c mapper = "'c \<Rightarrow> bucket8 \<Rightarrow> bucket8 \<Rightarrow> (bucket8 \<times> 'c) option"

text \<open>One bucket through the mapper, only the bits of the mask replaced.\<close>

definition map_bucket :: "'c mapper \<Rightarrow> bucket8 list \<Rightarrow> 'c \<Rightarrow> nat \<Rightarrow> bucket8 \<Rightarrow> (bucket8 list \<times> 'c) option" where
  "map_bucket mapper bs ctx k msk =
     do { b \<leftarrow> peek bs k;
          (new, ctx') \<leftarrow> mapper ctx b msk;
          bs' \<leftarrow> poke bs k ((b AND NOT msk) OR (new AND msk));
          Some (bs', ctx') }"

fun map_full :: "'c mapper \<Rightarrow> bucket8 list \<Rightarrow> 'c \<Rightarrow> nat \<Rightarrow> nat \<Rightarrow> (bucket8 list \<times> 'c) option" where
  "map_full mapper bs ctx k 0 = Some (bs, ctx)"
| "map_full mapper bs ctx k (Suc n) =
     do { b \<leftarrow> peek bs k;
          (new, ctx') \<leftarrow> mapper ctx b (NOT 0);
          bs' \<leftarrow> poke bs k new;
          map_full mapper bs' ctx' (k + 1) n }"

definition CFBitVectorInternalMap ::
    "bucket8 list \<Rightarrow> nat \<Rightarrow> nat \<Rightarrow> 'c mapper \<Rightarrow> 'c \<Rightarrow> (bucket8 list \<times> 'c) option" where
  "CFBitVectorInternalMap bs loc len mapper ctx =
     (if len = 0 then Some (bs, ctx)
      else do {
        let k = loc div 8;
        let bitOfBucket = loc mod 8;
        let (msk, len1) =
          (if bitOfBucket + len < 8 then (CFBitBucketMask bitOfBucket (bitOfBucket + len - 1), 0)
           else (CFBitBucketMask bitOfBucket 7, len - (8 - bitOfBucket)));
        (bs1, ctx1) \<leftarrow> map_bucket mapper bs ctx k msk;
        let nBuckets = len1 div 8;
        let len2 = len1 - nBuckets * 8;
        (bs2, ctx2) \<leftarrow> map_full mapper bs1 ctx1 (k + 1) nBuckets;
        if len2 \<noteq> 0 then map_bucket mapper bs2 ctx2 (k + 1 + nBuckets) (CFBitBucketMask 0 (len2 - 1))
        else Some (bs2, ctx2) })"

subsection \<open>The mappers\<close>

definition NibbleBitCount :: "nat list" where
  "NibbleBitCount = [0, 1, 1, 2, 1, 2, 2, 3, 1, 2, 2, 3, 2, 3, 3, 4]"

text \<open>The context of \<^verbatim>\<open>__CFBitVectorCountBits\<close> is the value looked for and the count so far.\<close>

definition CFBitVectorCountBits :: "(nat \<times> nat) mapper" where
  "CFBitVectorCountBits ctx b msk =
     (let (value, cnt) = ctx;
          val = (if value \<noteq> 0 then b AND msk else NOT b AND msk);
          cnt1 = cnt + NibbleBitCount ! unat (val AND 0xF);
          val1 = drop_bit 4 val;
          cnt2 = cnt1 + NibbleBitCount ! unat (val1 AND 0xF) in
      Some (b, (value, cnt2)))"

definition CFBitVectorZeroBits :: "unit mapper" where
  "CFBitVectorZeroBits ctx b msk = Some (0, ctx)"

definition CFBitVectorOneBits :: "unit mapper" where
  "CFBitVectorOneBits ctx b msk = Some (NOT 0, ctx)"

definition CFBitVectorFlipMapper :: "unit mapper" where
  "CFBitVectorFlipMapper ctx b msk = Some (NOT 0 XOR b, ctx)"

record get_bits_context =
  gb_bytes :: "bucket8 list"
  gb_curByte :: nat
  gb_initBits :: nat
  gb_totalBits :: int
  gb_ignoreFirstInitBits :: bool

text \<open>The loop that stores whole bytes; with one-byte buckets it runs at most once.\<close>

function get_bits_loop :: "bucket8 \<Rightarrow> nat \<Rightarrow> get_bits_context \<Rightarrow> (bucket8 \<times> nat \<times> get_bits_context) option" where
  "get_bits_loop val nBits ctx =
     (if 8 \<le> nBits then
        do { bytes \<leftarrow> poke (gb_bytes ctx) (gb_curByte ctx) val;
             get_bits_loop 0 (nBits - 8)
               (ctx\<lparr>gb_bytes := bytes, gb_curByte := gb_curByte ctx + 1,
                    gb_totalBits := gb_totalBits ctx - int (gb_initBits ctx)\<rparr>) }
      else Some (val, nBits, ctx))"
  by pat_completeness auto
termination
  by (relation "measure (\<lambda>(val, nBits, ctx). nBits)") auto

declare get_bits_loop.simps [simp del]

definition CFBitVectorGetBitsMapper :: "get_bits_context mapper" where
  "CFBitVectorGetBitsMapper ctx b msk =
     do { let val = b AND msk;
          let nBits = nat (min (8 - int (gb_initBits ctx)) (gb_totalBits ctx));
          (val1, ctx1) \<leftarrow>
            (if 0 < gb_initBits ctx then
               do { ctx' \<leftarrow> (if \<not> gb_ignoreFirstInitBits ctx then
                      do { cur \<leftarrow> peek (gb_bytes ctx) (gb_curByte ctx);
                           bytes \<leftarrow> poke (gb_bytes ctx) (gb_curByte ctx) (cur OR drop_bit (8 - gb_initBits ctx) val);
                           Some (ctx\<lparr>gb_bytes := bytes, gb_curByte := gb_curByte ctx + 1,
                                    gb_totalBits := gb_totalBits ctx - int (gb_initBits ctx),
                                    gb_ignoreFirstInitBits := False\<rparr>) }
                    else Some ctx);
                    Some (push_bit (gb_initBits ctx) val, ctx') }
             else Some (val, ctx));
          (val2, nBits2, ctx2) \<leftarrow> get_bits_loop val1 nBits ctx1;
          if 0 < nBits2 then
            do { bytes \<leftarrow> poke (gb_bytes ctx2) (gb_curByte ctx2) val2;
                 Some (b, ctx2\<lparr>gb_bytes := bytes, gb_totalBits := gb_totalBits ctx2 - int nBits2\<rparr>) }
          else Some (b, ctx2) }"

subsection \<open>Operations\<close>

definition CFBitVectorGetCountOfBit :: "bitvector \<Rightarrow> nat \<Rightarrow> nat \<Rightarrow> nat \<Rightarrow> nat option" where
  "CFBitVectorGetCountOfBit bv loc len value =
     (if len = 0 then Some 0
      else do { (_, (_, cnt)) \<leftarrow> CFBitVectorInternalMap (bv_buckets bv) loc len CFBitVectorCountBits (value, 0);
                Some cnt })"

definition CFBitVectorContainsBit :: "bitvector \<Rightarrow> nat \<Rightarrow> nat \<Rightarrow> nat \<Rightarrow> bool option" where
  "CFBitVectorContainsBit bv loc len value = map_option (\<lambda>n. n \<noteq> 0) (CFBitVectorGetCountOfBit bv loc len value)"

definition CFBitVectorGetBitAtIndex :: "bitvector \<Rightarrow> nat \<Rightarrow> nat option" where
  "CFBitVectorGetBitAtIndex bv idx = (if idx < bv_count bv then CFBitVectorBit (bv_buckets bv) idx else None)"

definition CFBitVectorGetBits :: "bitvector \<Rightarrow> nat \<Rightarrow> nat \<Rightarrow> bucket8 list \<Rightarrow> bucket8 list option" where
  "CFBitVectorGetBits bv loc len bytes =
     (if len = 0 then Some bytes
      else do { (_, ctx) \<leftarrow> CFBitVectorInternalMap (bv_buckets bv) loc len CFBitVectorGetBitsMapper
                  \<lparr>gb_bytes = bytes, gb_curByte = 0, gb_initBits = loc mod 8, gb_totalBits = int len,
                   gb_ignoreFirstInitBits = True\<rparr>;
                Some (gb_bytes ctx) })"

fun bv_first_loop :: "bitvector \<Rightarrow> nat \<Rightarrow> nat \<Rightarrow> nat \<Rightarrow> nat \<Rightarrow> int option" where
  "bv_first_loop bv loc value idx 0 = Some (-1)"
| "bv_first_loop bv loc value idx (Suc n) =
     do { b \<leftarrow> CFBitVectorGetBitAtIndex bv (loc + idx);
          if value = b then Some (int (loc + idx)) else bv_first_loop bv loc value (idx + 1) n }"

definition CFBitVectorGetFirstIndexOfBit :: "bitvector \<Rightarrow> nat \<Rightarrow> nat \<Rightarrow> nat \<Rightarrow> int option" where
  "CFBitVectorGetFirstIndexOfBit bv loc len value = bv_first_loop bv loc value 0 len"

fun bv_last_loop :: "bitvector \<Rightarrow> nat \<Rightarrow> nat \<Rightarrow> nat \<Rightarrow> int option" where
  "bv_last_loop bv loc value 0 = Some (-1)"
| "bv_last_loop bv loc value (Suc idx) =
     do { b \<leftarrow> CFBitVectorGetBitAtIndex bv (loc + idx);
          if value = b then Some (int (loc + idx)) else bv_last_loop bv loc value idx }"

definition CFBitVectorGetLastIndexOfBit :: "bitvector \<Rightarrow> nat \<Rightarrow> nat \<Rightarrow> nat \<Rightarrow> int option" where
  "CFBitVectorGetLastIndexOfBit bv loc len value = bv_last_loop bv loc value len"

text \<open>The reallocated block: what was beyond its old end is arbitrary, here the argument \<open>fresh\<close>.\<close>

definition CFBitVectorGrow :: "(nat \<Rightarrow> bucket8) \<Rightarrow> bitvector \<Rightarrow> nat \<Rightarrow> bitvector" where
  "CFBitVectorGrow fresh bv numNewValues =
     (let cap = CFBitVectorRoundUpCapacity (bv_count bv + numNewValues);
          n = cap div 8 + 1;
          old = bv_buckets bv in
      bv\<lparr>bv_capacity := cap, bv_buckets := take n old @ map fresh [length old..<n]\<rparr>)"

definition map_bits :: "bitvector \<Rightarrow> nat \<Rightarrow> nat \<Rightarrow> unit mapper \<Rightarrow> bitvector option" where
  "map_bits bv loc len mapper =
     do { (bs, _) \<leftarrow> CFBitVectorInternalMap (bv_buckets bv) loc len mapper (); Some (bv\<lparr>bv_buckets := bs\<rparr>) }"

definition CFBitVectorSetCount :: "(nat \<Rightarrow> bucket8) \<Rightarrow> bitvector \<Rightarrow> nat \<Rightarrow> bitvector option" where
  "CFBitVectorSetCount fresh bv newCount =
     (if bv_variety bv \<noteq> BVMutable then None
      else do {
        let cnt = bv_count bv;
        let bv1 = (if cnt < newCount then CFBitVectorGrow fresh bv (newCount - cnt) else bv);
        bv2 \<leftarrow> (if cnt < newCount then map_bits bv1 cnt (newCount - cnt) CFBitVectorZeroBits else Some bv1);
        Some (bv2\<lparr>bv_count := newCount\<rparr>) })"

definition CFBitVectorFlipBitAtIndex :: "bitvector \<Rightarrow> nat \<Rightarrow> bitvector option" where
  "CFBitVectorFlipBitAtIndex bv idx =
     (if \<not> idx < bv_count bv \<or> bv_variety bv \<noteq> BVMutable then None
      else do { bs \<leftarrow> CFFlipBitVectorBit (bv_buckets bv) idx; Some (bv\<lparr>bv_buckets := bs\<rparr>) })"

definition CFBitVectorFlipBits :: "bitvector \<Rightarrow> nat \<Rightarrow> nat \<Rightarrow> bitvector option" where
  "CFBitVectorFlipBits bv loc len =
     (if bv_variety bv \<noteq> BVMutable then None
      else if len = 0 then Some bv else map_bits bv loc len CFBitVectorFlipMapper)"

definition CFBitVectorSetBitAtIndex :: "bitvector \<Rightarrow> nat \<Rightarrow> nat \<Rightarrow> bitvector option" where
  "CFBitVectorSetBitAtIndex bv idx value =
     (if \<not> idx < bv_count bv \<or> bv_variety bv \<noteq> BVMutable then None
      else do { bs \<leftarrow> CFSetBitVectorBit (bv_buckets bv) idx value; Some (bv\<lparr>bv_buckets := bs\<rparr>) })"

definition CFBitVectorSetBits :: "bitvector \<Rightarrow> nat \<Rightarrow> nat \<Rightarrow> nat \<Rightarrow> bitvector option" where
  "CFBitVectorSetBits bv loc len value =
     (if bv_variety bv \<noteq> BVMutable then None
      else if len = 0 then Some bv
      else if value \<noteq> 0 then map_bits bv loc len CFBitVectorOneBits
      else map_bits bv loc len CFBitVectorZeroBits)"

definition CFBitVectorSetAllBits :: "bitvector \<Rightarrow> nat \<Rightarrow> bitvector option" where
  "CFBitVectorSetAllBits bv value =
     (if bv_variety bv \<noteq> BVMutable then None
      else do {
        let nBuckets = bv_count bv div 8;
        let leftover = bv_count bv - nBuckets * 8;
        bv1 \<leftarrow> (if 0 < leftover then
                 map_bits bv (nBuckets * 8) leftover
                   (if value \<noteq> 0 then CFBitVectorOneBits else CFBitVectorZeroBits)
               else Some bv);
        bs \<leftarrow> blit (bv_buckets bv1) 0 (replicate nBuckets (if value \<noteq> 0 then NOT 0 else 0));
        Some (bv1\<lparr>bv_buckets := bs\<rparr>) })"

subsection \<open>Bits\<close>

definition bit_at :: "bucket8 list \<Rightarrow> nat \<Rightarrow> bool" where
  "bit_at bs i = bit (bs ! (i div 8)) (7 - i mod 8)"

definition bits_of :: "bitvector \<Rightarrow> bool list" where
  "bits_of bv = map (bit_at (bv_buckets bv)) [0..<bv_count bv]"

definition bv_wf :: "bitvector \<Rightarrow> bool" where
  "bv_wf bv \<longleftrightarrow> length (bv_buckets bv) = CFBitVectorNumBuckets bv \<and> bv_count bv \<le> bv_capacity bv \<and>
     bv_capacity bv mod 64 = 0"

lemma bit_bucket_mask:
  assumes "lo \<le> hi" "hi < 8" "n < 8"
  shows "bit (CFBitBucketMask lo hi) n \<longleftrightarrow> 7 - hi \<le> n \<and> n \<le> 7 - lo"
proof -
  have "8 - hi + lo - 1 = 7 - hi + lo" using assms by simp
  then show ?thesis using assms
    by (auto simp: CFBitBucketMask_def bit_drop_bit_eq bit_push_bit_iff bit_not_iff bit_mask_iff)
qed

lemma mask_range: "a + m \<le> 8 \<Longrightarrow> 0 < m \<Longrightarrow> b < 8 \<Longrightarrow>
    7 - (a + m - 1) \<le> 7 - b \<and> 7 - b \<le> 7 - a \<longleftrightarrow> a \<le> b \<and> b < a + (m::nat)"
  by arith

lemma mask_at:
  assumes "p mod 8 + m \<le> 8" "0 < m" "i div 8 = p div 8"
  shows "bit (CFBitBucketMask (p mod 8) (p mod 8 + m - 1)) (7 - i mod 8) \<longleftrightarrow> p \<le> i \<and> i < p + m"
proof -
  have i: "i = p div 8 * 8 + i mod 8" and p: "p = p div 8 * 8 + p mod 8" using assms(3) by (metis div_mult_mod_eq)+
  have "i mod 8 < 8" by simp
  then have "bit (CFBitBucketMask (p mod 8) (p mod 8 + m - 1)) (7 - i mod 8) \<longleftrightarrow>
      7 - (p mod 8 + m - 1) \<le> 7 - i mod 8 \<and> 7 - i mod 8 \<le> 7 - p mod 8"
    using assms by (intro bit_bucket_mask) auto
  also have "\<dots> \<longleftrightarrow> p mod 8 \<le> i mod 8 \<and> i mod 8 < p mod 8 + m"
    using assms \<open>i mod 8 < 8\<close> by (intro mask_range) auto
  also have "\<dots> \<longleftrightarrow> p \<le> i \<and> i < p + m" using i p by linarith
  finally show ?thesis .
qed

lemma full_mask: "CFBitBucketMask 0 7 = NOT 0"
  by (simp add: CFBitBucketMask_def)

text \<open>The same traversal as one loop over the bits, bucket by bucket.\<close>

function map_range :: "'c mapper \<Rightarrow> bucket8 list \<Rightarrow> 'c \<Rightarrow> nat \<Rightarrow> nat \<Rightarrow> (bucket8 list \<times> 'c) option" where
  "map_range mapper bs ctx p n =
     (if n = 0 then Some (bs, ctx)
      else do {
        let m = min (8 - p mod 8) n;
        (bs1, ctx1) \<leftarrow> map_bucket mapper bs ctx (p div 8) (CFBitBucketMask (p mod 8) (p mod 8 + m - 1));
        map_range mapper bs1 ctx1 (p + m) (n - m) })"
  by pat_completeness auto
termination
  by (relation "measure (\<lambda>(mapper, bs, ctx, p, n). n)") auto

declare map_range.simps [simp del]

lemma map_range_0 [simp]: "map_range mapper bs ctx p 0 = Some (bs, ctx)"
  by (simp add: map_range.simps)

lemma map_full_range:
  "map_range mapper bs ctx (8 * k) (8 * n + r) =
     do { (bs1, ctx1) \<leftarrow> map_full mapper bs ctx k n; map_range mapper bs1 ctx1 (8 * (k + n)) r }"
proof (induction n arbitrary: bs ctx k)
  case 0
  show ?case by simp
next
  case (Suc n)
  have m: "min (8 - 8 * k mod 8) (8 * Suc n + r) = 8" "8 * k + 8 = 8 * (k + 1)" "8 * Suc n + r - 8 = 8 * n + r"
    by simp_all
  have "map_range mapper bs ctx (8 * k) (8 * Suc n + r) =
      do { (bs1, ctx1) \<leftarrow> map_bucket mapper bs ctx k (NOT 0); map_range mapper bs1 ctx1 (8 * (k + 1)) (8 * n + r) }"
    by (subst map_range.simps) (simp only: m Let_def, simp add: full_mask)
  also have "\<dots> = do { (bs1, ctx1) \<leftarrow> map_bucket mapper bs ctx k (NOT 0);
                      (bs2, ctx2) \<leftarrow> map_full mapper bs1 ctx1 (k + 1) n; map_range mapper bs2 ctx2 (8 * (k + Suc n)) r }"
    using Suc.IH [of _ _ "k + 1"] by simp
  also have "\<dots> = do { (bs1, ctx1) \<leftarrow> map_full mapper bs ctx k (Suc n); map_range mapper bs1 ctx1 (8 * (k + Suc n)) r }"
    by (auto simp: map_bucket_def bind_assoc split: option.splits bind_split)
  finally show ?case .
qed

lemma map_range_partial:
  assumes "0 < n" "n < 8"
  shows "map_range mapper bs ctx (8 * k) n = map_bucket mapper bs ctx k (CFBitBucketMask 0 (n - 1))"
proof -
  have "min (8 - 8 * k mod 8) n = n" using assms by simp
  then show ?thesis using assms by (subst map_range.simps) (simp add: Let_def)
qed

lemma map_tail:
  "map_range mapper bs ctx (8 * k) x =
     do { (bs2, ctx2) \<leftarrow> map_full mapper bs ctx k (x div 8);
          if x - x div 8 * 8 \<noteq> 0 then map_bucket mapper bs2 ctx2 (k + x div 8) (CFBitBucketMask 0 (x - x div 8 * 8 - 1))
          else Some (bs2, ctx2) }"
proof -
  obtain n r where x: "x = 8 * n + r" "x div 8 = n" "x - x div 8 * 8 = r" "r < 8"
    by (rule that [of "x div 8" "x mod 8"]) (simp_all add: minus_div_mult_eq_mod)
  have "map_range mapper bs2 c (8 * (k + n)) r =
      (if r \<noteq> 0 then map_bucket mapper bs2 c (k + n) (CFBitBucketMask 0 (r - 1)) else Some (bs2, c))" for bs2 c
    using x(4) by (simp add: map_range_partial del: distrib_left_numeral)
  then show ?thesis unfolding x(3) unfolding x(2) unfolding x(1) map_full_range by simp
qed

lemma internal_map_range: "CFBitVectorInternalMap bs loc len mapper ctx = map_range mapper bs ctx loc len"
proof -
  consider "len = 0" | (small) "0 < len" "loc mod 8 + len < 8" | (big) "0 < len" "\<not> loc mod 8 + len < 8" by linarith
  then show ?thesis
  proof cases
    case small
    then have "min (8 - loc mod 8) len = len" by simp
    then show ?thesis using small
      by (subst map_range.simps) (simp add: CFBitVectorInternalMap_def Let_def)
  next
    case big
    let ?len1 = "len - (8 - loc mod 8)" and ?k = "loc div 8"
    have m: "min (8 - loc mod 8) len = 8 - loc mod 8" "loc mod 8 + (8 - loc mod 8) - 1 = 7" using big by simp_all
    have pos: "loc + (8 - loc mod 8) = 8 * (?k + 1)" by presburger
    have ne: "len \<noteq> 0" using big by simp
    show ?thesis
      unfolding map_range.simps [of mapper bs ctx loc len] CFBitVectorInternalMap_def Let_def
        if_not_P [OF ne] if_not_P [OF big(2)] split_conv m pos map_tail ..
  qed (simp add: CFBitVectorInternalMap_def)
qed

text \<open>One bucket of the traversal, seen on bits.\<close>

lemma bit_at_update:
  assumes "k < length bs"
  shows "bit_at (bs[k := w]) i = (if i div 8 = k then bit w (7 - i mod 8) else bit_at bs i)"
  using assms by (simp add: bit_at_def)

lemma bit_merge:
  fixes b new msk :: bucket8
  assumes "n < 8"
  shows "bit ((b AND NOT msk) OR (new AND msk)) n \<longleftrightarrow> (if bit msk n then bit new n else bit b n)"
  using assms by (auto simp: bit_or_iff bit_and_iff bit_not_iff)

lemma bucket_of: "p = 8 * q + r \<Longrightarrow> p \<le> i \<Longrightarrow> i < p + m \<Longrightarrow> r + m \<le> 8 \<Longrightarrow> i div (8::nat) = q"
  by (intro div_nat_eqI) auto

lemma range_bucket: "p \<le> i \<Longrightarrow> i < p + m \<Longrightarrow> p mod 8 + m \<le> 8 \<Longrightarrow> i div 8 = p div (8::nat)"
  by (rule bucket_of [of p "p div 8" "p mod 8"]) simp_all

lemma bit_at_bucket:
  assumes "p div 8 < length bs" "p mod 8 + m \<le> 8" "0 < m"
  shows "bit_at (bs[p div 8 := (bs ! (p div 8) AND NOT (CFBitBucketMask (p mod 8) (p mod 8 + m - 1))) OR
            (new AND CFBitBucketMask (p mod 8) (p mod 8 + m - 1))]) i =
         (if p \<le> i \<and> i < p + m then bit new (7 - i mod 8) else bit_at bs i)"
proof (cases "i div 8 = p div 8")
  case True
  then show ?thesis using assms mask_at [OF assms(2,3) True]
    by (simp add: bit_at_update bit_merge) (simp add: bit_at_def)
next
  case False
  then have "\<not> (p \<le> i \<and> i < p + m)" using range_bucket [of p i m] assms by blast
  then show ?thesis by (simp only: bit_at_update [OF assms(1)] False if_False)
qed

text \<open>A mapper that treats every bit alike.\<close>

definition bitwise :: "unit mapper \<Rightarrow> (bool \<Rightarrow> bool) \<Rightarrow> bool" where
  "bitwise mapper h \<longleftrightarrow>
     (\<forall>b msk. \<exists>new. mapper () b msk = Some (new, ()) \<and> (\<forall>n<8. bit new n = h (bit b n)))"

lemma bitwise_mappers:
  "bitwise CFBitVectorZeroBits (\<lambda>_. False)" "bitwise CFBitVectorOneBits (\<lambda>_. True)"
  "bitwise CFBitVectorFlipMapper Not"
  by (auto simp: bitwise_def CFBitVectorZeroBits_def CFBitVectorOneBits_def CFBitVectorFlipMapper_def
      bit_not_iff bit_xor_iff)

lemma map_range_bits:
  "bitwise mapper h \<Longrightarrow> p + n \<le> 8 * length bs \<Longrightarrow>
   \<exists>bs'. map_range mapper bs () p n = Some (bs', ()) \<and> length bs' = length bs \<and>
     (\<forall>i < 8 * length bs. bit_at bs' i = (if p \<le> i \<and> i < p + n then h (bit_at bs i) else bit_at bs i))"
proof (induction n arbitrary: bs p rule: less_induct)
  case (less n)
  show ?case
  proof (cases "n = 0")
    case False
    define m where "m = min (8 - p mod 8) n"
    have "p mod 8 < 8" by simp
    then have m: "p mod 8 + m \<le> 8" "0 < m" "m \<le> n" using False unfolding m_def by (linarith, auto)
    have k: "p div 8 < length bs" using less.prems(2) False by (simp add: less_mult_imp_div_less mult.commute)
    define M where "M = CFBitBucketMask (p mod 8) (p mod 8 + m - 1)"
    obtain new where new: "mapper () (bs ! (p div 8)) M = Some (new, ())" "\<forall>n<8. bit new n = h (bit (bs ! (p div 8)) n)"
      using less.prems(1) unfolding bitwise_def by blast
    define bs1 where "bs1 = bs[p div 8 := (bs ! (p div 8) AND NOT M) OR (new AND M)]"
    have step: "map_bucket mapper bs () (p div 8) M = Some (bs1, ())"
      using k new(1) by (simp add: map_bucket_def bs1_def)
    have at: "bit_at bs1 i = (if p \<le> i \<and> i < p + m then h (bit_at bs i) else bit_at bs i)" for i
      unfolding bs1_def M_def bit_at_bucket [OF k m(1,2)]
      using new(2) range_bucket [of p i m, OF _ _ m(1)] by (auto simp: bit_at_def)
    have "n - m < n" "bitwise mapper h" "p + m + (n - m) \<le> 8 * length bs1" and len: "length bs1 = length bs"
      using m less.prems by (simp_all add: bs1_def)
    from less.IH [OF this(1,2,3)] obtain bs' where bs': "map_range mapper bs1 () (p + m) (n - m) = Some (bs', ())"
      "length bs' = length bs1" "\<forall>i < 8 * length bs1. bit_at bs' i =
         (if p + m \<le> i \<and> i < p + m + (n - m) then h (bit_at bs1 i) else bit_at bs1 i)" by blast
    have "bit_at bs' i = (if p \<le> i \<and> i < p + n then h (bit_at bs i) else bit_at bs i)" if "i < 8 * length bs" for i
      using that bs'(3) m(3) unfolding at len by (cases "p \<le> i"; cases "i < p + m") simp_all
    moreover have "map_range mapper bs () p n = Some (bs', ())"
      using False step bs'(1) unfolding M_def
      by (subst map_range.simps) (simp only: Let_def m_def [symmetric] if_False Option.bind_lunit split_conv)
    ultimately show ?thesis using bs'(2) len by auto
  qed auto
qed

subsection \<open>The operations on bits\<close>

lemma wf_bits: "bv_wf bv \<Longrightarrow> i < bv_count bv \<Longrightarrow> i div 8 < length (bv_buckets bv)"
  by (auto simp: bv_wf_def CFBitVectorNumBuckets_def less_Suc_eq_le intro!: div_le_mono)

lemma wf_range: "bv_wf bv \<Longrightarrow> n \<le> bv_count bv \<Longrightarrow> n \<le> 8 * length (bv_buckets bv)"
  unfolding bv_wf_def CFBitVectorNumBuckets_def by (elim conjE) linarith

lemma map_bits_spec:
  assumes "bitwise mapper h" and "loc + n \<le> 8 * length (bv_buckets bv)"
  shows "\<exists>bs. map_bits bv loc n mapper = Some (bv\<lparr>bv_buckets := bs\<rparr>) \<and> length bs = length (bv_buckets bv) \<and>
    (\<forall>i < 8 * length (bv_buckets bv). bit_at bs i =
      (if loc \<le> i \<and> i < loc + n then h (bit_at (bv_buckets bv) i) else bit_at (bv_buckets bv) i))"
  using map_range_bits [OF assms] by (auto simp: map_bits_def internal_map_range)

lemma same_pos:
  assumes "i div 8 = idx div 8"
  shows "7 - i mod 8 = 7 - idx mod 8 \<longleftrightarrow> i = (idx :: nat)"
proof -
  have "i mod 8 < 8" "idx mod 8 < 8" by simp_all
  then have "7 - i mod 8 = 7 - idx mod 8 \<longleftrightarrow> i mod 8 = idx mod 8" by arith
  with assms show ?thesis by (metis div_mult_mod_eq)
qed

lemma one_bit: "bit (push_bit (7 - k) 1 :: bucket8) n \<longleftrightarrow> n = 7 - k"
  by (auto simp: bit_exp_iff)

lemma set_bit_spec:
  assumes "idx div 8 < length bs"
  shows "\<exists>bs'. CFSetBitVectorBit bs idx v = Some bs' \<and> length bs' = length bs \<and>
    (\<forall>i. bit_at bs' i = (if i = idx then v \<noteq> 0 else bit_at bs i))"
proof -
  let ?b = "bs ! (idx div 8)" and ?one = "push_bit (7 - idx mod 8) 1 :: bucket8"
  let ?w = "if v \<noteq> 0 then ?b OR ?one else ?b AND NOT ?one"
  have "bit_at (bs[idx div 8 := ?w]) i = (if i = idx then v \<noteq> 0 else bit_at bs i)" for i
  proof (cases "i div 8 = idx div 8")
    case True
    have "bit ?w (7 - i mod 8) = (if i = idx then v \<noteq> 0 else bit ?b (7 - i mod 8))"
      using one_bit [of "idx mod 8" "7 - i mod 8"] same_pos [OF True]
      by (auto simp: bit_or_iff bit_and_iff bit_not_iff simp del: push_bit_of_1)
    with True assms show ?thesis by (simp add: bit_at_update) (simp add: bit_at_def)
  qed (use assms in \<open>auto simp: bit_at_update\<close>)
  moreover have "CFSetBitVectorBit bs idx v = Some (bs[idx div 8 := ?w])"
    using assms by (simp add: CFSetBitVectorBit_def del: push_bit_of_1)
  ultimately show ?thesis by (intro exI [of _ "bs[idx div 8 := ?w]"]) (simp only: length_list_update, blast)
qed

lemma flip_bit_spec:
  assumes "idx div 8 < length bs"
  shows "\<exists>bs'. CFFlipBitVectorBit bs idx = Some bs' \<and> length bs' = length bs \<and>
    (\<forall>i. bit_at bs' i = (if i = idx then \<not> bit_at bs i else bit_at bs i))"
proof -
  let ?b = "bs ! (idx div 8)" and ?one = "push_bit (7 - idx mod 8) 1 :: bucket8"
  have "bit_at (bs[idx div 8 := ?b XOR ?one]) i = (if i = idx then \<not> bit_at bs i else bit_at bs i)" for i
  proof (cases "i div 8 = idx div 8")
    case True
    have "bit (?b XOR ?one) (7 - i mod 8) = (if i = idx then \<not> bit ?b (7 - i mod 8) else bit ?b (7 - i mod 8))"
      using one_bit [of "idx mod 8" "7 - i mod 8"] same_pos [OF True]
      by (auto simp: bit_xor_iff simp del: push_bit_of_1)
    with True assms show ?thesis by (simp add: bit_at_update) (simp add: bit_at_def)
  qed (use assms in \<open>auto simp: bit_at_update\<close>)
  then show ?thesis using assms by (simp add: CFFlipBitVectorBit_def del: push_bit_of_1)
qed

lemma unat_low_bit: "unat (w AND 1 :: bucket8) = of_bool (odd w)"
  unfolding and_one_eq by (cases "even w") (simp_all add: even_iff_mod_2_eq_zero odd_iff_mod_2_eq_one)

lemma get_bit_spec:
  assumes "idx div 8 < length bs"
  shows "CFBitVectorBit bs idx = Some (of_bool (bit_at bs idx))"
  using assms by (simp add: CFBitVectorBit_def bit_at_def unat_low_bit bit_iff_odd_drop_bit)

text \<open>The list machine of a bit vector.\<close>

datatype bv_op =
    SetBit nat nat | FlipBit nat | SetBits nat nat nat | FlipBits nat nat | SetAllBits nat | SetCount nat

fun apply_bv_op :: "(nat \<Rightarrow> bucket8) \<Rightarrow> bitvector \<Rightarrow> bv_op \<Rightarrow> bitvector option" where
  "apply_bv_op fresh bv (SetBit i v) = CFBitVectorSetBitAtIndex bv i v"
| "apply_bv_op fresh bv (FlipBit i) = CFBitVectorFlipBitAtIndex bv i"
| "apply_bv_op fresh bv (SetBits loc n v) = CFBitVectorSetBits bv loc n v"
| "apply_bv_op fresh bv (FlipBits loc n) = CFBitVectorFlipBits bv loc n"
| "apply_bv_op fresh bv (SetAllBits v) = CFBitVectorSetAllBits bv v"
| "apply_bv_op fresh bv (SetCount n) = CFBitVectorSetCount fresh bv n"

definition change :: "(bool \<Rightarrow> bool) \<Rightarrow> bool list \<Rightarrow> nat \<Rightarrow> nat \<Rightarrow> bool list" where
  "change h xs loc n = take loc xs @ map h (Prelude.slice xs loc n) @ drop (loc + n) xs"

fun bits_op :: "bv_op \<Rightarrow> bool list \<Rightarrow> bool list option" where
  "bits_op (SetBit i v) xs = (if i < length xs then Some (xs[i := v \<noteq> 0]) else None)"
| "bits_op (FlipBit i) xs = (if i < length xs then Some (xs[i := \<not> xs ! i]) else None)"
| "bits_op (SetBits loc n v) xs = (if loc + n \<le> length xs then Some (change (\<lambda>_. v \<noteq> 0) xs loc n) else None)"
| "bits_op (FlipBits loc n) xs = (if loc + n \<le> length xs then Some (change Not xs loc n) else None)"
| "bits_op (SetAllBits v) xs = Some (replicate (length xs) (v \<noteq> 0))"
| "bits_op (SetCount n) xs = Some (take n xs @ replicate (n - length xs) False)"

lemma nth_change: "loc + n \<le> length xs \<Longrightarrow> i < length xs \<Longrightarrow>
    change h xs loc n ! i = (if loc \<le> i \<and> i < loc + n then h (xs ! i) else xs ! i)"
  by (auto simp: change_def Prelude.slice_def nth_append)

lemma length_change [simp]: "loc + n \<le> length xs \<Longrightarrow> length (change h xs loc n) = length xs"
  by (simp add: change_def)

lemma length_bits_of [simp]: "length (bits_of bv) = bv_count bv"
  by (simp add: bits_of_def)

lemma nth_bits_of [simp]: "i < bv_count bv \<Longrightarrow> bits_of bv ! i = bit_at (bv_buckets bv) i"
  by (simp add: bits_of_def)

lemma bits_of_eqI:
  assumes "length xs = bv_count bv" and "\<And>i. i < bv_count bv \<Longrightarrow> bit_at (bv_buckets bv) i = xs ! i"
  shows "bits_of bv = xs"
  using assms by (intro nth_equalityI) simp_all

lemma wf_update: "bv_wf bv \<Longrightarrow> length bs = length (bv_buckets bv) \<Longrightarrow> bv_wf (bv\<lparr>bv_buckets := bs\<rparr>)"
  by (simp add: bv_wf_def CFBitVectorNumBuckets_def)

lemma map_bits_change:
  assumes "bv_wf bv" "bitwise mapper h" "loc + n \<le> bv_count bv"
  shows "\<exists>bs. map_bits bv loc n mapper = Some (bv\<lparr>bv_buckets := bs\<rparr>) \<and> length bs = length (bv_buckets bv) \<and>
    bits_of (bv\<lparr>bv_buckets := bs\<rparr>) = change h (bits_of bv) loc n"
proof -
  have "loc + n \<le> 8 * length (bv_buckets bv)" "bv_count bv \<le> 8 * length (bv_buckets bv)"
    using wf_range [OF assms(1)] assms(3) by auto
  with map_bits_spec [OF assms(2) this(1)] obtain bs where
    bs: "map_bits bv loc n mapper = Some (bv\<lparr>bv_buckets := bs\<rparr>)" "length bs = length (bv_buckets bv)"
      "\<forall>i < 8 * length (bv_buckets bv). bit_at bs i =
        (if loc \<le> i \<and> i < loc + n then h (bit_at (bv_buckets bv) i) else bit_at (bv_buckets bv) i)"
    by blast
  moreover have "bits_of (bv\<lparr>bv_buckets := bs\<rparr>) = change h (bits_of bv) loc n"
    using assms(3) bs(3) \<open>bv_count bv \<le> _\<close> by (intro bits_of_eqI) (simp_all add: nth_change)
  ultimately show ?thesis by blast
qed

text \<open>\<open>bv_becomes\<close>: the operation returns a well-formed vector of the same variety with these bits.\<close>

definition bv_becomes :: "bitvector \<Rightarrow> bool list \<Rightarrow> bitvector option \<Rightarrow> bool" where
  "bv_becomes bv xs result \<longleftrightarrow>
     (\<exists>bv'. result = Some bv' \<and> bv_wf bv' \<and> bits_of bv' = xs \<and> bv_variety bv' = bv_variety bv)"

lemma map_bits_becomes:
  assumes "bv_wf bv" "bitwise mapper h" "loc + n \<le> bv_count bv"
  shows "bv_becomes bv (change h (bits_of bv) loc n) (map_bits bv loc n mapper)"
  using map_bits_change [OF assms] wf_update [OF assms(1)] by (auto simp: bv_becomes_def)

lemma bucket_update_becomes:
  assumes "bv_wf bv" "idx < bv_count bv" "\<exists>bs'. r = Some bs' \<and> length bs' = length (bv_buckets bv) \<and>
     (\<forall>i. bit_at bs' i = (if i = idx then w else bit_at (bv_buckets bv) i))"
  shows "bv_becomes bv ((bits_of bv)[idx := w]) (do { bs \<leftarrow> r; Some (bv\<lparr>bv_buckets := bs\<rparr>) })"
proof -
  obtain bs' where bs': "r = Some bs'" "length bs' = length (bv_buckets bv)"
    "\<And>i. bit_at bs' i = (if i = idx then w else bit_at (bv_buckets bv) i)" using assms(3) by blast
  have "bits_of (bv\<lparr>bv_buckets := bs'\<rparr>) = (bits_of bv)[idx := w]"
    using bs'(3) assms(2) by (intro bits_of_eqI) (auto simp: nth_list_update)
  then show ?thesis using bs'(1,2) wf_update [OF assms(1)] by (simp add: bv_becomes_def)
qed

lemma round_up_64: "n \<le> CFBitVectorRoundUpCapacity n" "CFBitVectorRoundUpCapacity n mod 64 = 0"
proof -
  have "m \<le> (m + 63) div 64 * 64" for m :: nat
  proof -
    obtain k r where "(m + 63) div 64 = k" "m + 63 = k * 64 + r" "r < 64 \<or> 64 = (0::nat)"
      by (rule div_mod_split)
    then show ?thesis by simp
  qed
  then show "n \<le> CFBitVectorRoundUpCapacity n" by (simp add: CFBitVectorRoundUpCapacity_def)
qed (simp add: CFBitVectorRoundUpCapacity_def)

lemma grow_spec:
  assumes "bv_wf bv" "bv_count bv < n" and g_def: "g = CFBitVectorGrow fresh bv (n - bv_count bv)"
  shows "bv_wf (g\<lparr>bv_count := n\<rparr>)"
    and "bv_variety g = bv_variety bv" and "bv_count g = bv_count bv"
    and "\<And>i. i < bv_count bv \<Longrightarrow> bit_at (bv_buckets g) i = bit_at (bv_buckets bv) i"
proof -
  let ?c = "CFBitVectorRoundUpCapacity n" and ?old = "bv_buckets bv"
  let ?k = "?c div 8 + 1"
  have n: "bv_count bv + (n - bv_count bv) = n" using assms(2) by simp
  have g: "g = bv\<lparr>bv_capacity := ?c, bv_buckets := take ?k ?old @ map fresh [length ?old..<?k]\<rparr>"
    unfolding g_def CFBitVectorGrow_def Let_def n ..
  have "length (take ?k ?old @ map fresh [length ?old..<?k]) = ?k" by simp
  then show "bv_wf (g\<lparr>bv_count := n\<rparr>)" unfolding g using round_up_64
    by (simp add: bv_wf_def CFBitVectorNumBuckets_def)
  show "bv_variety g = bv_variety bv" "bv_count g = bv_count bv" unfolding g by simp_all
  show "bit_at (bv_buckets g) i = bit_at ?old i" if i: "i < bv_count bv" for i
  proof -
    have "i \<le> ?c" using i assms(2) round_up_64(1) [of n] by simp
    then have "i div 8 < ?k" by (simp add: div_le_mono less_Suc_eq_le)
    then show ?thesis unfolding g using wf_bits [OF assms(1) i] by (simp add: bit_at_def nth_append)
  qed
qed

lemma set_count_becomes:
  assumes "bv_wf bv" "bv_variety bv = BVMutable"
  shows "bv_becomes bv (take n (bits_of bv) @ replicate (n - bv_count bv) False) (CFBitVectorSetCount fresh bv n)"
proof (cases "bv_count bv < n")
  case False
  then have "bits_of (bv\<lparr>bv_count := n\<rparr>) = take n (bits_of bv)" by (intro bits_of_eqI) simp_all
  moreover have "bv_wf (bv\<lparr>bv_count := n\<rparr>)"
    using assms False by (simp add: bv_wf_def CFBitVectorNumBuckets_def)
  ultimately show ?thesis using assms False by (simp add: bv_becomes_def CFBitVectorSetCount_def)
next
  case True
  let ?cnt = "bv_count bv" and ?g = "CFBitVectorGrow fresh bv (n - bv_count bv)"
  note g = grow_spec [OF assms(1) True, where g = ?g and fresh = fresh, OF refl]
  have len: "?cnt + (n - ?cnt) \<le> 8 * length (bv_buckets ?g)" "n \<le> 8 * length (bv_buckets ?g)"
    using wf_range [OF g(1), of n] True by simp_all
  from map_bits_spec [OF bitwise_mappers(1) len(1)] obtain bs where
    bs: "map_bits ?g ?cnt (n - ?cnt) CFBitVectorZeroBits = Some (?g\<lparr>bv_buckets := bs\<rparr>)"
      "length bs = length (bv_buckets ?g)"
    and at: "\<forall>i < 8 * length (bv_buckets ?g). bit_at bs i =
      (if ?cnt \<le> i \<and> i < ?cnt + (n - ?cnt) then False else bit_at (bv_buckets ?g) i)" by blast
  have bits: "bit_at bs i = (i < ?cnt \<and> bit_at (bv_buckets bv) i)" if "i < n" for i
    using at g(4) [of i] len(2) that True by (cases "i < ?cnt") simp_all
  let ?r = "?g\<lparr>bv_buckets := bs, bv_count := n\<rparr>"
  have "bits_of ?r = take n (bits_of bv) @ replicate (n - ?cnt) False"
    using bits True by (intro bits_of_eqI) (auto simp: nth_append)
  moreover have "bv_wf ?r" using g(1) bs(2) by (simp add: bv_wf_def CFBitVectorNumBuckets_def)
  moreover have "CFBitVectorSetCount fresh bv n = Some ?r"
    using assms True bs(1) by (simp add: CFBitVectorSetCount_def Let_def)
  ultimately show ?thesis using g(2) by (simp add: bv_becomes_def)
qed

lemma bit_at_fill:
  assumes "k \<le> length bs"
  shows "bit_at (put bs 0 (replicate k w)) i = (if i div 8 < k then bit w (7 - i mod 8) else bit_at bs i)"
  using assms by (auto simp: bit_at_def put_def nth_append)

lemma set_all_becomes:
  assumes "bv_wf bv" "bv_variety bv = BVMutable"
  shows "bv_becomes bv (replicate (bv_count bv) (v \<noteq> 0)) (CFBitVectorSetAllBits bv v)"
proof -
  let ?k = "bv_count bv div 8" and ?n = "bv_count bv"
  let ?l = "?n - ?k * 8" and ?m = "if v \<noteq> 0 then CFBitVectorOneBits else CFBitVectorZeroBits"
  have bw: "bitwise ?m (\<lambda>_. v \<noteq> 0)" using bitwise_mappers by simp
  have kl: "?k * 8 + ?l = ?n" by simp
  obtain bs where bs: "(if 0 < ?l then map_bits bv (?k * 8) ?l ?m else Some bv) = Some (bv\<lparr>bv_buckets := bs\<rparr>)"
    "length bs = length (bv_buckets bv)" "\<And>i. ?k * 8 \<le> i \<Longrightarrow> i < ?n \<Longrightarrow> bit_at bs i = (v \<noteq> 0)"
  proof (cases "0 < ?l")
    case True
    obtain bs where bs: "map_bits bv (?k * 8) ?l ?m = Some (bv\<lparr>bv_buckets := bs\<rparr>)"
      "length bs = length (bv_buckets bv)" "bits_of (bv\<lparr>bv_buckets := bs\<rparr>) = change (\<lambda>_. v \<noteq> 0) (bits_of bv) (?k * 8) ?l"
      using map_bits_change [OF assms(1) bw, of "?k * 8" ?l] by auto
    have "bit_at bs i = (v \<noteq> 0)" if "?k * 8 \<le> i" "i < ?n" for i
    proof -
      have "bit_at bs i = bits_of (bv\<lparr>bv_buckets := bs\<rparr>) ! i" using that by simp
      also have "\<dots> = (v \<noteq> 0)" unfolding bs(3) using that kl by (subst nth_change) simp_all
      finally show ?thesis .
    qed
    with True bs that show thesis by simp
  next
    case False
    then show thesis using that [of "bv_buckets bv"] by simp
  qed
  let ?w = "if v \<noteq> 0 then NOT 0 else 0 :: bucket8"
  let ?bs = "put bs 0 (replicate ?k ?w)"
  have k: "?k \<le> length bs" using assms(1) bs(2) by (simp add: bv_wf_def CFBitVectorNumBuckets_def div_le_mono le_SucI)
  have "bit_at ?bs i = (v \<noteq> 0)" if "i < ?n" for i
    using bs(3) [of i] that unfolding bit_at_fill [OF k] by (auto simp: bit_not_iff not_less less_eq_div_iff_mult_less_eq)
  then have "bits_of (bv\<lparr>bv_buckets := ?bs\<rparr>) = replicate ?n (v \<noteq> 0)" by (intro bits_of_eqI) simp_all
  moreover have "CFBitVectorSetAllBits bv v = Some (bv\<lparr>bv_buckets := ?bs\<rparr>)"
    using assms(2) k unfolding CFBitVectorSetAllBits_def Let_def bs(1) by simp
  moreover have "length ?bs = length (bv_buckets bv)" using k bs(2) by simp
  ultimately show ?thesis using wf_update [OF assms(1)] by (simp add: bv_becomes_def)
qed

lemma bv_op_becomes:
  assumes wf: "bv_wf bv" and mut: "bv_variety bv = BVMutable" and op: "bits_op op (bits_of bv) = Some xs"
  shows "bv_becomes bv xs (apply_bv_op fresh bv op)"
proof (cases op)
  case (SetBit i v)
  then have i: "i < bv_count bv" using op by (auto split: if_splits)
  show ?thesis using bucket_update_becomes [OF wf i set_bit_spec [OF wf_bits [OF wf i]], of v] SetBit op i mut
    by (simp add: CFBitVectorSetBitAtIndex_def)
next
  case (FlipBit i)
  then have i: "i < bv_count bv" using op by (auto split: if_splits)
  obtain bs where "CFFlipBitVectorBit (bv_buckets bv) i = Some bs" "length bs = length (bv_buckets bv)"
    "\<forall>j. bit_at bs j = (if j = i then \<not> bit_at (bv_buckets bv) i else bit_at (bv_buckets bv) j)"
    using flip_bit_spec [OF wf_bits [OF wf i]] by auto
  then have "\<exists>bs. CFFlipBitVectorBit (bv_buckets bv) i = Some bs \<and> length bs = length (bv_buckets bv) \<and>
    (\<forall>j. bit_at bs j = (if j = i then \<not> bit_at (bv_buckets bv) i else bit_at (bv_buckets bv) j))" by blast
  from bucket_update_becomes [OF wf i this] show ?thesis using FlipBit op i mut
    by (simp add: CFBitVectorFlipBitAtIndex_def)
next
  case (SetBits loc n v)
  then have r: "loc + n \<le> bv_count bv" and xs: "xs = change (\<lambda>_. v \<noteq> 0) (bits_of bv) loc n"
    using op by (auto split: if_splits)
  have bw: "bitwise (if v \<noteq> 0 then CFBitVectorOneBits else CFBitVectorZeroBits) (\<lambda>_. v \<noteq> 0)"
    using bitwise_mappers by simp
  show ?thesis using map_bits_becomes [OF wf bw r] SetBits mut xs wf
    by (cases "n = 0") (auto simp: CFBitVectorSetBits_def bv_becomes_def change_def)
next
  case (FlipBits loc n)
  then have r: "loc + n \<le> bv_count bv" and xs: "xs = change Not (bits_of bv) loc n"
    using op by (auto split: if_splits)
  show ?thesis using map_bits_becomes [OF wf bitwise_mappers(3) r] FlipBits mut xs wf
    by (cases "n = 0") (auto simp: CFBitVectorFlipBits_def bv_becomes_def change_def)
next
  case (SetAllBits v)
  then show ?thesis using set_all_becomes [OF wf mut, of v] op by simp
next
  case (SetCount n)
  then show ?thesis using set_count_becomes [OF wf mut, of n fresh] op by simp
qed

end
