(* ===== verification/CFBitVectorTheorems.thy ===== *)
theory CFBitVectorTheorems
  imports CFBitVector
begin

unbundle bit_operations_syntax

text \<open>
  What the operations of \<^verbatim>\<open>CFBitVector.c\<close> compute: counting, extraction, searches, equality and
  creation, each as a function of the list of bits \<open>bits_of\<close>.
\<close>

subsection \<open>Counting\<close>

lemma nibble_table:
  "NibbleBitCount ! unat (horner_sum of_bool 2 [a, b, c, d] :: bucket8) = of_bool a + of_bool b + of_bool c + of_bool d"
  by (cases a; cases b; cases c; cases d) (simp_all add: NibbleBitCount_def)

lemma nibble_sum:
  "NibbleBitCount ! unat (w AND 0xF :: bucket8) =
     of_bool (bit w 0) + of_bool (bit w 1) + of_bool (bit w 2) + of_bool (bit w 3)"
proof -
  have "w AND 0xF = take_bit 4 w" by (simp add: take_bit_eq_mask mask_numeral)
  also have "\<dots> = horner_sum of_bool 2 (map (bit w) [0..<4])" by (simp only: horner_sum_bit_eq_take_bit)
  also have "[0..<4] = [0, 1, 2, 3 :: nat]" by (simp add: upt_conv_Cons)
  finally show ?thesis by (simp only: list.map nibble_table)
qed

definition bits_in :: "bucket8 \<Rightarrow> nat" where
  "bits_in w = (\<Sum>n<8. of_bool (bit w n))"

lemma nibbles: "NibbleBitCount ! unat (w AND 0xF) + NibbleBitCount ! unat (drop_bit 4 w AND 0xF) = bits_in w"
  unfolding nibble_sum bits_in_def
  by (simp add: bit_drop_bit_eq lessThan_nat_numeral lessThan_Suc del: sum_of_bool_eq)

lemma bits_in_reverse: "bits_in w = (\<Sum>r<8. of_bool (bit w (7 - r)))"
  unfolding bits_in_def using sum.nat_diff_reindex [of "\<lambda>n. of_bool (bit w n) :: nat" 8] by (simp del: sum_of_bool_eq)

definition matching :: "bool \<Rightarrow> bucket8 list \<Rightarrow> nat \<Rightarrow> nat \<Rightarrow> nat" where
  "matching v bs p n = (\<Sum>i\<in>{p..<p + n}. of_bool (bit_at bs i = v))"

lemma matching_0 [simp]: "matching v bs p 0 = 0"
  by (simp add: matching_def)

lemma matching_add: "matching v bs p (m + n) = matching v bs p m + matching v bs (p + m) n"
  unfolding matching_def using sum.atLeastLessThan_concat [of p "p + m" "p + (m + n)" "\<lambda>i. of_bool (bit_at bs i = v) :: nat"] by (simp add: add.assoc del: sum_of_bool_eq)

lemma bits_in_bucket:
  assumes "p mod 8 + m \<le> 8" "0 < m"
    and w: "\<And>n. n < 8 \<Longrightarrow> bit w n \<longleftrightarrow> bit (bs ! (p div 8)) n = v \<and> bit (CFBitBucketMask (p mod 8) (p mod 8 + m - 1)) n"
  shows "bits_in w = matching v bs p m"
proof -
  let ?k = "p div 8"
  have "bit w (7 - r) \<longleftrightarrow> bit_at bs (?k * 8 + r) = v \<and> p \<le> ?k * 8 + r \<and> ?k * 8 + r < p + m" if "r < 8" for r
    using w [of "7 - r"] mask_at [OF assms(1,2), of "?k * 8 + r"] that by (simp add: bit_at_def)
  then have "bits_in w = (\<Sum>r<8. of_bool (bit_at bs (?k * 8 + r) = v \<and> p \<le> ?k * 8 + r \<and> ?k * 8 + r < p + m))"
    unfolding bits_in_reverse by (intro sum.cong) simp_all
  also have "\<dots> = (\<Sum>i\<in>{?k * 8..<?k * 8 + 8}. of_bool (bit_at bs i = v \<and> p \<le> i \<and> i < p + m))"
    using sum.shift_bounds_nat_ivl [of "\<lambda>i. of_bool (bit_at bs i = v \<and> p \<le> i \<and> i < p + m) :: nat" 0 "?k * 8" 8]
    by (simp add: add.commute atLeast0LessThan del: sum_of_bool_eq)
  also have "\<dots> = matching v bs p m" unfolding matching_def
  proof (rule sum.mono_neutral_cong_right)
    have "p = ?k * 8 + p mod 8" by simp
    then show "{p..<p + m} \<subseteq> {?k * 8..<?k * 8 + 8}" using assms(1) by (intro ivl_subset [THEN iffD2]) linarith
  qed auto
  finally show ?thesis .
qed

lemma map_bucket_same:
  assumes "mapper ctx (bs ! k) msk = Some (bs ! k, ctx')" "k < length bs"
  shows "map_bucket mapper bs ctx k msk = Some (bs, ctx')"
proof -
  have "(bs ! k AND NOT msk) OR (bs ! k AND msk) = bs ! k"
    by (rule bit_eqI) (auto simp: bit_or_iff bit_and_iff bit_not_iff)
  then show ?thesis using assms by (simp add: map_bucket_def)
qed

lemma count_range:
  "p + n \<le> 8 * length bs \<Longrightarrow>
   map_range CFBitVectorCountBits bs (value, cnt) p n = Some (bs, (value, cnt + matching (value \<noteq> 0) bs p n))"
proof (induction n arbitrary: p cnt rule: less_induct)
  case (less n)
  show ?case
  proof (cases "n = 0")
    case False
    define m where "m = min (8 - p mod 8) n"
    have "p mod 8 < 8" by simp
    then have m: "p mod 8 + m \<le> 8" "0 < m" "m \<le> n" using False unfolding m_def by (linarith, auto)
    have k: "p div 8 < length bs" using less.prems False by (simp add: less_mult_imp_div_less mult.commute)
    let ?M = "CFBitBucketMask (p mod 8) (p mod 8 + m - 1)" and ?b = "bs ! (p div 8)"
    let ?w = "if value \<noteq> 0 then ?b AND ?M else NOT ?b AND ?M"
    have "bits_in ?w = matching (value \<noteq> 0) bs p m"
      by (rule bits_in_bucket [OF m(1,2)]) (auto simp: bit_and_iff bit_not_iff)
    then have "CFBitVectorCountBits (value, cnt) ?b ?M = Some (?b, (value, cnt + matching (value \<noteq> 0) bs p m))"
      using nibbles [of ?w] by (simp only: CFBitVectorCountBits_def Let_def add.assoc split_conv)
    then have step: "map_bucket CFBitVectorCountBits bs (value, cnt) (p div 8) ?M =
      Some (bs, (value, cnt + matching (value \<noteq> 0) bs p m))" by (rule map_bucket_same) (rule k)
    have "n - m < n" "p + m + (n - m) \<le> 8 * length bs" and mn: "m + (n - m) = n" using m less.prems by simp_all
    from less.IH [OF this(1,2)] show ?thesis using False step matching_add [of "value \<noteq> 0" bs p m "n - m"] mn
      by (subst map_range.simps) (simp only: Let_def m_def [symmetric] if_False Option.bind_lunit split_conv add.assoc)
  qed simp
qed

lemma matching_bits:
  assumes "p + n \<le> bv_count bv"
  shows "matching v (bv_buckets bv) p n = length (filter (\<lambda>b. b = v) (Prelude.slice (bits_of bv) p n))"
  using assms
proof (induction n)
  case (Suc n)
  have "Prelude.slice (bits_of bv) p (Suc n) = Prelude.slice (bits_of bv) p n @ [bits_of bv ! (p + n)]"
    using Suc.prems by (simp add: Prelude.slice_def take_Suc_conv_app_nth)
  then show ?case using Suc by (simp add: matching_def del: sum_of_bool_eq)
qed simp

lemma count_spec:
  assumes "bv_wf bv" "loc + n \<le> bv_count bv"
  shows "CFBitVectorGetCountOfBit bv loc n v =
    Some (length (filter (\<lambda>b. b = (v \<noteq> 0)) (Prelude.slice (bits_of bv) loc n)))"
  using count_range [OF wf_range [OF assms], of v 0] matching_bits [OF assms(2), of "v \<noteq> 0"]
  by (simp add: CFBitVectorGetCountOfBit_def internal_map_range)

subsection \<open>Extracting bits\<close>

definition aligned_context :: "bucket8 list \<Rightarrow> nat \<Rightarrow> int \<Rightarrow> get_bits_context" where
  "aligned_context bytes cur tot =
     \<lparr>gb_bytes = bytes, gb_curByte = cur, gb_initBits = 0, gb_totalBits = tot, gb_ignoreFirstInitBits = True\<rparr>"

lemma get_bits_byte:
  assumes "8 \<le> tot" "cur < length bytes"
  shows "CFBitVectorGetBitsMapper (aligned_context bytes cur tot) b msk =
    Some (b, aligned_context (bytes[cur := b AND msk]) (cur + 1) tot)"
  using assms by (simp add: CFBitVectorGetBitsMapper_def aligned_context_def get_bits_loop.simps Let_def)

lemma get_bits_last:
  assumes "0 < n" "n < 8" "cur < length bytes"
  shows "CFBitVectorGetBitsMapper (aligned_context bytes cur (int n)) b msk =
    Some (b, aligned_context (bytes[cur := b AND msk]) cur 0)"
  using assms by (simp add: CFBitVectorGetBitsMapper_def aligned_context_def get_bits_loop.simps Let_def)

lemma get_bits_full:
  "8 \<le> tot \<Longrightarrow> k + q \<le> length bs \<Longrightarrow> cur + q \<le> length bytes \<Longrightarrow>
   map_full CFBitVectorGetBitsMapper bs (aligned_context bytes cur tot) k q =
     Some (bs, aligned_context (put bytes cur (Prelude.slice bs k q)) (cur + q) tot)"
proof (induction q arbitrary: k cur bytes)
  case 0
  then show ?case by (simp add: put_def)
next
  case (Suc q)
  have "map_full CFBitVectorGetBitsMapper bs (aligned_context (bytes[cur := bs ! k]) (cur + 1) tot) (k + 1) q =
      Some (bs, aligned_context (put (bytes[cur := bs ! k]) (cur + 1) (Prelude.slice bs (k + 1) q)) (cur + 1 + q) tot)"
    using Suc.prems by (intro Suc.IH) simp_all
  moreover have "put (bytes[cur := bs ! k]) (cur + 1) (Prelude.slice bs (k + 1) q) =
      put bytes cur (Prelude.slice bs k (Suc q))"
    using Suc.prems by (simp add: put_def slice_Cons take_update_swap take_Suc_conv_app_nth drop_update_cancel list_update_append)
  ultimately show ?case using Suc.prems by (simp add: get_bits_byte)
qed

definition extracted :: "bucket8 list \<Rightarrow> nat \<Rightarrow> nat \<Rightarrow> bucket8 list" where
  "extracted bs k n = Prelude.slice bs k (n div 8) @
     (if n mod 8 = 0 then [] else [bs ! (k + n div 8) AND CFBitBucketMask 0 (n mod 8 - 1)])"

lemma put_snoc: "b + length vs < length m \<Longrightarrow> (put m b vs)[b + length vs := x] = put m b (vs @ [x])"
  by (simp add: put_def list_update_append upd_conv_take_nth_drop Suc_diff_Suc flip: Cons_nth_drop_Suc)

lemma get_bits_aligned:
  assumes n: "0 < n" "8 * k + n \<le> 8 * length bs" "n \<le> 8 * length bytes"
  shows "\<exists>ctx. map_range CFBitVectorGetBitsMapper bs (aligned_context bytes 0 (int n)) (8 * k) n = Some (bs, ctx) \<and>
    gb_bytes ctx = put bytes 0 (extracted bs k n)"
proof -
  obtain q r where qr: "n = 8 * q + r" "n div 8 = q" "n mod 8 = r" "r < 8"
    by (rule that [of "n div 8" "n mod 8"]) simp_all
  have kq: "k + q \<le> length bs" "q \<le> length bytes" "0 < r \<Longrightarrow> k + q < length bs" "0 < r \<Longrightarrow> q < length bytes"
    using n qr(1) by linarith+
  show ?thesis
  proof (cases "q = 0")
    case True
    then have r: "0 < r" "n = r" using n qr by simp_all
    have "map_bucket CFBitVectorGetBitsMapper bs (aligned_context bytes 0 (int n)) k (CFBitBucketMask 0 (r - 1)) =
      Some (bs, aligned_context (bytes[0 := bs ! k AND CFBitBucketMask 0 (r - 1)]) 0 0)"
      using r kq True qr(4) get_bits_last [of n 0 bytes] by (intro map_bucket_same) simp_all
    moreover have "put bytes 0 (extracted bs k n) = bytes[0 := bs ! k AND CFBitBucketMask 0 (r - 1)]"
      using r qr True kq put_snoc [of 0 "[]" bytes] by (simp add: extracted_def) (simp add: put_def)
    ultimately show ?thesis using r qr map_range_partial [of n CFBitVectorGetBitsMapper bs "aligned_context bytes 0 (int n)" k]
      by (simp add: aligned_context_def)
  next
    case False
    define b1 where "b1 = put bytes 0 (Prelude.slice bs k q)"
    have 8: "8 \<le> int n" using qr False by simp
    have full: "map_full CFBitVectorGetBitsMapper bs (aligned_context bytes 0 (int n)) k q =
        Some (bs, aligned_context b1 q (int n))"
      using get_bits_full [OF 8, of k q bs 0 bytes] kq by (simp add: b1_def)
    have l: "length b1 = length bytes" using kq by (simp add: b1_def)
    show ?thesis
    proof (cases "r = 0")
      case True
      then show ?thesis using full qr map_full_range [of CFBitVectorGetBitsMapper bs "aligned_context bytes 0 (int n)" k q 0]
        by (simp add: extracted_def b1_def) (simp add: aligned_context_def)
    next
      case r: False
      let ?x = "bs ! (k + q) AND CFBitBucketMask 0 (r - 1)"
      have "map_bucket CFBitVectorGetBitsMapper bs (aligned_context b1 q (int n)) (k + q) (CFBitBucketMask 0 (r - 1)) =
        Some (bs, aligned_context (b1[q := ?x]) (q + 1) (int n))"
        using r kq l get_bits_byte [OF 8] by (intro map_bucket_same) simp_all
      moreover have "b1[q := ?x] = put bytes 0 (extracted bs k n)"
        using put_snoc [of 0 "Prelude.slice bs k q" bytes ?x] r kq qr by (simp add: b1_def extracted_def)
      ultimately show ?thesis using full qr r map_range_partial [of r CFBitVectorGetBitsMapper bs "aligned_context b1 q (int n)" "k + q"]
        unfolding qr(1)
        by (simp add: map_full_range aligned_context_def del: distrib_left_numeral)
    qed
  qed
qed

lemma bit_at_extracted:
  assumes "8 * k + n \<le> 8 * length bs" "n \<le> 8 * length bytes"
  shows "bit_at (put bytes 0 (extracted bs k n)) j =
    (if j < n then bit_at bs (8 * k + j) else if j < 8 * ((n + 7) div 8) then False else bit_at bytes j)"
proof -
  obtain q r where qr: "n = 8 * q + r" "n div 8 = q" "n mod 8 = r" "r < 8"
    by (rule that [of "n div 8" "n mod 8"]) simp_all
  let ?a = "j div 8" and ?s = "j mod 8"
  have j: "j = 8 * ?a + ?s" "?s < 8" by simp_all
  define e where "e = extracted bs k n"
  have kq: "k + q \<le> length bs" using assms qr(1) by linarith
  have up: "(n + 7) div 8 = q + of_bool (r \<noteq> 0)" unfolding qr(1) using qr(4) by (intro div_nat_eqI) (cases "r = 0"; simp)+
  have le: "length e = (n + 7) div 8" unfolding up e_def extracted_def qr(2,3) using kq by simp
  have lb: "length e \<le> length bytes" unfolding le up using assms(2) qr(1) by (cases "r = 0") simp_all
  have at: "bit_at (put bytes 0 e) j = (if ?a < length e then bit (e ! ?a) (7 - ?s) else bit_at bytes j)"
    using lb by (simp add: bit_at_def put_def nth_append)
  have bs: "bit (bs ! (k + ?a)) (7 - ?s) = bit_at bs (8 * k + j)" by (simp add: bit_at_def)
  have "?a < q \<or> ?a = q \<or> Suc q \<le> ?a" by linarith
  then consider "?a < q" | (last) "?a = q" "r \<noteq> 0" | (out) "q + of_bool (r \<noteq> 0) \<le> ?a" by (cases "r = 0") auto
  then have "bit_at (put bytes 0 e) j =
    (if j < n then bit_at bs (8 * k + j) else if j < 8 * ((n + 7) div 8) then False else bit_at bytes j)"
  proof cases
    case 1
    then have "?a < length e" "j < n" using j qr(1) unfolding le up by (simp, linarith)
    moreover have "e ! ?a = bs ! (k + ?a)" using 1 kq by (simp add: e_def extracted_def qr(2) nth_append nth_slice)
    ultimately show ?thesis using at bs by simp
  next
    case last
    then have "?a < length e" unfolding le up by simp
    moreover have "8 * ((n + 7) div 8) = 8 * q + 8" unfolding up using last by simp
    then have "j < 8 * ((n + 7) div 8)" using j last(1) by linarith
    moreover have "e ! ?a = bs ! (k + ?a) AND CFBitBucketMask 0 (r - 1)"
      using last kq by (simp add: e_def extracted_def qr(2,3) nth_append)
    moreover have "bit (CFBitBucketMask 0 (r - 1)) (7 - ?s) \<longleftrightarrow> j < n"
    proof -
      have "bit (CFBitBucketMask 0 (r - 1)) (7 - ?s) \<longleftrightarrow> 7 - (r - 1) \<le> 7 - ?s \<and> 7 - ?s \<le> 7 - 0"
        using last qr(4) by (intro bit_bucket_mask) simp_all
      also have "\<dots> \<longleftrightarrow> ?s < r" using j(2) qr(4) last by linarith
      also have "\<dots> \<longleftrightarrow> j < n" using j last(1) qr(1) by linarith
      finally show ?thesis .
    qed
    ultimately show ?thesis using at bs by (simp add: bit_and_iff)
  next
    case out
    then have "\<not> ?a < length e" "\<not> j < n" "\<not> j < 8 * ((n + 7) div 8)"
      using j qr(1,4) unfolding le up by (simp, (cases "r = 0"; simp), simp)
    then show ?thesis using at by simp
  qed
  then show ?thesis by (simp only: e_def)
qed

text \<open>Reading from inside a byte, only the first byte of the destination is ever written.\<close>

lemma get_bits_stuck:
  assumes "0 < i" "i < 8" "bytes \<noteq> []"
  shows "\<exists>x t. CFBitVectorGetBitsMapper
      \<lparr>gb_bytes = bytes, gb_curByte = 0, gb_initBits = i, gb_totalBits = tot, gb_ignoreFirstInitBits = True\<rparr> b msk =
    Some (b, \<lparr>gb_bytes = bytes[0 := x], gb_curByte = 0, gb_initBits = i, gb_totalBits = t, gb_ignoreFirstInitBits = True\<rparr>)"
proof -
  have "\<not> 8 \<le> nat (min (8 - int i) tot)" using assms by simp
  then show ?thesis using assms
    by (cases "0 < nat (min (8 - int i) tot)")
      (auto simp: CFBitVectorGetBitsMapper_def get_bits_loop.simps Let_def intro: exI [of _ "bytes ! 0"])
qed

lemma get_bits_unaligned:
  "0 < i \<Longrightarrow> i < 8 \<Longrightarrow> bytes \<noteq> [] \<Longrightarrow> p + n \<le> 8 * length bs \<Longrightarrow>
   \<exists>ctx x. map_range CFBitVectorGetBitsMapper bs
      \<lparr>gb_bytes = bytes, gb_curByte = 0, gb_initBits = i, gb_totalBits = tot, gb_ignoreFirstInitBits = True\<rparr> p n =
     Some (bs, ctx) \<and> gb_bytes ctx = bytes[0 := x]"
proof (induction n arbitrary: p bytes tot rule: less_induct)
  case (less n)
  show ?case
  proof (cases "n = 0")
    case True
    then show ?thesis by (auto intro!: exI [of _ "bytes ! 0"])
  next
    case False
    define m where "m = min (8 - p mod 8) n"
    have "p mod 8 < 8" by simp
    then have m: "0 < m" "m \<le> n" using False unfolding m_def by (linarith, auto)
    have k: "p div 8 < length bs" using less.prems False by (simp add: less_mult_imp_div_less mult.commute)
    let ?M = "CFBitBucketMask (p mod 8) (p mod 8 + m - 1)"
    let ?c = "\<lambda>bytes tot. \<lparr>gb_bytes = bytes, gb_curByte = 0, gb_initBits = i, gb_totalBits = tot, gb_ignoreFirstInitBits = True\<rparr>"
    obtain x t where "CFBitVectorGetBitsMapper (?c bytes tot) (bs ! (p div 8)) ?M =
        Some (bs ! (p div 8), ?c (bytes[0 := x]) t)"
      using get_bits_stuck [OF less.prems(1-3)] by blast
    then have step: "map_bucket CFBitVectorGetBitsMapper bs (?c bytes tot) (p div 8) ?M = Some (bs, ?c (bytes[0 := x]) t)"
      by (rule map_bucket_same) (rule k)
    have "n - m < n" "bytes[0 := x] \<noteq> []" "p + m + (n - m) \<le> 8 * length bs" using m less.prems by simp_all
    from less.IH [OF this(1) less.prems(1,2) this(2,3)] obtain ctx y where
      "map_range CFBitVectorGetBitsMapper bs (?c (bytes[0 := x]) t) (p + m) (n - m) = Some (bs, ctx)"
      "gb_bytes ctx = bytes[0 := x, 0 := y]" by blast
    then show ?thesis using False step
      by (subst map_range.simps) (auto simp: Let_def m_def [symmetric])
  qed
qed

subsection \<open>Reading\<close>

lemma get_bits_spec:
  assumes wf: "bv_wf bv" and r: "loc + n \<le> bv_count bv" and len: "n \<le> 8 * length bytes" and 0: "0 < n"
  shows "\<exists>out. CFBitVectorGetBits bv loc n bytes = Some out \<and>
    (if loc mod 8 = 0 then \<forall>j. bit_at out j =
        (if j < n then bits_of bv ! (loc + j) else if j < 8 * ((n + 7) div 8) then False else bit_at bytes j)
     else \<exists>x. out = bytes[0 := x])"
proof (cases "loc mod 8 = 0")
  case True
  then obtain k where k: "loc = 8 * k" by (metis dvd_def mod_eq_0_iff_dvd)
  have b: "8 * k + n \<le> 8 * length (bv_buckets bv)" using wf_range [OF wf r] k by simp
  obtain ctx where ctx: "map_range CFBitVectorGetBitsMapper (bv_buckets bv) (aligned_context bytes 0 (int n)) (8 * k) n =
      Some (bv_buckets bv, ctx)" "gb_bytes ctx = put bytes 0 (extracted (bv_buckets bv) k n)"
    using get_bits_aligned [OF 0 b len] by blast
  then have "CFBitVectorGetBits bv loc n bytes = Some (put bytes 0 (extracted (bv_buckets bv) k n))"
    using 0 k by (simp add: CFBitVectorGetBits_def internal_map_range aligned_context_def)
  moreover have "bit_at (put bytes 0 (extracted (bv_buckets bv) k n)) j =
      (if j < n then bits_of bv ! (loc + j) else if j < 8 * ((n + 7) div 8) then False else bit_at bytes j)" for j
    unfolding bit_at_extracted [OF b len] using r k by simp
  ultimately show ?thesis using True by simp
next
  case False
  have l: "loc mod 8 < 8" "0 < loc mod 8" "bytes \<noteq> []" using False len 0 by auto
  obtain ctx x where "map_range CFBitVectorGetBitsMapper (bv_buckets bv)
      \<lparr>gb_bytes = bytes, gb_curByte = 0, gb_initBits = loc mod 8, gb_totalBits = int n, gb_ignoreFirstInitBits = True\<rparr>
      loc n = Some (bv_buckets bv, ctx)" "gb_bytes ctx = bytes[0 := x]"
    using get_bits_unaligned [OF l(2,1,3) wf_range [OF wf r]] by blast
  then show ?thesis using False 0 by (auto simp: CFBitVectorGetBits_def internal_map_range)
qed

lemma bv_first_loop_spec:
  assumes "bv_wf bv" "v < 2"
  shows "loc + idx + n \<le> bv_count bv \<Longrightarrow> bv_first_loop bv loc v idx n =
    Some (case find (\<lambda>i. bits_of bv ! i = (v = 1)) [loc + idx..<loc + idx + n] of None \<Rightarrow> -1 | Some i \<Rightarrow> int i)"
proof (induction n arbitrary: idx)
  case (Suc n)
  have b: "CFBitVectorGetBitAtIndex bv (loc + idx) = Some (of_bool (bits_of bv ! (loc + idx)))"
    using Suc.prems get_bit_spec [OF wf_bits [OF assms(1)], of "loc + idx"] by (simp add: CFBitVectorGetBitAtIndex_def)
  have "(v = of_bool c) = (c = (v = 1))" for c using assms(2) by (cases c) auto
  moreover have "[loc + idx..<loc + idx + Suc n] = (loc + idx) # [loc + (idx + 1)..<loc + (idx + 1) + n]"
    by (simp add: upt_conv_Cons)
  moreover have "loc + (idx + 1) + n \<le> bv_count bv" using Suc.prems by simp
  ultimately show ?case using Suc.IH [of "idx + 1"] b by (simp del: nth_bits_of upt_Suc)
qed simp

lemma bv_last_loop_spec:
  assumes "bv_wf bv" "v < 2"
  shows "loc + n \<le> bv_count bv \<Longrightarrow> bv_last_loop bv loc v n =
    Some (case find (\<lambda>i. bits_of bv ! i = (v = 1)) (rev [loc..<loc + n]) of None \<Rightarrow> -1 | Some i \<Rightarrow> int i)"
proof (induction n)
  case (Suc n)
  have b: "CFBitVectorGetBitAtIndex bv (loc + n) = Some (of_bool (bits_of bv ! (loc + n)))"
    using Suc.prems get_bit_spec [OF wf_bits [OF assms(1)], of "loc + n"] by (simp add: CFBitVectorGetBitAtIndex_def)
  have "(v = of_bool c) = (c = (v = 1))" for c using assms(2) by (cases c) auto
  then show ?case using Suc b by simp
qed simp

lemma bv_equal_loop_spec:
  "i + n \<le> length a \<Longrightarrow> i + n \<le> length b \<Longrightarrow>
   bv_equal_loop a b i n = Some (Prelude.slice a i n = Prelude.slice b i n)"
  by (induction n arbitrary: i) (auto simp: slice_Cons)

lemma byte_eq_iff: "(a :: bucket8) = b \<longleftrightarrow> (\<forall>r<8. bit a (7 - r) = bit b (7 - r))"
proof
  assume *: "\<forall>r<8. bit a (7 - r) = bit b (7 - r)"
  have "bit a n = bit b n" if "n < 8" for n using * [rule_format, of "7 - n"] that by simp
  then show "a = b" by (intro bit_word_eqI) simp
qed simp

lemma slice_eq_bits:
  assumes "n \<le> length a" "n \<le> length b"
  shows "Prelude.slice a 0 n = Prelude.slice b 0 n \<longleftrightarrow> (\<forall>i < 8 * n. bit_at a i = bit_at b i)"
proof -
  have "Prelude.slice a 0 n = Prelude.slice b 0 n \<longleftrightarrow> (\<forall>k<n. a ! k = b ! k)"
    using assms by (auto simp: list_eq_iff_nth_eq nth_slice)
  also have "\<dots> \<longleftrightarrow> (\<forall>i < 8 * n. bit_at a i = bit_at b i)"
  proof (rule iffI; intro allI impI)
    fix i assume "\<forall>k<n. a ! k = b ! k" "i < 8 * n"
    then show "bit_at a i = bit_at b i" by (simp add: bit_at_def less_mult_imp_div_less mult.commute)
  next
    fix k assume *: "\<forall>i < 8 * n. bit_at a i = bit_at b i" and "k < n"
    then have "bit_at a (8 * k + r) = bit_at b (8 * k + r)" if "r < 8" for r using that by simp
    then show "a ! k = b ! k" by (simp add: byte_eq_iff bit_at_def)
  qed
  finally show ?thesis .
qed

text \<open>The bits the comparison reads: those of the vectors and the rest of the last bucket.\<close>

definition compared_bits :: "bitvector \<Rightarrow> bool list" where
  "compared_bits bv = (if bv_count bv = 0 then [] else map (bit_at (bv_buckets bv)) [0..<8 * (bv_count bv div 8 + 1)])"

lemma equal_spec:
  assumes "bv_wf a" "bv_wf b"
  shows "CFBitVectorEqual a b = Some (bv_count a = bv_count b \<and> compared_bits a = compared_bits b)"
proof (cases "bv_count a = bv_count b \<and> bv_count a \<noteq> 0")
  case True
  have le: "bv_count x div 8 + 1 \<le> length (bv_buckets x)" if "bv_wf x" for x
    using that by (auto simp: bv_wf_def CFBitVectorNumBuckets_def intro: div_le_mono)
  let ?n = "bv_count a div 8 + 1"
  have l: "?n \<le> length (bv_buckets a)" "?n \<le> length (bv_buckets b)" using le assms True by force+
  have "CFBitVectorEqual a b = Some (Prelude.slice (bv_buckets a) 0 ?n = Prelude.slice (bv_buckets b) 0 ?n)"
    using True bv_equal_loop_spec [of 0 ?n "bv_buckets a" "bv_buckets b"] l by (simp add: CFBitVectorEqual_def)
  also have "\<dots> = Some (compared_bits a = compared_bits b)"
    unfolding slice_eq_bits [OF l] using True by (auto simp: compared_bits_def)
  finally show ?thesis using True by simp
qed (auto simp: CFBitVectorEqual_def compared_bits_def)

lemma compared_prefix: "bits_of bv = take (bv_count bv) (compared_bits bv)"
  by (auto simp: bits_of_def compared_bits_def take_map min_def)

lemma bv_init_spec:
  assumes "n \<le> 8 * length bytes"
  shows "\<exists>bv. CFBitVectorInit var (Some bytes) n = Some bv \<and> bv_wf bv \<and> bv_count bv = n \<and> bv_variety bv = var \<and>
    bits_of bv = map (bit_at bytes) [0..<n]"
proof -
  let ?c = "CFBitVectorRoundUpCapacity n"
  let ?m = "n div 8 + (if n mod 8 \<noteq> 0 then 1 else 0)"
  have m: "?m \<le> length bytes" "n \<le> 8 * ?m"
  proof -
    obtain k r where "n div 8 = k" "n mod 8 = r" "n = 8 * k + r" "r < 8"
      by (rule that [of "n div 8" "n mod 8"]) simp_all
    then show "?m \<le> length bytes" "n \<le> 8 * ?m" using assms by (cases "r = 0"; simp)+
  qed
  have mc: "?m \<le> ?c div 8 + 1" using round_up_64(1) [of n] by (auto intro: div_le_mono order.trans)
  let ?bs = "put (replicate (?c div 8 + 1) 0) 0 (Prelude.slice bytes 0 ?m)"
  let ?bv = "\<lparr>bv_count = n, bv_capacity = ?c, bv_buckets = ?bs, bv_variety = var\<rparr>"
  have "CFBitVectorInit var (Some bytes) n = Some ?bv"
    using m mc unfolding CFBitVectorInit_def Let_def memmove_def by simp
  moreover have "bv_wf ?bv" using m mc round_up_64 [of n] by (simp add: bv_wf_def CFBitVectorNumBuckets_def)
  moreover have "bits_of ?bv = map (bit_at bytes) [0..<n]"
  proof -
    have "bit_at ?bs i = bit_at bytes i" if "i < n" for i
    proof -
      have "i div 8 < ?m" using that m(2) by (simp add: less_mult_imp_div_less mult.commute del: One_nat_def)
      then show ?thesis using m by (simp add: bit_at_def put_def nth_append nth_slice)
    qed
    then show ?thesis by (simp add: bits_of_def)
  qed
  ultimately show ?thesis by auto
qed

subsection \<open>The bit vector as a list of bits\<close>

text \<open>C39: Every operation that changes a mutable bit vector succeeds where the list operation is defined,
  keeps the vector well formed and acts on its bits as the list operation; the bits that
  \<^verbatim>\<open>CFBitVectorSetCount\<close> adds are zero whatever the reallocated memory held.\<close>

theorem bv_ops_refine_bits:
  assumes "bv_wf bv" and "bv_variety bv = BVMutable" and "bits_op op (bits_of bv) = Some xs"
  shows "\<exists>bv'. apply_bv_op fresh bv op = Some bv' \<and> bv_wf bv' \<and> bv_variety bv' = BVMutable \<and> bits_of bv' = xs"
  using bv_op_becomes [OF assms, of fresh] assms(2) by (auto simp: bv_becomes_def)

definition bv_sample :: bitvector where
  "bv_sample = \<lparr>bv_count = 12, bv_capacity = 64, bv_buckets = [0xA5, 0xC0, 0, 0, 0, 0, 0, 0, 0], bv_variety = BVMutable\<rparr>"

lemma bv_sample_facts:
  "bv_wf bv_sample" "bv_count bv_sample = 12" "bv_variety bv_sample = BVMutable"
  "bits_of bv_sample = [True, False, True, False, False, True, False, True, True, True, False, False]"
  by (simp_all add: bv_sample_def bv_wf_def CFBitVectorNumBuckets_def bits_of_def bit_at_def upt_conv_Cons)

lemma bv_ops_refine_bits_witness:
  "\<exists>bv'. apply_bv_op (\<lambda>_. 0xFF) bv_sample (FlipBits 3 7) = Some bv' \<and>
     bits_of bv' = [True, False, True, True, True, False, True, False, False, False, False, False]"
  using bv_ops_refine_bits [OF bv_sample_facts(1,3), of "FlipBits 3 7" _ "\<lambda>_. 0xFF"]
  by (simp add: bv_sample_facts change_def Prelude.slice_def) blast

text \<open>\<^verbatim>\<open>CFBitVectorGetCountOfBit\<close> is the number of bits of the range that have the value asked for, and
  \<^verbatim>\<open>CFBitVectorContainsBit\<close> says whether there is one.\<close>

theorem bv_count_correct:
  assumes "bv_wf bv" and "loc + n \<le> bv_count bv"
  shows "CFBitVectorGetCountOfBit bv loc n v =
      Some (length (filter (\<lambda>b. b = (v \<noteq> 0)) (take n (drop loc (bits_of bv))))) \<and>
    CFBitVectorContainsBit bv loc n v = Some ((v \<noteq> 0) \<in> set (take n (drop loc (bits_of bv))))"
  using count_spec [OF assms, of v]
  by (auto simp: CFBitVectorContainsBit_def Prelude.slice_def filter_empty_conv)

lemma bv_count_correct_witness: "CFBitVectorGetCountOfBit bv_sample 2 9 1 = Some 5"
  using bv_count_correct [OF bv_sample_facts(1), of 2 9 1] by (simp add: bv_sample_facts)

text \<open>\<^verbatim>\<open>CFBitVectorGetBits\<close> from a byte boundary stores the bits of the range from the first bit of the
  destination on, padded with zeros to a whole byte, and leaves the rest of the destination alone; from
  any other position it stores at most the first byte of the destination, however many bits are asked for.\<close>

theorem bv_get_bits:
  assumes "bv_wf bv" and "loc + n \<le> bv_count bv" and "n \<le> 8 * length bytes" and "0 < n"
  shows "\<exists>out. CFBitVectorGetBits bv loc n bytes = Some out \<and>
    (if loc mod 8 = 0 then \<forall>j. bit_at out j =
        (if j < n then bits_of bv ! (loc + j) else if j < 8 * ((n + 7) div 8) then False else bit_at bytes j)
     else \<exists>x. out = bytes[0 := x])"
  by (rule get_bits_spec [OF assms])

lemma bv_get_bits_witness:
  "(\<exists>x. CFBitVectorGetBits bv_sample 1 11 [0, 0xFF] = Some [x, 0xFF]) \<and>
   (\<exists>out. CFBitVectorGetBits bv_sample 0 12 [0, 0xFF] = Some out \<and> bit_at out 8 \<and> \<not> bit_at out 15)"
  using bv_get_bits [OF bv_sample_facts(1), of 1 11 "[0, 0xFF]"]
    bv_get_bits [OF bv_sample_facts(1), of 0 12 "[0, 0xFF]"]
  by (auto simp: bv_sample_facts(2,4) simp del: nth_bits_of)

text \<open>A bit vector made from bytes has their first bits, whatever the variety, and extracting all its bits
  gives them back; its copies have the same bits.\<close>

theorem bv_create_roundtrip:
  assumes "n \<le> 8 * length bytes" and "n \<le> 8 * length dest" and "0 < n"
  shows "\<exists>bv copy out. CFBitVectorCreate bytes n = Some bv \<and> bv_wf bv \<and>
    bits_of bv = map (bit_at bytes) [0..<n] \<and>
    CFBitVectorCreateMutableCopy bv = Some copy \<and> bv_wf copy \<and> bits_of copy = bits_of bv \<and>
    CFBitVectorGetBits copy 0 n dest = Some out \<and> map (bit_at out) [0..<n] = map (bit_at bytes) [0..<n]"
proof -
  obtain bv where bv: "CFBitVectorCreate bytes n = Some bv" "bv_wf bv" "bv_count bv = n"
      "bits_of bv = map (bit_at bytes) [0..<n]"
    using bv_init_spec [OF assms(1), of BVImmutable] by (auto simp: CFBitVectorCreate_def)
  have "bv_count bv \<le> 8 * length (bv_buckets bv)" using wf_range [OF bv(2) order.refl] .
  then obtain copy where copy: "CFBitVectorCreateMutableCopy bv = Some copy" "bv_wf copy" "bv_count copy = n"
      "bits_of copy = bits_of bv"
    using bv_init_spec [of "bv_count bv" "bv_buckets bv" BVMutable] bv(3)
    by (auto simp: CFBitVectorCreateMutableCopy_def bits_of_def)
  have "0 + n \<le> bv_count copy" using copy(3) by simp
  from get_bits_spec [OF copy(2) this assms(2,3)] obtain out where
    out: "CFBitVectorGetBits copy 0 n dest = Some out" "\<And>j. j < n \<Longrightarrow> bit_at out j = bits_of copy ! j"
    by auto
  have "map (bit_at out) [0..<n] = map (bit_at bytes) [0..<n]"
    using out(2) unfolding copy(4) bv(4) by simp
  with bv copy out(1) show ?thesis by blast
qed

lemma bv_create_roundtrip_witness:
  "\<exists>bv copy out. CFBitVectorCreate [0xA5, 0xC3] 12 = Some bv \<and> CFBitVectorCreateMutableCopy bv = Some copy \<and>
     CFBitVectorGetBits copy 0 12 [0, 0] = Some out \<and> map (bit_at out) [0..<12] = map (bit_at [0xA5, 0xC3]) [0..<12]"
  using bv_create_roundtrip [of 12 "[0xA5, 0xC3]" "[0, 0]"] by auto

lemma map_upt_split:
  assumes "n \<le> m"
  shows "map f [0..<m] = map g [0..<m] \<longleftrightarrow>
    map f [0..<n] = map g [0..<n] \<and> (\<forall>i<m. n \<le> i \<longrightarrow> f i = g i)"
proof -
  have "map f [0..<k] = map g [0..<k] \<longleftrightarrow> (\<forall>i<k. f i = g i)" for k by auto
  moreover have "(\<forall>i<m. f i = g i) \<longleftrightarrow> (\<forall>i<n. f i = g i) \<and> (\<forall>i<m. n \<le> i \<longrightarrow> f i = g i)"
    using assms by (meson not_le order.strict_trans2)
  ultimately show ?thesis by (simp only:)
qed

text \<open>\<^verbatim>\<open>CFEqual\<close> on bit vectors compares, beside the bits, the rest of the bucket behind the last bit: equal
  vectors have equal bits and equal hashes, and two vectors with the same bits are unequal exactly when
  those bits behind the end differ.\<close>

theorem bv_equal_exact:
  assumes "bv_wf a" and "bv_wf b"
  shows "CFBitVectorEqual a b = Some (bits_of a = bits_of b \<and>
      (bv_count a = 0 \<or> (\<forall>i < 8 * (bv_count a div 8 + 1). bv_count a \<le> i \<longrightarrow>
         bit_at (bv_buckets a) i = bit_at (bv_buckets b) i))) \<and>
    (bits_of a = bits_of b \<longrightarrow> CFBitVectorHash a = CFBitVectorHash b)"
proof -
  have len: "bits_of a = bits_of b \<Longrightarrow> bv_count a = bv_count b" using length_bits_of by metis
  have *: "n \<le> 8 * (n div 8 + 1)" for n :: nat
    using dividend_less_div_times [of 8 n] by simp
  have "bv_count a = bv_count b \<and> compared_bits a = compared_bits b \<longleftrightarrow> bits_of a = bits_of b \<and>
      (bv_count a = 0 \<or> (\<forall>i < 8 * (bv_count a div 8 + 1). bv_count a \<le> i \<longrightarrow>
         bit_at (bv_buckets a) i = bit_at (bv_buckets b) i))"
  proof (cases "bv_count a = bv_count b \<and> bv_count a \<noteq> 0")
    case True
    then have c: "bv_count b = bv_count a" and 0: "(bv_count a = 0) = False" by simp_all
    show ?thesis unfolding compared_bits_def bits_of_def c 0 if_False simp_thms map_upt_split [OF *] ..
  next
    case False
    consider "bv_count a \<noteq> bv_count b" | "bv_count a = 0" "bv_count b = 0" using False by (cases "bv_count a = bv_count b") auto
    then show ?thesis
    proof cases
      case 1
      then show ?thesis using len by blast
    qed (simp add: compared_bits_def bits_of_def)
  qed
  then show ?thesis unfolding equal_spec [OF assms] using len by (simp add: CFBitVectorHash_def)
qed

lemma bv_equal_exact_witness:
  "\<exists>a b. CFBitVectorCreate [0xF0] 4 = Some a \<and> CFBitVectorCreate [0xFF] 4 = Some b \<and>
     bits_of a = bits_of b \<and> CFBitVectorEqual a b = Some False"
proof -
  let ?v = "\<lambda>w. \<lparr>bv_count = 4, bv_capacity = 64, bv_buckets = w # replicate 8 0, bv_variety = BVImmutable\<rparr>"
  have c: "CFBitVectorCreate [w] 4 = Some (?v w)" for w
    by (simp add: CFBitVectorCreate_def CFBitVectorInit_def CFBitVectorRoundUpCapacity_def memmove_def
        Prelude.slice_def put_def)
  have wf: "bv_wf (?v w)" for w by (simp add: bv_wf_def CFBitVectorNumBuckets_def)
  have bits: "bits_of (?v 0xF0) = bits_of (?v 0xFF)" by (simp add: bits_of_def bit_at_def upt_conv_Cons)
  have "bit_at (bv_buckets (?v 0xFF)) 5" "\<not> bit_at (bv_buckets (?v 0xF0)) 5" by (simp_all add: bit_at_def)
  then have "\<not> (\<forall>i<8. 4 \<le> i \<longrightarrow> bit_at (bv_buckets (?v 0xF0)) i = bit_at (bv_buckets (?v 0xFF)) i)"
    by (intro notI) (drule spec [of _ 5], simp)
  with bv_equal_exact [OF wf wf, of "0xF0" "0xFF"] c bits show ?thesis by auto
qed

text \<open>Within the vector, \<^verbatim>\<open>CFBitVectorGetBitAtIndex\<close> is the bit, and the first and the last index searches
  return the first and the last position of the range that has the bit, or \<^verbatim>\<open>kCFNotFound\<close>.\<close>

theorem bv_searches_correct:
  assumes "bv_wf bv" and "loc + n \<le> bv_count bv" and "v < 2" and "i < bv_count bv"
  shows "CFBitVectorGetBitAtIndex bv i = Some (of_bool (bits_of bv ! i)) \<and>
    CFBitVectorGetFirstIndexOfBit bv loc n v = Some
      (case find (\<lambda>i. bits_of bv ! i = (v = 1)) [loc..<loc + n] of None \<Rightarrow> -1 | Some i \<Rightarrow> int i) \<and>
    CFBitVectorGetLastIndexOfBit bv loc n v = Some
      (case find (\<lambda>i. bits_of bv ! i = (v = 1)) (rev [loc..<loc + n]) of None \<Rightarrow> -1 | Some i \<Rightarrow> int i)"
proof (intro conjI)
  show "CFBitVectorGetBitAtIndex bv i = Some (of_bool (bits_of bv ! i))"
    using get_bit_spec [OF wf_bits [OF assms(1,4)]] assms(4) by (simp add: CFBitVectorGetBitAtIndex_def)
qed (use bv_first_loop_spec [OF assms(1,3), of loc 0 n] bv_last_loop_spec [OF assms(1,3,2)] assms(2) in
    \<open>simp_all only: CFBitVectorGetFirstIndexOfBit_def CFBitVectorGetLastIndexOfBit_def add_0_right\<close>)

lemma bv_searches_correct_witness:
  "CFBitVectorGetFirstIndexOfBit bv_sample 3 7 1 = Some 5 \<and> CFBitVectorGetLastIndexOfBit bv_sample 3 7 0 = Some 6"
  using bv_searches_correct [OF bv_sample_facts(1), of 3 7 1 0] bv_searches_correct [OF bv_sample_facts(1), of 3 7 0 0]
  by (simp add: bv_sample_facts upt_conv_Cons del: nth_bits_of)

end
