(* ===== verification/RunLoopData.thy ===== *)
theory RunLoopData
  imports Prelude "HOL-Library.Word" Complex_Main
begin

unbundle bit_operations_syntax

text \<open>
  \<^verbatim>\<open>CFRunLoop.c\<close>, the data: run loops, their modes, sources, observers and timers, and the small
  operations on one object. Objects live in a world, a record of total maps from addresses; the world
  also has the clock, the trace of callouts, the supply of Mach ports and the thread-specific flag that
  the main dispatch queue is being serviced. A CFSet is a list without
  equal members, whose order is the order of iteration; a CFArray is the list it stands for (the
  refinement of \<^verbatim>\<open>CFArray.c\<close> to lists is in the array theories). Times are natural numbers in TSR units or
  real numbers in seconds; the rounding of doubles is not modelled. The locks are left out: code runs
  under them except around callouts, and a callout is an arbitrary function on the world.
\<close>

subsection \<open>Constants\<close>

type_synonym activity = "64 word"

definition kCFRunLoopEntry :: activity where "kCFRunLoopEntry = push_bit 0 1"
definition kCFRunLoopBeforeTimers :: activity where "kCFRunLoopBeforeTimers = push_bit 1 1"
definition kCFRunLoopBeforeSources :: activity where "kCFRunLoopBeforeSources = push_bit 2 1"
definition kCFRunLoopBeforeWaiting :: activity where "kCFRunLoopBeforeWaiting = push_bit 5 1"
definition kCFRunLoopAfterWaiting :: activity where "kCFRunLoopAfterWaiting = push_bit 6 1"
definition kCFRunLoopExit :: activity where "kCFRunLoopExit = push_bit 7 1"

definition kCFRunLoopDefaultMode :: string where "kCFRunLoopDefaultMode = ''kCFRunLoopDefaultMode''"
definition kCFRunLoopCommonModes :: string where "kCFRunLoopCommonModes = ''kCFRunLoopCommonModes''"

datatype run_result = RunFinished | RunStopped | RunTimedOut | RunHandledSource

definition UINT64_MAX :: nat where "UINT64_MAX = 2 ^ 64 - 1"
definition LLONG_MAX :: nat where "LLONG_MAX = 2 ^ 63 - 1"
definition TIMER_DATE_LIMIT :: real where "TIMER_DATE_LIMIT = 4039289856"
definition TIMER_INTERVAL_LIMIT :: real where "TIMER_INTERVAL_LIMIT = 504911232"

subsection \<open>Objects\<close>

type_synonym port = nat
type_synonym ref = nat

datatype item = ItemSource ref | ItemObserver ref | ItemTimer ref

datatype block_mode = ModeName string | ModeSet "string list"

record per_run_data =
  pr_stopped :: bool
  pr_ignoreWakeUps :: bool

record run_mode =
  m_stopped :: bool
  m_sources0 :: "ref list option"
  m_sources1 :: "ref list option"
  m_observers :: "ref list option"
  m_timers :: "ref list option"
  m_portToV1SourceMap :: "port \<Rightarrow> ref option"
  m_portSet :: "port list"
  m_observerMask :: activity
  m_queuePort :: port
  m_timerPort :: port
  m_kernelDeadline :: "nat option"
  m_mkTimerArmed :: bool
  m_timerSoftDeadline :: nat
  m_timerHardDeadline :: nat

record run_loop =
  rl_wakeUpPort :: port
  rl_perRunData :: per_run_data
  rl_sleeping :: bool
  rl_deallocating :: bool
  rl_commonModes :: "string list"
  rl_commonModeItems :: "item list option"
  rl_currentMode :: "string option"
  rl_modes :: "(string \<times> run_mode) list"
  rl_blocks :: "(block_mode \<times> nat) list"
  rl_sleepTime :: real

record source =
  s_valid :: bool
  s_signaled :: bool
  s_order :: int
  s_version :: nat
  s_info :: nat
  s_hash :: "nat option"
  s_equal :: "nat option"
  s_perform :: "nat option"
  s_schedule :: "nat option"
  s_cancel :: "nat option"
  s_port :: port
  s_runLoops :: "ref list option"

record observer =
  o_valid :: bool
  o_firing :: bool
  o_repeats :: bool
  o_runLoop :: "ref option"
  o_rlCount :: int
  o_activities :: activity
  o_order :: int
  o_release :: bool

record timer =
  t_valid :: bool
  t_firing :: bool
  t_runLoop :: "ref option"
  t_rlModes :: "string list"
  t_nextFireDate :: real
  t_interval :: real
  t_tolerance :: real
  t_fireTSR :: nat
  t_order :: int
  t_retain :: bool
  t_release :: bool

datatype event =
    Observed ref activity | TimerFired ref | Performed0 ref | Performed1 ref | BlockRun nat
  | MainQueueServiced | Scheduled ref ref string | Cancelled ref ref string
  | Released item | WakeUpSent ref

record world =
  w_loops :: "ref \<Rightarrow> run_loop"
  w_sources :: "ref \<Rightarrow> source"
  w_observers :: "ref \<Rightarrow> observer"
  w_timers :: "ref \<Rightarrow> timer"
  w_now :: nat
  w_date :: real
  w_nextPort :: port
  w_inMainQueue :: bool
  w_trace :: "event list"

text \<open>
  What the code takes from its surroundings: the tick rate, the effect of a callout, the kernel's answer
  to waiting on a set of ports (the flag says whether to poll; port 0 when nothing arrived, which ends a poll but not a
  wait, then the world is the one the wait has come to when the dispatch timer of the run fires; the private
  queue of the mode is drained meanwhile), whether the dispatch timer of a run has fired, the user's
  equality callbacks, whether the thread is the main one, the port of the main dispatch queue, the main
  and the current run loop, the executable's age, the bound on the recursion through the common modes (the depth of the stack), and
  what the compiled code makes of a negative number that is cast to \<^verbatim>\<open>uint64_t\<close>, which C leaves undefined.
\<close>

record env =
  e_TSRRate :: real
  e_callout :: "event \<Rightarrow> world \<Rightarrow> world"
  e_receive :: "port list \<Rightarrow> bool \<Rightarrow> world \<Rightarrow> world \<times> port"
  e_timeoutFired :: "nat \<Rightarrow> world \<Rightarrow> bool"
  e_equal :: "nat \<Rightarrow> nat \<Rightarrow> nat \<Rightarrow> bool"
  e_mainThread :: bool
  e_mainQueuePort :: port
  e_mainLoop :: ref
  e_currentLoop :: ref
  e_linkedOnOrAfterLion :: bool
  e_stack :: nat
  e_castNegative :: "real \<Rightarrow> nat"

definition mode_of :: "world \<Rightarrow> ref \<Rightarrow> string \<Rightarrow> run_mode option" where
  "mode_of w rl name = map_of (rl_modes (w_loops w rl)) name"

definition upd_loop :: "ref \<Rightarrow> (run_loop \<Rightarrow> run_loop) \<Rightarrow> world \<Rightarrow> world" where
  "upd_loop rl f w = w\<lparr>w_loops := (w_loops w)(rl := f (w_loops w rl))\<rparr>"

definition upd_mode :: "ref \<Rightarrow> string \<Rightarrow> (run_mode \<Rightarrow> run_mode) \<Rightarrow> world \<Rightarrow> world" where
  "upd_mode rl name f =
     upd_loop rl (\<lambda>r. r\<lparr>rl_modes := map (\<lambda>(n, m). (n, if n = name then f m else m)) (rl_modes r)\<rparr>)"

definition upd_source :: "ref \<Rightarrow> (source \<Rightarrow> source) \<Rightarrow> world \<Rightarrow> world" where
  "upd_source s f w = w\<lparr>w_sources := (w_sources w)(s := f (w_sources w s))\<rparr>"

definition upd_observer :: "ref \<Rightarrow> (observer \<Rightarrow> observer) \<Rightarrow> world \<Rightarrow> world" where
  "upd_observer ob f w = w\<lparr>w_observers := (w_observers w)(ob := f (w_observers w ob))\<rparr>"

definition upd_timer :: "ref \<Rightarrow> (timer \<Rightarrow> timer) \<Rightarrow> world \<Rightarrow> world" where
  "upd_timer t f w = w\<lparr>w_timers := (w_timers w)(t := f (w_timers w t))\<rparr>"

definition log_event :: "event \<Rightarrow> world \<Rightarrow> world" where
  "log_event ev w = w\<lparr>w_trace := w_trace w @ [ev]\<rparr>"

text \<open>A callout is recorded in the trace before the user's code runs.\<close>

definition callout :: "env \<Rightarrow> event \<Rightarrow> world \<Rightarrow> world" where
  "callout E ev w = e_callout E ev (log_event ev w)"

subsection \<open>Sets\<close>

definition set_contains :: "('a \<Rightarrow> 'a \<Rightarrow> bool) \<Rightarrow> 'a list \<Rightarrow> 'a \<Rightarrow> bool" where
  "set_contains eq xs v = list_ex (\<lambda>x. eq x v) xs"

definition set_add :: "('a \<Rightarrow> 'a \<Rightarrow> bool) \<Rightarrow> 'a list \<Rightarrow> 'a \<Rightarrow> 'a list" where
  "set_add eq xs v = (if set_contains eq xs v then xs else xs @ [v])"

definition set_remove :: "('a \<Rightarrow> 'a \<Rightarrow> bool) \<Rightarrow> 'a list \<Rightarrow> 'a \<Rightarrow> 'a list" where
  "set_remove eq xs v = filter (\<lambda>x. \<not> eq x v) xs"

text \<open>\<^verbatim>\<open>CFSetApplyFunction\<close> and the loops over a copied list, with a function that may fail.\<close>

fun fold_opt :: "('a \<Rightarrow> 's \<Rightarrow> 's option) \<Rightarrow> 'a list \<Rightarrow> 's \<Rightarrow> 's option" where
  "fold_opt f [] s = Some s"
| "fold_opt f (x # xs) s = do { s' \<leftarrow> f x s; fold_opt f xs s' }"

subsection \<open>Run loops and modes\<close>

definition fresh_per_run_data :: per_run_data where
  "fresh_per_run_data = \<lparr>pr_stopped = False, pr_ignoreWakeUps = False\<rparr>"

definition CFRunLoopPushPerRunData :: "ref \<Rightarrow> world \<Rightarrow> per_run_data \<times> world" where
  "CFRunLoopPushPerRunData rl w =
     (rl_perRunData (w_loops w rl), upd_loop rl (\<lambda>r. r\<lparr>rl_perRunData := fresh_per_run_data\<rparr>) w)"

definition CFRunLoopPopPerRunData :: "ref \<Rightarrow> per_run_data \<Rightarrow> world \<Rightarrow> world" where
  "CFRunLoopPopPerRunData rl previous = upd_loop rl (\<lambda>r. r\<lparr>rl_perRunData := previous\<rparr>)"

definition CFRunLoopIsStopped :: "ref \<Rightarrow> world \<Rightarrow> bool" where
  "CFRunLoopIsStopped rl w = pr_stopped (rl_perRunData (w_loops w rl))"

definition set_stopped :: "bool \<Rightarrow> ref \<Rightarrow> world \<Rightarrow> world" where
  "set_stopped b rl = upd_loop rl (\<lambda>r. r\<lparr>rl_perRunData := (rl_perRunData r)\<lparr>pr_stopped := b\<rparr>\<rparr>)"

definition CFRunLoopIsIgnoringWakeUps :: "ref \<Rightarrow> world \<Rightarrow> bool" where
  "CFRunLoopIsIgnoringWakeUps rl w = pr_ignoreWakeUps (rl_perRunData (w_loops w rl))"

definition set_ignoreWakeUps :: "bool \<Rightarrow> ref \<Rightarrow> world \<Rightarrow> world" where
  "set_ignoreWakeUps b rl =
     upd_loop rl (\<lambda>r. r\<lparr>rl_perRunData := (rl_perRunData r)\<lparr>pr_ignoreWakeUps := b\<rparr>\<rparr>)"

definition CFRunLoopIsSleeping :: "ref \<Rightarrow> world \<Rightarrow> bool" where
  "CFRunLoopIsSleeping rl w = rl_sleeping (w_loops w rl)"

definition set_sleeping :: "bool \<Rightarrow> ref \<Rightarrow> world \<Rightarrow> world" where
  "set_sleeping b rl = upd_loop rl (\<lambda>r. r\<lparr>rl_sleeping := b\<rparr>)"

definition CFRunLoopIsDeallocating :: "ref \<Rightarrow> world \<Rightarrow> bool" where
  "CFRunLoopIsDeallocating rl w = rl_deallocating (w_loops w rl)"

definition new_mode :: "port \<Rightarrow> port \<Rightarrow> run_mode" where
  "new_mode wakeUpPort p =
     \<lparr>m_stopped = False, m_sources0 = None, m_sources1 = None, m_observers = None, m_timers = None,
      m_portToV1SourceMap = (\<lambda>_. None), m_portSet = [p, p + 1, wakeUpPort], m_observerMask = 0,
      m_queuePort = p, m_timerPort = p + 1, m_kernelDeadline = None, m_mkTimerArmed = False,
      m_timerSoftDeadline = UINT64_MAX, m_timerHardDeadline = UINT64_MAX\<rparr>"

definition CFRunLoopFindMode :: "ref \<Rightarrow> string \<Rightarrow> bool \<Rightarrow> world \<Rightarrow> bool \<times> world" where
  "CFRunLoopFindMode rl modeName create w =
     (if mode_of w rl modeName \<noteq> None then (True, w)
      else if \<not> create then (False, w)
      else (True, (upd_loop rl (\<lambda>r. r\<lparr>rl_modes := rl_modes r @ [(modeName, new_mode (rl_wakeUpPort r) (w_nextPort w))]\<rparr>) w)
                    \<lparr>w_nextPort := w_nextPort w + 2\<rparr>))"

definition new_loop :: "port \<Rightarrow> run_loop" where
  "new_loop wakeUpPort =
     \<lparr>rl_wakeUpPort = wakeUpPort, rl_perRunData = fresh_per_run_data\<lparr>pr_ignoreWakeUps := True\<rparr>,
      rl_sleeping = False, rl_deallocating = False, rl_commonModes = [kCFRunLoopDefaultMode],
      rl_commonModeItems = None, rl_currentMode = None, rl_modes = [],
      rl_blocks = [], rl_sleepTime = 0\<rparr>"

definition CFRunLoopCreate :: "ref \<Rightarrow> world \<Rightarrow> world" where
  "CFRunLoopCreate rl w =
     snd (CFRunLoopFindMode rl kCFRunLoopDefaultMode True
            ((upd_loop rl (\<lambda>_. new_loop (w_nextPort w)) w)\<lparr>w_nextPort := w_nextPort w + 1\<rparr>))"

definition block_matches :: "string list \<Rightarrow> string \<Rightarrow> block_mode \<Rightarrow> bool" where
  "block_matches commonModes curMode bm =
     (case bm of
        ModeName n \<Rightarrow> n = curMode \<or> (n = kCFRunLoopCommonModes \<and> curMode \<in> set commonModes)
      | ModeSet ns \<Rightarrow> curMode \<in> set ns \<or> (kCFRunLoopCommonModes \<in> set ns \<and> curMode \<in> set commonModes))"

definition none_left :: "ref list option \<Rightarrow> bool" where
  "none_left xs = (case xs of None \<Rightarrow> True | Some ys \<Rightarrow> length ys = 0)"

definition on_main_queue :: "env \<Rightarrow> ref \<Rightarrow> string \<Rightarrow> world \<Rightarrow> bool" where
  "on_main_queue E rl name w =
     (e_mainThread E \<and> \<not> w_inMainQueue w \<and> e_mainLoop E = rl \<and> name \<in> set (rl_commonModes (w_loops w rl)))"

definition CFRunLoopModeIsEmpty :: "env \<Rightarrow> ref \<Rightarrow> string \<Rightarrow> world \<Rightarrow> bool" where
  "CFRunLoopModeIsEmpty E rl name w =
     (case mode_of w rl name of
        None \<Rightarrow> True
      | Some m \<Rightarrow>
          if on_main_queue E rl name w then False
          else if \<not> none_left (m_sources0 m) then False
          else if \<not> none_left (m_sources1 m) then False
          else if \<not> none_left (m_timers m) then False
          else \<not> list_ex (\<lambda>(bm, _). block_matches (rl_commonModes (w_loops w rl)) name bm) (rl_blocks (w_loops w rl)))"

definition CFRunLoopFinished :: "env \<Rightarrow> ref \<Rightarrow> string \<Rightarrow> world \<Rightarrow> bool" where
  "CFRunLoopFinished E rl name w =
     (\<not> fst (CFRunLoopFindMode rl name False w) \<or> CFRunLoopModeIsEmpty E rl name w)"

definition CFRunLoopCopyCurrentMode :: "ref \<Rightarrow> world \<Rightarrow> string option" where
  "CFRunLoopCopyCurrentMode rl w = rl_currentMode (w_loops w rl)"

definition CFRunLoopCopyAllModes :: "ref \<Rightarrow> world \<Rightarrow> string list" where
  "CFRunLoopCopyAllModes rl w = map fst (rl_modes (w_loops w rl))"

definition CFRunLoop01 :: "ref \<Rightarrow> string \<Rightarrow> world \<Rightarrow> bool" where
  "CFRunLoop01 rl name w = (name \<in> set (rl_commonModes (w_loops w rl)))"

definition CFRunLoopWakeUp :: "ref \<Rightarrow> world \<Rightarrow> world" where
  "CFRunLoopWakeUp rl w = (if CFRunLoopIsIgnoringWakeUps rl w then w else log_event (WakeUpSent rl) w)"

definition CFRunLoopStop :: "ref \<Rightarrow> world \<Rightarrow> world" where
  "CFRunLoopStop rl w =
     (if rl_currentMode (w_loops w rl) \<noteq> None then CFRunLoopWakeUp rl (set_stopped True rl w) else w)"

definition CFRunLoopStopMode :: "ref \<Rightarrow> string \<Rightarrow> world \<Rightarrow> world" where
  "CFRunLoopStopMode rl name w =
     (let w1 = snd (CFRunLoopFindMode rl name True w) in
      CFRunLoopWakeUp rl (upd_mode rl name (\<lambda>m. m\<lparr>m_stopped := True\<rparr>) w1))"

datatype mode_arg = ArgString string | ArgArray "string list" | ArgSet "string list" | ArgOther

definition mode_arg_names :: "mode_arg \<Rightarrow> string list" where
  "mode_arg_names arg = (case arg of ArgString n \<Rightarrow> [n] | ArgArray ns \<Rightarrow> ns | ArgSet ns \<Rightarrow> ns | ArgOther \<Rightarrow> [])"

definition block_mode_of :: "mode_arg \<Rightarrow> block_mode option" where
  "block_mode_of arg =
     (case arg of ArgString n \<Rightarrow> Some (ModeName n)
      | ArgArray ns \<Rightarrow> Some (ModeSet (remdups ns))
      | ArgSet ns \<Rightarrow> Some (ModeSet ns)
      | ArgOther \<Rightarrow> None)"

definition CFRunLoopPerformBlock :: "ref \<Rightarrow> mode_arg \<Rightarrow> nat option \<Rightarrow> world \<Rightarrow> world" where
  "CFRunLoopPerformBlock rl arg blk w =
     (let w1 = fold (\<lambda>n w. snd (CFRunLoopFindMode rl n True w)) (mode_arg_names arg) w in
      case (block_mode_of arg, blk) of
        (Some bm, Some b) \<Rightarrow> upd_loop rl (\<lambda>r. r\<lparr>rl_blocks := rl_blocks r @ [(bm, b)]\<rparr>) w1
      | _ \<Rightarrow> w1)"

subsection \<open>Sources and observers\<close>

definition CFRunLoopSourceEqual :: "env \<Rightarrow> world \<Rightarrow> ref \<Rightarrow> ref \<Rightarrow> bool" where
  "CFRunLoopSourceEqual E w rls1 rls2 =
     (let a = w_sources w rls1; b = w_sources w rls2 in
      if rls1 = rls2 then True
      else if s_valid a \<noteq> s_valid b then False
      else if s_order a \<noteq> s_order b then False
      else if s_version a \<noteq> s_version b then False
      else if s_hash a \<noteq> s_hash b then False
      else if s_equal a \<noteq> s_equal b then False
      else if s_version a = 0 \<and> s_perform a \<noteq> s_perform b then False
      else if s_version a = 1 \<and> s_perform a \<noteq> s_perform b then False
      else case s_equal a of Some f \<Rightarrow> e_equal E f (s_info a) (s_info b) | None \<Rightarrow> s_info a = s_info b)"

definition item_equal :: "env \<Rightarrow> world \<Rightarrow> item \<Rightarrow> item \<Rightarrow> bool" where
  "item_equal E w x y =
     (case (x, y) of (ItemSource a, ItemSource b) \<Rightarrow> CFRunLoopSourceEqual E w a b | _ \<Rightarrow> x = y)"

definition CFRunLoopSourceSignal :: "ref \<Rightarrow> world \<Rightarrow> world" where
  "CFRunLoopSourceSignal rls w =
     (if s_valid (w_sources w rls) then upd_source rls (\<lambda>s. s\<lparr>s_signaled := True\<rparr>) w else w)"

definition CFRunLoopSourceIsSignalled :: "ref \<Rightarrow> world \<Rightarrow> bool" where
  "CFRunLoopSourceIsSignalled rls w = s_signaled (w_sources w rls)"

definition CFRunLoopSourceWakeUpRunLoops :: "ref \<Rightarrow> world \<Rightarrow> world" where
  "CFRunLoopSourceWakeUpRunLoops rls w =
     (case s_runLoops (w_sources w rls) of
        Some loops \<Rightarrow> if s_valid (w_sources w rls) then fold CFRunLoopWakeUp loops w else w
      | None \<Rightarrow> w)"

definition CFRunLoopSourceComparator :: "world \<Rightarrow> ref \<Rightarrow> ref \<Rightarrow> int" where
  "CFRunLoopSourceComparator w o1 o2 =
     (if s_order (w_sources w o1) < s_order (w_sources w o2) then -1
      else if s_order (w_sources w o2) < s_order (w_sources w o1) then 1 else 0)"

definition CFRunLoopObserverSchedule :: "ref \<Rightarrow> ref \<Rightarrow> world \<Rightarrow> world" where
  "CFRunLoopObserverSchedule rlo rl =
     upd_observer rlo (\<lambda>ob. (if o_rlCount ob = 0 then ob\<lparr>o_runLoop := Some rl\<rparr> else ob)\<lparr>o_rlCount := o_rlCount ob + 1\<rparr>)"

definition CFRunLoopObserverCancel :: "ref \<Rightarrow> world \<Rightarrow> world" where
  "CFRunLoopObserverCancel rlo =
     upd_observer rlo (\<lambda>ob. (if o_rlCount ob - 1 = 0 then ob\<lparr>o_runLoop := None\<rparr> else ob)\<lparr>o_rlCount := o_rlCount ob - 1\<rparr>)"

definition CFRunLoopModeFindSourceForMachPort :: "ref \<Rightarrow> string \<Rightarrow> port \<Rightarrow> world \<Rightarrow> ref option" where
  "CFRunLoopModeFindSourceForMachPort rl name p w =
     (case mode_of w rl name of None \<Rightarrow> None | Some m \<Rightarrow> m_portToV1SourceMap m p)"

definition CFRunLoopGetNextTimerFireDate :: "ref \<Rightarrow> string \<Rightarrow> world \<Rightarrow> real" where
  "CFRunLoopGetNextTimerFireDate rl name w =
     (case mode_of w rl name of
        Some m \<Rightarrow> (case m_timers m of
            Some (t # _) \<Rightarrow> if t_valid (w_timers w t) then t_nextFireDate (w_timers w t) else 0
          | _ \<Rightarrow> 0)
      | None \<Rightarrow> 0)"

end
