(* ===== verification/RunLoopTimers.thy ===== *)
theory RunLoopTimers
  imports RunLoopData
begin

text \<open>
  The timers of \<^verbatim>\<open>CFRunLoop.c\<close>: the ordered array of a mode, arming the kernel timer, and the operations
  on a timer. An operation is \<open>None\<close> when it never returns normally: the \<^verbatim>\<open>1 << flsl(cnt)\<close> shift of the
  insertion overflows, the recursion through the common modes has used up the stack, or the code halts.
\<close>

subsection \<open>Time\<close>

definition CFTimeIntervalToTSR :: "env \<Rightarrow> real \<Rightarrow> nat" where
  "CFTimeIntervalToTSR E ti =
     (if real (LLONG_MAX div 2) < ti * e_TSRRate E then LLONG_MAX div 2
      else if ti * e_TSRRate E \<le> -1 then e_castNegative E (ti * e_TSRRate E) mod 2 ^ 64
      else nat \<lfloor>ti * e_TSRRate E\<rfloor>)"

definition CFTSRToTimeInterval :: "env \<Rightarrow> nat \<Rightarrow> real" where
  "CFTSRToTimeInterval E tsr = real tsr * (1 / e_TSRRate E)"

definition CFTimeIntervalUntilTSR :: "env \<Rightarrow> world \<Rightarrow> nat \<Rightarrow> real" where
  "CFTimeIntervalUntilTSR E w tsr =
     (if w_now w \<le> tsr then CFTSRToTimeInterval E (tsr - w_now w) else - CFTSRToTimeInterval E (w_now w - tsr))"

text \<open>Addition with an overflow check, as \<^verbatim>\<open>check_uint64_add\<close> with the test that follows it.\<close>

definition add_saturated :: "nat \<Rightarrow> nat \<Rightarrow> nat" where
  "add_saturated x y = (if x + y \<le> UINT64_MAX then x + y else UINT64_MAX)"

definition fire_tsr :: "world \<Rightarrow> ref \<Rightarrow> nat" where
  "fire_tsr w t = t_fireTSR (w_timers w t)"

subsection \<open>The array of timers\<close>

text \<open>The \<^verbatim>\<open>do\<close>-\<^verbatim>\<open>while\<close> loop, over the fire times of the array: the index and \<^verbatim>\<open>lastTestLEQ\<close>.\<close>

function insertion_loop :: "nat list \<Rightarrow> nat \<Rightarrow> nat \<Rightarrow> nat \<Rightarrow> nat \<times> bool" where
  "insertion_loop xs x add idx =
     (let add' = add div 2;
          testIdx = idx + add';
          hit = (testIdx < length xs \<and> xs ! testIdx \<le> x);
          idx' = (if hit then testIdx else idx) in
      if 0 < add' then insertion_loop xs x add' idx' else (idx', hit))"
  by pat_completeness auto
termination
  by (relation "measure (\<lambda>(xs, x, add, idx). add)") auto

declare insertion_loop.simps [simp del]

definition insertion_index :: "nat list \<Rightarrow> nat \<Rightarrow> nat option" where
  "insertion_index xs x =
     (let cnt = length xs in
      if cnt = 0 then Some 0
      else if 256 < cnt \<and> xs ! (cnt - 1) \<le> x then Some cnt
      else if 256 < cnt \<and> x < xs ! 0 then Some 0
      else do { add \<leftarrow> shl1 (flsl cnt + 1);
                let (idx, lastTestLEQ) = insertion_loop xs x add 0;
                Some (if lastTestLEQ then idx + 1 else idx) })"

definition CFRunLoopInsertionIndexInTimerArray :: "world \<Rightarrow> ref list \<Rightarrow> ref \<Rightarrow> nat option" where
  "CFRunLoopInsertionIndexInTimerArray w ts rlt = insertion_index (map (fire_tsr w) ts) (fire_tsr w rlt)"

definition list_insert :: "nat \<Rightarrow> 'a \<Rightarrow> 'a list \<Rightarrow> 'a list" where
  "list_insert i x xs = take i xs @ [x] @ drop i xs"

definition hard_deadline :: "env \<Rightarrow> world \<Rightarrow> ref \<Rightarrow> nat" where
  "hard_deadline E w t = add_saturated (fire_tsr w t) (CFTimeIntervalToTSR E (t_tolerance (w_timers w t)))"

fun arm_loop :: "env \<Rightarrow> world \<Rightarrow> ref list \<Rightarrow> nat \<Rightarrow> nat \<Rightarrow> nat \<times> nat" where
  "arm_loop E w [] soft hard = (soft, hard)"
| "arm_loop E w (t # ts) soft hard =
     (if t_firing (w_timers w t) then arm_loop E w ts soft hard
      else if hard < fire_tsr w t then (soft, hard)
      else arm_loop E w ts (if fire_tsr w t < soft then fire_tsr w t else soft)
             (if hard_deadline E w t < hard then hard_deadline E w t else hard))"

definition arm_mode :: "env \<Rightarrow> world \<Rightarrow> run_mode \<Rightarrow> run_mode" where
  "arm_mode E w m =
     (let (soft, hard) = (case m_timers m of None \<Rightarrow> (UINT64_MAX, UINT64_MAX)
                          | Some ts \<Rightarrow> arm_loop E w ts UINT64_MAX UINT64_MAX);
          m1 = (if m_timers m = None then m
                else if soft < UINT64_MAX \<and> (hard \<noteq> m_timerHardDeadline m \<or> soft \<noteq> m_timerSoftDeadline m) then
                  (if m_timerPort m \<noteq> 0 then m\<lparr>m_kernelDeadline := Some soft\<rparr> else m)
                else if soft = UINT64_MAX then
                  (if m_mkTimerArmed m \<and> m_timerPort m \<noteq> 0
                   then m\<lparr>m_kernelDeadline := None, m_mkTimerArmed := False\<rparr> else m)
                else m) in
      m1\<lparr>m_timerHardDeadline := hard, m_timerSoftDeadline := soft\<rparr>)"

definition CFArmNextTimerInMode :: "env \<Rightarrow> ref \<Rightarrow> string \<Rightarrow> world \<Rightarrow> world" where
  "CFArmNextTimerInMode E rl name w = upd_mode rl name (arm_mode E w) w"

definition CFRepositionTimerInMode :: "env \<Rightarrow> ref \<Rightarrow> string \<Rightarrow> ref \<Rightarrow> bool \<Rightarrow> world \<Rightarrow> world option" where
  "CFRepositionTimerInMode E rl name rlt isInArray w =
     (case mode_of w rl name of None \<Rightarrow> None
      | Some m \<Rightarrow>
        (case m_timers m of None \<Rightarrow> Some w
         | Some timerArray \<Rightarrow>
             if isInArray \<and> rlt \<notin> set timerArray then Some w
             else do {
               let ts = (if isInArray then remove1 rlt timerArray else timerArray);
               newIdx \<leftarrow> CFRunLoopInsertionIndexInTimerArray w ts rlt;
               Some (CFArmNextTimerInMode E rl name
                       (upd_mode rl name (\<lambda>m. m\<lparr>m_timers := Some (list_insert newIdx rlt ts)\<rparr>) w)) }))"

subsection \<open>Adding and removing\<close>

definition add_common_item :: "env \<Rightarrow> ref \<Rightarrow> item \<Rightarrow> world \<Rightarrow> world" where
  "add_common_item E rl it w =
     upd_loop rl (\<lambda>r. r\<lparr>rl_commonModeItems :=
       Some (set_add (item_equal E w) (case rl_commonModeItems r of None \<Rightarrow> [] | Some xs \<Rightarrow> xs) it)\<rparr>) w"

definition is_common_item :: "env \<Rightarrow> ref \<Rightarrow> item \<Rightarrow> world \<Rightarrow> bool" where
  "is_common_item E rl it w =
     (case rl_commonModeItems (w_loops w rl) of None \<Rightarrow> False | Some xs \<Rightarrow> set_contains (item_equal E w) xs it)"

definition remove_common_item :: "env \<Rightarrow> ref \<Rightarrow> item \<Rightarrow> world \<Rightarrow> world" where
  "remove_common_item E rl it w =
     upd_loop rl (\<lambda>r. r\<lparr>rl_commonModeItems := map_option (\<lambda>xs. set_remove (item_equal E w) xs it) (rl_commonModeItems r)\<rparr>) w"

text \<open>
  The body of \<^verbatim>\<open>CFRunLoopAddTimer\<close>; \<open>rec\<close> is \<^verbatim>\<open>__CFRunLoopAddItemToCommonModes\<close>, which adds the item to one
  of the common modes and calls back into the three adding functions.
\<close>

definition add_timer_body ::
    "env \<Rightarrow> (item \<Rightarrow> string \<Rightarrow> world \<Rightarrow> world option) \<Rightarrow> ref \<Rightarrow> ref \<Rightarrow> string \<Rightarrow> world \<Rightarrow> world option" where
  "add_timer_body E rec rl rlt modeName w =
     (let t = w_timers w rlt in
      if CFRunLoopIsDeallocating rl w then Some w
      else if \<not> t_valid t \<or> (t_runLoop t \<noteq> None \<and> t_runLoop t \<noteq> Some rl) then Some w
      else if modeName = kCFRunLoopCommonModes then
        fold_opt (rec (ItemTimer rlt)) (rl_commonModes (w_loops w rl)) (add_common_item E rl (ItemTimer rlt) w)
      else do {
        let w1 = snd (CFRunLoopFindMode rl modeName True w);
        let w2 = upd_mode rl modeName (\<lambda>m. if m_timers m = None then m\<lparr>m_timers := Some []\<rparr> else m) w1;
        if modeName \<in> set (t_rlModes t) then Some w2
        else do {
          let w3 = upd_timer rlt (\<lambda>t. t\<lparr>t_runLoop := Some rl, t_rlModes := t_rlModes t @ [modeName]\<rparr>) w2;
          w4 \<leftarrow> CFRepositionTimerInMode E rl modeName rlt False w3;
          Some (if \<not> e_linkedOnOrAfterLion E \<and> rl \<noteq> e_currentLoop E then CFRunLoopWakeUp rl w4 else w4) } })"

definition remove_timer_body ::
    "env \<Rightarrow> (item \<Rightarrow> string \<Rightarrow> world \<Rightarrow> world option) \<Rightarrow> ref \<Rightarrow> ref \<Rightarrow> string \<Rightarrow> world \<Rightarrow> world option" where
  "remove_timer_body E rec rl rlt modeName w =
     (if modeName = kCFRunLoopCommonModes then
        (if is_common_item E rl (ItemTimer rlt) w then
           fold_opt (rec (ItemTimer rlt)) (rl_commonModes (w_loops w rl)) (remove_common_item E rl (ItemTimer rlt) w)
         else Some w)
      else case mode_of w rl modeName of None \<Rightarrow> Some w
      | Some m \<Rightarrow>
        (case m_timers m of None \<Rightarrow> Some w
         | Some ts \<Rightarrow>
             if rlt \<notin> set ts then Some w
             else Some (CFArmNextTimerInMode E rl modeName
                    (upd_mode rl modeName (\<lambda>m. m\<lparr>m_timers := Some (remove1 rlt ts)\<rparr>)
                      (upd_timer rlt (\<lambda>t. let ms = removeAll modeName (t_rlModes t) in
                          t\<lparr>t_rlModes := ms, t_runLoop := (if length ms = 0 then None else t_runLoop t)\<rparr>) w)))))"

definition CFRunLoopContainsTimer :: "env \<Rightarrow> ref \<Rightarrow> ref \<Rightarrow> string \<Rightarrow> world \<Rightarrow> bool" where
  "CFRunLoopContainsTimer E rl rlt modeName w =
     (if t_runLoop (w_timers w rlt) \<noteq> Some rl then False
      else if modeName = kCFRunLoopCommonModes then is_common_item E rl (ItemTimer rlt) w
      else case mode_of w rl modeName of None \<Rightarrow> False
      | Some m \<Rightarrow> (case m_timers m of None \<Rightarrow> False | Some ts \<Rightarrow> rlt \<in> set ts))"

subsection \<open>Dates\<close>

definition tsr_of_date :: "env \<Rightarrow> world \<Rightarrow> real \<Rightarrow> nat" where
  "tsr_of_date E w fireDate =
     (if fireDate < w_date w then w_now w
      else if TIMER_INTERVAL_LIMIT < fireDate - w_date w then w_now w + CFTimeIntervalToTSR E TIMER_INTERVAL_LIMIT
      else w_now w + CFTimeIntervalToTSR E (fireDate - w_date w))"

text \<open>\<^verbatim>\<open>CFRunLoopTimerCreate\<close>, for an interval that is a number; a new timer at the address \<open>rlt\<close>.\<close>

definition CFRunLoopTimerCreate :: "env \<Rightarrow> ref \<Rightarrow> real \<Rightarrow> real \<Rightarrow> int \<Rightarrow> bool \<Rightarrow> bool \<Rightarrow> world \<Rightarrow> world" where
  "CFRunLoopTimerCreate E rlt fireDate interval order retain release w =
     (let date = (if TIMER_DATE_LIMIT < fireDate then TIMER_DATE_LIMIT else fireDate) in
      upd_timer rlt (\<lambda>_. \<lparr>t_valid = True, t_firing = False, t_runLoop = None, t_rlModes = [],
         t_nextFireDate = date, t_interval = (if interval < 0 then 0 else interval), t_tolerance = 0,
         t_fireTSR = tsr_of_date E w date, t_order = order, t_retain = retain, t_release = release\<rparr>) w)"

text \<open>The timer leaves and re-enters the arrays of the modes it is in, at its new fire time.\<close>

definition reposition_in_modes :: "env \<Rightarrow> ref \<Rightarrow> ref \<Rightarrow> string list \<Rightarrow> world \<Rightarrow> world option" where
  "reposition_in_modes E rl rlt =
     fold_opt (\<lambda>name w. if fst (CFRunLoopFindMode rl name False w)
                        then CFRepositionTimerInMode E rl name rlt True w else None)"

definition set_fire_time :: "ref \<Rightarrow> nat \<Rightarrow> real \<Rightarrow> world \<Rightarrow> world" where
  "set_fire_time rlt tsr date = upd_timer rlt (\<lambda>t. t\<lparr>t_fireTSR := tsr, t_nextFireDate := date\<rparr>)"

definition CFRunLoopTimerSetNextFireDate :: "env \<Rightarrow> ref \<Rightarrow> real \<Rightarrow> world \<Rightarrow> world option" where
  "CFRunLoopTimerSetNextFireDate E rlt fireDate w =
     (if \<not> t_valid (w_timers w rlt) then Some w
      else let date = (if TIMER_DATE_LIMIT < fireDate then TIMER_DATE_LIMIT else fireDate);
               w1 = set_fire_time rlt (tsr_of_date E w date) date w in
        case t_runLoop (w_timers w rlt) of None \<Rightarrow> Some w1
        | Some rl \<Rightarrow> do {
            w2 \<leftarrow> reposition_in_modes E rl rlt (t_rlModes (w_timers w rlt)) w1;
            Some (if rl \<noteq> e_currentLoop E then CFRunLoopWakeUp rl w2 else w2) })"

definition CFRunLoopTimerGetNextFireDate :: "ref \<Rightarrow> world \<Rightarrow> real" where
  "CFRunLoopTimerGetNextFireDate rlt w = (if t_valid (w_timers w rlt) then t_nextFireDate (w_timers w rlt) else 0)"

definition CFRunLoopTimerDoesRepeat :: "ref \<Rightarrow> world \<Rightarrow> bool" where
  "CFRunLoopTimerDoesRepeat rlt w = (0 < t_interval (w_timers w rlt))"

definition CFRunLoopTimerSetTolerance :: "ref \<Rightarrow> real \<Rightarrow> world \<Rightarrow> world" where
  "CFRunLoopTimerSetTolerance rlt tolerance =
     upd_timer rlt (\<lambda>t. if 0 < t_interval t then t\<lparr>t_tolerance := min tolerance (t_interval t / 2)\<rparr>
                        else t\<lparr>t_tolerance := (if tolerance < 0 then 0 else tolerance)\<rparr>)"

end
