(* ===== verification/RunLoopItems.thy ===== *)
theory RunLoopItems
  imports RunLoopTimers
begin

text \<open>
  Sources, observers and the common modes of \<^verbatim>\<open>CFRunLoop.c\<close>: adding and removing an item, which for the
  name \<^verbatim>\<open>kCFRunLoopCommonModes\<close> goes through all the common modes, and invalidation. The three adding
  functions and \<^verbatim>\<open>__CFRunLoopAddItemToCommonModes\<close> call each other; the depth of these calls is bounded
  by the stack, \<open>e_stack\<close>.
\<close>

subsection \<open>Sources\<close>

definition in_sources :: "env \<Rightarrow> world \<Rightarrow> ref \<Rightarrow> ref list option \<Rightarrow> bool" where
  "in_sources E w rls xs = (case xs of None \<Rightarrow> False | Some ys \<Rightarrow> set_contains (CFRunLoopSourceEqual E w) ys rls)"

definition CFRunLoopContainsSource :: "env \<Rightarrow> ref \<Rightarrow> ref \<Rightarrow> string \<Rightarrow> world \<Rightarrow> bool" where
  "CFRunLoopContainsSource E rl rls modeName w =
     (if modeName = kCFRunLoopCommonModes then is_common_item E rl (ItemSource rls) w
      else case mode_of w rl modeName of None \<Rightarrow> False
      | Some m \<Rightarrow> in_sources E w rls (m_sources0 m) \<or> in_sources E w rls (m_sources1 m))"

text \<open>The source sets and the port map of a mode are created together.\<close>

definition make_sources :: "run_mode \<Rightarrow> run_mode" where
  "make_sources m =
     (if m_sources0 m = None
      then m\<lparr>m_sources0 := Some [], m_sources1 := Some [], m_portToV1SourceMap := (\<lambda>_. None)\<rparr> else m)"

definition insert_source :: "env \<Rightarrow> world \<Rightarrow> ref \<Rightarrow> run_mode \<Rightarrow> run_mode" where
  "insert_source E w rls m =
     (let s = w_sources w rls; p = s_port s in
      if s_version s = 0 then m\<lparr>m_sources0 := map_option (\<lambda>xs. set_add (CFRunLoopSourceEqual E w) xs rls) (m_sources0 m)\<rparr>
      else if s_version s = 1 then
        (let m1 = m\<lparr>m_sources1 := map_option (\<lambda>xs. set_add (CFRunLoopSourceEqual E w) xs rls) (m_sources1 m)\<rparr> in
         if p \<noteq> 0 then m1\<lparr>m_portToV1SourceMap := (m_portToV1SourceMap m1)(p \<mapsto> rls),
                            m_portSet := List.insert p (m_portSet m1)\<rparr>
         else m1)
      else m)"

definition add_run_loop :: "ref \<Rightarrow> source \<Rightarrow> source" where
  "add_run_loop rl s = s\<lparr>s_runLoops := Some ((case s_runLoops s of None \<Rightarrow> [] | Some rs \<Rightarrow> rs) @ [rl])\<rparr>"

definition add_source_body ::
    "env \<Rightarrow> (item \<Rightarrow> string \<Rightarrow> world \<Rightarrow> world option) \<Rightarrow> ref \<Rightarrow> ref \<Rightarrow> string \<Rightarrow> world \<Rightarrow> world option" where
  "add_source_body E rec rl rls modeName w =
     (if CFRunLoopIsDeallocating rl w then Some w
      else if \<not> s_valid (w_sources w rls) then Some w
      else if modeName = kCFRunLoopCommonModes then
        fold_opt (rec (ItemSource rls)) (rl_commonModes (w_loops w rl)) (add_common_item E rl (ItemSource rls) w)
      else
        let w1 = upd_mode rl modeName make_sources (snd (CFRunLoopFindMode rl modeName True w)) in
        if CFRunLoopContainsSource E rl rls modeName w1 then Some w1
        else let w2 = upd_source rls (add_run_loop rl) (upd_mode rl modeName (insert_source E w1 rls) w1);
                 s = w_sources w rls in
          Some (if s_version s = 0 \<and> s_schedule s \<noteq> None then callout E (Scheduled rls rl modeName) w2 else w2))"

definition delete_source :: "env \<Rightarrow> world \<Rightarrow> ref \<Rightarrow> run_mode \<Rightarrow> run_mode" where
  "delete_source E w rls m =
     (let s = w_sources w rls; p = s_port s;
          m1 = (if s_version s = 1 \<and> p \<noteq> 0
                then m\<lparr>m_portToV1SourceMap := (m_portToV1SourceMap m)(p := None), m_portSet := removeAll p (m_portSet m)\<rparr>
                else m) in
      m1\<lparr>m_sources0 := map_option (\<lambda>xs. set_remove (CFRunLoopSourceEqual E w) xs rls) (m_sources0 m1),
         m_sources1 := map_option (\<lambda>xs. set_remove (CFRunLoopSourceEqual E w) xs rls) (m_sources1 m1)\<rparr>)"

definition remove_run_loop :: "ref \<Rightarrow> source \<Rightarrow> source" where
  "remove_run_loop rl s = s\<lparr>s_runLoops := map_option (remove1 rl) (s_runLoops s)\<rparr>"

definition remove_source_body ::
    "env \<Rightarrow> (item \<Rightarrow> string \<Rightarrow> world \<Rightarrow> world option) \<Rightarrow> ref \<Rightarrow> ref \<Rightarrow> string \<Rightarrow> world \<Rightarrow> world option" where
  "remove_source_body E rec rl rls modeName w =
     (if modeName = kCFRunLoopCommonModes then
        (if is_common_item E rl (ItemSource rls) w then
           fold_opt (rec (ItemSource rls)) (rl_commonModes (w_loops w rl)) (remove_common_item E rl (ItemSource rls) w)
         else Some w)
      else if CFRunLoopContainsSource E rl rls modeName w then
        (let w1 = upd_source rls (remove_run_loop rl) (upd_mode rl modeName (delete_source E w rls) w);
             s = w_sources w rls in
         Some (if s_version s = 0 \<and> s_cancel s \<noteq> None then callout E (Cancelled rls rl modeName) w1 else w1))
      else Some w)"

subsection \<open>Observers\<close>

definition CFRunLoopContainsObserver :: "env \<Rightarrow> ref \<Rightarrow> ref \<Rightarrow> string \<Rightarrow> world \<Rightarrow> bool" where
  "CFRunLoopContainsObserver E rl rlo modeName w =
     (if modeName = kCFRunLoopCommonModes then is_common_item E rl (ItemObserver rlo) w
      else case mode_of w rl modeName of None \<Rightarrow> False
      | Some m \<Rightarrow> (case m_observers m of None \<Rightarrow> False | Some xs \<Rightarrow> rlo \<in> set xs))"

text \<open>Where an observer of an order goes, looking back from position \<open>idx\<close>.\<close>

fun observer_index :: "int list \<Rightarrow> int \<Rightarrow> nat \<Rightarrow> nat" where
  "observer_index orders x 0 = 0"
| "observer_index orders x (Suc idx) =
     (if orders ! idx \<le> x then idx + 1 else observer_index orders x idx)"

definition insert_observer :: "world \<Rightarrow> ref \<Rightarrow> ref list \<Rightarrow> ref list" where
  "insert_observer w rlo xs =
     list_insert (observer_index (map (\<lambda>x. o_order (w_observers w x)) xs) (o_order (w_observers w rlo)) (length xs)) rlo xs"

definition add_observer_body ::
    "env \<Rightarrow> (item \<Rightarrow> string \<Rightarrow> world \<Rightarrow> world option) \<Rightarrow> ref \<Rightarrow> ref \<Rightarrow> string \<Rightarrow> world \<Rightarrow> world option" where
  "add_observer_body E rec rl rlo modeName w =
     (let ob = w_observers w rlo in
      if CFRunLoopIsDeallocating rl w then Some w
      else if \<not> o_valid ob \<or> (o_runLoop ob \<noteq> None \<and> o_runLoop ob \<noteq> Some rl) then Some w
      else if modeName = kCFRunLoopCommonModes then
        fold_opt (rec (ItemObserver rlo)) (rl_commonModes (w_loops w rl)) (add_common_item E rl (ItemObserver rlo) w)
      else
        let w1 = upd_mode rl modeName (\<lambda>m. if m_observers m = None then m\<lparr>m_observers := Some []\<rparr> else m)
                   (snd (CFRunLoopFindMode rl modeName True w)) in
        if CFRunLoopContainsObserver E rl rlo modeName w1 then Some w1
        else Some (CFRunLoopObserverSchedule rlo rl
               (upd_mode rl modeName (\<lambda>m. m\<lparr>m_observers := map_option (insert_observer w1 rlo) (m_observers m),
                                             m_observerMask := m_observerMask m OR o_activities ob\<rparr>) w1)))"

definition remove_observer_body ::
    "env \<Rightarrow> (item \<Rightarrow> string \<Rightarrow> world \<Rightarrow> world option) \<Rightarrow> ref \<Rightarrow> ref \<Rightarrow> string \<Rightarrow> world \<Rightarrow> world option" where
  "remove_observer_body E rec rl rlo modeName w =
     (if modeName = kCFRunLoopCommonModes then
        (if is_common_item E rl (ItemObserver rlo) w then
           fold_opt (rec (ItemObserver rlo)) (rl_commonModes (w_loops w rl)) (remove_common_item E rl (ItemObserver rlo) w)
         else Some w)
      else if CFRunLoopContainsObserver E rl rlo modeName w then
        Some (CFRunLoopObserverCancel rlo
               (upd_mode rl modeName (\<lambda>m. m\<lparr>m_observers := map_option (remove1 rlo) (m_observers m)\<rparr>) w))
      else Some w)"

subsection \<open>The common modes\<close>

text \<open>\<^verbatim>\<open>__CFRunLoopAddItemToCommonModes\<close> and \<^verbatim>\<open>__CFRunLoopRemoveItemFromCommonModes\<close>, to a given depth.\<close>

fun CFRunLoopAddItemToCommonModes :: "nat \<Rightarrow> env \<Rightarrow> ref \<Rightarrow> item \<Rightarrow> string \<Rightarrow> world \<Rightarrow> world option" where
  "CFRunLoopAddItemToCommonModes 0 E rl it modeName w = None"
| "CFRunLoopAddItemToCommonModes (Suc n) E rl it modeName w =
     (case it of
        ItemSource rls \<Rightarrow> add_source_body E (CFRunLoopAddItemToCommonModes n E rl) rl rls modeName w
      | ItemObserver rlo \<Rightarrow> add_observer_body E (CFRunLoopAddItemToCommonModes n E rl) rl rlo modeName w
      | ItemTimer rlt \<Rightarrow> add_timer_body E (CFRunLoopAddItemToCommonModes n E rl) rl rlt modeName w)"

fun CFRunLoopRemoveItemFromCommonModes :: "nat \<Rightarrow> env \<Rightarrow> ref \<Rightarrow> item \<Rightarrow> string \<Rightarrow> world \<Rightarrow> world option" where
  "CFRunLoopRemoveItemFromCommonModes 0 E rl it modeName w = None"
| "CFRunLoopRemoveItemFromCommonModes (Suc n) E rl it modeName w =
     (case it of
        ItemSource rls \<Rightarrow> remove_source_body E (CFRunLoopRemoveItemFromCommonModes n E rl) rl rls modeName w
      | ItemObserver rlo \<Rightarrow> remove_observer_body E (CFRunLoopRemoveItemFromCommonModes n E rl) rl rlo modeName w
      | ItemTimer rlt \<Rightarrow> remove_timer_body E (CFRunLoopRemoveItemFromCommonModes n E rl) rl rlt modeName w)"

definition add_item :: "env \<Rightarrow> ref \<Rightarrow> item \<Rightarrow> string \<Rightarrow> world \<Rightarrow> world option" where
  "add_item E = CFRunLoopAddItemToCommonModes (e_stack E) E"

definition remove_item :: "env \<Rightarrow> ref \<Rightarrow> item \<Rightarrow> string \<Rightarrow> world \<Rightarrow> world option" where
  "remove_item E = CFRunLoopRemoveItemFromCommonModes (e_stack E) E"

definition CFRunLoopAddSource :: "env \<Rightarrow> ref \<Rightarrow> ref \<Rightarrow> string \<Rightarrow> world \<Rightarrow> world option" where
  "CFRunLoopAddSource E rl rls = add_source_body E (add_item E rl) rl rls"

definition CFRunLoopRemoveSource :: "env \<Rightarrow> ref \<Rightarrow> ref \<Rightarrow> string \<Rightarrow> world \<Rightarrow> world option" where
  "CFRunLoopRemoveSource E rl rls = remove_source_body E (remove_item E rl) rl rls"

definition CFRunLoopAddObserver :: "env \<Rightarrow> ref \<Rightarrow> ref \<Rightarrow> string \<Rightarrow> world \<Rightarrow> world option" where
  "CFRunLoopAddObserver E rl rlo = add_observer_body E (add_item E rl) rl rlo"

definition CFRunLoopRemoveObserver :: "env \<Rightarrow> ref \<Rightarrow> ref \<Rightarrow> string \<Rightarrow> world \<Rightarrow> world option" where
  "CFRunLoopRemoveObserver E rl rlo = remove_observer_body E (remove_item E rl) rl rlo"

definition CFRunLoopAddTimer :: "env \<Rightarrow> ref \<Rightarrow> ref \<Rightarrow> string \<Rightarrow> world \<Rightarrow> world option" where
  "CFRunLoopAddTimer E rl rlt = add_timer_body E (add_item E rl) rl rlt"

definition CFRunLoopRemoveTimer :: "env \<Rightarrow> ref \<Rightarrow> ref \<Rightarrow> string \<Rightarrow> world \<Rightarrow> world option" where
  "CFRunLoopRemoveTimer E rl rlt = remove_timer_body E (remove_item E rl) rl rlt"

definition CFRunLoopAddItemsToCommonMode :: "env \<Rightarrow> ref \<Rightarrow> string \<Rightarrow> item \<Rightarrow> world \<Rightarrow> world option" where
  "CFRunLoopAddItemsToCommonMode E rl modeName it w =
     (case it of
        ItemSource rls \<Rightarrow> CFRunLoopAddSource E rl rls modeName w
      | ItemObserver rlo \<Rightarrow> CFRunLoopAddObserver E rl rlo modeName w
      | ItemTimer rlt \<Rightarrow> CFRunLoopAddTimer E rl rlt modeName w)"

definition CFRunLoopAddCommonMode :: "env \<Rightarrow> ref \<Rightarrow> string \<Rightarrow> world \<Rightarrow> world option" where
  "CFRunLoopAddCommonMode E rl modeName w =
     (if CFRunLoopIsDeallocating rl w then Some w
      else if modeName \<in> set (rl_commonModes (w_loops w rl)) then Some w
      else let w1 = upd_loop rl (\<lambda>r. r\<lparr>rl_commonModes := rl_commonModes r @ [modeName]\<rparr>) w in
        case rl_commonModeItems (w_loops w rl) of None \<Rightarrow> Some w1
        | Some items \<Rightarrow> fold_opt (CFRunLoopAddItemsToCommonMode E rl modeName) items w1)"

definition remove_mode_sources :: "env \<Rightarrow> ref \<Rightarrow> string \<Rightarrow> world \<Rightarrow> world option" where
  "remove_mode_sources E rl modeName w =
     (case mode_of w rl modeName of None \<Rightarrow> Some w
      | Some m \<Rightarrow> do {
          w1 \<leftarrow> (case m_sources0 m of None \<Rightarrow> Some w
                | Some xs \<Rightarrow> fold_opt (\<lambda>rls. CFRunLoopRemoveSource E rl rls modeName) xs w);
          (case mode_of w1 rl modeName of None \<Rightarrow> Some w1
           | Some m1 \<Rightarrow> (case m_sources1 m1 of None \<Rightarrow> Some w1
              | Some xs \<Rightarrow> fold_opt (\<lambda>rls. CFRunLoopRemoveSource E rl rls modeName) xs w1)) })"

text \<open>The common mode case goes through the common modes, once more into this function.\<close>

fun remove_all_sources :: "nat \<Rightarrow> env \<Rightarrow> ref \<Rightarrow> string \<Rightarrow> world \<Rightarrow> world option" where
  "remove_all_sources 0 E rl modeName w = None"
| "remove_all_sources (Suc n) E rl modeName w =
     (if modeName = kCFRunLoopCommonModes then
        (if rl_commonModeItems (w_loops w rl) = None then Some w
         else fold_opt (remove_all_sources n E rl) (rl_commonModes (w_loops w rl)) w)
      else remove_mode_sources E rl modeName w)"

definition CFRunLoopRemoveAllSources :: "env \<Rightarrow> ref \<Rightarrow> string \<Rightarrow> world \<Rightarrow> world option" where
  "CFRunLoopRemoveAllSources E = remove_all_sources (e_stack E) E"

text \<open>The part of \<^verbatim>\<open>__CFFinalizeRunLoop\<close> that purges the sources of the loop of an exiting thread.\<close>

definition CFFinalizeRunLoop :: "env \<Rightarrow> ref \<Rightarrow> world \<Rightarrow> world option" where
  "CFFinalizeRunLoop E rl w =
     (if rl = e_mainLoop E then Some w
      else do { w1 \<leftarrow> fold_opt (CFRunLoopRemoveAllSources E rl) (rev (CFRunLoopCopyAllModes rl w)) w;
                CFRunLoopRemoveAllSources E rl kCFRunLoopCommonModes w1 })"

subsection \<open>Invalidation\<close>

fun source_remove_from_loops :: "env \<Rightarrow> ref \<Rightarrow> ref option \<Rightarrow> ref list \<Rightarrow> world \<Rightarrow> world option" where
  "source_remove_from_loops E rls prev [] w = Some w"
| "source_remove_from_loops E rls prev (rl # rloops) w =
     (if prev = Some rl then source_remove_from_loops E rls prev rloops w
      else do {
        w1 \<leftarrow> fold_opt (\<lambda>name. CFRunLoopRemoveSource E rl rls name) (rev (CFRunLoopCopyAllModes rl w)) w;
        w2 \<leftarrow> CFRunLoopRemoveSource E rl rls kCFRunLoopCommonModes w1;
        source_remove_from_loops E rls (Some rl) rloops w2 })"

definition CFRunLoopSourceInvalidate :: "env \<Rightarrow> ref \<Rightarrow> world \<Rightarrow> world option" where
  "CFRunLoopSourceInvalidate E rls w =
     (if \<not> s_valid (w_sources w rls) then Some w
      else let w1 = upd_source rls (\<lambda>s. s\<lparr>s_valid := False, s_signaled := False\<rparr>) w in
        case s_runLoops (w_sources w rls) of None \<Rightarrow> Some w1
        | Some rloops \<Rightarrow>
            source_remove_from_loops E rls None rloops (upd_source rls (\<lambda>s. s\<lparr>s_runLoops := None\<rparr>) w1))"

definition release_context :: "env \<Rightarrow> bool \<Rightarrow> item \<Rightarrow> world \<Rightarrow> world" where
  "release_context E has_release it w = (if has_release then callout E (Released it) w else w)"

definition CFRunLoopObserverInvalidate :: "env \<Rightarrow> ref \<Rightarrow> world \<Rightarrow> world option" where
  "CFRunLoopObserverInvalidate E rlo w =
     (let ob = w_observers w rlo in
      if \<not> o_valid ob then Some w
      else do {
        let w1 = upd_observer rlo (\<lambda>ob. ob\<lparr>o_valid := False\<rparr>) w;
        w2 \<leftarrow> (case o_runLoop ob of None \<Rightarrow> Some w1
              | Some rl \<Rightarrow> do {
                  w' \<leftarrow> fold_opt (\<lambda>name. CFRunLoopRemoveObserver E rl rlo name) (rev (CFRunLoopCopyAllModes rl w1)) w1;
                  CFRunLoopRemoveObserver E rl rlo kCFRunLoopCommonModes w' });
        Some (release_context E (o_release ob) (ItemObserver rlo) w2) })"

definition CFRunLoopTimerInvalidate :: "env \<Rightarrow> ref \<Rightarrow> world \<Rightarrow> world option" where
  "CFRunLoopTimerInvalidate E rlt w =
     (let t = w_timers w rlt in
      if \<not> t_valid t then Some w
      else do {
        let w1 = upd_timer rlt (\<lambda>t. t\<lparr>t_valid := False\<rparr>) w;
        w2 \<leftarrow> (case t_runLoop t of None \<Rightarrow> Some w1
              | Some rl \<Rightarrow> do {
                  w' \<leftarrow> fold_opt (\<lambda>name. CFRunLoopRemoveTimer E rl rlt name) (t_rlModes t) w1;
                  CFRunLoopRemoveTimer E rl rlt kCFRunLoopCommonModes w' });
        Some (release_context E (t_release t) (ItemTimer rlt) w2) })"

definition CFRunLoopSourceCreate :: "ref \<Rightarrow> source \<Rightarrow> world \<Rightarrow> world" where
  "CFRunLoopSourceCreate rls ctx =
     upd_source rls (\<lambda>_. ctx\<lparr>s_valid := True, s_signaled := False, s_runLoops := None\<rparr>)"

definition CFRunLoopObserverCreate :: "ref \<Rightarrow> activity \<Rightarrow> bool \<Rightarrow> int \<Rightarrow> bool \<Rightarrow> world \<Rightarrow> world" where
  "CFRunLoopObserverCreate rlo activities repeats order release =
     upd_observer rlo (\<lambda>_. \<lparr>o_valid = True, o_firing = False, o_repeats = repeats, o_runLoop = None, o_rlCount = 0,
       o_activities = activities, o_order = order, o_release = release\<rparr>)"

end
