(* ===== verification/RunLoopRun.thy ===== *)
theory RunLoopRun
  imports RunLoopItems CFSortFunctions
begin

text \<open>
  Running a loop: the blocks, observers, sources and timers that are due, one iteration of
  \<^verbatim>\<open>__CFRunLoopRun\<close>, and the loop itself, a partial function that is \<open>None\<close> when it never returns.
\<close>

subsection \<open>Blocks\<close>

text \<open>The blocks that stay, in order, whether one ran, and the world afterwards.\<close>

fun do_blocks_loop ::
    "env \<Rightarrow> ref \<Rightarrow> string \<Rightarrow> (block_mode \<times> nat) list \<Rightarrow> bool \<Rightarrow> world \<Rightarrow> (block_mode \<times> nat) list \<times> bool \<times> world" where
  "do_blocks_loop E rl curMode [] did w = ([], did, w)"
| "do_blocks_loop E rl curMode ((bm, block) # rest) did w =
     (if block_matches (rl_commonModes (w_loops w rl)) curMode bm
      then do_blocks_loop E rl curMode rest True (callout E (BlockRun block) w)
      else let (kept, did', w') = do_blocks_loop E rl curMode rest did w in ((bm, block) # kept, did', w'))"

definition CFRunLoopDoBlocks :: "env \<Rightarrow> ref \<Rightarrow> string \<Rightarrow> world \<Rightarrow> bool \<times> world" where
  "CFRunLoopDoBlocks E rl name w =
     (let blocks = rl_blocks (w_loops w rl) in
      if length blocks = 0 then (False, w)
      else let (kept, did, w') = do_blocks_loop E rl name blocks False (upd_loop rl (\<lambda>r. r\<lparr>rl_blocks := []\<rparr>) w) in
        (did, upd_loop rl (\<lambda>r. r\<lparr>rl_blocks := kept @ rl_blocks r\<rparr>) w'))"

subsection \<open>Observers\<close>

fun do_observers_loop :: "env \<Rightarrow> activity \<Rightarrow> ref list \<Rightarrow> world \<Rightarrow> world option" where
  "do_observers_loop E act [] w = Some w"
| "do_observers_loop E act (rlo # rest) w =
     (if o_valid (w_observers w rlo) then do {
        let doInvalidate = (\<not> o_repeats (w_observers w rlo));
        let w1 = callout E (Observed rlo act) (upd_observer rlo (\<lambda>ob. ob\<lparr>o_firing := True\<rparr>) w);
        w2 \<leftarrow> (if doInvalidate then CFRunLoopObserverInvalidate E rlo w1 else Some w1);
        do_observers_loop E act rest (upd_observer rlo (\<lambda>ob. ob\<lparr>o_firing := False\<rparr>) w2) }
      else do_observers_loop E act rest w)"

definition collected_observers :: "activity \<Rightarrow> ref list \<Rightarrow> world \<Rightarrow> ref list" where
  "collected_observers act xs w =
     filter (\<lambda>rlo. o_activities (w_observers w rlo) AND act \<noteq> 0 \<and> o_valid (w_observers w rlo) \<and>
                   \<not> o_firing (w_observers w rlo)) xs"

definition CFRunLoopDoObservers :: "env \<Rightarrow> ref \<Rightarrow> string \<Rightarrow> activity \<Rightarrow> world \<Rightarrow> world option" where
  "CFRunLoopDoObservers E rl name act w =
     (case mode_of w rl name of None \<Rightarrow> None
      | Some m \<Rightarrow> (case m_observers m of None \<Rightarrow> Some w
          | Some xs \<Rightarrow> do_observers_loop E act (collected_observers act xs w) w))"

text \<open>The test of the mode's observer mask that precedes each call.\<close>

definition notify :: "env \<Rightarrow> ref \<Rightarrow> string \<Rightarrow> activity \<Rightarrow> world \<Rightarrow> world option" where
  "notify E rl name act w =
     (case mode_of w rl name of None \<Rightarrow> None
      | Some m \<Rightarrow> if m_observerMask m AND act \<noteq> 0 then CFRunLoopDoObservers E rl name act w else Some w)"

subsection \<open>Sources\<close>

definition CFRunLoopCollectSources0 :: "ref list \<Rightarrow> world \<Rightarrow> ref list" where
  "CFRunLoopCollectSources0 xs w =
     filter (\<lambda>rls. s_version (w_sources w rls) = 0 \<and> s_valid (w_sources w rls) \<and> s_signaled (w_sources w rls)) xs"

fun perform0_loop :: "env \<Rightarrow> bool \<Rightarrow> ref list \<Rightarrow> bool \<Rightarrow> world \<Rightarrow> bool \<times> world" where
  "perform0_loop E stopAfterHandle [] handled w = (handled, w)"
| "perform0_loop E stopAfterHandle (rls # rest) handled w =
     (let (handled', w') =
        (if s_signaled (w_sources w rls) then
           (let w1 = upd_source rls (\<lambda>s. s\<lparr>s_signaled := False\<rparr>) w in
            if s_valid (w_sources w1 rls) then (True, callout E (Performed0 rls) w1) else (handled, w1))
         else (handled, w)) in
      if stopAfterHandle \<and> handled' then (handled', w')
      else perform0_loop E stopAfterHandle rest handled' w')"

text \<open>
  The collected sources are one source or an array with the standard callbacks, which
  \<^verbatim>\<open>CFArraySortValues\<close> sorts by \<^verbatim>\<open>CFQSortArray\<close>.
\<close>

definition CFRunLoopDoSources0 :: "env \<Rightarrow> ref \<Rightarrow> string \<Rightarrow> bool \<Rightarrow> world \<Rightarrow> (bool \<times> world) option" where
  "CFRunLoopDoSources0 E rl name stopAfterHandle w =
     (case mode_of w rl name of None \<Rightarrow> None
      | Some m \<Rightarrow> (case m_sources0 m of None \<Rightarrow> Some (False, w)
          | Some xs \<Rightarrow> do {
              let collected = CFRunLoopCollectSources0 xs w;
              sources \<leftarrow> CFQSortArray collected (length collected) (CFRunLoopSourceComparator w);
              Some (perform0_loop E stopAfterHandle sources False w) }))"

definition CFRunLoopDoSource1 :: "env \<Rightarrow> ref \<Rightarrow> world \<Rightarrow> bool \<times> world" where
  "CFRunLoopDoSource1 E rls w =
     (if s_valid (w_sources w rls)
      then (True, callout E (Performed1 rls) (upd_source rls (\<lambda>s. s\<lparr>s_signaled := False\<rparr>) w))
      else (False, w))"

subsection \<open>Timers\<close>

text \<open>The loop that moves the fire time past the current time; unsigned 64-bit arithmetic.\<close>

partial_function (option) advance_fire :: "nat \<Rightarrow> nat \<Rightarrow> nat \<Rightarrow> nat option" where
  "advance_fire nextFireTSR currentTSR intervalTSR =
     (if nextFireTSR \<le> currentTSR
      then advance_fire ((nextFireTSR + intervalTSR) mod 2 ^ 64) currentTSR intervalTSR
      else Some nextFireTSR)"

definition interval_tsr :: "env \<Rightarrow> real \<Rightarrow> nat" where
  "interval_tsr E interval =
     (if interval \<le> 0 then 0
      else if TIMER_INTERVAL_LIMIT < interval then CFTimeIntervalToTSR E TIMER_INTERVAL_LIMIT
      else CFTimeIntervalToTSR E interval)"

definition next_fire_tsr :: "env \<Rightarrow> nat \<Rightarrow> real \<Rightarrow> world \<Rightarrow> nat option" where
  "next_fire_tsr E oldFireTSR interval w =
     (let intervalTSR = interval_tsr E interval in
      if LLONG_MAX - intervalTSR \<le> oldFireTSR then Some LLONG_MAX
      else if intervalTSR = 0 then None
      else advance_fire oldFireTSR (w_now w) intervalTSR)"

definition reschedule_timer :: "env \<Rightarrow> ref \<Rightarrow> string \<Rightarrow> ref \<Rightarrow> nat \<Rightarrow> world \<Rightarrow> world option" where
  "reschedule_timer E rl name rlt oldFireTSR w =
     (if oldFireTSR < fire_tsr w rlt then Some (CFArmNextTimerInMode E rl name w)
      else do {
        nextFireTSR \<leftarrow> next_fire_tsr E oldFireTSR (t_interval (w_timers w rlt)) w;
        let w1 = set_fire_time rlt nextFireTSR (w_date w + CFTimeIntervalUntilTSR E w nextFireTSR) w;
        (case t_runLoop (w_timers w rlt) of None \<Rightarrow> Some w1
         | Some rl' \<Rightarrow> reposition_in_modes E rl' rlt (t_rlModes (w_timers w rlt)) w1) })"

definition timer_due :: "ref \<Rightarrow> ref \<Rightarrow> world \<Rightarrow> bool" where
  "timer_due rl rlt w \<longleftrightarrow>
     t_valid (w_timers w rlt) \<and> fire_tsr w rlt \<le> w_now w \<and> \<not> t_firing (w_timers w rlt) \<and>
     t_runLoop (w_timers w rlt) = Some rl"

definition CFRunLoopDoTimer :: "env \<Rightarrow> ref \<Rightarrow> string \<Rightarrow> ref \<Rightarrow> world \<Rightarrow> (bool \<times> world) option" where
  "CFRunLoopDoTimer E rl name rlt w =
     (if \<not> timer_due rl rlt w then Some (False, w)
      else do {
        let t = w_timers w rlt;
        let w1 = upd_mode rl name (\<lambda>m. m\<lparr>m_timerSoftDeadline := UINT64_MAX, m_timerHardDeadline := UINT64_MAX\<rparr>)
                   (upd_timer rlt (\<lambda>t. t\<lparr>t_firing := True\<rparr>) w);
        let w2 = callout E (TimerFired rlt) (CFArmNextTimerInMode E rl name w1);
        w3 \<leftarrow> (if t_interval t = 0 then CFRunLoopTimerInvalidate E rlt w2 else Some w2);
        let w4 = release_context E (t_retain t \<and> t_release t) (ItemTimer rlt) w3;
        let w5 = upd_timer rlt (\<lambda>t. t\<lparr>t_firing := False\<rparr>) w4;
        w6 \<leftarrow> (if t_valid (w_timers w5 rlt) then reschedule_timer E rl name rlt (t_fireTSR t) w5 else Some w5);
        Some (True, w6) })"

definition due_timers :: "nat \<Rightarrow> ref list \<Rightarrow> world \<Rightarrow> ref list" where
  "due_timers limitTSR ts w =
     filter (\<lambda>t. t_valid (w_timers w t) \<and> \<not> t_firing (w_timers w t) \<and> fire_tsr w t \<le> limitTSR) ts"

fun do_timers_loop :: "env \<Rightarrow> ref \<Rightarrow> string \<Rightarrow> ref list \<Rightarrow> bool \<Rightarrow> world \<Rightarrow> (bool \<times> world) option" where
  "do_timers_loop E rl name [] handled w = Some (handled, w)"
| "do_timers_loop E rl name (t # ts) handled w =
     do { (did, w') \<leftarrow> CFRunLoopDoTimer E rl name t w; do_timers_loop E rl name ts (handled \<or> did) w' }"

definition CFRunLoopDoTimers :: "env \<Rightarrow> ref \<Rightarrow> string \<Rightarrow> nat \<Rightarrow> world \<Rightarrow> (bool \<times> world) option" where
  "CFRunLoopDoTimers E rl name limitTSR w =
     (case mode_of w rl name of None \<Rightarrow> None
      | Some m \<Rightarrow> (case m_timers m of None \<Rightarrow> Some (False, w)
          | Some ts \<Rightarrow> do_timers_loop E rl name (due_timers limitTSR ts w) False w))"

subsection \<open>The loop\<close>

definition term_tsr :: "env \<Rightarrow> real \<Rightarrow> world \<Rightarrow> nat" where
  "term_tsr E seconds w =
     (if seconds \<le> 0 then 0
      else if seconds \<le> TIMER_INTERVAL_LIMIT then w_now w + CFTimeIntervalToTSR E seconds
      else UINT64_MAX)"

text \<open>
  The deadline of a run, cleared by \<^verbatim>\<open>__CFRunLoopTimeout\<close> when the dispatch timer has fired; there is a
  timer unless the run times out at once or never.
\<close>

definition current_term :: "env \<Rightarrow> nat \<Rightarrow> world \<Rightarrow> nat" where
  "current_term E termTSR w =
     (if termTSR \<noteq> 0 \<and> termTSR \<noteq> UINT64_MAX \<and> e_timeoutFired E termTSR w then 0 else termTSR)"

text \<open>The handler of the dispatch timer; the deadline it clears is read through \<open>current_term\<close>.\<close>

definition CFRunLoopTimeout :: "ref \<Rightarrow> world \<Rightarrow> world" where
  "CFRunLoopTimeout rl w = CFRunLoopWakeUp rl w"

text \<open>
  The wait for a message. A poll comes back at once. Otherwise the time-out is infinite: when nothing arrives from elsewhere,
  the thread waits until the dispatch timer of the run has fired and its handler has sent the wake-up message,
  if there is a timer, if the message was sent and if its port is one of those waited for; or else for ever.
\<close>

definition CFRunLoopServiceMachPort :: "env \<Rightarrow> ref \<Rightarrow> nat \<Rightarrow> port list \<Rightarrow> bool \<Rightarrow> world \<Rightarrow> (world \<times> port) option" where
  "CFRunLoopServiceMachPort E rl termTSR ports poll w =
     (let (w', livePort) = e_receive E ports poll w in
      if poll \<or> livePort \<noteq> 0 then Some (w', livePort)
      else if current_term E termTSR w' = termTSR then None
      else let w'' = CFRunLoopTimeout rl w'; wakeUpPort = rl_wakeUpPort (w_loops w' rl) in
        if w_trace w'' = w_trace w' @ [WakeUpSent rl] \<and> wakeUpPort \<in> set ports then Some (w'', wakeUpPort) else None)"

text \<open>Going to sleep and waking up: the port that became live, 0 for none.\<close>

definition sleep :: "env \<Rightarrow> ref \<Rightarrow> string \<Rightarrow> nat \<Rightarrow> port \<Rightarrow> bool \<Rightarrow> world \<Rightarrow> (port \<times> world) option" where
  "sleep E rl name termTSR dispatchPort poll w =
     do { w1 \<leftarrow> (if \<not> poll then notify E rl name kCFRunLoopBeforeWaiting w else Some w);
          let w2 = upd_mode rl name (\<lambda>m. if dispatchPort = 0 then m else m\<lparr>m_portSet := List.insert dispatchPort (m_portSet m)\<rparr>)
                     (set_sleeping True rl w1);
          m \<leftarrow> mode_of w2 rl name;
          (w3, livePort) \<leftarrow> CFRunLoopServiceMachPort E rl termTSR (m_portSet m) poll w2;
          let w4 = upd_loop rl (\<lambda>r. r\<lparr>rl_sleepTime := rl_sleepTime r + (if poll then 0 else w_date w3 - w_date w2)\<rparr>) w3;
          let w5 = upd_mode rl name (\<lambda>m. if dispatchPort = 0 then m else m\<lparr>m_portSet := removeAll dispatchPort (m_portSet m)\<rparr>) w4;
          let w6 = set_sleeping False rl (set_ignoreWakeUps True rl w5);
          w7 \<leftarrow> (if \<not> poll then notify E rl name kCFRunLoopAfterWaiting w6 else Some w6);
          Some (livePort, w7) }"

text \<open>From \<^verbatim>\<open>handle_msg\<close> on: whether a source was handled, whether the main queue was serviced.\<close>

definition handle_msg :: "env \<Rightarrow> ref \<Rightarrow> string \<Rightarrow> port \<Rightarrow> port \<Rightarrow> bool \<Rightarrow> world \<Rightarrow> (bool \<times> bool \<times> world) option" where
  "handle_msg E rl name dispatchPort livePort handled w =
     do { let w1 = set_ignoreWakeUps True rl w;
          m \<leftarrow> mode_of w1 rl name;
          if livePort = 0 then Some (handled, False, w1)
          else if livePort = rl_wakeUpPort (w_loops w1 rl) then Some (handled, False, w1)
          else if m_timerPort m \<noteq> 0 \<and> livePort = m_timerPort m then do {
            (did, w2) \<leftarrow> CFRunLoopDoTimers E rl name (w_now w1) w1;
            Some (handled, False, if \<not> did then CFArmNextTimerInMode E rl name w2 else w2) }
          else if livePort = dispatchPort then
            Some (True, True, (callout E MainQueueServiced (w1\<lparr>w_inMainQueue := True\<rparr>))\<lparr>w_inMainQueue := False\<rparr>)
          else (case CFRunLoopModeFindSourceForMachPort rl name livePort w1 of
              None \<Rightarrow> Some (handled, False, w1)
            | Some rls \<Rightarrow> let (h, w2) = CFRunLoopDoSource1 E rls w1 in Some (h \<or> handled, False, w2)) }"

definition run_outcome :: "env \<Rightarrow> ref \<Rightarrow> string \<Rightarrow> nat \<Rightarrow> bool \<Rightarrow> bool \<Rightarrow> world \<Rightarrow> run_result option \<times> world" where
  "run_outcome E rl name termTSR stopAfterHandle handled w =
     (if handled \<and> stopAfterHandle then (Some RunHandledSource, w)
      else if current_term E termTSR w < w_now w then (Some RunTimedOut, w)
      else if CFRunLoopIsStopped rl w then (Some RunStopped, set_stopped False rl w)
      else if (case mode_of w rl name of None \<Rightarrow> False | Some m \<Rightarrow> m_stopped m)
           then (Some RunStopped, upd_mode rl name (\<lambda>m. m\<lparr>m_stopped := False\<rparr>) w)
      else if CFRunLoopModeIsEmpty E rl name w then (Some RunFinished, w)
      else (None, w))"

text \<open>One pass: the result when the run ends, whether the main queue was serviced, and the world.\<close>

definition run_iteration ::
    "env \<Rightarrow> ref \<Rightarrow> string \<Rightarrow> nat \<Rightarrow> bool \<Rightarrow> port \<Rightarrow> bool \<Rightarrow> world \<Rightarrow> (run_result option \<times> bool \<times> world) option" where
  "run_iteration E rl name termTSR stopAfterHandle dispatchPort didDispatchPortLastTime w =
     do { w1 \<leftarrow> notify E rl name kCFRunLoopBeforeTimers (set_ignoreWakeUps False rl w);
          w2 \<leftarrow> notify E rl name kCFRunLoopBeforeSources w1;
          (handled, w3) \<leftarrow> CFRunLoopDoSources0 E rl name stopAfterHandle (snd (CFRunLoopDoBlocks E rl name w2));
          let w4 = (if handled then snd (CFRunLoopDoBlocks E rl name w3) else w3);
          let poll = (handled \<or> current_term E termTSR w4 = 0);
          let (w5, early) = (if dispatchPort \<noteq> 0 \<and> \<not> didDispatchPortLastTime
                             then e_receive E [dispatchPort] True w4 else (w4, 0));
          (livePort, w6) \<leftarrow> (if early \<noteq> 0 then Some (early, w5) else sleep E rl name termTSR dispatchPort poll w5);
          (handled', serviced, w7) \<leftarrow> handle_msg E rl name dispatchPort livePort handled w6;
          let (result, w8) = run_outcome E rl name termTSR stopAfterHandle handled' (snd (CFRunLoopDoBlocks E rl name w7));
          Some (result, serviced, w8) }"

partial_function (option) run_passes ::
    "env \<Rightarrow> ref \<Rightarrow> string \<Rightarrow> nat \<Rightarrow> bool \<Rightarrow> port \<Rightarrow> bool \<Rightarrow> world \<Rightarrow> (run_result \<times> world) option" where
  "run_passes E rl name termTSR stopAfterHandle dispatchPort didDispatch w =
     Option.bind (run_iteration E rl name termTSR stopAfterHandle dispatchPort didDispatch w)
       (\<lambda>p. case fst p of
          Some r \<Rightarrow> Some (r, snd (snd p))
        | None \<Rightarrow> run_passes E rl name termTSR stopAfterHandle dispatchPort (fst (snd p)) (snd (snd p)))"

definition CFRunLoopRunInternal :: "env \<Rightarrow> ref \<Rightarrow> string \<Rightarrow> real \<Rightarrow> bool \<Rightarrow> world \<Rightarrow> (run_result \<times> world) option" where
  "CFRunLoopRunInternal E rl name seconds stopAfterHandle w =
     (if CFRunLoopIsStopped rl w then Some (RunStopped, set_stopped False rl w)
      else if (case mode_of w rl name of None \<Rightarrow> False | Some m \<Rightarrow> m_stopped m)
           then Some (RunStopped, upd_mode rl name (\<lambda>m. m\<lparr>m_stopped := False\<rparr>) w)
      else run_passes E rl name (term_tsr E seconds w) stopAfterHandle
             (if on_main_queue E rl name w then e_mainQueuePort E else 0) True w)"

definition CFRunLoopRunSpecific :: "env \<Rightarrow> ref \<Rightarrow> string \<Rightarrow> real \<Rightarrow> bool \<Rightarrow> world \<Rightarrow> (run_result \<times> world) option" where
  "CFRunLoopRunSpecific E rl modeName seconds returnAfterSourceHandled w =
     (if CFRunLoopIsDeallocating rl w then Some (RunFinished, w)
      else if \<not> fst (CFRunLoopFindMode rl modeName False w) \<or> CFRunLoopModeIsEmpty E rl modeName w
           then Some (RunFinished, w)
      else do {
        let (previousPerRun, w1) = CFRunLoopPushPerRunData rl w;
        let previousMode = rl_currentMode (w_loops w1 rl);
        let w2 = upd_loop rl (\<lambda>r. r\<lparr>rl_currentMode := Some modeName\<rparr>) w1;
        w3 \<leftarrow> notify E rl modeName kCFRunLoopEntry w2;
        (result, w4) \<leftarrow> CFRunLoopRunInternal E rl modeName seconds returnAfterSourceHandled w3;
        w5 \<leftarrow> notify E rl modeName kCFRunLoopExit w4;
        Some (result, upd_loop rl (\<lambda>r. r\<lparr>rl_currentMode := previousMode\<rparr>)
                        (CFRunLoopPopPerRunData rl previousPerRun w5)) })"

definition CFRunLoopRunInMode :: "env \<Rightarrow> string \<Rightarrow> real \<Rightarrow> bool \<Rightarrow> world \<Rightarrow> (run_result \<times> world) option" where
  "CFRunLoopRunInMode E = CFRunLoopRunSpecific E (e_currentLoop E)"

partial_function (option) CFRunLoopRun :: "env \<Rightarrow> world \<Rightarrow> world option" where
  "CFRunLoopRun E w =
     Option.bind (CFRunLoopRunSpecific E (e_currentLoop E) kCFRunLoopDefaultMode 10000000000 False w)
       (\<lambda>p. if fst p \<noteq> RunStopped \<and> fst p \<noteq> RunFinished then CFRunLoopRun E (snd p) else Some (snd p))"

end
