(* ===== verification/RunLoopTimerLemmas.thy ===== *)
theory RunLoopTimerLemmas
  imports RunLoopTimers
begin

text \<open>
  The insertion index of \<^verbatim>\<open>CFRunLoop.c\<close> is the upper bound, and arming a mode computes the least soft and
  hard deadlines of the timers that are not firing.
\<close>


subsection \<open>The insertion index is the upper bound\<close>

definition upper_bound :: "'a :: linorder list \<Rightarrow> 'a \<Rightarrow> nat" where
  "upper_bound xs x = length (takeWhile (\<lambda>y. y \<le> x) xs)"

lemma upper_bound_le: "upper_bound xs x \<le> length xs"
  by (simp add: upper_bound_def length_takeWhile_le)

lemma below_upper_bound: "i < upper_bound xs x \<Longrightarrow> xs ! i \<le> x"
  unfolding upper_bound_def using takeWhile_nth nth_mem set_takeWhileD by metis

lemma above_upper_bound:
  assumes "sorted xs" "upper_bound xs x \<le> i" "i < length xs"
  shows "x < xs ! i"
proof -
  have "\<not> xs ! upper_bound xs x \<le> x"
    using assms(2,3) nth_length_takeWhile [of "\<lambda>y. y \<le> x" xs] by (simp add: upper_bound_def)
  moreover have "xs ! upper_bound xs x \<le> xs ! i" using assms by (simp add: sorted_nth_mono)
  ultimately show ?thesis by simp
qed

lemma less_upper_bound_iff: "sorted xs \<Longrightarrow> i < upper_bound xs x \<longleftrightarrow> i < length xs \<and> xs ! i \<le> x"
  by (meson above_upper_bound below_upper_bound le_less_linear leD order.strict_trans2 upper_bound_le)

lemma insertion_loop_spec:
  assumes "sorted xs" and "idx \<le> upper_bound xs x" and "upper_bound xs x \<le> idx + 2 ^ k"
    and "insertion_loop xs x (2 ^ k) idx = (i, hit)"
  shows "(if hit then i + 1 else i) = upper_bound xs x"
  using assms(2-)
proof (induction k arbitrary: idx)
  case 0
  then show ?case using less_upper_bound_iff [OF assms(1), of idx x]
    by (subst (asm) insertion_loop.simps) (auto split: if_splits)
next
  case (Suc k)
  let ?j = "idx + 2 ^ k"
  have half: "2 ^ Suc k div 2 = (2 ^ k :: nat)" by simp
  show ?case
  proof (cases "?j < length xs \<and> xs ! ?j \<le> x")
    case True
    then have "insertion_loop xs x (2 ^ k) ?j = (i, hit)"
      using Suc.prems(3) by (subst (asm) insertion_loop.simps) (simp add: Let_def half)
    moreover have "?j < upper_bound xs x" using less_upper_bound_iff [OF assms(1), of ?j x] True by blast
    ultimately show ?thesis using Suc.IH [of ?j] Suc.prems(2) by simp
  next
    case False
    then have "insertion_loop xs x (2 ^ k) idx = (i, hit)"
      using Suc.prems(3) by (subst (asm) insertion_loop.simps) (auto simp add: Let_def half)
    moreover have "\<not> ?j < upper_bound xs x" using less_upper_bound_iff [OF assms(1), of ?j x] False by blast
    ultimately show ?thesis using Suc.IH [of idx] Suc.prems(1) by simp
  qed
qed

lemma insertion_index_spec:
  assumes "sorted xs" and "length xs < 2 ^ 29"
  shows "insertion_index xs x = Some (upper_bound xs x)"
proof -
  let ?n = "length xs"
  consider "?n = 0" | (last) "?n \<noteq> 0" "256 < ?n" "xs ! (?n - 1) \<le> x"
    | (first) "?n \<noteq> 0" "\<not> (256 < ?n \<and> xs ! (?n - 1) \<le> x)" "256 < ?n" "x < xs ! 0"
    | (search) "?n \<noteq> 0" "\<not> (256 < ?n \<and> xs ! (?n - 1) \<le> x)" "\<not> (256 < ?n \<and> x < xs ! 0)" by blast
  then show ?thesis
  proof cases
    case last
    then have "?n - 1 < upper_bound xs x" using less_upper_bound_iff [OF assms(1)] by simp
    then have "upper_bound xs x = ?n" using upper_bound_le [of xs x] by simp
    then show ?thesis using last by (simp add: insertion_index_def Let_def)
  next
    case first
    then have "upper_bound xs x = 0" using less_upper_bound_iff [OF assms(1), of 0 x] by simp
    then show ?thesis using first by (simp add: insertion_index_def Let_def)
  next
    case search
    have "flsl ?n \<le> 29" using flsl_le assms(2) by blast
    then have s: "shl1 (flsl ?n + 1) = Some (2 ^ (flsl ?n + 1))" by simp
    have "upper_bound xs x \<le> 0 + 2 ^ (flsl ?n + 1)"
      using upper_bound_le [of xs x] less_pow_flsl [of ?n] by simp
    from insertion_loop_spec [OF assms(1) _ this] show ?thesis
      using s unfolding insertion_index_def Let_def if_not_P [OF search(1)] if_not_P [OF search(2)] if_not_P [OF search(3)]
      by (cases "insertion_loop xs x (2 ^ (flsl ?n + 1)) 0") simp
  qed (simp add: insertion_index_def upper_bound_def)
qed

text \<open>Whatever the length: if there is a result, it is the upper bound.\<close>

lemma insertion_index_Some:
  assumes "sorted xs" and "insertion_index xs x = Some i"
  shows "i = upper_bound xs x"
proof (cases "length xs < 2 ^ 29")
  case True
  then show ?thesis using insertion_index_spec [OF assms(1) True] assms(2) by simp
next
  case False
  let ?n = "length xs"
  have "29 < flsl ?n"
  proof (rule ccontr)
    assume "\<not> 29 < flsl ?n"
    then have "?n < 2 ^ 29" using less_pow_flsl [of ?n] power_increasing [of "flsl ?n" 29 "2 :: nat"] by simp
    then show False using False by simp
  qed
  then have none: "shl1 (flsl ?n + 1) = None" by (simp add: shl1_def)
  have big: "256 < ?n" "?n \<noteq> 0" using False by (simp, cases xs) simp_all
  show ?thesis
  proof (cases "xs ! (?n - 1) \<le> x")
    case True
    then have "?n - 1 < upper_bound xs x" using less_upper_bound_iff [OF assms(1)] big by simp
    then have "upper_bound xs x = ?n" using upper_bound_le [of xs x] by simp
    then show ?thesis using True big assms(2) by (simp add: insertion_index_def Let_def)
  next
    case last: False
    show ?thesis
    proof (cases "x < xs ! 0")
      case True
      then have "upper_bound xs x = 0" using less_upper_bound_iff [OF assms(1), of 0 x] big by auto
      then show ?thesis using True last big assms(2) by (simp add: insertion_index_def Let_def)
    next
      case False
      then show ?thesis using last big none assms(2) by (simp add: insertion_index_def Let_def)
    qed
  qed
qed

lemma sorted_list_insert:
  assumes "sorted (map f ts)"
  shows "sorted (map f (list_insert (upper_bound (map f ts) (f t)) t ts))"
proof -
  let ?k = "upper_bound (map f ts) (f t)"
  have lo: "f y \<le> f t" if "y \<in> set (take ?k ts)" for y
  proof -
    obtain i where "i < length (take ?k ts)" "take ?k ts ! i = y" using \<open>y \<in> _\<close> unfolding in_set_conv_nth by blast
    then show ?thesis using below_upper_bound [of i "map f ts" "f t"] by auto
  qed
  have hi: "f t \<le> f y" if "y \<in> set (drop ?k ts)" for y
  proof -
    obtain i where i: "i < length (drop ?k ts)" "drop ?k ts ! i = y" using \<open>y \<in> _\<close> unfolding in_set_conv_nth by blast
    then have "?k + i < length (map f ts)" by (simp add: less_diff_conv add.commute)
    from above_upper_bound [OF assms _ this, of "f t"] this i(2) show ?thesis by auto
  qed
  have "\<forall>a \<in> set (take ?k ts). \<forall>b \<in> set (drop ?k ts). f a \<le> f b" using lo hi order.trans by blast
  moreover have "sorted (map f (take ?k ts))" "sorted (map f (drop ?k ts))"
    unfolding take_map [symmetric] drop_map [symmetric] using assms by (rule sorted_wrt_take, rule sorted_wrt_drop)
  ultimately show ?thesis using lo hi by (simp add: list_insert_def sorted_append)
qed

lemma set_list_insert [simp]: "set (list_insert i x xs) = insert x (set xs)"
  unfolding list_insert_def by (metis Un_insert_right append_take_drop_id list.simps(15) set_append append_Cons append_Nil)

lemma length_list_insert [simp]: "length (list_insert i x xs) = Suc (length xs)"
  by (simp add: list_insert_def)

lemma distinct_list_insert [simp]: "distinct (list_insert i x xs) \<longleftrightarrow> x \<notin> set xs \<and> distinct xs"
proof -
  have swap: "distinct (ys @ [x] @ zs) \<longleftrightarrow> distinct (x # ys @ zs)" for ys zs by auto
  show ?thesis unfolding list_insert_def swap append_take_drop_id by simp
qed

subsection \<open>Arming for the first deadline\<close>

text \<open>The reference: the least value over the timers that are not firing, \<open>UINT64_MAX\<close> if there is none.\<close>

definition least_deadline :: "world \<Rightarrow> (ref \<Rightarrow> nat) \<Rightarrow> ref list \<Rightarrow> nat" where
  "least_deadline w f ts = foldr min (map f (filter (\<lambda>t. \<not> t_firing (w_timers w t)) ts)) UINT64_MAX"

lemma least_deadline_simps [simp]:
  "least_deadline w f [] = UINT64_MAX"
  "least_deadline w f (t # ts) =
     (if t_firing (w_timers w t) then least_deadline w f ts else min (f t) (least_deadline w f ts))"
  by (simp_all add: least_deadline_def)

lemma least_deadline_le: "least_deadline w f ts \<le> UINT64_MAX"
  by (induction ts) (auto simp: min_def)

lemma least_deadline_ge:
  "(\<And>t. t \<in> set ts \<Longrightarrow> \<not> t_firing (w_timers w t) \<Longrightarrow> b \<le> f t) \<Longrightarrow> b \<le> UINT64_MAX \<Longrightarrow> b \<le> least_deadline w f ts"
  by (induction ts) auto

lemma hard_ge_fire: "fire_tsr w t \<le> UINT64_MAX \<Longrightarrow> fire_tsr w t \<le> hard_deadline E w t"
  by (simp add: hard_deadline_def add_saturated_def)

lemma arm_loop_spec:
  "sorted (map (fire_tsr w) ts) \<Longrightarrow> (\<forall>t \<in> set ts. fire_tsr w t \<le> UINT64_MAX) \<Longrightarrow>
   soft \<le> hard \<Longrightarrow> hard \<le> UINT64_MAX \<Longrightarrow>
   arm_loop E w ts soft hard =
     (min soft (least_deadline w (fire_tsr w) ts), min hard (least_deadline w (hard_deadline E w) ts))"
proof (induction ts arbitrary: soft hard)
  case (Cons t ts)
  show ?case
  proof (cases "t_firing (w_timers w t)")
    case True
    then show ?thesis using Cons by simp
  next
    case False
    have ge: "fire_tsr w t \<le> fire_tsr w u" if "u \<in> set ts" for u using Cons.prems(1) that by simp
    show ?thesis
    proof (cases "hard < fire_tsr w t")
      case True
      have "fire_tsr w t \<le> least_deadline w (hard_deadline E w) (t # ts)"
        using Cons.prems(2) ge hard_ge_fire order.trans by (intro least_deadline_ge) fastforce+
      moreover have "fire_tsr w t \<le> least_deadline w (fire_tsr w) (t # ts)"
        using Cons.prems(2) ge by (intro least_deadline_ge) auto
      ultimately show ?thesis using False True Cons.prems(3) by simp
    next
      case le: False
      let ?s = "min soft (fire_tsr w t)" and ?h = "min hard (hard_deadline E w t)"
      have "arm_loop E w (t # ts) soft hard = arm_loop E w ts ?s ?h"
        using False le by (auto simp: min_def)
      also have "\<dots> = (min ?s (least_deadline w (fire_tsr w) ts), min ?h (least_deadline w (hard_deadline E w) ts))"
        using Cons.prems ge hard_ge_fire [of w t E] by (intro Cons.IH) (auto simp: min_def)
      finally show ?thesis using False by (simp add: min.assoc)
    qed
  qed
qed simp

lemma arm_mode_deadlines:
  assumes "m_timers m = Some ts" "sorted (map (fire_tsr w) ts)" "\<forall>t \<in> set ts. fire_tsr w t \<le> UINT64_MAX"
  shows "m_timerSoftDeadline (arm_mode E w m) = least_deadline w (fire_tsr w) ts"
    and "m_timerHardDeadline (arm_mode E w m) = least_deadline w (hard_deadline E w) ts"
  using assms(1) arm_loop_spec [OF assms(2,3), of UINT64_MAX UINT64_MAX E]
    least_deadline_le [of w "fire_tsr w" ts] least_deadline_le [of w "hard_deadline E w" ts]
  by (simp_all add: arm_mode_def Let_def split: prod.splits)

end
