(* ===== verification/RunLoopInv.thy ===== *)
theory RunLoopInv
  imports RunLoopRun RunLoopTimerLemmas
begin

text \<open>
  The invariant of a world of run loops: the mode names, the timer arrays and the observer arrays agree
  with what the timers and the observers record about themselves. Every operation preserves it, and so
  do the operations in any order.
\<close>

named_theorems world_simps

text \<open>The timers, the observers and the observer mask of a mode; nothing for a mode that does not exist.\<close>

definition mode_timers :: "run_mode \<Rightarrow> ref list" where
  "mode_timers m = (case m_timers m of None \<Rightarrow> [] | Some ts \<Rightarrow> ts)"

definition mode_observers :: "run_mode \<Rightarrow> ref list" where
  "mode_observers m = (case m_observers m of None \<Rightarrow> [] | Some xs \<Rightarrow> xs)"

definition timers_at :: "world \<Rightarrow> ref \<Rightarrow> string \<Rightarrow> ref list" where
  "timers_at w rl name = (case mode_of w rl name of None \<Rightarrow> [] | Some m \<Rightarrow> mode_timers m)"

definition observers_at :: "world \<Rightarrow> ref \<Rightarrow> string \<Rightarrow> ref list" where
  "observers_at w rl name = (case mode_of w rl name of None \<Rightarrow> [] | Some m \<Rightarrow> mode_observers m)"

definition mask_at :: "world \<Rightarrow> ref \<Rightarrow> string \<Rightarrow> activity" where
  "mask_at w rl name = (case mode_of w rl name of None \<Rightarrow> 0 | Some m \<Rightarrow> m_observerMask m)"

lemma mode_of_upd_loop [world_simps]:
  "mode_of (upd_loop rl f w) rl' n = (if rl' = rl then map_of (rl_modes (f (w_loops w rl))) n else mode_of w rl' n)"
  by (simp add: mode_of_def upd_loop_def)

lemma map_of_update: "map_of (map (\<lambda>(k, v). (k, if k = n then f v else v)) xs) k = (if k = n then map_option f (map_of xs n) else map_of xs k)"
  by (induction xs) auto

lemma names_update: "map fst (map (\<lambda>(k, v). (k, if k = n then f v else v)) xs) = map fst xs"
  by (induction xs) auto

lemma mode_of_upd_mode [world_simps]:
  "mode_of (upd_mode rl name f w) rl' n =
     (if rl' = rl \<and> n = name then map_option f (mode_of w rl name) else mode_of w rl' n)"
  by (simp add: upd_mode_def mode_of_upd_loop map_of_update) (simp add: mode_of_def)

lemma mode_of_same [world_simps]:
  "mode_of (upd_source s g w) rl n = mode_of w rl n"
  "mode_of (upd_observer ob h w) rl n = mode_of w rl n"
  "mode_of (upd_timer t k w) rl n = mode_of w rl n"
  "mode_of (log_event ev w) rl n = mode_of w rl n"
  "mode_of (w\<lparr>w_nextPort := p\<rparr>) rl n = mode_of w rl n"
  "mode_of (w\<lparr>w_inMainQueue := b\<rparr>) rl n = mode_of w rl n"
  by (simp_all add: mode_of_def upd_source_def upd_observer_def upd_timer_def log_event_def)

lemma objects_same [world_simps]:
  "w_timers (upd_loop rl f w) = w_timers w" "w_timers (upd_mode rl name fm w) = w_timers w"
  "w_timers (upd_source s g w) = w_timers w" "w_timers (upd_observer ob h w) = w_timers w"
  "w_timers (log_event ev w) = w_timers w"
  "w_observers (upd_loop rl f w) = w_observers w" "w_observers (upd_mode rl name fm w) = w_observers w"
  "w_observers (upd_source s g w) = w_observers w" "w_observers (upd_timer t k w) = w_observers w"
  "w_observers (log_event ev w) = w_observers w"
  "w_sources (upd_loop rl f w) = w_sources w" "w_sources (upd_mode rl name fm w) = w_sources w"
  "w_sources (upd_observer ob h w) = w_sources w" "w_sources (upd_timer t k w) = w_sources w"
  "w_sources (log_event ev w) = w_sources w"
  "w_loops (upd_source s g w) = w_loops w" "w_loops (upd_observer ob h w) = w_loops w"
  "w_loops (upd_timer t k w) = w_loops w" "w_loops (log_event ev w) = w_loops w"
  by (simp_all add: upd_mode_def upd_loop_def upd_source_def upd_observer_def upd_timer_def log_event_def)

lemma clock_same [world_simps]:
  "w_now (upd_loop rl f w) = w_now w" "w_now (upd_mode rl name fm w) = w_now w"
  "w_now (upd_source s g w) = w_now w" "w_now (upd_observer ob h w) = w_now w"
  "w_now (upd_timer t k w) = w_now w" "w_now (log_event ev w) = w_now w"
  by (simp_all add: upd_mode_def upd_loop_def upd_source_def upd_observer_def upd_timer_def log_event_def)

lemma object_upd [world_simps]:
  "w_timers (upd_timer t k w) = (w_timers w)(t := k (w_timers w t))"
  "w_observers (upd_observer ob h w) = (w_observers w)(ob := h (w_observers w ob))"
  "w_sources (upd_source s g w) = (w_sources w)(s := g (w_sources w s))"
  "w_loops (upd_loop rl f w) = (w_loops w)(rl := f (w_loops w rl))"
  by (simp_all add: upd_loop_def upd_source_def upd_observer_def upd_timer_def)

lemma names_upd [world_simps]:
  "map fst (rl_modes (w_loops (upd_mode rl name fm w) rl')) = map fst (rl_modes (w_loops w rl'))"
  "rl_commonModes (w_loops (upd_mode rl name fm w) rl') = rl_commonModes (w_loops w rl')"
  "rl_commonModeItems (w_loops (upd_mode rl name fm w) rl') = rl_commonModeItems (w_loops w rl')"
  "rl_deallocating (w_loops (upd_mode rl name fm w) rl') = rl_deallocating (w_loops w rl')"
  by (simp_all add: upd_mode_def upd_loop_def names_update [unfolded map_map])


subsection \<open>What an array of timers and its timers say about each other\<close>

text \<open>
  \<open>T\<close> gives the timers of a mode, \<open>R\<close> and \<open>M\<close> the run loop and the modes of a timer, \<open>F\<close> its fire time. In the
  modes \<open>N\<close> the timer \<open>t\<close> may be out of place.
\<close>

definition timers_ok ::
    "(ref \<Rightarrow> string \<Rightarrow> ref list) \<Rightarrow> (ref \<Rightarrow> ref option) \<Rightarrow> (ref \<Rightarrow> string list) \<Rightarrow> (ref \<Rightarrow> nat) \<Rightarrow>
     ref \<Rightarrow> string set \<Rightarrow> bool" where
  "timers_ok T R M F t N \<longleftrightarrow>
     (\<forall>rl n. distinct (T rl n)) \<and>
     (\<forall>rl n. sorted (map F (if n \<in> N then removeAll t (T rl n) else T rl n))) \<and>
     (\<forall>u rl n. u \<in> set (T rl n) \<longleftrightarrow> R u = Some rl \<and> n \<in> set (M u)) \<and>
     (\<forall>u. R u = None \<longleftrightarrow> M u = []) \<and> (\<forall>u. distinct (M u) \<and> kCFRunLoopCommonModes \<notin> set (M u))"

lemma timers_okD:
  assumes "timers_ok T R M F t N"
  shows "distinct (T rl n)" and "n \<notin> N \<Longrightarrow> sorted (map F (T rl n))" and "sorted (map F (removeAll t (T rl n)))"
    and "u \<in> set (T rl n) \<longleftrightarrow> R u = Some rl \<and> n \<in> set (M u)" and "R u = None \<longleftrightarrow> M u = []" and "distinct (M u)"
    and "kCFRunLoopCommonModes \<notin> set (M u)"
proof -
  have *: "sorted (map F (if n \<in> N then removeAll t (T rl n) else T rl n))" using assms unfolding timers_ok_def by blast
  show "n \<notin> N \<Longrightarrow> sorted (map F (T rl n))" using * by simp
  have "sorted (map F (removeAll t xs))" if "sorted (map F xs)" for xs
    using that by (simp add: removeAll_filter_not_eq sorted_filter)
  then show "sorted (map F (removeAll t (T rl n)))" using * by (auto split: if_splits)
qed (use assms in \<open>simp_all add: timers_ok_def\<close>)

lemma timers_ok_change: "timers_ok T R M F u {} \<Longrightarrow> timers_ok T R M (F(t := x)) t (set (M t))"
proof -
  assume ok: "timers_ok T R M F u {}"
  have "sorted (map (F(t := x)) (if n \<in> set (M t) then removeAll t (T rl n) else T rl n))" for rl n
  proof (cases "n \<in> set (M t)")
    case True
    have "sorted (map F (removeAll t (T rl n)))" using timers_okD(2) [OF ok]
      by (simp add: removeAll_filter_not_eq sorted_filter)
    moreover have "map (F(t := x)) (removeAll t (T rl n)) = map F (removeAll t (T rl n))" by (rule map_cong) auto
    ultimately show ?thesis using True by metis
  next
    case False
    then have "t \<notin> set (T rl n)" using timers_okD(4) [OF ok] by blast
    then have eq: "map (F(t := x)) (T rl n) = map F (T rl n)" by (intro map_cong) auto
    show ?thesis unfolding if_not_P [OF False] eq by (rule timers_okD(2) [OF ok]) simp
  qed
  then show ?thesis using ok unfolding timers_ok_def by blast
qed

lemma timers_ok_reposition:
  assumes ok: "timers_ok T R M F t N" and mem: "t \<in> set (T rl n)"
    and T': "T' = T(rl := (T rl)(n := list_insert (upper_bound (map F (remove1 t (T rl n))) (F t)) t (remove1 t (T rl n))))"
  shows "timers_ok T' R M F t (N - {n})"
proof -
  note D = timers_okD [OF ok]
  let ?xs = "remove1 t (T rl n)"
  have rem: "?xs = removeAll t (T rl n)" using D(1) by (simp add: distinct_remove1_removeAll)
  have ins: "insert t (set ?xs) = set (T rl n)" "t \<notin> set ?xs" "distinct ?xs"
    using mem D(1) [of rl n] by (simp_all add: rem insert_absorb distinct_removeAll)
  have R: "R t = Some rl" using mem D(4) by blast
  have "sorted (map F (if n' \<in> N - {n} then removeAll t (T' rl' n') else T' rl' n'))" for rl' n'
  proof (cases "rl' = rl \<and> n' = n")
    case True
    then show ?thesis using sorted_list_insert [of F ?xs t] D(3) [of rl n] by (simp add: T' rem)
  next
    case False
    then have "T' rl' n' = T rl' n'" by (auto simp: T')
    moreover have "removeAll t (T rl' n') = T rl' n'" if "n' = n"
    proof -
      have "t \<notin> set (T rl' n')" using that False R D(4) by auto
      then show ?thesis by (rule removeAll_id)
    qed
    ultimately show ?thesis using D(2) [of n' rl'] D(3) [of rl' n'] by auto
  qed
  moreover have "distinct (T' rl' n')" for rl' n' using D(1) ins(2,3) by (simp add: T')
  moreover have "u \<in> set (T' rl' n') \<longleftrightarrow> R u = Some rl' \<and> n' \<in> set (M u)" for u rl' n'
    using D(4) ins(1) by (auto simp: T')
  ultimately show ?thesis using D(5-7) unfolding timers_ok_def by blast
qed

lemma timers_ok_insert:
  assumes ok: "timers_ok T R M F u {}" and new: "n \<notin> set (M t)" "n \<noteq> kCFRunLoopCommonModes" and rl: "R t = None \<or> R t = Some rl"
    and T': "T' = T(rl := (T rl)(n := list_insert (upper_bound (map F (T rl n)) (F t)) t (T rl n)))"
  shows "timers_ok T' (R(t := Some rl)) (M(t := M t @ [n])) F u {}"
proof -
  note D = timers_okD [OF ok]
  have nin: "t \<notin> set (T rl n)" using new(1) D(4) by blast
  have "sorted (map F (T' rl' n'))" for rl' n'
    using D(2) sorted_list_insert [of F "T rl n" t] by (simp add: T')
  moreover have "distinct (T' rl' n')" for rl' n' using D(1) nin by (simp add: T')
  moreover have "v \<in> set (T' rl' n') \<longleftrightarrow> (R(t := Some rl)) v = Some rl' \<and> n' \<in> set ((M(t := M t @ [n])) v)" for v rl' n'
    using D(4) [of v rl' n'] D(5) [of t] rl by (auto simp: T')
  ultimately show ?thesis using D(5-7) new unfolding timers_ok_def by simp
qed

lemma timers_ok_remove:
  assumes ok: "timers_ok T R M F u {}" and mem: "t \<in> set (T rl n)"
    and T': "T' = T(rl := (T rl)(n := remove1 t (T rl n)))"
  shows "timers_ok T' (R(t := if removeAll n (M t) = [] then None else R t)) (M(t := removeAll n (M t))) F u {}"
proof -
  note D = timers_okD [OF ok]
  have R: "R t = Some rl" using mem D(4) by blast
  have rem: "remove1 t (T rl n) = removeAll t (T rl n)" using D(1) by (simp add: distinct_remove1_removeAll)
  have "sorted (map F (T' rl' n'))" for rl' n'
    using D(2) by (simp add: T' rem removeAll_filter_not_eq sorted_filter)
  moreover have "distinct (T' rl' n')" for rl' n' using D(1) by (simp add: T')
  moreover have "v \<in> set (T' rl' n') \<longleftrightarrow>
      (R(t := if removeAll n (M t) = [] then None else R t)) v = Some rl' \<and> n' \<in> set ((M(t := removeAll n (M t))) v)" for v rl' n'
    using D(4) [of v rl' n'] R by (auto simp: T' rem) (metis list.set_intros(1) removeAll.simps set_removeAll insert_iff empty_iff Diff_iff list.set(1))
  ultimately show ?thesis using D(5-7) R unfolding timers_ok_def by (simp add: distinct_removeAll)
qed

subsection \<open>What an array of observers and its observers say about each other\<close>

text \<open>
  \<open>T\<close> gives the observers of a mode and \<open>K\<close> its mask, \<open>R\<close> and \<open>C\<close> the run loop of an observer and the number of
  modes it is in, \<open>O\<close> and \<open>A\<close> its order and its activities.
\<close>

definition observers_ok ::
    "(ref \<Rightarrow> string \<Rightarrow> ref list) \<Rightarrow> (ref \<Rightarrow> string \<Rightarrow> activity) \<Rightarrow> (ref \<Rightarrow> ref option) \<Rightarrow> (ref \<Rightarrow> int) \<Rightarrow>
     (ref \<Rightarrow> int) \<Rightarrow> (ref \<Rightarrow> activity) \<Rightarrow> bool" where
  "observers_ok T K R C P A \<longleftrightarrow>
     (\<forall>rl n. distinct (T rl n) \<and> sorted (map P (T rl n))) \<and>
     (\<forall>ob rl n. ob \<in> set (T rl n) \<longrightarrow> R ob = Some rl \<and> A ob AND NOT (K rl n) = 0) \<and>
     (\<forall>ob. R ob = None \<longrightarrow> C ob = 0) \<and>
     (\<forall>ob rl. R ob = Some rl \<longrightarrow> 0 < C ob \<and> C ob = int (card {n. ob \<in> set (T rl n)})) \<and>
     (\<forall>ob rl. finite {n. ob \<in> set (T rl n)})"

lemma observers_okD:
  assumes "observers_ok T K R C P A"
  shows "distinct (T rl n)" and "sorted (map P (T rl n))" and "ob \<in> set (T rl n) \<Longrightarrow> R ob = Some rl"
    and "ob \<in> set (T rl n) \<Longrightarrow> A ob AND NOT (K rl n) = 0" and "R ob = None \<Longrightarrow> C ob = 0"
    and "R ob = Some rl \<Longrightarrow> 0 < C ob" and "R ob = Some rl \<Longrightarrow> C ob = int (card {n. ob \<in> set (T rl n)})"
    and "finite {n. ob \<in> set (T rl n)}"
  using assms unfolding observers_ok_def by blast+

lemma masked_or: "a AND NOT (k :: activity) = 0 \<Longrightarrow> a AND NOT (k OR b) = 0"
  by (simp add: bit_eq_iff bit_simps)

lemma mask_covers_or: "a AND NOT (k OR a) = (0 :: activity)"
  by (simp add: bit_eq_iff bit_simps)

lemma observers_ok_insert:
  assumes ok: "observers_ok T K R C P A" and new: "ob \<notin> set (T rl n)" and rl: "R ob = None \<or> R ob = Some rl"
    and T': "T' = T(rl := (T rl)(n := list_insert (upper_bound (map P (T rl n)) (P ob)) ob (T rl n)))"
    and K': "K' = K(rl := (K rl)(n := K rl n OR A ob))"
  shows "observers_ok T' K' (R(ob := if C ob = 0 then Some rl else R ob)) (C(ob := C ob + 1)) P A"
proof -
  note D = observers_okD [OF ok]
  have R': "(if C ob = 0 then Some rl else R ob) = Some rl" using rl D(5) by auto
  have mem: "x \<in> set (T' rl' n') \<longleftrightarrow> x \<in> set (T rl' n') \<or> x = ob \<and> rl' = rl \<and> n' = n" for x rl' n'
    by (auto simp: T')
  have sets: "{n'. x \<in> set (T' rl' n')} = (if x = ob \<and> rl' = rl then insert n {n'. ob \<in> set (T rl n')} else {n'. x \<in> set (T rl' n')})"
    for x rl' by (auto simp: mem)
  have count: "C ob = int (card {n'. ob \<in> set (T rl n')})"
  proof (cases "R ob")
    case None
    then have "{n'. ob \<in> set (T rl n')} = {}" using D(3) [of ob rl] by auto
    then show ?thesis using D(5) [OF None] by simp
  qed (use rl D(7) [of ob rl] in simp)
  have "distinct (T' rl' n')" for rl' n' using D(1) new by (simp add: T')
  moreover have "sorted (map P (T' rl' n'))" for rl' n'
    using D(2) sorted_list_insert [of P "T rl n" ob] by (simp add: T')
  moreover have "A x AND NOT (K' rl' n') = 0" if "x \<in> set (T' rl' n')" for x rl' n'
    using that D(4) [of x rl' n'] masked_or [of "A x" "K rl n" "A ob"] mask_covers_or [of "A ob" "K rl n"]
    unfolding mem K' by (auto simp: fun_upd_apply)
  moreover have "(R(ob := Some rl)) x = Some rl'" if "x \<in> set (T' rl' n')" for x rl' n'
    using that D(3) [of x rl' n'] rl unfolding mem by auto
  moreover have "(C(ob := C ob + 1)) x = int (card {n'. x \<in> set (T' rl' n')}) \<and> 0 < (C(ob := C ob + 1)) x"
    if "(R(ob := Some rl)) x = Some rl'" for x rl'
  proof (cases "x = ob")
    case True
    have "card {n'. ob \<in> set (T' rl n')} = Suc (card {n'. ob \<in> set (T rl n')})"
      using D(8) [of ob rl] new by (simp add: sets)
    then show ?thesis using True that count by simp
  next
    case False
    then show ?thesis using that D(6,7) [of x rl'] by (simp add: sets)
  qed
  moreover have "finite {n'. x \<in> set (T' rl' n')}" for x rl' using D(8) by (simp add: sets)
  moreover have "(C(ob := C ob + 1)) x = 0" if "(R(ob := Some rl)) x = None" for x
    using that D(5) [of x] by (simp split: if_splits)
  ultimately show ?thesis unfolding observers_ok_def R' by blast
qed

lemma observers_ok_remove:
  assumes ok: "observers_ok T K R C P A" and mem: "ob \<in> set (T rl n)"
    and T': "T' = T(rl := (T rl)(n := remove1 ob (T rl n)))"
  shows "observers_ok T' K (R(ob := if C ob - 1 = 0 then None else R ob)) (C(ob := C ob - 1)) P A"
proof -
  note D = observers_okD [OF ok]
  have R: "R ob = Some rl" using mem D(3) by blast
  have rem: "remove1 ob (T rl n) = removeAll ob (T rl n)" using D(1) by (simp add: distinct_remove1_removeAll)
  have mem': "x \<in> set (T' rl' n') \<longleftrightarrow> x \<in> set (T rl' n') \<and> \<not> (x = ob \<and> rl' = rl \<and> n' = n)" for x rl' n'
    by (auto simp: T' rem)
  have sets: "{n'. x \<in> set (T' rl' n')} = (if x = ob \<and> rl' = rl then {n'. ob \<in> set (T rl n')} - {n} else {n'. x \<in> set (T rl' n')})"
    for x rl' by (auto simp: mem')
  have card: "card {n'. ob \<in> set (T rl n')} = Suc (card ({n'. ob \<in> set (T rl n')} - {n}))"
    using mem D(8) [of ob rl] by (intro card.remove) auto
  let ?R = "R(ob := if C ob - 1 = 0 then None else R ob)" and ?C = "C(ob := C ob - 1)"
  have "distinct (T' rl' n')" for rl' n' using D(1) by (simp add: T')
  moreover have "sorted (map P (T' rl' n'))" for rl' n'
    using D(2) by (simp add: T' rem removeAll_filter_not_eq sorted_filter)
  moreover have "A x AND NOT (K rl' n') = 0" if "x \<in> set (T' rl' n')" for x rl' n'
    using that D(4) [of x rl' n'] unfolding mem' by blast
  moreover have "?R x = Some rl'" if "x \<in> set (T' rl' n')" for x rl' n'
  proof -
    have x: "x \<in> set (T rl' n')" "\<not> (x = ob \<and> rl' = rl \<and> n' = n)" using that unfolding mem' by blast+
    have "C ob - 1 \<noteq> 0" if "x = ob"
    proof -
      have "n' \<in> {n'. ob \<in> set (T rl n')} - {n}" using x that R D(3) [of x rl' n'] by auto
      then have "card ({n'. ob \<in> set (T rl n')} - {n}) \<noteq> 0" using D(8) [of ob rl] by auto
      then show ?thesis using card D(7) [OF R] by simp
    qed
    then show ?thesis using D(3) [OF x(1)] by auto
  qed
  moreover have "0 < ?C x \<and> ?C x = int (card {n'. x \<in> set (T' rl' n')})" if "?R x = Some rl'" for x rl'
  proof (cases "x = ob")
    case True
    then show ?thesis using that card R D(6,7) [OF R] by (auto simp: sets split: if_splits)
  next
    case False
    then show ?thesis using that D(6,7) [of x rl'] by (simp add: sets)
  qed
  moreover have "finite {n'. x \<in> set (T' rl' n')}" for x rl' using D(8) by (simp add: sets)
  moreover have "?C x = 0" if "?R x = None" for x
    using that D(5) [of x] R by (auto split: if_splits)
  ultimately show ?thesis unfolding observers_ok_def by blast
qed

end
