(* ===== verification/RunLoopFrames.thy ===== *)
theory RunLoopFrames
  imports RunLoopInv RunLoopRun
begin

text \<open>
  The invariant of a world of run loops, and the frame rules: what an operation that does not touch the
  arrays of timers and observers keeps.
\<close>

subsection \<open>The invariant\<close>

definition timer_view where
  "timer_view w = (timers_at w, \<lambda>t. t_runLoop (w_timers w t), \<lambda>t. t_rlModes (w_timers w t), fire_tsr w)"

definition observer_view where
  "observer_view w = (observers_at w, mask_at w, \<lambda>ob. o_runLoop (w_observers w ob), \<lambda>ob. o_rlCount (w_observers w ob),
     \<lambda>ob. o_order (w_observers w ob), \<lambda>ob. o_activities (w_observers w ob))"

definition modes_inv :: "world \<Rightarrow> bool" where
  "modes_inv w \<longleftrightarrow>
     (\<forall>rl. distinct (map fst (rl_modes (w_loops w rl))))"

definition timers_inv :: "world \<Rightarrow> bool" where
  "timers_inv w \<longleftrightarrow>
     timers_ok (timers_at w) (\<lambda>t. t_runLoop (w_timers w t)) (\<lambda>t. t_rlModes (w_timers w t)) (fire_tsr w) 0 {}"

definition observers_inv :: "world \<Rightarrow> bool" where
  "observers_inv w \<longleftrightarrow>
     observers_ok (observers_at w) (mask_at w) (\<lambda>ob. o_runLoop (w_observers w ob)) (\<lambda>ob. o_rlCount (w_observers w ob))
       (\<lambda>ob. o_order (w_observers w ob)) (\<lambda>ob. o_activities (w_observers w ob))"

definition loops_inv :: "world \<Rightarrow> bool" where
  "loops_inv w \<longleftrightarrow> modes_inv w \<and> timers_inv w \<and> observers_inv w"

lemma timers_ok_any: "timers_ok T R M F t {} \<longleftrightarrow> timers_ok T R M F u {}"
  by (simp add: timers_ok_def)

lemma timers_inv_view: "timer_view w' = timer_view w \<Longrightarrow> timers_inv w' \<longleftrightarrow> timers_inv w"
  by (simp add: timers_inv_def timer_view_def)

lemma observers_inv_view: "observer_view w' = observer_view w \<Longrightarrow> observers_inv w' \<longleftrightarrow> observers_inv w"
  by (simp add: observers_inv_def observer_view_def)

subsection \<open>Frames\<close>

definition keeps_modes :: "world \<Rightarrow> world \<Rightarrow> bool" where
  "keeps_modes w w' \<longleftrightarrow> (\<forall>rl. map fst (rl_modes (w_loops w' rl)) = map fst (rl_modes (w_loops w rl))) \<and>
     (\<forall>rl n. mode_of w' rl n = None \<longleftrightarrow> mode_of w rl n = None)"

definition keeps :: "world \<Rightarrow> world \<Rightarrow> bool" where
  "keeps w w' \<longleftrightarrow> timer_view w' = timer_view w \<and> observer_view w' = observer_view w \<and> keeps_modes w w'"

lemma keeps_modes_inv: "keeps_modes w w' \<Longrightarrow> modes_inv w' \<longleftrightarrow> modes_inv w"
  unfolding keeps_modes_def modes_inv_def by metis

lemma keeps_modes_refl [simp]: "keeps_modes w w"
  by (simp add: keeps_modes_def)

lemma keeps_refl [simp]: "keeps w w"
  by (simp add: keeps_def)

lemma keeps_trans: "keeps u v \<Longrightarrow> keeps v w \<Longrightarrow> keeps u w"
  by (simp add: keeps_def keeps_modes_def)

lemma keeps_modes_trans: "keeps_modes u v \<Longrightarrow> keeps_modes v w \<Longrightarrow> keeps_modes u w"
  by (simp add: keeps_modes_def)

lemma keepsD:
  assumes "keeps w w'"
  shows "timer_view w' = timer_view w" and "observer_view w' = observer_view w" and "keeps_modes w w'"
  using assms by (simp_all add: keeps_def)

lemma keeps_inv: "keeps w w' \<Longrightarrow> loops_inv w' \<longleftrightarrow> loops_inv w"
  unfolding loops_inv_def keeps_def using keeps_modes_inv timers_inv_view observers_inv_view by blast

lemma keepsI:
  assumes "\<And>rl. map fst (rl_modes (w_loops w' rl)) = map fst (rl_modes (w_loops w rl))"
    and "\<And>rl n. map_option (\<lambda>m. (mode_timers m, mode_observers m, m_observerMask m)) (mode_of w' rl n) =
                 map_option (\<lambda>m. (mode_timers m, mode_observers m, m_observerMask m)) (mode_of w rl n)"
    and "\<And>t. (t_runLoop (w_timers w' t), t_rlModes (w_timers w' t), t_fireTSR (w_timers w' t)) =
              (t_runLoop (w_timers w t), t_rlModes (w_timers w t), t_fireTSR (w_timers w t))"
    and "\<And>ob. (o_runLoop (w_observers w' ob), o_rlCount (w_observers w' ob), o_order (w_observers w' ob), o_activities (w_observers w' ob)) =
               (o_runLoop (w_observers w ob), o_rlCount (w_observers w ob), o_order (w_observers w ob), o_activities (w_observers w ob))"
  shows "keeps w w'"
proof -
  have m: "mode_of w' rl n = None \<longleftrightarrow> mode_of w rl n = None"
       "timers_at w' rl n = timers_at w rl n" "observers_at w' rl n = observers_at w rl n" "mask_at w' rl n = mask_at w rl n"
    for rl n using assms(2) [of rl n] by (auto simp: timers_at_def observers_at_def mask_at_def split: option.splits)
  have "timer_view w' = timer_view w" using assms(3) m(2) by (simp add: timer_view_def fire_tsr_def fun_eq_iff)
  moreover have "observer_view w' = observer_view w" using assms(4) m(3,4) by (simp add: observer_view_def fun_eq_iff)
  ultimately show ?thesis using assms(1) m(1) by (simp add: keeps_def keeps_modes_def)
qed

named_theorems keeping

lemma keeps_upd_source [keeping]: "keeps w (upd_source s g w)"
  by (rule keepsI) (simp_all add: world_simps)

lemma keeps_log_event [keeping]: "keeps w (log_event ev w)"
  by (rule keepsI) (simp_all add: world_simps)

lemma keeps_upd_loop:
  "(\<And>r. rl_modes (f r) = rl_modes r) \<Longrightarrow> keeps w (upd_loop rl f w)"
  by (rule keepsI) (simp_all add: world_simps, simp_all add: mode_of_def)

lemma keeps_upd_mode:
  "(\<And>m. mode_timers (f m) = mode_timers m) \<Longrightarrow> (\<And>m. mode_observers (f m) = mode_observers m) \<Longrightarrow>
   (\<And>m. m_observerMask (f m) = m_observerMask m) \<Longrightarrow> keeps w (upd_mode rl n f w)"
  by (rule keepsI) (simp_all add: world_simps option.map_comp comp_def)

lemma keeps_upd_timer:
  "(\<And>t. t_runLoop (k t) = t_runLoop t) \<Longrightarrow> (\<And>t. t_rlModes (k t) = t_rlModes t) \<Longrightarrow> (\<And>t. t_fireTSR (k t) = t_fireTSR t) \<Longrightarrow>
   keeps w (upd_timer t k w)"
  by (rule keepsI) (simp_all add: world_simps)

lemma keeps_upd_observer:
  "(\<And>ob. o_runLoop (h ob) = o_runLoop ob) \<Longrightarrow> (\<And>ob. o_rlCount (h ob) = o_rlCount ob) \<Longrightarrow>
   (\<And>ob. o_order (h ob) = o_order ob) \<Longrightarrow> (\<And>ob. o_activities (h ob) = o_activities ob) \<Longrightarrow> keeps w (upd_observer ob h w)"
  by (rule keepsI) (simp_all add: world_simps)

lemma keeps_fields [keeping]:
  "keeps w (w\<lparr>w_nextPort := p\<rparr>)" "keeps w (w\<lparr>w_inMainQueue := b\<rparr>)" "keeps w (w\<lparr>w_now := x\<rparr>)" "keeps w (w\<lparr>w_date := d\<rparr>)"
  by (rule keepsI; simp add: mode_of_def)+

lemma inv_fields [simp]: "loops_inv (w\<lparr>w_inMainQueue := b\<rparr>) = loops_inv w" "loops_inv (w\<lparr>w_nextPort := p\<rparr>) = loops_inv w"
  "loops_inv (w\<lparr>w_now := x\<rparr>) = loops_inv w" "loops_inv (w\<lparr>w_date := d\<rparr>) = loops_inv w"
  by (rule keeps_inv [OF keeps_fields(2)], rule keeps_inv [OF keeps_fields(1)],
      rule keeps_inv [OF keeps_fields(3)], rule keeps_inv [OF keeps_fields(4)])

lemma keeps_set_stopped [keeping]: "keeps w (set_stopped b rl w)"
  unfolding set_stopped_def by (rule keeps_upd_loop) simp_all

lemma keeps_set_ignoreWakeUps [keeping]: "keeps w (set_ignoreWakeUps b rl w)"
  unfolding set_ignoreWakeUps_def by (rule keeps_upd_loop) simp_all

lemma keeps_set_sleeping [keeping]: "keeps w (set_sleeping b rl w)"
  unfolding set_sleeping_def by (rule keeps_upd_loop) simp_all

lemma keeps_push [keeping]: "keeps w (snd (CFRunLoopPushPerRunData rl w))"
  unfolding CFRunLoopPushPerRunData_def snd_conv by (rule keeps_upd_loop) simp_all

lemma keeps_pop [keeping]: "keeps w (CFRunLoopPopPerRunData rl p w)"
  unfolding CFRunLoopPopPerRunData_def by (rule keeps_upd_loop) simp_all

lemma keeps_wake_up [keeping]: "keeps w (CFRunLoopWakeUp rl w)"
  by (simp add: CFRunLoopWakeUp_def keeping)

lemma keeps_stop [keeping]: "keeps w (CFRunLoopStop rl w)"
  by (auto simp: CFRunLoopStop_def intro: keeps_trans keeping)

lemma keeps_add_common_item [keeping]: "keeps w (add_common_item E rl it w)"
  unfolding add_common_item_def by (rule keeps_upd_loop) simp_all

lemma keeps_remove_common_item [keeping]: "keeps w (remove_common_item E rl it w)"
  unfolding remove_common_item_def by (rule keeps_upd_loop) simp_all

lemma arm_mode_keeps:
  "mode_timers (arm_mode E w m) = mode_timers m" "mode_observers (arm_mode E w m) = mode_observers m"
  "m_observerMask (arm_mode E w m) = m_observerMask m"
  by (simp_all add: arm_mode_def mode_timers_def mode_observers_def Let_def split: prod.splits)

lemma keeps_arm [keeping]: "keeps w (CFArmNextTimerInMode E rl n w)"
  unfolding CFArmNextTimerInMode_def by (rule keeps_upd_mode) (simp_all add: arm_mode_keeps)

lemma keeps_sources_mode:
  "keeps w (upd_mode rl n make_sources w)" "keeps w (upd_mode rl n (insert_source E v rls) w)"
  "keeps w (upd_mode rl n (delete_source E v rls) w)"
  by (rule keeps_upd_mode; simp add: make_sources_def insert_source_def delete_source_def mode_timers_def
        mode_observers_def Let_def)+

lemmas loop_inv [simp] = keeping [THEN keeps_inv] keeps_sources_mode [THEN keeps_inv]

end
