(* ===== verification/RunLoopKeep.thy ===== *)
theory RunLoopKeep
  imports RunLoopFrames
begin

text \<open>Every operation on run loops, sources, observers and timers preserves the invariant.\<close>

definition preserves :: "(world \<Rightarrow> world option) \<Rightarrow> bool" where
  "preserves f \<longleftrightarrow> (\<forall>w w'. loops_inv w \<longrightarrow> f w = Some w' \<longrightarrow> loops_inv w')"

lemma preservesI: "(\<And>w w'. loops_inv w \<Longrightarrow> f w = Some w' \<Longrightarrow> loops_inv w') \<Longrightarrow> preserves f"
  by (simp add: preserves_def)

lemma preservesD: "preserves f \<Longrightarrow> f w = Some w' \<Longrightarrow> loops_inv w \<Longrightarrow> loops_inv w'"
  by (simp add: preserves_def)

lemma preserves_fold_opt: "(\<And>x. preserves (f x)) \<Longrightarrow> preserves (fold_opt f xs)"
proof (induction xs)
  case (Cons x xs)
  show ?case
  proof (rule preservesI)
    fix w w' assume "loops_inv w" "fold_opt f (x # xs) w = Some w'"
    then obtain v where "f x w = Some v" "fold_opt f xs v = Some w'" by (auto split: Option.bind_splits)
    then show "loops_inv w'" using preservesD [OF Cons.prems] preservesD [OF Cons.IH [OF Cons.prems]] \<open>loops_inv w\<close> by blast
  qed
qed (simp add: preserves_def)

text \<open>The user's code and the kernel act on the loops through these operations only.\<close>

definition good_env :: "env \<Rightarrow> bool" where
  "good_env E \<longleftrightarrow> (\<forall>ev w. loops_inv w \<longrightarrow> loops_inv (e_callout E ev w)) \<and>
     (\<forall>ps poll w. loops_inv w \<longrightarrow> loops_inv (fst (e_receive E ps poll w)))"

lemma callout_inv: "good_env E \<Longrightarrow> loops_inv w \<Longrightarrow> loops_inv (callout E ev w)"
  by (simp add: good_env_def callout_def)

lemma receive_inv: "good_env E \<Longrightarrow> loops_inv w \<Longrightarrow> loops_inv (fst (e_receive E ps poll w))"
  by (simp add: good_env_def)

lemma release_context_inv: "good_env E \<Longrightarrow> loops_inv w \<Longrightarrow> loops_inv (release_context E b it w)"
  by (simp add: release_context_def callout_inv)

text \<open>What a loop knows of its common modes, which the operations on one mode leave alone.\<close>

definition common_view :: "world \<Rightarrow> ref \<Rightarrow> string list \<times> item list option \<times> bool" where
  "common_view w rl = (rl_commonModes (w_loops w rl), rl_commonModeItems (w_loops w rl), rl_deallocating (w_loops w rl))"

lemma common_view_same [simp]:
  "common_view (upd_mode rl n f w) = common_view w" "common_view (upd_timer t k w) = common_view w"
  "common_view (log_event ev w) = common_view w" "common_view (CFArmNextTimerInMode E rl n w) = common_view w"
  "common_view (CFRunLoopWakeUp rl w) = common_view w"
  by (simp_all add: common_view_def fun_eq_iff CFArmNextTimerInMode_def CFRunLoopWakeUp_def world_simps)

subsection \<open>Finding and creating modes\<close>

lemma find_mode_exists: "mode_of (snd (CFRunLoopFindMode rl n True w)) rl n \<noteq> None"
  by (auto simp: CFRunLoopFindMode_def world_simps map_add_def split: option.splits)

lemma find_mode_objects [simp]:
  "w_timers (snd (CFRunLoopFindMode rl n c w)) = w_timers w"
  "w_observers (snd (CFRunLoopFindMode rl n c w)) = w_observers w"
  "w_sources (snd (CFRunLoopFindMode rl n c w)) = w_sources w"
  by (simp_all add: CFRunLoopFindMode_def world_simps)

lemma find_mode_common [simp]: "common_view (snd (CFRunLoopFindMode rl n c w)) = common_view w"
  by (simp add: common_view_def fun_eq_iff CFRunLoopFindMode_def world_simps)

lemma find_mode_of:
  "mode_of (snd (CFRunLoopFindMode rl n c w)) rl' n' =
     (if mode_of w rl n = None \<and> c \<and> rl' = rl \<and> n' = n then Some (new_mode (rl_wakeUpPort (w_loops w rl)) (w_nextPort w))
      else mode_of w rl' n')"
  by (auto simp: CFRunLoopFindMode_def world_simps) (auto simp: mode_of_def map_add_def split: option.splits)

lemma find_mode_views:
  "timers_at (snd (CFRunLoopFindMode rl n c w)) = timers_at w"
  "timer_view (snd (CFRunLoopFindMode rl n c w)) = timer_view w"
  "observer_view (snd (CFRunLoopFindMode rl n c w)) = observer_view w"
proof -
  let ?w = "snd (CFRunLoopFindMode rl n c w)"
  have v: "timers_at ?w rl' n' = timers_at w rl' n'" "observers_at ?w rl' n' = observers_at w rl' n'"
      "mask_at ?w rl' n' = mask_at w rl' n'" for rl' n'
    unfolding timers_at_def observers_at_def mask_at_def find_mode_of
    by (auto simp: mode_timers_def mode_observers_def new_mode_def)
  then show "timers_at ?w = timers_at w" by blast
  then show "timer_view ?w = timer_view w" "observer_view ?w = observer_view w"
    using v by (simp_all add: timer_view_def observer_view_def fire_tsr_def fun_eq_iff)
qed

lemma find_mode_inv:
  assumes "loops_inv w"
  shows "loops_inv (snd (CFRunLoopFindMode rl n c w))"
proof -
  let ?w = "snd (CFRunLoopFindMode rl n c w)"
  have "modes_inv ?w"
  proof (cases "mode_of w rl n = None \<and> c")
    case True
    have names: "map fst (rl_modes (w_loops ?w rl')) =
        (if rl' = rl then map fst (rl_modes (w_loops w rl)) @ [n] else map fst (rl_modes (w_loops w rl')))"
      for rl' using True by (simp add: CFRunLoopFindMode_def world_simps)
    have "modes_inv w" using assms by (simp add: loops_inv_def)
    then show ?thesis using True unfolding modes_inv_def names by (auto simp: mode_of_def map_of_eq_None_iff)
  next
    case False
    then have "?w = w" by (auto simp: CFRunLoopFindMode_def)
    then show ?thesis using assms by (simp add: loops_inv_def)
  qed
  then show ?thesis
    using assms timers_inv_view [OF find_mode_views(2)] observers_inv_view [OF find_mode_views(3)] unfolding loops_inv_def by blast
qed

lemma fold_find_mode_inv: "loops_inv w \<Longrightarrow> loops_inv (fold (\<lambda>n w. snd (CFRunLoopFindMode rl n True w)) ns w)"
  by (induction ns arbitrary: w) (simp_all add: find_mode_inv)

lemma perform_block_inv:
  assumes "loops_inv w" shows "loops_inv (CFRunLoopPerformBlock rl arg blk w)"
proof -
  let ?w = "fold (\<lambda>n w. snd (CFRunLoopFindMode rl n True w)) (mode_arg_names arg) w"
  have "loops_inv ?w" using assms by (rule fold_find_mode_inv)
  moreover have "keeps ?w (upd_loop rl (\<lambda>r. r\<lparr>rl_blocks := rl_blocks r @ bs\<rparr>) ?w)" for bs
    by (rule keeps_upd_loop) simp_all
  ultimately show ?thesis
    using keeps_inv by (auto simp: CFRunLoopPerformBlock_def Let_def split: option.splits)
qed

lemma stop_mode_inv: "loops_inv w \<Longrightarrow> loops_inv (CFRunLoopStopMode rl n w)"
proof -
  assume "loops_inv w"
  then have "loops_inv (snd (CFRunLoopFindMode rl n True w))" by (rule find_mode_inv)
  moreover have k: "keeps v (upd_mode rl n (\<lambda>m. m\<lparr>m_stopped := True\<rparr>) v)" for v
    by (rule keeps_upd_mode) (simp_all add: mode_timers_def mode_observers_def)
  ultimately show ?thesis by (simp add: CFRunLoopStopMode_def Let_def k [THEN keeps_inv])
qed

subsection \<open>Timers\<close>

text \<open>What putting a timer into the array of a mode does to the world.\<close>

definition put_timer :: "ref \<Rightarrow> string \<Rightarrow> ref \<Rightarrow> ref list \<Rightarrow> world \<Rightarrow> world \<Rightarrow> bool" where
  "put_timer rl n t ts w w' \<longleftrightarrow> keeps_modes w w' \<and> observer_view w' = observer_view w \<and> w_timers w' = w_timers w \<and> common_view w' = common_view w \<and>
     timers_at w' = (timers_at w)(rl := (timers_at w rl)(n := list_insert (upper_bound (map (fire_tsr w) ts) (fire_tsr w t)) t ts))"

lemma put_mode_timers:
  assumes "mode_of w rl n = Some m"
  shows "timers_at (upd_mode rl n (\<lambda>m. m\<lparr>m_timers := Some ts\<rparr>) w) = (timers_at w)(rl := (timers_at w rl)(n := ts))"
    and "observer_view (upd_mode rl n (\<lambda>m. m\<lparr>m_timers := Some ts\<rparr>) w) = observer_view w"
    and "keeps_modes w (upd_mode rl n (\<lambda>m. m\<lparr>m_timers := Some ts\<rparr>) w)"
  using assms by (auto simp: timers_at_def observer_view_def observers_at_def mask_at_def keeps_modes_def world_simps
      mode_timers_def mode_observers_def fun_eq_iff)

lemma arm_views:
  "timers_at (CFArmNextTimerInMode E rl n w) = timers_at w"
  "observer_view (CFArmNextTimerInMode E rl n w) = observer_view w"
  "keeps_modes w (CFArmNextTimerInMode E rl n w)"
  using keepsD [OF keeps_arm [of w E rl n]] by (simp_all add: timer_view_def)

lemma arm_w_timers [simp]: "w_timers (CFArmNextTimerInMode E rl n w) = w_timers w"
  by (simp add: CFArmNextTimerInMode_def world_simps)

lemma reposition_cases:
  assumes "CFRepositionTimerInMode E rl n t b w = Some w'"
    and "sorted (map (fire_tsr w) (if b then remove1 t (timers_at w rl n) else timers_at w rl n))"
  obtains m where "m_timers m = None" "mode_of w rl n = Some m" "w' = w"
    | "b" "t \<notin> set (timers_at w rl n)" "w' = w"
    | "b \<longrightarrow> t \<in> set (timers_at w rl n)"
      "put_timer rl n t (if b then remove1 t (timers_at w rl n) else timers_at w rl n) w w'"
proof -
  obtain m where m: "mode_of w rl n = Some m" using assms(1)
    by (auto simp: CFRepositionTimerInMode_def split: option.splits)
  show ?thesis
  proof (cases "m_timers m")
    case None
    then have "w' = w" using m assms(1) by (simp add: CFRepositionTimerInMode_def)
    then show ?thesis by (rule that(1) [OF None m])
  next
    case (Some tl)
    then have tl: "timers_at w rl n = tl" using m by (simp add: timers_at_def mode_timers_def)
    show ?thesis
    proof (cases "b \<and> t \<notin> set tl")
      case True
      then have "w' = w" using m Some assms(1) by (simp add: CFRepositionTimerInMode_def)
      then show ?thesis using that(2) True unfolding tl by blast
    next
      case False
      let ?ts = "if b then remove1 t tl else tl"
      from assms(1) obtain i where i: "CFRunLoopInsertionIndexInTimerArray w ?ts t = Some i"
        and w': "w' = CFArmNextTimerInMode E rl n (upd_mode rl n (\<lambda>m. m\<lparr>m_timers := Some (list_insert i t ?ts)\<rparr>) w)"
        unfolding CFRepositionTimerInMode_def m Some option.case if_not_P [OF False] Let_def
        by (auto split: Option.bind_splits)
      have "i = upper_bound (map (fire_tsr w) ?ts) (fire_tsr w t)"
        using i assms(2) unfolding CFRunLoopInsertionIndexInTimerArray_def tl by (intro insertion_index_Some)
      then have "put_timer rl n t ?ts w w'"
        unfolding put_timer_def w' using put_mode_timers [OF m] keeps_modes_trans [OF put_mode_timers(3) [OF m] arm_views(3)]
        by (simp add: arm_views world_simps)
      then show ?thesis using that(3) False unfolding tl by blast
    qed
  qed
qed

lemma timers_inv_okD:
  assumes "loops_inv w"
  shows "timers_ok (timers_at w) (\<lambda>t. t_runLoop (w_timers w t)) (\<lambda>t. t_rlModes (w_timers w t)) (fire_tsr w) u {}"
  using assms timers_ok_any unfolding loops_inv_def timers_inv_def by blast

lemma loops_invI:
  assumes "loops_inv w" "keeps_modes w w'" "observer_view w' = observer_view w" "timers_inv w'"
  shows "loops_inv w'"
  using assms keeps_modes_inv observers_inv_view unfolding loops_inv_def by blast

text \<open>The mode a timer is added to, with an array of timers.\<close>

definition timer_mode :: "ref \<Rightarrow> string \<Rightarrow> world \<Rightarrow> world" where
  "timer_mode rl n w = upd_mode rl n (\<lambda>m. if m_timers m = None then m\<lparr>m_timers := Some []\<rparr> else m)
     (snd (CFRunLoopFindMode rl n True w))"

lemma timer_mode_props:
  shows "timers_at (timer_mode rl n w) = timers_at w" and "observer_view (timer_mode rl n w) = observer_view w"
    and "loops_inv w \<Longrightarrow> loops_inv (timer_mode rl n w)" and "w_timers (timer_mode rl n w) = w_timers w"
    and "\<exists>m. mode_of (timer_mode rl n w) rl n = Some m \<and> m_timers m \<noteq> None"
proof -
  let ?w = "snd (CFRunLoopFindMode rl n True w)"
  have k: "keeps ?w (timer_mode rl n w)" unfolding timer_mode_def
    by (rule keeps_upd_mode) (simp_all add: mode_timers_def mode_observers_def)
  show "timers_at (timer_mode rl n w) = timers_at w" "observer_view (timer_mode rl n w) = observer_view w"
    using keepsD(1,2) [OF k] by (simp_all add: timer_view_def find_mode_views)
  show "loops_inv w \<Longrightarrow> loops_inv (timer_mode rl n w)" using keeps_inv [OF k] find_mode_inv by blast
  show "w_timers (timer_mode rl n w) = w_timers w" by (simp add: timer_mode_def world_simps)
  show "\<exists>m. mode_of (timer_mode rl n w) rl n = Some m \<and> m_timers m \<noteq> None"
  proof -
    obtain y where y: "mode_of ?w rl n = Some y" using find_mode_exists by blast
    show ?thesis by (cases "m_timers y") (simp_all add: timer_mode_def world_simps y)
  qed
qed

lemma wake_up_w_timers [simp]: "w_timers (CFRunLoopWakeUp rl w) = w_timers w"
  by (simp add: CFRunLoopWakeUp_def world_simps)

lemma add_timer_one:
  assumes inv: "loops_inv w"
    and guards: "\<not> CFRunLoopIsDeallocating rl w"
      "\<not> (\<not> t_valid (w_timers w t) \<or> (t_runLoop (w_timers w t) \<noteq> None \<and> t_runLoop (w_timers w t) \<noteq> Some rl))"
      "n \<noteq> kCFRunLoopCommonModes" "n \<notin> set (t_rlModes (w_timers w t))"
    and res: "add_timer_body E rec rl t n w = Some w'"
  shows "keeps_modes (timer_mode rl n w) w'" and "observer_view w' = observer_view w"
    and "w_timers w' = (w_timers w)(t := (w_timers w t)\<lparr>t_runLoop := Some rl, t_rlModes := t_rlModes (w_timers w t) @ [n]\<rparr>)"
    and "timers_at w' = (timers_at w)(rl := (timers_at w rl)
           (n := list_insert (upper_bound (map (fire_tsr w) (timers_at w rl n)) (fire_tsr w t)) t (timers_at w rl n)))"
    and "common_view w' = common_view w"
proof -
  note res' = res [unfolded add_timer_body_def Let_def if_not_P [OF guards(1)] if_not_P [OF guards(2)] if_not_P [OF guards(3)]
      if_not_P [OF guards(4)], folded timer_mode_def]
  define w3 where "w3 = upd_timer t (\<lambda>t. t\<lparr>t_runLoop := Some rl, t_rlModes := t_rlModes t @ [n]\<rparr>) (timer_mode rl n w)"
  have views: "timers_at w3 = timers_at w" "observer_view w3 = observer_view w" "keeps_modes (timer_mode rl n w) w3" "fire_tsr w3 = fire_tsr w"
    using timer_mode_props(1,2) [of rl n w]
    by (simp_all add: timers_at_def observer_view_def observers_at_def mask_at_def keeps_modes_def fire_tsr_def w3_def
        world_simps fun_eq_iff timer_mode_props(4))
  from res' obtain w4 where w4: "CFRepositionTimerInMode E rl n t False w3 = Some w4"
    and w': "w' = w4 \<or> w' = CFRunLoopWakeUp rl w4"
    unfolding w3_def by (auto split: Option.bind_splits if_splits)
  obtain m2 where m2: "mode_of (timer_mode rl n w) rl n = Some m2" "m_timers m2 \<noteq> None"
    using timer_mode_props(5) by blast
  have "sorted (map (fire_tsr w3) (timers_at w3 rl n))"
    unfolding views using timers_okD(2) [OF timers_inv_okD [OF inv]] by simp
  with w4 have put: "put_timer rl n t (timers_at w3 rl n) w3 w4"
  proof (rule_tac reposition_cases [OF w4])
    fix m assume "m_timers m = None" "mode_of w3 rl n = Some m"
    then show ?thesis using m2 by (simp add: w3_def world_simps)
  qed simp_all
  have k: "keeps w4 w'" using w' keeps_wake_up by auto
  have wt: "w_timers w' = w_timers w4" using w' by auto
  show "keeps_modes (timer_mode rl n w) w'" "observer_view w' = observer_view w"
    using put views keepsD(2,3) [OF k] keeps_modes_trans unfolding put_timer_def by (blast, simp)
  show "w_timers w' = (w_timers w)(t := (w_timers w t)\<lparr>t_runLoop := Some rl, t_rlModes := t_rlModes (w_timers w t) @ [n]\<rparr>)"
    using put by (simp add: wt put_timer_def w3_def world_simps timer_mode_props(4))
  show "timers_at w' = (timers_at w)(rl := (timers_at w rl)
       (n := list_insert (upper_bound (map (fire_tsr w) (timers_at w rl n)) (fire_tsr w t)) t (timers_at w rl n)))"
    using put keepsD(1) [OF k] by (simp add: put_timer_def views timer_view_def)
  have "common_view w' = common_view w4" using w' by auto
  then show "common_view w' = common_view w" using put by (simp add: put_timer_def w3_def timer_mode_def)
qed

lemma add_timer_preserves:
  assumes rec: "\<And>it n. preserves (rec it n)"
  shows "preserves (add_timer_body E rec rl t n)"
proof (rule preservesI)
  fix w w' assume inv: "loops_inv w" and res: "add_timer_body E rec rl t n w = Some w'"
  let ?t = "w_timers w t"
  consider "CFRunLoopIsDeallocating rl w \<or> \<not> t_valid ?t \<or> (t_runLoop ?t \<noteq> None \<and> t_runLoop ?t \<noteq> Some rl)"
    | (common) "\<not> CFRunLoopIsDeallocating rl w" "\<not> (\<not> t_valid ?t \<or> (t_runLoop ?t \<noteq> None \<and> t_runLoop ?t \<noteq> Some rl))"
        "n = kCFRunLoopCommonModes"
    | (one) "\<not> CFRunLoopIsDeallocating rl w" "\<not> (\<not> t_valid ?t \<or> (t_runLoop ?t \<noteq> None \<and> t_runLoop ?t \<noteq> Some rl))"
        "n \<noteq> kCFRunLoopCommonModes" by blast
  then show "loops_inv w'"
  proof cases
    case 1
    then show ?thesis using inv res by (auto simp: add_timer_body_def Let_def split: if_splits)
  next
    case common
    have "fold_opt (rec (ItemTimer t)) (rl_commonModes (w_loops w rl)) (add_common_item E rl (ItemTimer t) w) = Some w'"
      using res unfolding add_timer_body_def Let_def if_not_P [OF common(1)] if_not_P [OF common(2)] if_P [OF common(3)] .
    from preservesD [OF preserves_fold_opt [OF rec] this] inv show ?thesis by simp
  next
    case one
    note res' = res [unfolded add_timer_body_def Let_def if_not_P [OF one(1)] if_not_P [OF one(2)] if_not_P [OF one(3)], folded timer_mode_def]
    let ?w2 = "timer_mode rl n w"
    have inv2: "loops_inv ?w2" by (rule timer_mode_props(3) [OF inv])
    show ?thesis
    proof (cases "n \<in> set (t_rlModes ?t)")
      case True
      then have "w' = ?w2" using res' by simp
      then show ?thesis using inv2 by simp
    next
      case False
      note A = add_timer_one [OF inv one False res]
      have fn: "(\<lambda>u. t_runLoop (w_timers w' u)) = (\<lambda>u. t_runLoop (w_timers w u))(t := Some rl)"
         "(\<lambda>u. t_rlModes (w_timers w' u)) = (\<lambda>u. t_rlModes (w_timers w u))(t := t_rlModes (w_timers w t) @ [n])"
         "fire_tsr w' = fire_tsr w"
        by (simp_all add: A(3) fun_eq_iff fire_tsr_def)
      have "timers_inv w'" unfolding timers_inv_def fn
        by (rule timers_ok_any [THEN iffD1], rule timers_ok_insert [OF timers_inv_okD [OF inv, of t] _ _ _ A(4)])
          (use False one(2,3) in simp_all)
      then show ?thesis using loops_invI [OF inv2 A(1)] A(2) timer_mode_props(2) by metis
    qed
  qed
qed

lemma remove_timer_one:
  assumes "n \<noteq> kCFRunLoopCommonModes" and mem: "t \<in> set (timers_at w rl n)"
  shows "\<exists>w'. remove_timer_body E rec rl t n w = Some w' \<and> keeps_modes w w' \<and> observer_view w' = observer_view w \<and>
    common_view w' = common_view w \<and> w_timers w' = (w_timers w)(t := (let ms = removeAll n (t_rlModes (w_timers w t)) in
       (w_timers w t)\<lparr>t_rlModes := ms, t_runLoop := (if length ms = 0 then None else t_runLoop (w_timers w t))\<rparr>)) \<and>
    timers_at w' = (timers_at w)(rl := (timers_at w rl)(n := remove1 t (timers_at w rl n)))"
proof -
  obtain m where m: "mode_of w rl n = Some m" using mem by (cases "mode_of w rl n") (simp_all add: timers_at_def)
  obtain ts where tm: "m_timers m = Some ts" using mem m by (cases "m_timers m") (simp_all add: timers_at_def mode_timers_def)
  have ts: "timers_at w rl n = ts" using m tm by (simp add: timers_at_def mode_timers_def)
  let ?k = "\<lambda>t. let ms = removeAll n (t_rlModes t) in t\<lparr>t_rlModes := ms, t_runLoop := (if length ms = 0 then None else t_runLoop t)\<rparr>"
  define w1 where "w1 = upd_timer t ?k w"
  define w2 where "w2 = upd_mode rl n (\<lambda>m. m\<lparr>m_timers := Some (remove1 t ts)\<rparr>) w1"
  have m1: "mode_of w1 rl n = Some m" using m by (simp add: w1_def world_simps)
  have v1: "timers_at w1 = timers_at w" "observer_view w1 = observer_view w" "keeps_modes w w1"
    by (simp_all add: timers_at_def observer_view_def observers_at_def mask_at_def keeps_modes_def w1_def world_simps fun_eq_iff)
  have v2: "timers_at w2 = (timers_at w)(rl := (timers_at w rl)(n := remove1 t ts))" "observer_view w2 = observer_view w" "keeps_modes w w2"
    using put_mode_timers [OF m1] keeps_modes_trans [OF v1(3)] by (simp_all add: w2_def v1)
  have "remove_timer_body E rec rl t n w = Some (CFArmNextTimerInMode E rl n w2)"
    using assms m tm ts by (simp add: remove_timer_body_def w1_def w2_def)
  then show ?thesis using v2 keeps_modes_trans [OF v2(3) arm_views(3)]
    by (simp add: arm_views ts) (simp add: w2_def w1_def world_simps)
qed

lemma remove_timer_preserves:
  assumes rec: "\<And>it n. preserves (rec it n)"
  shows "preserves (remove_timer_body E rec rl t n)"
proof (rule preservesI)
  fix w w' assume inv: "loops_inv w" and res: "remove_timer_body E rec rl t n w = Some w'"
  consider (common) "n = kCFRunLoopCommonModes" "is_common_item E rl (ItemTimer t) w"
    | (one) "n \<noteq> kCFRunLoopCommonModes" "t \<in> set (timers_at w rl n)"
    | "w' = w"
    using res by (auto simp: remove_timer_body_def timers_at_def mode_timers_def split: option.splits if_splits)
  then show "loops_inv w'"
  proof cases
    case common
    then have "fold_opt (rec (ItemTimer t)) (rl_commonModes (w_loops w rl)) (remove_common_item E rl (ItemTimer t) w) = Some w'"
      using res by (simp add: remove_timer_body_def)
    from preservesD [OF preserves_fold_opt [OF rec] this] inv show ?thesis by simp
  next
    case one
    from remove_timer_one [OF one, of E rec] res
    have A: "keeps_modes w w'" "observer_view w' = observer_view w"
      "w_timers w' = (w_timers w)(t := (let ms = removeAll n (t_rlModes (w_timers w t)) in
         (w_timers w t)\<lparr>t_rlModes := ms, t_runLoop := (if length ms = 0 then None else t_runLoop (w_timers w t))\<rparr>))"
      "timers_at w' = (timers_at w)(rl := (timers_at w rl)(n := remove1 t (timers_at w rl n)))" by auto
    have fn: "(\<lambda>u. t_runLoop (w_timers w' u)) =
          (\<lambda>u. t_runLoop (w_timers w u))(t := if removeAll n (t_rlModes (w_timers w t)) = [] then None else t_runLoop (w_timers w t))"
         "(\<lambda>u. t_rlModes (w_timers w' u)) = (\<lambda>u. t_rlModes (w_timers w u))(t := removeAll n (t_rlModes (w_timers w t)))"
         "fire_tsr w' = fire_tsr w"
      by (simp_all add: A(3) fun_eq_iff fire_tsr_def Let_def)
    have "timers_inv w'" unfolding timers_inv_def fn
      by (rule timers_ok_remove [OF timers_inv_okD [OF inv] one(2) A(4)])
    then show ?thesis using loops_invI [OF inv A(1,2)] by blast
  qed (use inv in simp)
qed

end
