(* ===== verification/RunLoopKeepItems.thy ===== *)
theory RunLoopKeepItems
  imports RunLoopKeep
begin

text \<open>The invariant under the operations on observers, sources and the common modes, and on timers' dates.\<close>

subsection \<open>Observers\<close>

lemma observer_index_upper_bound:
  assumes "sorted xs" "k \<le> length xs" "upper_bound xs x \<le> k"
  shows "observer_index xs x k = upper_bound xs x"
  using assms(2,3)
proof (induction k)
  case (Suc k)
  show ?case
  proof (cases "xs ! k \<le> x")
    case True
    then have "k < upper_bound xs x" using Suc.prems less_upper_bound_iff [OF assms(1), of k x] by simp
    then show ?thesis using True Suc.prems by simp
  next
    case False
    then have "\<not> k < upper_bound xs x" using less_upper_bound_iff [OF assms(1), of k x] by simp
    then show ?thesis using False Suc by simp
  qed
qed simp

lemma insert_observer_sorted:
  assumes "sorted (map (\<lambda>x. o_order (w_observers w x)) xs)"
  shows "insert_observer w ob xs =
    list_insert (upper_bound (map (\<lambda>x. o_order (w_observers w x)) xs) (o_order (w_observers w ob))) ob xs"
  unfolding insert_observer_def
  using observer_index_upper_bound [OF assms _ upper_bound_le, of "length xs"] upper_bound_le
  by (metis (no_types, lifting) assms length_map observer_index_upper_bound order_refl)

lemma observers_inv_okD:
  assumes "loops_inv w"
  shows "observers_ok (observers_at w) (mask_at w) (\<lambda>ob. o_runLoop (w_observers w ob)) (\<lambda>ob. o_rlCount (w_observers w ob))
    (\<lambda>ob. o_order (w_observers w ob)) (\<lambda>ob. o_activities (w_observers w ob))"
  using assms unfolding loops_inv_def observers_inv_def by blast

lemma loops_invI_observers:
  assumes "loops_inv w" "keeps_modes w w'" "timer_view w' = timer_view w" "observers_inv w'"
  shows "loops_inv w'"
  using assms keeps_modes_inv timers_inv_view unfolding loops_inv_def by blast

lemma put_mode_observers:
  assumes "mode_of w rl n = Some m" "m_observers m = Some xs"
    and f: "\<And>m. m_observers m = Some xs \<Longrightarrow> m_observers (f m) = Some (g xs)" "\<And>m. m_timers (f m) = m_timers m"
  shows "observers_at (upd_mode rl n f w) = (observers_at w)(rl := (observers_at w rl)(n := g xs))"
    and "timer_view (upd_mode rl n f w) = timer_view w" and "keeps_modes w (upd_mode rl n f w)"
    and "mask_at (upd_mode rl n f w) = (mask_at w)(rl := (mask_at w rl)(n := m_observerMask (f m)))"
  using assms by (auto simp: timers_at_def timer_view_def observers_at_def mask_at_def keeps_modes_def world_simps
      mode_timers_def mode_observers_def fun_eq_iff fire_tsr_def)

lemma upd_observer_views:
  "timer_view (upd_observer ob h w) = timer_view w" "observers_at (upd_observer ob h w) = observers_at w"
  "mask_at (upd_observer ob h w) = mask_at w" "keeps_modes w (upd_observer ob h w)"
  by (simp_all add: timers_at_def timer_view_def observers_at_def mask_at_def keeps_modes_def world_simps fun_eq_iff fire_tsr_def)

lemma contains_observer_at:
  "n \<noteq> kCFRunLoopCommonModes \<Longrightarrow> CFRunLoopContainsObserver E rl ob n w \<longleftrightarrow> ob \<in> set (observers_at w rl n)"
  by (simp add: CFRunLoopContainsObserver_def observers_at_def mode_observers_def split: option.splits)

lemma add_observer_preserves:
  assumes rec: "\<And>it n. preserves (rec it n)"
  shows "preserves (add_observer_body E rec rl ob n)"
proof (rule preservesI)
  fix w w' assume inv: "loops_inv w" and res: "add_observer_body E rec rl ob n w = Some w'"
  let ?ob = "w_observers w ob"
  consider "CFRunLoopIsDeallocating rl w \<or> \<not> o_valid ?ob \<or> (o_runLoop ?ob \<noteq> None \<and> o_runLoop ?ob \<noteq> Some rl)"
    | (common) "\<not> CFRunLoopIsDeallocating rl w" "\<not> (\<not> o_valid ?ob \<or> (o_runLoop ?ob \<noteq> None \<and> o_runLoop ?ob \<noteq> Some rl))"
        "n = kCFRunLoopCommonModes"
    | (one) "\<not> CFRunLoopIsDeallocating rl w" "\<not> (\<not> o_valid ?ob \<or> (o_runLoop ?ob \<noteq> None \<and> o_runLoop ?ob \<noteq> Some rl))"
        "n \<noteq> kCFRunLoopCommonModes" by blast
  then show "loops_inv w'"
  proof cases
    case 1
    then show ?thesis using inv res by (auto simp: add_observer_body_def Let_def split: if_splits)
  next
    case common
    have "fold_opt (rec (ItemObserver ob)) (rl_commonModes (w_loops w rl)) (add_common_item E rl (ItemObserver ob) w) = Some w'"
      using res unfolding add_observer_body_def Let_def if_not_P [OF common(1)] if_not_P [OF common(2)] if_P [OF common(3)] .
    from preservesD [OF preserves_fold_opt [OF rec] this] inv show ?thesis by simp
  next
    case one
    note res' = res [unfolded add_observer_body_def Let_def if_not_P [OF one(1)] if_not_P [OF one(2)] if_not_P [OF one(3)]]
    define w1 where "w1 = upd_mode rl n (\<lambda>m. if m_observers m = None then m\<lparr>m_observers := Some []\<rparr> else m)
        (snd (CFRunLoopFindMode rl n True w))"
    have "keeps v (upd_mode rl n (\<lambda>m. if m_observers m = None then m\<lparr>m_observers := Some []\<rparr> else m) v)" for v
      by (rule keeps_upd_mode) (simp_all add: mode_timers_def mode_observers_def)
    then have inv1: "loops_inv w1" using find_mode_inv [OF inv] keeps_inv unfolding w1_def by blast
    have obs: "w_observers w1 = w_observers w" by (simp add: w1_def world_simps)
    have "mode_of w1 rl n \<noteq> None" using find_mode_exists [of rl n w] by (simp add: w1_def world_simps)
    then obtain m1 where m0: "mode_of w1 rl n = Some m1" by blast
    obtain y where "mode_of (snd (CFRunLoopFindMode rl n True w)) rl n = Some y" using find_mode_exists by blast
    then have "m1 = (if m_observers y = None then y\<lparr>m_observers := Some []\<rparr> else y)"
      using m0 by (simp add: w1_def world_simps)
    then have "m_observers m1 \<noteq> None" by simp
    then obtain xs where "m_observers m1 = Some xs" by blast
    note m1 = m0 this
    have xs: "observers_at w1 rl n = xs" using m1 by (simp add: observers_at_def mode_observers_def)
    show ?thesis
    proof (cases "ob \<in> set xs")
      case True
      then have "w' = w1" using res' contains_observer_at [OF one(3), of E rl ob w1] xs by (simp add: w1_def)
      then show ?thesis using inv1 by simp
    next
      case False
      let ?f = "\<lambda>m. m\<lparr>m_observers := map_option (insert_observer w1 ob) (m_observers m), m_observerMask := m_observerMask m OR o_activities ?ob\<rparr>"
      define w2 where "w2 = upd_mode rl n ?f w1"
      have w': "w' = CFRunLoopObserverSchedule ob rl w2"
        using res' contains_observer_at [OF one(3), of E rl ob w1] xs False by (simp add: w1_def w2_def)
      note ok = observers_inv_okD [OF inv1]
      have ins: "insert_observer w1 ob xs = list_insert (upper_bound (map (\<lambda>x. o_order (w_observers w1 x)) xs) (o_order (w_observers w1 ob))) ob xs"
        by (rule insert_observer_sorted) (use observers_okD(2) [OF ok, of rl n] xs in simp)
      have v2: "observers_at w2 = (observers_at w1)(rl := (observers_at w1 rl)(n := insert_observer w1 ob xs))"
          "timer_view w2 = timer_view w1" "keeps_modes w1 w2"
          "mask_at w2 = (mask_at w1)(rl := (mask_at w1 rl)(n := m_observerMask (?f m1)))"
        using put_mode_observers [OF m1, of ?f "insert_observer w1 ob"] unfolding w2_def by simp_all
      have fn: "(\<lambda>x. o_runLoop (w_observers w' x)) =
            (\<lambda>x. o_runLoop (w_observers w1 x))(ob := if o_rlCount (w_observers w1 ob) = 0 then Some rl else o_runLoop (w_observers w1 ob))"
          "(\<lambda>x. o_rlCount (w_observers w' x)) = (\<lambda>x. o_rlCount (w_observers w1 x))(ob := o_rlCount (w_observers w1 ob) + 1)"
          "(\<lambda>x. o_order (w_observers w' x)) = (\<lambda>x. o_order (w_observers w1 x))"
          "(\<lambda>x. o_activities (w_observers w' x)) = (\<lambda>x. o_activities (w_observers w1 x))"
        by (auto simp: w' w2_def CFRunLoopObserverSchedule_def world_simps fun_eq_iff)
      have v': "observers_at w' = (observers_at w1)(rl := (observers_at w1 rl)(n := list_insert
              (upper_bound (map (\<lambda>x. o_order (w_observers w1 x)) (observers_at w1 rl n)) (o_order (w_observers w1 ob))) ob (observers_at w1 rl n)))"
          "mask_at w' = (mask_at w1)(rl := (mask_at w1 rl)(n := mask_at w1 rl n OR o_activities (w_observers w1 ob)))"
          "timer_view w' = timer_view w1" "keeps_modes w1 w'"
        using keeps_modes_trans [OF v2(3) upd_observer_views(4)] m1(1)
        by (simp_all add: w' CFRunLoopObserverSchedule_def upd_observer_views v2 ins xs obs) (simp add: mask_at_def)
      have "observers_inv w'" unfolding observers_inv_def fn
        by (rule observers_ok_insert [OF ok _ _ v'(1,2)]) (use False one(2) in \<open>auto simp: xs obs\<close>)
      then show ?thesis using loops_invI_observers [OF inv1] v' by blast
    qed
  qed
qed

lemma remove_observer_preserves:
  assumes rec: "\<And>it n. preserves (rec it n)"
  shows "preserves (remove_observer_body E rec rl ob n)"
proof (rule preservesI)
  fix w w' assume inv: "loops_inv w" and res: "remove_observer_body E rec rl ob n w = Some w'"
  consider (common) "n = kCFRunLoopCommonModes" "is_common_item E rl (ItemObserver ob) w"
    | (one) "n \<noteq> kCFRunLoopCommonModes" "CFRunLoopContainsObserver E rl ob n w"
    | "w' = w"
    using res by (auto simp: remove_observer_body_def split: if_splits)
  then show "loops_inv w'"
  proof cases
    case common
    then have "fold_opt (rec (ItemObserver ob)) (rl_commonModes (w_loops w rl)) (remove_common_item E rl (ItemObserver ob) w) = Some w'"
      using res by (simp add: remove_observer_body_def)
    from preservesD [OF preserves_fold_opt [OF rec] this] inv show ?thesis by simp
  next
    case one
    then have mem: "ob \<in> set (observers_at w rl n)" by (simp add: contains_observer_at)
    obtain m where m1: "mode_of w rl n = Some m" using mem by (cases "mode_of w rl n") (simp_all add: observers_at_def)
    obtain xs where m2: "m_observers m = Some xs"
      using mem m1 by (cases "m_observers m") (simp_all add: observers_at_def mode_observers_def)
    note m = m1 m2
    have xs: "observers_at w rl n = xs" using m by (simp add: observers_at_def mode_observers_def)
    let ?f = "\<lambda>m. m\<lparr>m_observers := map_option (remove1 ob) (m_observers m)\<rparr>"
    define w2 where "w2 = upd_mode rl n ?f w"
    have w': "w' = CFRunLoopObserverCancel ob w2" using res one by (simp add: remove_observer_body_def w2_def)
    have v2: "observers_at w2 = (observers_at w)(rl := (observers_at w rl)(n := remove1 ob xs))"
        "timer_view w2 = timer_view w" "keeps_modes w w2"
        "mask_at w2 = (mask_at w)(rl := (mask_at w rl)(n := m_observerMask m))"
      using put_mode_observers [OF m, of ?f "remove1 ob"] unfolding w2_def by simp_all
    have fn: "(\<lambda>x. o_runLoop (w_observers w' x)) =
          (\<lambda>x. o_runLoop (w_observers w x))(ob := if o_rlCount (w_observers w ob) - 1 = 0 then None else o_runLoop (w_observers w ob))"
        "(\<lambda>x. o_rlCount (w_observers w' x)) = (\<lambda>x. o_rlCount (w_observers w x))(ob := o_rlCount (w_observers w ob) - 1)"
        "(\<lambda>x. o_order (w_observers w' x)) = (\<lambda>x. o_order (w_observers w x))"
        "(\<lambda>x. o_activities (w_observers w' x)) = (\<lambda>x. o_activities (w_observers w x))"
      by (auto simp: w' w2_def CFRunLoopObserverCancel_def world_simps fun_eq_iff)
    have v': "observers_at w' = (observers_at w)(rl := (observers_at w rl)(n := remove1 ob (observers_at w rl n)))"
        "mask_at w' = mask_at w" "timer_view w' = timer_view w" "keeps_modes w w'"
      using keeps_modes_trans [OF v2(3) upd_observer_views(4)] m(1)
      by (simp_all add: w' CFRunLoopObserverCancel_def upd_observer_views v2 xs) (simp add: mask_at_def fun_eq_iff)
    have "observers_inv w'" unfolding observers_inv_def fn v'(2)
      by (rule observers_ok_remove [OF observers_inv_okD [OF inv] mem v'(1)])
    then show ?thesis using loops_invI_observers [OF inv] v' by blast
  qed (use inv in simp)
qed

subsection \<open>Sources\<close>

lemma make_sources_inv [simp]: "loops_inv (upd_mode rl n make_sources w) = loops_inv w"
  by (rule keeps_inv [OF keeps_sources_mode(1)])

lemma schedule_inv: "good_env E \<Longrightarrow> loops_inv w \<Longrightarrow> loops_inv (if b then callout E ev w else w)"
  by (simp add: callout_inv)

lemma add_source_preserves:
  assumes good: "good_env E" and rec: "\<And>it n. preserves (rec it n)"
  shows "preserves (add_source_body E rec rl s n)"
proof (rule preservesI)
  fix w w' assume inv: "loops_inv w" and res: "add_source_body E rec rl s n w = Some w'"
  consider (no) "CFRunLoopIsDeallocating rl w \<or> \<not> s_valid (w_sources w s)"
    | (common) "\<not> CFRunLoopIsDeallocating rl w" "\<not> \<not> s_valid (w_sources w s)" "n = kCFRunLoopCommonModes"
    | (one) "\<not> CFRunLoopIsDeallocating rl w" "\<not> \<not> s_valid (w_sources w s)" "n \<noteq> kCFRunLoopCommonModes" by blast
  then show "loops_inv w'"
  proof cases
    case no
    then show ?thesis using inv res by (auto simp: add_source_body_def split: if_splits)
  next
    case common
    have "fold_opt (rec (ItemSource s)) (rl_commonModes (w_loops w rl)) (add_common_item E rl (ItemSource s) w) = Some w'"
      using res unfolding add_source_body_def if_not_P [OF common(1)] if_not_P [OF common(2)] if_P [OF common(3)] .
    from preservesD [OF preserves_fold_opt [OF rec] this] inv show ?thesis by simp
  next
    case one
    define w1 where "w1 = upd_mode rl n make_sources (snd (CFRunLoopFindMode rl n True w))"
    define w2 where "w2 = upd_source s (add_run_loop rl) (upd_mode rl n (insert_source E w1 s) w1)"
    have 1: "loops_inv w1" using find_mode_inv [OF inv] by (simp add: w1_def)
    then have "loops_inv w2" by (simp add: w2_def)
    moreover have "w' = w1 \<or> w' = w2 \<or> w' = callout E (Scheduled s rl n) w2"
      using res unfolding add_source_body_def if_not_P [OF one(1)] if_not_P [OF one(2)] if_not_P [OF one(3)] Let_def
        w1_def [symmetric] w2_def [symmetric] by (auto split: if_splits)
    ultimately show ?thesis using 1 callout_inv [OF good] by blast
  qed
qed

lemma remove_source_preserves:
  assumes good: "good_env E" and rec: "\<And>it n. preserves (rec it n)"
  shows "preserves (remove_source_body E rec rl s n)"
proof (rule preservesI)
  fix w w' assume inv: "loops_inv w" and res: "remove_source_body E rec rl s n w = Some w'"
  show "loops_inv w'"
  proof (cases "n = kCFRunLoopCommonModes")
    case True
    show ?thesis
    proof (cases "is_common_item E rl (ItemSource s) w")
      case common: True
      have "fold_opt (rec (ItemSource s)) (rl_commonModes (w_loops w rl)) (remove_common_item E rl (ItemSource s) w) = Some w'"
        using res unfolding remove_source_body_def if_P [OF True] if_P [OF common] .
      from preservesD [OF preserves_fold_opt [OF rec] this] inv show ?thesis by simp
    next
      case False
      then show ?thesis using res inv True by (simp add: remove_source_body_def)
    qed
  next
    case False
    define w1 where "w1 = upd_source s (remove_run_loop rl) (upd_mode rl n (delete_source E w s) w)"
    have "loops_inv w1" using inv by (simp add: w1_def)
    moreover have "w' = w \<or> w' = w1 \<or> w' = callout E (Cancelled s rl n) w1"
      using res unfolding remove_source_body_def if_not_P [OF False] Let_def w1_def [symmetric] by (auto split: if_splits)
    ultimately show ?thesis using inv callout_inv [OF good] by blast
  qed
qed

subsection \<open>The common modes\<close>

lemma add_to_common_preserves:
  assumes good: "good_env E"
  shows "preserves (CFRunLoopAddItemToCommonModes d E rl it n)"
proof (induction d arbitrary: it n)
  case (Suc d)
  note * = add_source_preserves [OF good Suc.IH] add_observer_preserves [OF Suc.IH] add_timer_preserves [OF Suc.IH]
  show ?case by (rule preservesI) (use * [THEN preservesD] in \<open>simp split: item.splits\<close>)
qed (simp add: preserves_def)

lemma remove_from_common_preserves:
  assumes good: "good_env E"
  shows "preserves (CFRunLoopRemoveItemFromCommonModes d E rl it n)"
proof (induction d arbitrary: it n)
  case (Suc d)
  note * = remove_source_preserves [OF good Suc.IH] remove_observer_preserves [OF Suc.IH] remove_timer_preserves [OF Suc.IH]
  show ?case by (rule preservesI) (use * [THEN preservesD] in \<open>simp split: item.splits\<close>)
qed (simp add: preserves_def)

lemma items_preserve:
  assumes "good_env E"
  shows "preserves (CFRunLoopAddSource E rl s n)" and "preserves (CFRunLoopRemoveSource E rl s n)"
    and "preserves (CFRunLoopAddObserver E rl ob n)" and "preserves (CFRunLoopRemoveObserver E rl ob n)"
    and "preserves (CFRunLoopAddTimer E rl t n)" and "preserves (CFRunLoopRemoveTimer E rl t n)"
  unfolding CFRunLoopAddSource_def CFRunLoopRemoveSource_def CFRunLoopAddObserver_def CFRunLoopRemoveObserver_def
    CFRunLoopAddTimer_def CFRunLoopRemoveTimer_def add_item_def remove_item_def
  using add_to_common_preserves [OF assms] remove_from_common_preserves [OF assms] assms
  by (blast intro: add_source_preserves remove_source_preserves add_observer_preserves remove_observer_preserves
      add_timer_preserves remove_timer_preserves)+

end
