(* ===== verification/RunLoopReach.thy ===== *)
theory RunLoopReach
  imports RunLoopKeepItems
begin

text \<open>
  The remaining operations and the running of a loop preserve the invariant; the worlds that any sequence
  of operations reaches.
\<close>

lemma preserves_bind:
  assumes "preserves f" "preserves g"
  shows "preserves (\<lambda>w. Option.bind (f w) g)"
proof (rule preservesI)
  fix w w' assume "loops_inv w" "Option.bind (f w) g = Some w'"
  then obtain v where "f w = Some v" "g v = Some w'" by (auto split: Option.bind_splits)
  then show "loops_inv w'" using preservesD [OF assms(1)] preservesD [OF assms(2)] \<open>loops_inv w\<close> by blast
qed

lemma preserves_bindD:
  assumes "Option.bind x g = Some w'" "\<And>v. x = Some v \<Longrightarrow> loops_inv v" "preserves g"
  shows "loops_inv w'"
  using assms preservesD by (auto split: Option.bind_splits)

lemma removals_preserve:
  assumes "good_env E"
  shows "preserves (fold_opt (CFRunLoopRemoveSource E rl s) ns)" and "preserves (fold_opt (CFRunLoopRemoveObserver E rl ob) ns)"
    and "preserves (fold_opt (CFRunLoopRemoveTimer E rl t) ns)"
  by (rule preserves_fold_opt, rule items_preserve [OF assms])+

subsection \<open>Common modes, removal of all sources\<close>

lemma add_items_preserves: "good_env E \<Longrightarrow> preserves (CFRunLoopAddItemsToCommonMode E rl n it)"
  by (rule preservesI) (auto simp: CFRunLoopAddItemsToCommonMode_def split: item.splits intro: items_preserve [THEN preservesD])

lemma add_common_mode_preserves:
  assumes "good_env E" shows "preserves (CFRunLoopAddCommonMode E rl n)"
proof (rule preservesI)
  fix w w' assume inv: "loops_inv w" and res: "CFRunLoopAddCommonMode E rl n w = Some w'"
  let ?w = "upd_loop rl (\<lambda>r. r\<lparr>rl_commonModes := rl_commonModes r @ [n]\<rparr>) w"
  have "keeps w ?w" by (rule keeps_upd_loop) simp_all
  then have "loops_inv ?w" using keeps_inv inv by blast
  then show "loops_inv w'" using res inv preservesD [OF preserves_fold_opt [OF add_items_preserves [OF assms]]]
    by (auto simp: CFRunLoopAddCommonMode_def Let_def split: if_splits option.splits)
qed

lemma remove_mode_sources_preserves:
  assumes "good_env E" shows "preserves (remove_mode_sources E rl n)"
proof (rule preservesI)
  fix w w' assume inv: "loops_inv w" and res: "remove_mode_sources E rl n w = Some w'"
  note del = preservesD [OF preserves_fold_opt [OF items_preserve(2) [OF assms]]]
  show "loops_inv w'"
  proof (cases "mode_of w rl n")
    case None
    then show ?thesis using res inv by (simp add: remove_mode_sources_def)
  next
    case (Some m)
    then obtain v where v: "(case m_sources0 m of None \<Rightarrow> Some w
        | Some xs \<Rightarrow> fold_opt (\<lambda>rls. CFRunLoopRemoveSource E rl rls n) xs w) = Some v"
      and w': "(case mode_of v rl n of None \<Rightarrow> Some v | Some m1 \<Rightarrow> (case m_sources1 m1 of None \<Rightarrow> Some v
              | Some xs \<Rightarrow> fold_opt (\<lambda>rls. CFRunLoopRemoveSource E rl rls n) xs v)) = Some w'"
      using res by (auto simp: remove_mode_sources_def split: Option.bind_splits)
    have "loops_inv v" using v inv del by (auto split: option.splits)
    then show ?thesis using w' del by (auto split: option.splits)
  qed
qed

lemma remove_all_preserves:
  assumes "good_env E" shows "preserves (remove_all_sources d E rl n)"
proof (induction d arbitrary: n)
  case (Suc d)
  show ?case
    by (rule preservesI) (use preservesD [OF preserves_fold_opt [OF Suc.IH]] preservesD [OF remove_mode_sources_preserves [OF assms]]
        in \<open>auto split: if_splits\<close>)
qed (simp add: preserves_def)

lemma finalize_preserves: "good_env E \<Longrightarrow> preserves (CFFinalizeRunLoop E rl)"
  by (rule preservesI) (auto simp: CFFinalizeRunLoop_def CFRunLoopRemoveAllSources_def split: if_splits Option.bind_splits
      intro: preservesD [OF preserves_fold_opt [OF remove_all_preserves]] preservesD [OF remove_all_preserves])

subsection \<open>Invalidation and creation\<close>

lemma remove_from_loops_preserves:
  assumes "good_env E" shows "preserves (source_remove_from_loops E s prev rls)"
proof (induction rls arbitrary: prev)
  case (Cons rl rls)
  note del = items_preserve(2) [OF assms]
  show ?case
  proof (rule preservesI)
    fix w w' assume "loops_inv w" "source_remove_from_loops E s prev (rl # rls) w = Some w'"
    then show "loops_inv w'"
      using preservesD [OF Cons.IH] preservesD [OF del] preservesD [OF removals_preserve(1) [OF assms]]
      by (auto split: if_splits Option.bind_splits)
  qed
qed (simp add: preserves_def)

lemma source_invalidate_preserves:
  assumes "good_env E" shows "preserves (CFRunLoopSourceInvalidate E s)"
  by (rule preservesI) (use preservesD [OF remove_from_loops_preserves [OF assms]]
      in \<open>auto simp: CFRunLoopSourceInvalidate_def Let_def split: if_splits option.splits\<close>)

lemma observer_invalidate_preserves:
  assumes good: "good_env E" shows "preserves (CFRunLoopObserverInvalidate E ob)"
proof (rule preservesI)
  fix w w' assume inv: "loops_inv w" and res: "CFRunLoopObserverInvalidate E ob w = Some w'"
  note del = items_preserve(4) [OF good] removals_preserve(2) [OF good]
  let ?w = "upd_observer ob (\<lambda>ob. ob\<lparr>o_valid := False\<rparr>) w"
  have "keeps w ?w" by (rule keeps_upd_observer) simp_all
  then have inv1: "loops_inv ?w" using keeps_inv inv by blast
  show "loops_inv w'"
  proof (cases "o_valid (w_observers w ob)")
    case True
    then obtain v where v: "(case o_runLoop (w_observers w ob) of None \<Rightarrow> Some ?w
              | Some rl \<Rightarrow> do {
                  w' \<leftarrow> fold_opt (\<lambda>name. CFRunLoopRemoveObserver E rl ob name) (rev (CFRunLoopCopyAllModes rl ?w)) ?w;
                  CFRunLoopRemoveObserver E rl ob kCFRunLoopCommonModes w' }) = Some v"
        and w': "w' = release_context E (o_release (w_observers w ob)) (ItemObserver ob) v"
      using res by (auto simp: CFRunLoopObserverInvalidate_def Let_def split: Option.bind_splits)
    have "loops_inv v" using v inv1 preservesD [OF del(1)] preservesD [OF del(2)]
      by (auto split: option.splits Option.bind_splits)
    then show ?thesis unfolding w' by (rule release_context_inv [OF good])
  qed (use res inv in \<open>simp add: CFRunLoopObserverInvalidate_def Let_def\<close>)
qed

lemma timer_invalidate_preserves:
  assumes good: "good_env E" shows "preserves (CFRunLoopTimerInvalidate E t)"
proof (rule preservesI)
  fix w w' assume inv: "loops_inv w" and res: "CFRunLoopTimerInvalidate E t w = Some w'"
  note del = items_preserve(6) [OF good] removals_preserve(3) [OF good]
  let ?w = "upd_timer t (\<lambda>t. t\<lparr>t_valid := False\<rparr>) w"
  have "keeps w ?w" by (rule keeps_upd_timer) simp_all
  then have inv1: "loops_inv ?w" using keeps_inv inv by blast
  show "loops_inv w'"
  proof (cases "t_valid (w_timers w t)")
    case True
    then obtain v where v: "(case t_runLoop (w_timers w t) of None \<Rightarrow> Some ?w
              | Some rl \<Rightarrow> do {
                  w' \<leftarrow> fold_opt (\<lambda>name. CFRunLoopRemoveTimer E rl t name) (t_rlModes (w_timers w t)) ?w;
                  CFRunLoopRemoveTimer E rl t kCFRunLoopCommonModes w' }) = Some v"
        and w': "w' = release_context E (t_release (w_timers w t)) (ItemTimer t) v"
      using res by (auto simp: CFRunLoopTimerInvalidate_def Let_def split: Option.bind_splits)
    have "loops_inv v" using v inv1 preservesD [OF del(1)] preservesD [OF del(2)]
      by (auto split: option.splits Option.bind_splits)
    then show ?thesis unfolding w' by (rule release_context_inv [OF good])
  qed (use res inv in \<open>simp add: CFRunLoopTimerInvalidate_def Let_def\<close>)
qed

text \<open>A new object at an address that no loop knows.\<close>

lemma observer_create_inv:
  assumes inv: "loops_inv w" and fresh: "o_runLoop (w_observers w ob) = None"
  shows "loops_inv (CFRunLoopObserverCreate ob a r p rel w)"
proof -
  let ?w = "CFRunLoopObserverCreate ob a r p rel w"
  note ok = observers_inv_okD [OF inv]
  have nowhere: "ob \<notin> set (observers_at w rl n)" for rl n using observers_okD(3) [OF ok] fresh by auto
  have v: "timer_view ?w = timer_view w" "observers_at ?w = observers_at w" "mask_at ?w = mask_at w" "keeps_modes w ?w"
    unfolding CFRunLoopObserverCreate_def by (rule upd_observer_views)+
  have other: "x \<noteq> ob \<Longrightarrow> w_observers ?w x = w_observers w x" for x
    by (simp add: CFRunLoopObserverCreate_def world_simps)
  have new: "o_runLoop (w_observers ?w ob) = None" "o_rlCount (w_observers ?w ob) = 0"
    by (simp_all add: CFRunLoopObserverCreate_def world_simps)
  have "sorted (map (\<lambda>x. o_order (w_observers ?w x)) (observers_at w rl n))" for rl n
  proof -
    have "map (\<lambda>x. o_order (w_observers ?w x)) (observers_at w rl n) = map (\<lambda>x. o_order (w_observers w x)) (observers_at w rl n)"
      using nowhere other by (intro map_cong refl) metis
    then show ?thesis using observers_okD(2) [OF ok] by metis
  qed
  moreover have "o_runLoop (w_observers ?w x) = Some rl \<and> o_activities (w_observers ?w x) AND NOT (mask_at w rl n) = 0"
    if "x \<in> set (observers_at w rl n)" for x rl n
    using that other [of x] nowhere observers_okD(3,4) [OF ok] by (cases "x = ob") auto
  moreover have "o_rlCount (w_observers ?w x) = 0" if "o_runLoop (w_observers ?w x) = None" for x
    using that other [of x] new observers_okD(5) [OF ok, of x] by (cases "x = ob") auto
  moreover have "0 < o_rlCount (w_observers ?w x) \<and> o_rlCount (w_observers ?w x) = int (card {n. x \<in> set (observers_at w rl n)})"
    if "o_runLoop (w_observers ?w x) = Some rl" for x rl
    using that other [of x] new observers_okD(6,7) [OF ok, of x rl] by (cases "x = ob") auto
  ultimately have "observers_inv ?w" unfolding observers_inv_def v observers_ok_def
    using observers_okD(1,8) [OF ok] by blast
  then show ?thesis using loops_invI_observers [OF inv] v by blast
qed

lemma upd_timer_views:
  "timers_at (upd_timer t k w) = timers_at w" "observer_view (upd_timer t k w) = observer_view w" "keeps_modes w (upd_timer t k w)"
  by (simp_all add: timers_at_def observer_view_def observers_at_def mask_at_def keeps_modes_def world_simps fun_eq_iff)

lemma timer_create_inv:
  assumes inv: "loops_inv w" and fresh: "t_runLoop (w_timers w t) = None"
  shows "loops_inv (CFRunLoopTimerCreate E t fd iv ord ret rel w)"
proof -
  let ?w = "CFRunLoopTimerCreate E t fd iv ord ret rel w"
  let ?x = "fire_tsr ?w t"
  have v: "timers_at ?w = timers_at w" "observer_view ?w = observer_view w" "keeps_modes w ?w"
    by (simp_all add: CFRunLoopTimerCreate_def Let_def upd_timer_views)
  note ok = timers_inv_okD [OF inv, of t]
  have M: "t_rlModes (w_timers w t) = []" using timers_okD(5) [OF ok, of t] fresh by simp
  have fn: "(\<lambda>u. t_runLoop (w_timers ?w u)) = (\<lambda>u. t_runLoop (w_timers w u))"
      "(\<lambda>u. t_rlModes (w_timers ?w u)) = (\<lambda>u. t_rlModes (w_timers w u))" "fire_tsr ?w = (fire_tsr w)(t := ?x)"
    using fresh M by (auto simp: CFRunLoopTimerCreate_def Let_def world_simps fun_eq_iff fire_tsr_def)
  have "timers_inv ?w" unfolding timers_inv_def fn(1,2) v
    using timers_ok_change [OF ok, of t ?x] M timers_ok_any by (simp add: fn(3) [symmetric]) blast
  then show ?thesis using loops_invI [OF inv] v by blast
qed

end
