(* ===== verification/RunLoopReachRun.thy ===== *)
theory RunLoopReachRun
  imports RunLoopReach
begin

text \<open>Moving a timer and running a loop preserve the invariant.\<close>

subsection \<open>Moving a timer\<close>

definition timers_except :: "world \<Rightarrow> ref \<Rightarrow> string set \<Rightarrow> bool" where
  "timers_except w t N \<longleftrightarrow>
     timers_ok (timers_at w) (\<lambda>t. t_runLoop (w_timers w t)) (\<lambda>t. t_rlModes (w_timers w t)) (fire_tsr w) t N"

lemma timers_except_none: "timers_except w t {} \<longleftrightarrow> timers_inv w"
  unfolding timers_except_def timers_inv_def by (rule timers_ok_any)

lemma timers_ok_mono:
  assumes ok: "timers_ok T R M F t N" and "N \<subseteq> N'"
  shows "timers_ok T R M F t N'"
proof -
  have "sorted (map F (if n \<in> N' then removeAll t (T rl n) else T rl n))" for rl n
    using timers_okD(2) [OF ok, of n rl] timers_okD(3) [OF ok, of rl n] assms(2) by auto
  then show ?thesis using ok unfolding timers_ok_def by blast
qed

lemma reposition_in_modes_ok:
  assumes "timers_except w t (set ns)" and "t_runLoop (w_timers w t) = Some rl" and "set ns \<subseteq> set (t_rlModes (w_timers w t))"
    and "reposition_in_modes E rl t ns w = Some w'"
  shows "timers_inv w' \<and> keeps_modes w w' \<and> observer_view w' = observer_view w"
  using assms
proof (induction ns arbitrary: w)
  case Nil
  then show ?case by (simp add: reposition_in_modes_def timers_except_none)
next
  case (Cons n ns)
  note ok = Cons.prems(1) [unfolded timers_except_def]
  note D = timers_okD [OF ok]
  have mem: "t \<in> set (timers_at w rl n)" using Cons.prems(2,3) D(4) by simp
  have rem: "remove1 t (timers_at w rl n) = removeAll t (timers_at w rl n)" using D(1) by (simp add: distinct_remove1_removeAll)
  from Cons.prems(4) obtain v where v: "CFRepositionTimerInMode E rl n t True w = Some v"
    and rest: "reposition_in_modes E rl t ns v = Some w'"
    by (auto simp: reposition_in_modes_def CFRunLoopFindMode_def split: Option.bind_splits if_splits)
  have sorted: "sorted (map (fire_tsr w) (if True then remove1 t (timers_at w rl n) else timers_at w rl n))"
    using D(3) [of rl n] by (simp add: rem)
  have put: "put_timer rl n t (remove1 t (timers_at w rl n)) w v"
  proof (rule reposition_cases [OF v sorted])
    fix m assume "m_timers m = None" "mode_of w rl n = Some m"
    then show ?thesis using mem by (simp add: timers_at_def mode_timers_def)
  qed (use mem in simp_all)
  have same: "w_timers v = w_timers w" "fire_tsr v = fire_tsr w" using put by (simp_all add: put_timer_def fire_tsr_def fun_eq_iff)
  have "timers_ok (timers_at v) (\<lambda>t. t_runLoop (w_timers v t)) (\<lambda>t. t_rlModes (w_timers v t)) (fire_tsr v) t (set (n # ns) - {n})"
    unfolding same by (rule timers_ok_reposition [OF ok mem]) (use put in \<open>simp add: put_timer_def\<close>)
  then have "timers_except v t (set ns)" unfolding timers_except_def by (rule timers_ok_mono) auto
  from Cons.IH [OF this _ _ rest] Cons.prems(2,3) same(1)
  have "timers_inv w' \<and> keeps_modes v w' \<and> observer_view w' = observer_view v" by simp
  then show ?case using put keeps_modes_trans by (auto simp: put_timer_def)
qed

lemma move_timer_inv:
  assumes inv: "loops_inv w" and res: "(case t_runLoop (w_timers w t) of None \<Rightarrow> Some (set_fire_time t tsr date w)
      | Some rl \<Rightarrow> reposition_in_modes E rl t (t_rlModes (w_timers w t)) (set_fire_time t tsr date w)) = Some w'"
  shows "loops_inv w'"
proof -
  let ?w = "set_fire_time t tsr date w"
  have fn: "(\<lambda>u. t_runLoop (w_timers ?w u)) = (\<lambda>u. t_runLoop (w_timers w u))"
      "(\<lambda>u. t_rlModes (w_timers ?w u)) = (\<lambda>u. t_rlModes (w_timers w u))" "fire_tsr ?w = (fire_tsr w)(t := tsr)"
    by (auto simp: set_fire_time_def world_simps fun_eq_iff fire_tsr_def)
  have v: "timers_at ?w = timers_at w" "observer_view ?w = observer_view w" "keeps_modes w ?w"
    by (simp_all add: set_fire_time_def upd_timer_views)
  note ok = timers_inv_okD [OF inv, of t]
  have ex: "timers_except ?w t (set (t_rlModes (w_timers w t)))"
    unfolding timers_except_def fn v by (rule timers_ok_change [OF ok])
  show ?thesis
  proof (cases "t_runLoop (w_timers w t)")
    case None
    then have "t_rlModes (w_timers w t) = []" using timers_okD(5) [OF ok, of t] by simp
    then have "timers_inv ?w" using ex by (simp add: timers_except_none)
    then show ?thesis using None res loops_invI [OF inv v(3,2)] by simp
  next
    case (Some rl)
    have R: "t_runLoop (w_timers ?w t) = Some rl" using Some fun_cong [OF fn(1), of t] by simp
    have M: "set (t_rlModes (w_timers w t)) \<subseteq> set (t_rlModes (w_timers ?w t))" using fun_cong [OF fn(2), of t] by simp
    have "reposition_in_modes E rl t (t_rlModes (w_timers w t)) ?w = Some w'" using res Some by simp
    from reposition_in_modes_ok [OF ex R M this] show ?thesis
      using loops_invI [OF inv] keeps_modes_trans [OF v(3)] v(2) by metis
  qed
qed

lemma set_next_fire_date_preserves: "preserves (CFRunLoopTimerSetNextFireDate E t date)"
proof (rule preservesI)
  fix w w' assume inv: "loops_inv w" and res: "CFRunLoopTimerSetNextFireDate E t date w = Some w'"
  let ?d = "if TIMER_DATE_LIMIT < date then TIMER_DATE_LIMIT else date"
  let ?move = "case t_runLoop (w_timers w t) of None \<Rightarrow> Some (set_fire_time t (tsr_of_date E w ?d) ?d w)
      | Some rl \<Rightarrow> reposition_in_modes E rl t (t_rlModes (w_timers w t)) (set_fire_time t (tsr_of_date E w ?d) ?d w)"
  show "loops_inv w'"
  proof (cases "t_valid (w_timers w t)")
    case True
    then obtain v rl where v: "?move = Some v" and "w' = v \<or> w' = CFRunLoopWakeUp rl v"
      using res by (auto simp: CFRunLoopTimerSetNextFireDate_def Let_def split: option.splits Option.bind_splits if_splits)
    then show ?thesis using move_timer_inv [OF inv v] by auto
  qed (use res inv in \<open>simp add: CFRunLoopTimerSetNextFireDate_def\<close>)
qed

lemma reschedule_preserves: "preserves (reschedule_timer E rl n t old)"
proof (rule preservesI)
  fix w w' assume inv: "loops_inv w" and res: "reschedule_timer E rl n t old w = Some w'"
  show "loops_inv w'"
  proof (cases "old < fire_tsr w t")
    case True
    then show ?thesis using res inv by (auto simp: reschedule_timer_def)
  next
    case False
    then obtain x where "(case t_runLoop (w_timers w t) of None \<Rightarrow> Some (set_fire_time t x (w_date w + CFTimeIntervalUntilTSR E w x) w)
      | Some rl \<Rightarrow> reposition_in_modes E rl t (t_rlModes (w_timers w t)) (set_fire_time t x (w_date w + CFTimeIntervalUntilTSR E w x) w)) = Some w'"
      using res by (auto simp: reschedule_timer_def Let_def split: Option.bind_splits)
    then show ?thesis by (rule move_timer_inv [OF inv])
  qed
qed

subsection \<open>Callouts of a run\<close>

lemma do_blocks_loop_inv:
  assumes good: "good_env E"
  shows "loops_inv w \<Longrightarrow> do_blocks_loop E rl n bs did w = (kept, did', w') \<Longrightarrow> loops_inv w'"
proof (induction bs arbitrary: did w kept)
  case (Cons b bs)
  obtain bm blk where b: "b = (bm, blk)" by (cases b)
  show ?case
  proof (cases "block_matches (rl_commonModes (w_loops w rl)) n bm")
    case True
    then show ?thesis using Cons.IH [of "callout E (BlockRun blk) w"] Cons.prems callout_inv [OF good] by (simp add: b)
  next
    case False
    then show ?thesis using Cons.IH [of w] Cons.prems by (auto simp: b split: prod.splits)
  qed
qed simp

lemma do_blocks_inv:
  assumes good: "good_env E" and inv: "loops_inv w"
  shows "loops_inv (snd (CFRunLoopDoBlocks E rl n w))"
proof -
  have k: "keeps v (upd_loop rl (\<lambda>r. r\<lparr>rl_blocks := bs @ (if c then rl_blocks r else [])\<rparr>) v)" for v bs c
    by (rule keeps_upd_loop) simp_all
  obtain kept did w' where d: "do_blocks_loop E rl n (rl_blocks (w_loops w rl)) False (upd_loop rl (\<lambda>r. r\<lparr>rl_blocks := []\<rparr>) w) = (kept, did, w')"
    by (metis prod_cases3)
  have "loops_inv (upd_loop rl (\<lambda>r. r\<lparr>rl_blocks := []\<rparr>) w)" using keeps_inv [OF k [of w "[]" False]] inv by simp
  from do_blocks_loop_inv [OF good this d] have "loops_inv (upd_loop rl (\<lambda>r. r\<lparr>rl_blocks := kept @ rl_blocks r\<rparr>) w')"
    using keeps_inv [OF k [of w' kept True]] by simp
  then show ?thesis using d inv by (simp add: CFRunLoopDoBlocks_def Let_def)
qed

lemma keeps_firing: "keeps w (upd_observer ob (\<lambda>ob. ob\<lparr>o_firing := b\<rparr>) w)" "keeps w (upd_timer t (\<lambda>t. t\<lparr>t_firing := b\<rparr>) w)"
  by (rule keeps_upd_observer; simp) (rule keeps_upd_timer; simp)

lemmas firing_inv [simp] = keeps_firing [THEN keeps_inv]

lemma do_observers_loop_preserves:
  assumes good: "good_env E" shows "preserves (do_observers_loop E act obs)"
proof (induction obs)
  case (Cons ob obs)
  show ?case
  proof (rule preservesI)
    fix w w' assume inv: "loops_inv w" and res: "do_observers_loop E act (ob # obs) w = Some w'"
    show "loops_inv w'"
    proof (cases "o_valid (w_observers w ob)")
      case True
      let ?w1 = "callout E (Observed ob act) (upd_observer ob (\<lambda>ob. ob\<lparr>o_firing := True\<rparr>) w)"
      have inv1: "loops_inv ?w1" using inv callout_inv [OF good] by simp
      obtain w2 where "w2 = ?w1 \<or> CFRunLoopObserverInvalidate E ob ?w1 = Some w2"
        and rest: "do_observers_loop E act obs (upd_observer ob (\<lambda>ob. ob\<lparr>o_firing := False\<rparr>) w2) = Some w'"
        using res True by (auto simp: Let_def split: if_splits Option.bind_splits)
      then have "loops_inv w2" using inv1 preservesD [OF observer_invalidate_preserves [OF good]] by blast
      then show ?thesis using preservesD [OF Cons.IH rest] by simp
    qed (use res inv preservesD [OF Cons.IH] in simp)
  qed
qed (simp add: preserves_def)

lemma notify_preserves:
  assumes good: "good_env E" shows "preserves (notify E rl n act)"
  by (rule preservesI) (use preservesD [OF do_observers_loop_preserves [OF good]]
      in \<open>auto simp: notify_def CFRunLoopDoObservers_def split: option.splits if_splits\<close>)

lemma perform0_inv:
  assumes good: "good_env E"
  shows "loops_inv w \<Longrightarrow> loops_inv (snd (perform0_loop E stop ss handled w))"
proof (induction ss arbitrary: handled w)
  case (Cons s ss)
  let ?w = "upd_source s (\<lambda>s. s\<lparr>s_signaled := False\<rparr>) w"
  have "loops_inv (callout E (Performed0 s) ?w)" using Cons.prems callout_inv [OF good] by simp
  then show ?case using Cons by (auto simp: Let_def split: if_splits)
qed simp

lemma do_sources0_inv:
  assumes good: "good_env E" and inv: "loops_inv w" and res: "CFRunLoopDoSources0 E rl n stop w = Some (h, w')"
  shows "loops_inv w'"
proof -
  obtain ss where "w' = w \<or> perform0_loop E stop ss False w = (h, w')"
    using res by (auto simp: CFRunLoopDoSources0_def Let_def split: option.splits Option.bind_splits)
  then show ?thesis using inv perform0_inv [OF good inv, of stop ss False] by (metis snd_conv)
qed

lemma do_source1_inv: "good_env E \<Longrightarrow> loops_inv w \<Longrightarrow> loops_inv (snd (CFRunLoopDoSource1 E s w))"
  by (simp add: CFRunLoopDoSource1_def callout_inv)

lemma do_timer_inv:
  assumes good: "good_env E" and inv: "loops_inv w" and res: "CFRunLoopDoTimer E rl n t w = Some (h, w')"
  shows "loops_inv w'"
proof (cases "timer_due rl t w")
  case True
  let ?w1 = "upd_mode rl n (\<lambda>m. m\<lparr>m_timerSoftDeadline := UINT64_MAX, m_timerHardDeadline := UINT64_MAX\<rparr>)
                   (upd_timer t (\<lambda>t. t\<lparr>t_firing := True\<rparr>) w)"
  let ?w2 = "callout E (TimerFired t) (CFArmNextTimerInMode E rl n ?w1)"
  have "keeps v (upd_mode rl n (\<lambda>m. m\<lparr>m_timerSoftDeadline := UINT64_MAX, m_timerHardDeadline := UINT64_MAX\<rparr>) v)" for v
    by (rule keeps_upd_mode) (simp_all add: mode_timers_def mode_observers_def)
  from keeps_inv [OF this] have inv2: "loops_inv ?w2" using inv callout_inv [OF good] by simp
  obtain w3 where "w3 = ?w2 \<or> CFRunLoopTimerInvalidate E t ?w2 = Some w3"
    and w': "w' = upd_timer t (\<lambda>t. t\<lparr>t_firing := False\<rparr>) (release_context E (t_retain (w_timers w t) \<and> t_release (w_timers w t)) (ItemTimer t) w3) \<or>
      reschedule_timer E rl n t (t_fireTSR (w_timers w t))
        (upd_timer t (\<lambda>t. t\<lparr>t_firing := False\<rparr>) (release_context E (t_retain (w_timers w t) \<and> t_release (w_timers w t)) (ItemTimer t) w3)) = Some w'"
    using res unfolding CFRunLoopDoTimer_def Let_def if_not_P [OF not_not [THEN iffD2, OF True]]
    by (auto split: Option.bind_splits if_splits)
  then have "loops_inv w3" using inv2 preservesD [OF timer_invalidate_preserves [OF good]] by blast
  then have "loops_inv (upd_timer t (\<lambda>t. t\<lparr>t_firing := False\<rparr>) (release_context E b (ItemTimer t) w3))" for b
    using release_context_inv [OF good] by simp
  then show ?thesis using w' preservesD [OF reschedule_preserves] by blast
next
  case False
  then show ?thesis using res inv by (simp add: CFRunLoopDoTimer_def)
qed

lemma do_timers_loop_inv:
  assumes good: "good_env E"
  shows "loops_inv w \<Longrightarrow> do_timers_loop E rl n ts h w = Some (h', w') \<Longrightarrow> loops_inv w'"
proof (induction ts arbitrary: h w)
  case (Cons t ts)
  from Cons.prems(2) obtain did v where "CFRunLoopDoTimer E rl n t w = Some (did, v)" "do_timers_loop E rl n ts (h \<or> did) v = Some (h', w')"
    by (auto split: Option.bind_splits)
  then show ?case using Cons.IH do_timer_inv [OF good Cons.prems(1)] by blast
qed simp

lemma do_timers_inv:
  assumes "good_env E" "loops_inv w" "CFRunLoopDoTimers E rl n limit w = Some (h, w')"
  shows "loops_inv w'"
  using assms do_timers_loop_inv [OF assms(1,2)]
  by (auto simp: CFRunLoopDoTimers_def split: option.splits)

end
