(* ===== verification/RunLoopInvariant.thy ===== *)
theory RunLoopInvariant
  imports RunLoopReachRun
begin

text \<open>Running a loop preserves the invariant; the operations as a step relation and the worlds it reaches.\<close>

lemma mode_field_inv [simp]:
  "loops_inv (upd_mode rl n (\<lambda>m. m\<lparr>m_stopped := b\<rparr>) w) = loops_inv w"
  "loops_inv (upd_mode rl n (\<lambda>m. if p = 0 then m else m\<lparr>m_portSet := f (m_portSet m)\<rparr>) w) = loops_inv w"
  "loops_inv (upd_loop rl (\<lambda>r. r\<lparr>rl_currentMode := c\<rparr>) w) = loops_inv w"
  by (rule keeps_inv, rule keeps_upd_mode keeps_upd_loop; simp add: mode_timers_def mode_observers_def)+

lemma service_port_inv:
  assumes "good_env E" "loops_inv w" "CFRunLoopServiceMachPort E rl tt ps poll w = Some (w', p)"
  shows "loops_inv w'"
proof -
  obtain v q where v: "e_receive E ps poll w = (v, q)" by force
  have "loops_inv v" using receive_inv [OF assms(1,2), of ps poll] v by simp
  moreover have "loops_inv (CFRunLoopWakeUp rl v) = loops_inv v"
    by (simp add: CFRunLoopWakeUp_def keeps_inv [OF keeps_log_event])
  ultimately show ?thesis
    using assms(3) v by (auto simp: CFRunLoopServiceMachPort_def CFRunLoopTimeout_def Let_def split: if_splits)
qed

lemma sleep_inv:
  assumes good: "good_env E" and inv: "loops_inv w" and res: "sleep E rl n tt dp poll w = Some (p, w')"
  shows "loops_inv w'"
proof -
  note nt = preservesD [OF notify_preserves [OF good]]
  from res obtain w1 where 1: "(if \<not> poll then notify E rl n kCFRunLoopBeforeWaiting w else Some w) = Some w1"
    and res1: "(let w2 = upd_mode rl n (\<lambda>m. if dp = 0 then m else m\<lparr>m_portSet := List.insert dp (m_portSet m)\<rparr>) (set_sleeping True rl w1) in
      do { m \<leftarrow> mode_of w2 rl n;
          (w3, livePort) \<leftarrow> CFRunLoopServiceMachPort E rl tt (m_portSet m) poll w2;
          let w4 = upd_loop rl (\<lambda>r. r\<lparr>rl_sleepTime := rl_sleepTime r + (if poll then 0 else w_date w3 - w_date w2)\<rparr>) w3;
          let w5 = upd_mode rl n (\<lambda>m. if dp = 0 then m else m\<lparr>m_portSet := removeAll dp (m_portSet m)\<rparr>) w4;
          let w6 = set_sleeping False rl (set_ignoreWakeUps True rl w5);
          w7 \<leftarrow> (if \<not> poll then notify E rl n kCFRunLoopAfterWaiting w6 else Some w6);
          Some (livePort, w7) }) = Some (p, w')"
    by (auto simp: sleep_def split: Option.bind_splits)
  have inv1: "loops_inv w1" using 1 inv nt by (auto split: if_splits)
  define w2 where "w2 = upd_mode rl n (\<lambda>m. if dp = 0 then m else m\<lparr>m_portSet := List.insert dp (m_portSet m)\<rparr>) (set_sleeping True rl w1)"
  have inv2: "loops_inv w2" using inv1 by (simp add: w2_def)
  obtain m where m: "mode_of w2 rl n = Some m" using res1 unfolding Let_def w2_def [symmetric] by (auto split: Option.bind_splits)
  obtain w3 q where rc: "CFRunLoopServiceMachPort E rl tt (m_portSet m) poll w2 = Some (w3, q)"
    using res1 unfolding Let_def w2_def [symmetric] m by (auto split: Option.bind_splits)
  have inv3: "loops_inv w3" by (rule service_port_inv [OF good inv2 rc])
  define w6 where "w6 = set_sleeping False rl (set_ignoreWakeUps True rl (upd_mode rl n
      (\<lambda>m. if dp = 0 then m else m\<lparr>m_portSet := removeAll dp (m_portSet m)\<rparr>)
      (upd_loop rl (\<lambda>r. r\<lparr>rl_sleepTime := rl_sleepTime r + (if poll then 0 else w_date w3 - w_date w2)\<rparr>) w3)))"
  have "keeps w3 (upd_loop rl (\<lambda>r. r\<lparr>rl_sleepTime := rl_sleepTime r + (if poll then 0 else w_date w3 - w_date w2)\<rparr>) w3)"
    by (rule keeps_upd_loop) simp_all
  from keeps_inv [OF this] have inv6: "loops_inv w6" using inv3 unfolding w6_def by (simp only: mode_field_inv loop_inv)
  have "(if \<not> poll then notify E rl n kCFRunLoopAfterWaiting w6 else Some w6) = Some w'"
    using res1 [unfolded Let_def, folded w2_def, unfolded m rc Option.bind_lunit prod.case, folded w6_def]
    by (auto split: Option.bind_splits)
  then show ?thesis using inv6 nt by (auto split: if_splits)
qed

lemma handle_msg_inv:
  assumes good: "good_env E" and inv: "loops_inv w" and res: "handle_msg E rl n dp lp h w = Some (h', s, w')"
  shows "loops_inv w'"
proof -
  let ?w1 = "set_ignoreWakeUps True rl w"
  have inv1: "loops_inv ?w1" using inv by simp
  have main: "loops_inv ((callout E MainQueueServiced (?w1\<lparr>w_inMainQueue := True\<rparr>))\<lparr>w_inMainQueue := False\<rparr>)"
    using inv1 callout_inv [OF good] by simp
  obtain m where m: "mode_of ?w1 rl n = Some m" using res by (auto simp: handle_msg_def Let_def split: Option.bind_splits)
  note res' = res [unfolded handle_msg_def Let_def m Option.bind_lunit]
  consider (none) "w' = ?w1" | (timers) did w2 where "CFRunLoopDoTimers E rl n (w_now ?w1) ?w1 = Some (did, w2)"
      "w' = w2 \<or> w' = CFArmNextTimerInMode E rl n w2"
    | (queue) "w' = (callout E MainQueueServiced (?w1\<lparr>w_inMainQueue := True\<rparr>))\<lparr>w_inMainQueue := False\<rparr>"
    | (port) s where "w' = snd (CFRunLoopDoSource1 E s ?w1)"
    using res' by (auto split: if_splits option.splits Option.bind_splits prod.splits) (metis snd_conv)+
  then show ?thesis
    by cases (use inv1 main do_timers_inv [OF good inv1] do_source1_inv [OF good inv1] in auto)
qed

lemma run_outcome_inv: "loops_inv w \<Longrightarrow> loops_inv (snd (run_outcome E rl n tt st h w))"
  by (simp add: run_outcome_def)

lemma run_iteration_inv:
  assumes good: "good_env E" and inv: "loops_inv w" and res: "run_iteration E rl n tt st dp d0 w = Some (r, s, w')"
  shows "loops_inv w'"
proof -
  note nt = preservesD [OF notify_preserves [OF good]]
  obtain w1 where w1: "notify E rl n kCFRunLoopBeforeTimers (set_ignoreWakeUps False rl w) = Some w1"
    using res by (auto simp: run_iteration_def split: Option.bind_splits)
  obtain w2 where w2: "notify E rl n kCFRunLoopBeforeSources w1 = Some w2"
    using res by (auto simp: run_iteration_def w1 split: Option.bind_splits)
  have inv2: "loops_inv w2" using nt [OF w2 nt [OF w1]] inv by simp
  obtain h w3 where w3: "CFRunLoopDoSources0 E rl n st (snd (CFRunLoopDoBlocks E rl n w2)) = Some (h, w3)"
    using res by (auto simp: run_iteration_def w1 w2 split: Option.bind_splits)
  have inv3: "loops_inv w3" by (rule do_sources0_inv [OF good do_blocks_inv [OF good inv2] w3])
  define w4 where "w4 = (if h then snd (CFRunLoopDoBlocks E rl n w3) else w3)"
  have inv4: "loops_inv w4" using inv3 do_blocks_inv [OF good] by (simp add: w4_def)
  obtain w5 early where w5: "(if dp \<noteq> 0 \<and> \<not> d0 then e_receive E [dp] True w4 else (w4, 0)) = (w5, early)" by force
  have inv5: "loops_inv w5" using w5 inv4 receive_inv [OF good inv4, of "[dp]" True] by (auto split: if_splits)
  note res' = res [unfolded run_iteration_def w1 w2 w3 Option.bind_lunit Let_def prod.case, folded w4_def, unfolded w5 prod.case]
  obtain lp w6 where w6: "(if early \<noteq> 0 then Some (early, w5) else sleep E rl n tt dp (h \<or> current_term E tt w4 = 0) w5) = Some (lp, w6)"
    using res' by (auto split: Option.bind_splits)
  have inv6: "loops_inv w6" using w6 inv5 sleep_inv [OF good inv5] by (auto split: if_splits)
  note res'' = res' [unfolded w6 Option.bind_lunit prod.case]
  obtain h' q w7 where w7: "handle_msg E rl n dp lp h w6 = Some (h', q, w7)"
    using res'' by (auto split: Option.bind_splits)
  have "loops_inv (snd (run_outcome E rl n tt st h' (snd (CFRunLoopDoBlocks E rl n w7))))"
    by (rule run_outcome_inv, rule do_blocks_inv [OF good], rule handle_msg_inv [OF good inv6 w7])
  then show ?thesis using res'' by (auto simp: w7 split: prod.splits)
qed

lemma run_passes_inv:
  assumes good: "good_env E" and "loops_inv w" and "run_passes E rl n tt st dp d0 w = Some (r, w')"
  shows "loops_inv w'"
proof -
  have "good_env E \<longrightarrow> loops_inv w \<longrightarrow> loops_inv (snd (r, w'))"
  proof (rule run_passes.raw_induct [where P = "\<lambda>E rl n tt st dp d0 w p. good_env E \<longrightarrow> loops_inv w \<longrightarrow> loops_inv (snd p)",
        OF _ assms(3)], intro impI)
    fix run E rl n tt st dp d0 w and p :: "run_result \<times> world"
    assume IH: "\<And>E rl n tt st dp d0 w p. run E rl n tt st dp d0 w = Some p \<Longrightarrow>
        good_env E \<longrightarrow> loops_inv w \<longrightarrow> loops_inv (snd p)"
      and res: "Option.bind (run_iteration E rl n tt st dp d0 w) (\<lambda>q. case fst q of None \<Rightarrow> run E rl n tt st dp (fst (snd q)) (snd (snd q))
        | Some x \<Rightarrow> Some (x, snd (snd q))) = Some p"
      and g: "good_env E" and inv: "loops_inv w"
    from res obtain q where it: "run_iteration E rl n tt st dp d0 w = Some q"
      and rest: "(case fst q of Some x \<Rightarrow> Some (x, snd (snd q)) | None \<Rightarrow> run E rl n tt st dp (fst (snd q)) (snd (snd q))) = Some p"
      by (auto split: Option.bind_splits)
    have "loops_inv (snd (snd q))"
      by (rule run_iteration_inv [OF g inv, of rl n tt st dp d0 "fst q" "fst (snd q)"]) (simp add: it)
    then show "loops_inv (snd p)" using rest IH g by (cases "fst q") auto
  qed
  then show ?thesis using assms by simp
qed

lemma run_specific_inv:
  assumes good: "good_env E" and inv: "loops_inv w" and res: "CFRunLoopRunSpecific E rl n sec st w = Some (r, w')"
  shows "loops_inv w'"
proof (cases "CFRunLoopIsDeallocating rl w \<or> \<not> fst (CFRunLoopFindMode rl n False w) \<or> CFRunLoopModeIsEmpty E rl n w")
  case True
  then show ?thesis using res inv by (auto simp: CFRunLoopRunSpecific_def split: if_splits)
next
  case False
  note nt = preservesD [OF notify_preserves [OF good]]
  define w2 where "w2 = upd_loop rl (\<lambda>r. r\<lparr>rl_currentMode := Some n\<rparr>) (snd (CFRunLoopPushPerRunData rl w))"
  have inv2: "loops_inv w2" using inv by (simp add: w2_def)
  from res False obtain w3 w4 w5 q pr cm where w3: "notify E rl n kCFRunLoopEntry w2 = Some w3"
    and w4: "CFRunLoopRunInternal E rl n sec st w3 = Some (q, w4)"
    and w5: "notify E rl n kCFRunLoopExit w4 = Some w5"
    and w': "w' = upd_loop rl (\<lambda>r. r\<lparr>rl_currentMode := cm\<rparr>) (CFRunLoopPopPerRunData rl pr w5)"
    by (auto simp: CFRunLoopRunSpecific_def w2_def Let_def CFRunLoopPushPerRunData_def split: Option.bind_splits)
  have inv3: "loops_inv w3" by (rule nt [OF w3 inv2])
  have "loops_inv w4" using w4 inv3 run_passes_inv [OF good inv3]
    by (auto simp: CFRunLoopRunInternal_def split: if_splits)
  then have "loops_inv w5" by (rule nt [OF w5])
  then show ?thesis by (simp add: w')
qed

subsection \<open>Reachable worlds\<close>

text \<open>The operations a client of run loops has, on objects that exist or at addresses that are free.\<close>

inductive loop_step :: "env \<Rightarrow> world \<Rightarrow> world \<Rightarrow> bool" for E where
  add_source: "CFRunLoopAddSource E rl s n w = Some w' \<Longrightarrow> loop_step E w w'"
| remove_source: "CFRunLoopRemoveSource E rl s n w = Some w' \<Longrightarrow> loop_step E w w'"
| add_observer: "CFRunLoopAddObserver E rl ob n w = Some w' \<Longrightarrow> loop_step E w w'"
| remove_observer: "CFRunLoopRemoveObserver E rl ob n w = Some w' \<Longrightarrow> loop_step E w w'"
| add_timer: "CFRunLoopAddTimer E rl t n w = Some w' \<Longrightarrow> loop_step E w w'"
| remove_timer: "CFRunLoopRemoveTimer E rl t n w = Some w' \<Longrightarrow> loop_step E w w'"
| add_common_mode: "CFRunLoopAddCommonMode E rl n w = Some w' \<Longrightarrow> loop_step E w w'"
| invalidate_source: "CFRunLoopSourceInvalidate E s w = Some w' \<Longrightarrow> loop_step E w w'"
| invalidate_observer: "CFRunLoopObserverInvalidate E ob w = Some w' \<Longrightarrow> loop_step E w w'"
| invalidate_timer: "CFRunLoopTimerInvalidate E t w = Some w' \<Longrightarrow> loop_step E w w'"
| set_date: "CFRunLoopTimerSetNextFireDate E t date w = Some w' \<Longrightarrow> loop_step E w w'"
| finalize: "CFFinalizeRunLoop E rl w = Some w' \<Longrightarrow> loop_step E w w'"
| run: "CFRunLoopRunInMode E n sec st w = Some (r, w') \<Longrightarrow> loop_step E w w'"
| create_timer: "t_runLoop (w_timers w t) = None \<Longrightarrow> loop_step E w (CFRunLoopTimerCreate E t fd iv ord ret rel w)"
| create_observer: "o_runLoop (w_observers w ob) = None \<Longrightarrow> loop_step E w (CFRunLoopObserverCreate ob act rep ord rel w)"
| create_loop: "rl_modes (w_loops w rl) = [] \<Longrightarrow> loop_step E w (CFRunLoopCreate rl w)"
| create_source: "loop_step E w (CFRunLoopSourceCreate s ctx w)"
| perform_block: "loop_step E w (CFRunLoopPerformBlock rl arg blk w)"
| stop: "loop_step E w (CFRunLoopStop rl w)"
| stop_mode: "loop_step E w (CFRunLoopStopMode rl n w)"
| wake_up: "loop_step E w (CFRunLoopWakeUp rl w)"
| signal: "loop_step E w (CFRunLoopSourceSignal s w)"
| tolerance: "loop_step E w (CFRunLoopTimerSetTolerance t tol w)"
| clock: "w_now w \<le> tsr \<Longrightarrow> loop_step E w (w\<lparr>w_now := tsr, w_date := date\<rparr>)"

lemma loop_create_inv:
  assumes inv: "loops_inv w" and fresh: "rl_modes (w_loops w rl) = []"
  shows "loops_inv (CFRunLoopCreate rl w)"
proof -
  have no: "mode_of w rl n = None" for n using fresh by (simp add: mode_of_def)
  let ?v = "upd_loop rl (\<lambda>_. new_loop (w_nextPort w)) w"
  have "keeps w ?v"
    by (rule keepsI) (use no fresh in \<open>simp_all add: world_simps new_loop_def\<close>)
  then have "loops_inv ?v" using inv keeps_inv by blast
  then show ?thesis unfolding CFRunLoopCreate_def by (intro find_mode_inv) simp
qed

inductive_cases loop_stepE [elim]: "loop_step E w w'"

lemma loop_step_inv:
  assumes good: "good_env E" and step: "loop_step E w w'" and inv: "loops_inv w"
  shows "loops_inv w'"
  using step
proof cases
  case (tolerance t tol)
  have "keeps w (CFRunLoopTimerSetTolerance t tol w)"
    unfolding CFRunLoopTimerSetTolerance_def by (rule keeps_upd_timer) simp_all
  then show ?thesis using tolerance inv keeps_inv by blast
next
  case (clock tsr date)
  then show ?thesis using inv by simp
next
  case (signal s)
  then show ?thesis using inv by (simp add: CFRunLoopSourceSignal_def)
next
  case (create_source s ctx)
  then show ?thesis using inv by (simp add: CFRunLoopSourceCreate_def)
next
  case (run n sec st r)
  then show ?thesis using run_specific_inv [OF good inv] by (simp add: CFRunLoopRunInMode_def)
next
  case (create_loop rl)
  then show ?thesis using loop_create_inv [OF inv] by simp
qed (auto simp: inv intro: items_preserve [OF good, THEN preservesD, OF _ inv]
       add_common_mode_preserves [OF good, THEN preservesD, OF _ inv]
       source_invalidate_preserves [OF good, THEN preservesD, OF _ inv]
       observer_invalidate_preserves [OF good, THEN preservesD, OF _ inv]
       timer_invalidate_preserves [OF good, THEN preservesD, OF _ inv]
       set_next_fire_date_preserves [THEN preservesD, OF _ inv] finalize_preserves [OF good, THEN preservesD, OF _ inv]
       timer_create_inv [OF inv] observer_create_inv [OF inv] perform_block_inv [OF inv] stop_mode_inv [OF inv])

definition fresh_world :: "world \<Rightarrow> bool" where
  "fresh_world w \<longleftrightarrow>
     (\<forall>rl. rl_modes (w_loops w rl) = []) \<and>
     (\<forall>t. t_runLoop (w_timers w t) = None \<and> t_rlModes (w_timers w t) = []) \<and>
     (\<forall>ob. o_runLoop (w_observers w ob) = None \<and> o_rlCount (w_observers w ob) = 0)"

inductive reachable :: "env \<Rightarrow> world \<Rightarrow> bool" for E where
  start: "fresh_world w \<Longrightarrow> reachable E w"
| step: "reachable E w \<Longrightarrow> loop_step E w w' \<Longrightarrow> reachable E w'"

lemma fresh_world_inv:
  assumes "fresh_world w" shows "loops_inv w"
proof -
  have m: "mode_of w rl n = None" for rl n using assms by (simp add: fresh_world_def mode_of_def)
  then have "timers_at w rl n = []" "observers_at w rl n = []" for rl n
    by (simp_all add: timers_at_def observers_at_def)
  then show ?thesis using assms m
    by (simp add: loops_inv_def modes_inv_def timers_inv_def observers_inv_def timers_ok_def observers_ok_def fresh_world_def)
qed

lemma reachable_inv: "good_env E \<Longrightarrow> reachable E w \<Longrightarrow> loops_inv w"
  by (erule reachable.induct) (blast intro: fresh_world_inv loop_step_inv)+

end
