(* ===== verification/RunLoopTimerTheorems.thy ===== *)
theory RunLoopTimerTheorems
  imports RunLoopInv
begin

text \<open>What is proved of a mode's array of timers, of arming and of the next fire time.\<close>

subsection \<open>A sample world\<close>

text \<open>No loop has a mode, no object belongs to a loop; the user's code does nothing and no message but the wake-up arrives.\<close>

definition sample_env :: env where
  "sample_env = \<lparr>e_TSRRate = 1, e_callout = (\<lambda>_ w. w), e_receive = (\<lambda>_ poll w. (w, if poll then 0 else rl_wakeUpPort (w_loops w 2))), e_timeoutFired = (\<lambda>_ _. False),
     e_equal = (\<lambda>_ x y. x = y), e_mainThread = False, e_mainQueuePort = 0, e_mainLoop = 0, e_currentLoop = 2,
     e_linkedOnOrAfterLion = True, e_stack = 2, e_castNegative = (\<lambda>_. 0)\<rparr>"

definition sample_timer :: "nat \<Rightarrow> timer" where
  "sample_timer tsr = \<lparr>t_valid = True, t_firing = False, t_runLoop = None, t_rlModes = [], t_nextFireDate = 0,
     t_interval = 0, t_tolerance = 0, t_fireTSR = tsr, t_order = 0, t_retain = False, t_release = False\<rparr>"

definition sample_source :: source where
  "sample_source = \<lparr>s_valid = True, s_signaled = True, s_order = 0, s_version = 0, s_info = 0, s_hash = None, s_equal = None,
     s_perform = None, s_schedule = None, s_cancel = None, s_port = 0, s_runLoops = None\<rparr>"

definition sample_observer :: observer where
  "sample_observer = \<lparr>o_valid = True, o_firing = False, o_repeats = True, o_runLoop = None, o_rlCount = 0,
     o_activities = kCFRunLoopEntry, o_order = 0, o_release = False\<rparr>"

definition sample_world :: world where
  "sample_world = \<lparr>w_loops = (\<lambda>_. new_loop 3), w_sources = (\<lambda>s. sample_source\<lparr>s_order := - int s\<rparr>), w_observers = (\<lambda>_. sample_observer),
     w_timers = (\<lambda>t. sample_timer t), w_now = 100, w_date = 0, w_nextPort = 10, w_inMainQueue = False, w_trace = []\<rparr>"

text \<open>The sample world with a mode whose timers are given.\<close>

definition sample_mode_world :: "ref list \<Rightarrow> world" where
  "sample_mode_world ts =
     upd_loop 2 (\<lambda>r. r\<lparr>rl_modes := [(''m'', (new_mode 3 20)\<lparr>m_timers := Some ts\<rparr>)]\<rparr>) sample_world"

lemma sample_timers [simp]: "w_timers (sample_mode_world ts) t = sample_timer t" "w_timers sample_world t = sample_timer t"
  by (simp_all add: sample_mode_world_def sample_world_def upd_loop_def)

lemma sample_mode [simp]: "mode_of (sample_mode_world ts) 2 ''m'' = Some ((new_mode 3 20)\<lparr>m_timers := Some ts\<rparr>)"
  by (simp add: sample_mode_world_def mode_of_def upd_loop_def)

lemma sample_fire [simp]: "fire_tsr (sample_mode_world ts) t = t" "fire_tsr sample_world t = t"
  by (simp_all add: fire_tsr_def sample_timer_def)

subsection \<open>The insertion index\<close>

lemma upper_bound_filter: "sorted xs \<Longrightarrow> upper_bound xs x = length (filter (\<lambda>y. y \<le> x) xs)"
proof (induction xs)
  case (Cons y xs)
  have "filter (\<lambda>y. y \<le> x) xs = []" if "\<not> y \<le> x" using that Cons.prems by (auto simp: filter_empty_conv)
  then show ?case using Cons by (auto simp: upper_bound_def)
qed (simp add: upper_bound_def)

text \<open>C12: The insertion index of a timer in a mode's array is the number of its timers that do not fire later
  (on every path: the empty array, the two shortcuts for more than 256 timers and the binary search), and
  inserting there keeps the array in the order of the fire times.\<close>

theorem insertion_index_correct:
  assumes "sorted (map (fire_tsr w) ts)" and "length ts < 2 ^ 29"
  shows "CFRunLoopInsertionIndexInTimerArray w ts t = Some (length (filter (\<lambda>u. fire_tsr w u \<le> fire_tsr w t) ts)) \<and>
    sorted (map (fire_tsr w) (list_insert (length (filter (\<lambda>u. fire_tsr w u \<le> fire_tsr w t) ts)) t ts))"
proof -
  have "upper_bound (map (fire_tsr w) ts) (fire_tsr w t) = length (filter (\<lambda>u. fire_tsr w u \<le> fire_tsr w t) ts)"
    using upper_bound_filter [OF assms(1)] by (simp add: filter_map comp_def)
  then show ?thesis using insertion_index_spec [OF assms(1)] assms(2) sorted_list_insert [OF assms(1), of t]
    by (simp add: CFRunLoopInsertionIndexInTimerArray_def)
qed

lemma insertion_index_correct_witness:
  "CFRunLoopInsertionIndexInTimerArray (sample_mode_world []) [1, 3, 3, 8] 3 = Some 3"
  using insertion_index_correct [of "sample_mode_world []" "[1, 3, 3, 8]" 3] by simp

lemma flsl_ge: "2 ^ 29 \<le> n \<Longrightarrow> 29 < flsl n"
proof (rule ccontr)
  assume n: "2 ^ 29 \<le> n" and "\<not> 29 < flsl n"
  then have "(2 :: nat) ^ flsl n \<le> 2 ^ 29" by (intro power_increasing) simp_all
  then show False using n less_pow_flsl [of n] by linarith
qed

text \<open>The search for the insertion index has no result exactly for an array of at least 2^29 timers where
  neither shortcut applies: \<^verbatim>\<open>(1 << flsl(cnt)) * 2\<close> is computed in an \<^verbatim>\<open>int\<close> and overflows.\<close>

theorem insertion_index_overflows:
  "CFRunLoopInsertionIndexInTimerArray w ts t = None \<longleftrightarrow>
     2 ^ 29 \<le> length ts \<and> fire_tsr w t < fire_tsr w (ts ! (length ts - 1)) \<and> fire_tsr w (ts ! 0) \<le> fire_tsr w t"
proof -
  let ?n = "length ts"
  have some: "insertion_index (map (fire_tsr w) ts) (fire_tsr w t) = None \<longleftrightarrow>
      ?n \<noteq> 0 \<and> \<not> (256 < ?n \<and> map (fire_tsr w) ts ! (?n - 1) \<le> fire_tsr w t) \<and>
      \<not> (256 < ?n \<and> fire_tsr w t < map (fire_tsr w) ts ! 0) \<and> shl1 (flsl ?n + 1) = None"
    by (simp add: insertion_index_def Let_def split: Option.bind_splits prod.splits)
  have shift: "shl1 (flsl ?n + 1) = None \<longleftrightarrow> 2 ^ 29 \<le> ?n"
  proof
    assume "shl1 (flsl ?n + 1) = None"
    then have "\<not> flsl ?n \<le> 29" by (auto simp: shl1_def split: if_splits)
    then show "2 ^ 29 \<le> ?n" using flsl_le [of ?n 29] by (meson not_le)
  next
    assume "2 ^ 29 \<le> ?n"
    then show "shl1 (flsl ?n + 1) = None" using flsl_ge [of ?n] by (simp add: shl1_def)
  qed
  have last: "?n \<noteq> 0 \<Longrightarrow> map (fire_tsr w) ts ! (?n - 1) = fire_tsr w (ts ! (?n - 1)) \<and> map (fire_tsr w) ts ! 0 = fire_tsr w (ts ! 0)"
    by simp
  show ?thesis
  proof (cases "2 ^ 29 \<le> ?n")
    case True
    then have "?n \<noteq> 0" "256 < ?n" by (auto simp del: length_0_conv)
    then show ?thesis unfolding CFRunLoopInsertionIndexInTimerArray_def some shift using True last
      by (auto simp: not_le not_less simp del: length_0_conv)
  next
    case False
    then show ?thesis unfolding CFRunLoopInsertionIndexInTimerArray_def length_map some using shift by blast
  qed
qed

subsection \<open>Arming\<close>

text \<open>C13: Arming a mode stores as its soft deadline the earliest fire time and as its hard deadline the earliest fire
  time plus tolerance, over the timers that are not firing: stopping the scan at the first timer behind the
  current hard deadline loses nothing. When a deadline changed, the kernel timer is set to the soft one.\<close>

theorem arm_deadlines:
  assumes "mode_of w rl n = Some m" and "m_timers m = Some ts" and "sorted (map (fire_tsr w) ts)"
    and "\<forall>t \<in> set ts. fire_tsr w t \<le> UINT64_MAX"
  shows "\<exists>m'. mode_of (CFArmNextTimerInMode E rl n w) rl n = Some m' \<and>
    m_timerSoftDeadline m' = least_deadline w (fire_tsr w) ts \<and>
    m_timerHardDeadline m' = least_deadline w (hard_deadline E w) ts \<and>
    (m_timerSoftDeadline m' < UINT64_MAX \<and> m_timerSoftDeadline m' \<noteq> m_timerSoftDeadline m \<and> m_timerPort m \<noteq> 0 \<longrightarrow>
       m_kernelDeadline m' = Some (m_timerSoftDeadline m'))"
proof -
  have "mode_of (CFArmNextTimerInMode E rl n w) rl n = Some (arm_mode E w m)"
    using assms(1) by (simp add: CFArmNextTimerInMode_def world_simps)
  moreover have "m_kernelDeadline (arm_mode E w m) = Some (m_timerSoftDeadline (arm_mode E w m))"
    if "m_timerSoftDeadline (arm_mode E w m) < UINT64_MAX" "m_timerSoftDeadline (arm_mode E w m) \<noteq> m_timerSoftDeadline m" "m_timerPort m \<noteq> 0"
    using that by (simp add: arm_mode_def Let_def assms(2) split: prod.splits if_splits)
  ultimately show ?thesis using arm_mode_deadlines [OF assms(2-4)] by simp
qed

lemma arm_deadlines_witness:
  "\<exists>m'. mode_of (CFArmNextTimerInMode sample_env 2 ''m'' (sample_mode_world [3, 5])) 2 ''m'' = Some m' \<and> m_timerSoftDeadline m' = 3"
  using arm_deadlines [of "sample_mode_world [3, 5]" 2 "''m''" "(new_mode 3 20)\<lparr>m_timers := Some [3, 5]\<rparr>" "[3, 5]" sample_env]
  by (auto simp: UINT64_MAX_def sample_timer_def)

text \<open>Nothing sets \<^verbatim>\<open>_mkTimerArmed\<close>: a new mode has it clear and arming never sets it. So when the last timer of a
  mode is removed the kernel timer is not cancelled: it stays set to the deadline it had, although the mode's
  soft deadline says that no timer is left.\<close>

theorem stale_kernel_timer:
  assumes "mode_of w rl n = Some m" and "m_timers m = Some [t]" and "\<not> m_mkTimerArmed m" and "n \<noteq> kCFRunLoopCommonModes"
  shows "\<exists>w' m'. CFRunLoopRemoveTimer E rl t n w = Some w' \<and> mode_of w' rl n = Some m' \<and> m_timers m' = Some [] \<and>
    m_timerSoftDeadline m' = UINT64_MAX \<and> m_kernelDeadline m' = m_kernelDeadline m \<and> \<not> m_mkTimerArmed m' \<and>
    \<not> m_mkTimerArmed (new_mode p q)"
  using assms
  by (auto simp: CFRunLoopRemoveTimer_def remove_timer_body_def CFArmNextTimerInMode_def world_simps arm_mode_def new_mode_def)

lemma stale_kernel_timer_witness:
  "\<exists>w' m'. CFRunLoopRemoveTimer sample_env 2 5 ''m'' (sample_mode_world [5]) = Some w' \<and> mode_of w' 2 ''m'' = Some m' \<and>
     m_kernelDeadline m' = m_kernelDeadline ((new_mode 3 20)\<lparr>m_timers := Some [5]\<rparr>)"
  using stale_kernel_timer [of "sample_mode_world [5]" 2 "''m''" "(new_mode 3 20)\<lparr>m_timers := Some [5]\<rparr>" 5 sample_env 3 20]
  by (auto simp: kCFRunLoopCommonModes_def new_mode_def)

subsection \<open>The next fire time\<close>

text \<open>The reference: the first time after \<open>now\<close> among \<open>t\<close>, \<open>t + d\<close>, \<open>t + 2 * d\<close>, \<dots>\<close>

definition first_after :: "nat \<Rightarrow> nat \<Rightarrow> nat \<Rightarrow> nat" where
  "first_after now t d = (if now < t then t else t + ((now - t) div d + 1) * d)"

lemma first_after_least:
  assumes "0 < d"
  shows "now < first_after now t d" and "\<exists>k. first_after now t d = t + k * d"
    and "now < t + k * d \<Longrightarrow> first_after now t d \<le> t + k * d"
proof -
  have "now - t < ((now - t) div d + 1) * d" using dividend_less_div_times [OF assms, of "now - t"] by simp
  then show "now < first_after now t d" by (auto simp: first_after_def)
  show "\<exists>k. first_after now t d = t + k * d"
    by (cases "now < t") (auto simp: first_after_def intro: exI [of _ 0] exI [of _ "(now - t) div d + 1"])
  show "first_after now t d \<le> t + k * d" if "now < t + k * d"
  proof (cases "now < t")
    case False
    then have "(now - t) div d < k" using that by (intro less_mult_imp_div_less) simp
    then have "((now - t) div d + 1) * d \<le> k * d" by (intro mult_le_mono1) simp
    then show ?thesis using False by (simp add: first_after_def)
  qed (simp add: first_after_def)
qed

lemma advance_fire_spec:
  assumes "0 < d" and "now + d < 2 ^ 64"
  shows "advance_fire t now d = Some (first_after now t d)"
proof (induction "now + 1 - t" arbitrary: t rule: less_induct)
  case less
  show ?case
  proof (cases "t \<le> now")
    case True
    have "advance_fire t now d = advance_fire (t + d) now d"
      using True assms(2) by (subst advance_fire.simps) (simp add: mod_less)
    also have "\<dots> = Some (first_after now (t + d) d)" using True assms(1) by (intro less) simp
    also have "first_after now (t + d) d = first_after now t d"
    proof (cases "now < t + d")
      case inside: True
      then have "(now - t) div d = 0" using True by simp
      then show ?thesis using True inside by (simp add: first_after_def)
    next
      case False
      then have "(now - t) div d = (now - (t + d)) div d + 1"
        using le_div_geq [of d "now - t"] assms(1) by (simp add: diff_diff_left)
      then show ?thesis using True False by (simp add: first_after_def)
    qed
    finally show ?thesis .
  next
    case False
    then show ?thesis by (subst advance_fire.simps) (simp add: first_after_def)
  qed
qed

text \<open>C14: After a repeating timer has fired, its next fire time is computed by a loop that ends: unless the sum leaves
  64 bits, the result is the first time after the present among the old fire time and its successors at
  distance of the interval. An interval that rounds to 0 ticks halts the program, and a fire time too close to
  \<^verbatim>\<open>LLONG_MAX\<close> becomes \<^verbatim>\<open>LLONG_MAX\<close>.\<close>

theorem next_fire_terminates:
  assumes "w_now w + interval_tsr E iv < 2 ^ 64"
  shows "next_fire_tsr E old iv w =
    (if LLONG_MAX - interval_tsr E iv \<le> old then Some LLONG_MAX
     else if interval_tsr E iv = 0 then None
     else Some (first_after (w_now w) old (interval_tsr E iv))) \<and>
    (0 < interval_tsr E iv \<longrightarrow> w_now w < first_after (w_now w) old (interval_tsr E iv) \<and>
       (\<forall>k. w_now w < old + k * interval_tsr E iv \<longrightarrow> first_after (w_now w) old (interval_tsr E iv) \<le> old + k * interval_tsr E iv))"
  using advance_fire_spec [OF _ assms] first_after_least [of "interval_tsr E iv"]
  by (simp add: next_fire_tsr_def Let_def)

lemma next_fire_terminates_witness: "next_fire_tsr sample_env 30 25 sample_world = Some 105"
proof -
  have i: "interval_tsr sample_env 25 = 25"
    by (simp add: interval_tsr_def sample_env_def TIMER_INTERVAL_LIMIT_def CFTimeIntervalToTSR_def LLONG_MAX_def)
  show ?thesis
    using next_fire_terminates [of sample_world sample_env 25 30]
    by (simp add: i LLONG_MAX_def first_after_def) (simp add: sample_world_def)
qed

end
