(* ===== verification/RunLoopItemTheorems.thy ===== *)
theory RunLoopItemTheorems
  imports RunLoopInvariant RunLoopTimerTheorems
begin

text \<open>What is proved of modes, timers, observers and sources in the worlds the operations reach.\<close>

subsection \<open>A reachable world\<close>

text \<open>A new loop to whose default mode a timer and then an observer was added.\<close>

definition created_world :: world where
  "created_world = CFRunLoopCreate 2 sample_world"

definition timer_world :: world where
  "timer_world = the (CFRunLoopAddTimer sample_env 2 5 kCFRunLoopDefaultMode created_world)"

definition busy_world :: world where
  "busy_world = the (CFRunLoopAddObserver sample_env 2 7 kCFRunLoopDefaultMode timer_world)"

lemma default_not_common [simp]: "kCFRunLoopDefaultMode \<noteq> kCFRunLoopCommonModes"
  by (simp add: kCFRunLoopDefaultMode_def kCFRunLoopCommonModes_def)

lemma good_sample [simp]: "good_env sample_env"
  by (simp add: good_env_def sample_env_def)

lemma fresh_sample [simp]: "fresh_world sample_world"
  by (simp add: fresh_world_def sample_world_def new_loop_def sample_timer_def sample_observer_def)

lemma created_mode: "mode_of created_world 2 kCFRunLoopDefaultMode = Some (new_mode 10 11)"
  by (simp add: created_world_def CFRunLoopCreate_def CFRunLoopFindMode_def world_simps)
    (simp add: mode_of_def sample_world_def new_loop_def upd_loop_def)

lemma created_objects:
  "w_timers created_world t = sample_timer t" "w_observers created_world ob = sample_observer"
  "\<not> CFRunLoopIsDeallocating 2 created_world"
  by (simp_all add: created_world_def CFRunLoopCreate_def CFRunLoopFindMode_def world_simps CFRunLoopIsDeallocating_def new_loop_def)
    (simp_all add: sample_world_def)

lemma created_reachable: "reachable sample_env created_world"
  unfolding created_world_def
  by (rule reachable.step [OF reachable.start [OF fresh_sample]], rule loop_step.create_loop) (simp add: sample_world_def new_loop_def)

lemma timer_added: "CFRunLoopAddTimer sample_env 2 5 kCFRunLoopDefaultMode created_world = Some timer_world"
proof -
  have "CFRunLoopAddTimer sample_env 2 5 kCFRunLoopDefaultMode created_world \<noteq> None"
    using created_objects(3)
    by (simp add: CFRunLoopAddTimer_def add_timer_body_def Let_def created_objects(1) sample_timer_def CFRunLoopFindMode_def created_mode
        CFRepositionTimerInMode_def world_simps new_mode_def CFRunLoopInsertionIndexInTimerArray_def insertion_index_def)
  then show ?thesis unfolding timer_world_def by auto
qed

lemma timer_reachable: "reachable sample_env timer_world"
  using created_reachable loop_step.add_timer [OF timer_added] by (rule reachable.step)

lemma timer_world_eq:
  "timer_world = CFArmNextTimerInMode sample_env 2 kCFRunLoopDefaultMode
     (upd_mode 2 kCFRunLoopDefaultMode (\<lambda>m. m\<lparr>m_timers := Some [5]\<rparr>)
       (upd_timer 5 (\<lambda>t. t\<lparr>t_runLoop := Some 2, t_rlModes := t_rlModes t @ [kCFRunLoopDefaultMode]\<rparr>)
         (upd_mode 2 kCFRunLoopDefaultMode (\<lambda>m. if m_timers m = None then m\<lparr>m_timers := Some []\<rparr> else m) created_world)))"
proof -
  have on: "e_linkedOnOrAfterLion sample_env" by (simp add: sample_env_def)
  show ?thesis
    using timer_added created_objects(3)
    by (simp add: CFRunLoopAddTimer_def add_timer_body_def Let_def created_objects(1) sample_timer_def CFRunLoopFindMode_def created_mode
        CFRepositionTimerInMode_def world_simps new_mode_def CFRunLoopInsertionIndexInTimerArray_def insertion_index_def on list_insert_def)
qed

lemma timer_world_views:
  "timers_at timer_world 2 kCFRunLoopDefaultMode = [5]" "w_timers timer_world 5 = (sample_timer 5)\<lparr>t_runLoop := Some 2, t_rlModes := [kCFRunLoopDefaultMode]\<rparr>"
  "mode_of timer_world 2 n \<noteq> None \<longleftrightarrow> mode_of created_world 2 n \<noteq> None" "w_observers timer_world ob = sample_observer"
  "\<not> CFRunLoopIsDeallocating 2 timer_world"
  using created_objects(3)
  by (simp_all add: timer_world_eq arm_views created_objects world_simps)
    (simp_all add: timers_at_def mode_timers_def world_simps created_mode CFArmNextTimerInMode_def CFRunLoopIsDeallocating_def sample_timer_def
      created_objects(2) created_objects(3) [unfolded CFRunLoopIsDeallocating_def])

lemma observer_added: "CFRunLoopAddObserver sample_env 2 7 kCFRunLoopDefaultMode timer_world = Some busy_world"
proof -
  have "CFRunLoopAddObserver sample_env 2 7 kCFRunLoopDefaultMode timer_world \<noteq> None"
    by (simp add: CFRunLoopAddObserver_def add_observer_body_def Let_def timer_world_views sample_observer_def)
  then show ?thesis unfolding busy_world_def by auto
qed

lemma busy_reachable: "reachable sample_env busy_world"
  using timer_reachable loop_step.add_observer [OF observer_added] by (rule reachable.step)

lemma busy_world_views:
  "observers_at busy_world 2 kCFRunLoopDefaultMode = [7]" "w_observers busy_world 7 = sample_observer\<lparr>o_runLoop := Some 2, o_rlCount := 1\<rparr>"
proof -
  obtain m where m: "mode_of timer_world 2 kCFRunLoopDefaultMode = Some m"
    using timer_world_views(3) [of kCFRunLoopDefaultMode] created_mode by auto
  have none: "observers_at timer_world 2 kCFRunLoopDefaultMode = []"
    by (simp add: timer_world_eq CFArmNextTimerInMode_def observers_at_def world_simps created_mode mode_observers_def new_mode_def arm_mode_def Let_def split: prod.splits)
  define w1 where "w1 = upd_mode 2 kCFRunLoopDefaultMode (\<lambda>m. if m_observers m = None then m\<lparr>m_observers := Some []\<rparr> else m) timer_world"
  have m1: "mode_of w1 2 kCFRunLoopDefaultMode = Some (m\<lparr>m_observers := Some []\<rparr>)"
    using none m by (cases "m_observers m") (simp_all add: w1_def world_simps observers_at_def mode_observers_def)
  then have none1: "observers_at w1 2 kCFRunLoopDefaultMode = []" by (simp add: observers_at_def mode_observers_def)
  have new: "\<not> CFRunLoopContainsObserver sample_env 2 7 kCFRunLoopDefaultMode w1"
    unfolding contains_observer_at [OF default_not_common] none1 by simp
  have found: "snd (CFRunLoopFindMode 2 kCFRunLoopDefaultMode True timer_world) = timer_world"
    using m by (simp add: CFRunLoopFindMode_def)
  have eq: "busy_world = CFRunLoopObserverSchedule 7 2 (upd_mode 2 kCFRunLoopDefaultMode (\<lambda>m. m\<lparr>m_observers := map_option (insert_observer w1 7)
        (m_observers m), m_observerMask := m_observerMask m OR kCFRunLoopEntry\<rparr>) w1)"
    using observer_added [unfolded CFRunLoopAddObserver_def add_observer_body_def Let_def found, folded w1_def,
        unfolded if_not_P [OF new] timer_world_views(4)]
    by (simp add: timer_world_views) (simp add: sample_observer_def)
  have obs: "w_observers w1 x = sample_observer" for x by (simp add: w1_def world_simps timer_world_views)
  show "observers_at busy_world 2 kCFRunLoopDefaultMode = [7]"
    by (simp add: eq CFRunLoopObserverSchedule_def observers_at_def world_simps m1 mode_observers_def insert_observer_def list_insert_def)
  show "w_observers busy_world 7 = sample_observer\<lparr>o_runLoop := Some 2, o_rlCount := 1\<rparr>"
    by (simp add: eq CFRunLoopObserverSchedule_def world_simps obs) (simp add: sample_observer_def)
qed

subsection \<open>Reachable worlds are well formed\<close>

text \<open>C5: In every reachable world a mode's array of timers is ordered by fire time without duplicates, and a timer is in
  the array of a mode exactly when that mode is among the modes it records and the loop is the one it
  records; a timer that records no loop records no mode.\<close>

theorem timers_of_reachable:
  assumes "good_env E" and "reachable E w"
  shows "sorted (map (fire_tsr w) (timers_at w rl n)) \<and> distinct (timers_at w rl n) \<and>
    (t \<in> set (timers_at w rl n) \<longleftrightarrow> t_runLoop (w_timers w t) = Some rl \<and> n \<in> set (t_rlModes (w_timers w t))) \<and>
    (t_runLoop (w_timers w t) = None \<longleftrightarrow> t_rlModes (w_timers w t) = [])"
  using timers_okD [OF timers_inv_okD [OF reachable_inv [OF assms]]] by simp

lemma timers_of_reachable_witness: "t_runLoop (w_timers timer_world 5) = Some 2 \<and> sorted (map (fire_tsr timer_world) [5])"
  using timers_of_reachable [OF good_sample timer_reachable, of 2 kCFRunLoopDefaultMode 5] by (simp add: timer_world_views)

text \<open>C7: In every reachable world a mode's array of observers is ordered by their order without duplicates; an observer in it
  records that loop, has its activities in the mode's mask, and \<^verbatim>\<open>_rlCount\<close> is the number of modes it is in,
  0 for an observer without a loop.\<close>

theorem observers_of_reachable:
  assumes "good_env E" and "reachable E w"
  shows "sorted (map (\<lambda>x. o_order (w_observers w x)) (observers_at w rl n)) \<and> distinct (observers_at w rl n) \<and>
    (ob \<in> set (observers_at w rl n) \<longrightarrow>
       o_runLoop (w_observers w ob) = Some rl \<and> o_activities (w_observers w ob) AND NOT (mask_at w rl n) = 0) \<and>
    (o_runLoop (w_observers w ob) = Some rl \<longrightarrow> o_rlCount (w_observers w ob) = int (card {n. ob \<in> set (observers_at w rl n)}) \<and>
       0 < o_rlCount (w_observers w ob)) \<and>
    (o_runLoop (w_observers w ob) = None \<longrightarrow> o_rlCount (w_observers w ob) = 0)"
proof -
  note D = observers_okD [OF observers_inv_okD [OF reachable_inv [OF assms]]]
  show ?thesis by (intro conjI impI; rule D; assumption?)
qed

lemma observers_of_reachable_witness: "card {n. 7 \<in> set (observers_at busy_world 2 n)} = 1"
  using observers_of_reachable [OF good_sample busy_reachable, of 2 kCFRunLoopDefaultMode 7] by (simp add: busy_world_views)

lemma and_mask:
  fixes a b c :: activity
  assumes "a AND NOT b = 0" and "b AND c = 0"
  shows "a AND c = 0"
  using assms by (simp add: bit_eq_iff bit_simps)

lemma filter_by_key: "sorted (map f xs) \<Longrightarrow> sorted (map f (filter P xs))"
  by (rule sorted_filter)

text \<open>In every reachable world the test of a mode's observer mask skips nothing: with or without it, the observers that run
  are those that want the activity, are valid and are not firing, in ascending order.\<close>

theorem mask_test_skips_nothing:
  assumes "good_env E" and "reachable E w" and "mode_of w rl n \<noteq> None"
  shows "notify E rl n act w = CFRunLoopDoObservers E rl n act w \<and>
    CFRunLoopDoObservers E rl n act w = do_observers_loop E act (collected_observers act (observers_at w rl n) w) w \<and>
    sorted (map (\<lambda>x. o_order (w_observers w x)) (collected_observers act (observers_at w rl n) w))"
proof -
  note D = observers_okD [OF observers_inv_okD [OF reachable_inv [OF assms(1,2)]]]
  obtain m where m: "mode_of w rl n = Some m" using assms(3) by blast
  have run: "CFRunLoopDoObservers E rl n act w = do_observers_loop E act (collected_observers act (observers_at w rl n) w) w"
    by (simp add: CFRunLoopDoObservers_def m observers_at_def mode_observers_def collected_observers_def split: option.splits)
  have "collected_observers act (observers_at w rl n) w = []" if "m_observerMask m AND act = 0"
  proof -
    have "o_activities (w_observers w x) AND act = 0" if "x \<in> set (observers_at w rl n)" for x
      using and_mask [of "o_activities (w_observers w x)" "mask_at w rl n" act] D(4) [OF that] \<open>m_observerMask m AND act = 0\<close>
      by (simp add: mask_at_def m)
    then show ?thesis by (simp add: collected_observers_def filter_empty_conv)
  qed
  then show ?thesis using run D(2) [of rl n] by (auto simp: notify_def m collected_observers_def filter_by_key)
qed

lemma mask_test_skips_nothing_witness:
  "notify sample_env 2 kCFRunLoopDefaultMode kCFRunLoopEntry busy_world =
     do_observers_loop sample_env kCFRunLoopEntry (collected_observers kCFRunLoopEntry [7] busy_world) busy_world"
proof -
  have "mode_of busy_world 2 kCFRunLoopDefaultMode \<noteq> None"
    using busy_world_views(1) by (auto simp: observers_at_def split: option.splits)
  from mask_test_skips_nothing [OF good_sample busy_reachable this] show ?thesis by (simp add: busy_world_views)
qed

end
