(* ===== verification/RunLoopOperationTheorems.thy ===== *)
theory RunLoopOperationTheorems
  imports RunLoopItemTheorems
begin

text \<open>
  What is proved of adding, removing and invalidating: round trips, and when adding to the common modes
  returns.
\<close>

subsection \<open>Adding and removing a timer\<close>

lemma remove1_list_insert: "x \<notin> set xs \<Longrightarrow> remove1 x (list_insert i x xs) = xs"
  using in_set_takeD [of x i xs] by (auto simp: list_insert_def remove1_append)

lemma contains_timer_at:
  "n \<noteq> kCFRunLoopCommonModes \<Longrightarrow>
   CFRunLoopContainsTimer E rl t n w \<longleftrightarrow> t_runLoop (w_timers w t) = Some rl \<and> t \<in> set (timers_at w rl n)"
  by (simp add: CFRunLoopContainsTimer_def timers_at_def mode_timers_def split: option.splits)

text \<open>Adding a timer that has no run loop to a mode makes the mode contain it; removing it again gives back the timers of
  every mode and the timer without a loop.\<close>

theorem add_remove_timer:
  assumes "good_env E" and "reachable E w" and n: "n \<noteq> kCFRunLoopCommonModes"
    and "\<not> CFRunLoopIsDeallocating rl w" and "t_valid (w_timers w t)" and "t_runLoop (w_timers w t) = None"
    and add: "CFRunLoopAddTimer E rl t n w = Some w1"
  shows "\<not> CFRunLoopContainsTimer E rl t n w \<and> CFRunLoopContainsTimer E rl t n w1 \<and>
    (\<exists>w2. CFRunLoopRemoveTimer E rl t n w1 = Some w2 \<and> timers_at w2 = timers_at w \<and>
       t_runLoop (w_timers w2 t) = None \<and> t_rlModes (w_timers w2 t) = [])"
proof -
  have inv: "loops_inv w" by (rule reachable_inv [OF assms(1,2)])
  note D = timers_okD [OF timers_inv_okD [OF inv, of t]]
  have M: "t_rlModes (w_timers w t) = []" using D(5) assms(6) by simp
  have nin: "t \<notin> set (timers_at w rl n)" using D(4) [of t rl n] assms(6) by simp
  note A = add_timer_one [OF inv assms(4) _ n _ add [unfolded CFRunLoopAddTimer_def]]
  have T1: "timers_at w1 = (timers_at w)(rl := (timers_at w rl)
      (n := list_insert (upper_bound (map (fire_tsr w) (timers_at w rl n)) (fire_tsr w t)) t (timers_at w rl n)))"
    and W1: "w_timers w1 = (w_timers w)(t := (w_timers w t)\<lparr>t_runLoop := Some rl, t_rlModes := [n]\<rparr>)"
    using A(3,4) assms(5,6) M by simp_all
  have mem: "t \<in> set (timers_at w1 rl n)" by (simp add: T1)
  from remove_timer_one [OF n mem] obtain w2 where w2: "CFRunLoopRemoveTimer E rl t n w1 = Some w2"
    "w_timers w2 = (w_timers w1)(t := (let ms = removeAll n (t_rlModes (w_timers w1 t)) in
       (w_timers w1 t)\<lparr>t_rlModes := ms, t_runLoop := (if length ms = 0 then None else t_runLoop (w_timers w1 t))\<rparr>))"
    "timers_at w2 = (timers_at w1)(rl := (timers_at w1 rl)(n := remove1 t (timers_at w1 rl n)))"
    unfolding CFRunLoopRemoveTimer_def by blast
  have "timers_at w2 = timers_at w" using nin by (simp add: w2(3) T1 remove1_list_insert)
  then show ?thesis using w2(1,2) mem nin by (simp add: contains_timer_at [OF n] W1 Let_def)
qed

lemma add_remove_timer_witness:
  "CFRunLoopContainsTimer sample_env 2 5 kCFRunLoopDefaultMode timer_world \<and> timers_at created_world 2 kCFRunLoopDefaultMode = [] \<and>
   (\<exists>w2. CFRunLoopRemoveTimer sample_env 2 5 kCFRunLoopDefaultMode timer_world = Some w2 \<and> timers_at w2 = timers_at created_world)"
  using add_remove_timer [OF good_sample created_reachable default_not_common created_objects(3) _ _ timer_added] created_mode
  by (auto simp: created_objects(1) sample_timer_def timers_at_def mode_timers_def new_mode_def)

subsection \<open>Invalidating a timer\<close>

text \<open>Removing never adds a mode to a timer, and keeps it invalid.\<close>

definition shrinks :: "ref \<Rightarrow> world \<Rightarrow> world \<Rightarrow> bool" where
  "shrinks t w w' \<longleftrightarrow> set (t_rlModes (w_timers w' t)) \<subseteq> set (t_rlModes (w_timers w t)) \<and>
     t_valid (w_timers w' t) = t_valid (w_timers w t)"

lemma shrinks_refl: "shrinks t w w"
  by (simp add: shrinks_def)

lemma shrinks_trans: "shrinks t u v \<Longrightarrow> shrinks t v w \<Longrightarrow> shrinks t u w"
  by (auto simp: shrinks_def)

lemma fold_shrinks:
  assumes "\<And>x v v'. f x v = Some v' \<Longrightarrow> shrinks t v v'" and "fold_opt f xs w = Some w'"
  shows "shrinks t w w'"
  using assms(2)
proof (induction xs arbitrary: w)
  case (Cons x xs)
  then obtain v where "f x w = Some v" "fold_opt f xs v = Some w'" by (auto split: Option.bind_splits)
  then show ?case using assms(1) Cons.IH shrinks_trans by blast
qed (simp add: shrinks_refl)

lemma remove_common_shrinks: "shrinks t w (remove_common_item E rl it w)"
  by (simp add: shrinks_def remove_common_item_def world_simps)

lemma remove_timer_body_shrinks:
  assumes rec: "\<And>n v v'. rec (ItemTimer t) n v = Some v' \<Longrightarrow> shrinks t v v'"
    and res: "remove_timer_body E rec rl t n w = Some w'"
  shows "shrinks t w w'"
proof (cases "n = kCFRunLoopCommonModes")
  case True
  show ?thesis
  proof (cases "is_common_item E rl (ItemTimer t) w")
    case common: True
    have "fold_opt (rec (ItemTimer t)) (rl_commonModes (w_loops w rl)) (remove_common_item E rl (ItemTimer t) w) = Some w'"
      using res unfolding remove_timer_body_def if_P [OF True] if_P [OF common] .
    then have "shrinks t (remove_common_item E rl (ItemTimer t) w) w'" by (rule fold_shrinks [rotated]) (rule rec)
    then show ?thesis using remove_common_shrinks shrinks_trans by blast
  next
    case False
    then show ?thesis using res True by (simp add: remove_timer_body_def shrinks_refl)
  qed
next
  case False
  show ?thesis
  proof (cases "t \<in> set (timers_at w rl n)")
    case True
    from remove_timer_one [OF False True, of E rec] res show ?thesis by (auto simp: shrinks_def Let_def)
  next
    case gone: False
    then have "w' = w" using res False
      by (auto simp: remove_timer_body_def timers_at_def mode_timers_def split: option.splits if_splits)
    then show ?thesis by (simp add: shrinks_refl)
  qed
qed

lemma remove_from_common_shrinks:
  "CFRunLoopRemoveItemFromCommonModes d E rl (ItemTimer t) n w = Some w' \<Longrightarrow> shrinks t w w'"
proof (induction d arbitrary: n w w')
  case (Suc d)
  from Suc.prems show ?case using remove_timer_body_shrinks Suc.IH by simp blast
qed simp

lemma remove_timer_shrinks: "CFRunLoopRemoveTimer E rl t n w = Some w' \<Longrightarrow> shrinks t w w'"
  unfolding CFRunLoopRemoveTimer_def remove_item_def
  by (erule remove_timer_body_shrinks [rotated]) (rule remove_from_common_shrinks)

lemma fold_remove_timer:
  assumes "loops_inv w" "good_env E" "kCFRunLoopCommonModes \<notin> set ns" "t_runLoop (w_timers w t) = Some rl \<or> t_rlModes (w_timers w t) = []"
    and "fold_opt (\<lambda>n. CFRunLoopRemoveTimer E rl t n) ns w = Some w'"
  shows "set (t_rlModes (w_timers w' t)) \<subseteq> set (t_rlModes (w_timers w t)) - set ns \<and> loops_inv w'"
  using assms
proof (induction ns arbitrary: w)
  case (Cons n ns)
  then obtain v where v: "CFRunLoopRemoveTimer E rl t n w = Some v" and rest: "fold_opt (\<lambda>n. CFRunLoopRemoveTimer E rl t n) ns v = Some w'"
    by (auto split: Option.bind_splits)
  have inv: "loops_inv v" by (rule preservesD [OF items_preserve(6) [OF Cons.prems(2)] v Cons.prems(1)])
  note D = timers_okD [OF timers_inv_okD [OF Cons.prems(1), of t]] and D' = timers_okD [OF timers_inv_okD [OF inv, of t]]
  have modes: "set (t_rlModes (w_timers v t)) \<subseteq> set (t_rlModes (w_timers w t)) - {n} \<and>
      (t_runLoop (w_timers v t) = Some rl \<or> t_rlModes (w_timers v t) = [])"
  proof (cases "t \<in> set (timers_at w rl n)")
    case True
    have "n \<noteq> kCFRunLoopCommonModes" using Cons.prems(3) by auto
    from remove_timer_one [OF this True, of E "remove_item E rl"] v show ?thesis
      using D(4) [of t rl n] True by (auto simp: CFRunLoopRemoveTimer_def Let_def)
  next
    case False
    then have n: "n \<notin> set (t_rlModes (w_timers w t))" using Cons.prems(4) D(4) [of t rl n] by auto
    have "n \<noteq> kCFRunLoopCommonModes" using Cons.prems(3) by auto
    then have "v = w" using v False
      by (auto simp: CFRunLoopRemoveTimer_def remove_timer_body_def timers_at_def mode_timers_def split: option.splits if_splits)
    then show ?thesis using n Cons.prems(4) by auto
  qed
  from Cons.IH [OF inv Cons.prems(2) _ _ rest] modes Cons.prems(3) show ?case by auto
qed simp

text \<open>A timer that is gone: it is invalid, has no loop and is in no mode of any loop.\<close>

definition timer_gone :: "ref \<Rightarrow> world \<Rightarrow> bool" where
  "timer_gone t w \<longleftrightarrow> \<not> t_valid (w_timers w t) \<and> t_runLoop (w_timers w t) = None \<and> (\<forall>rl n. t \<notin> set (timers_at w rl n))"

lemma gone_not_added: "timer_gone t w \<Longrightarrow> CFRunLoopAddTimer E rl t n w = Some w"
  by (simp add: timer_gone_def CFRunLoopAddTimer_def add_timer_body_def Let_def)

lemma invalidate_gone:
  assumes good: "good_env E" and inv: "loops_inv w" and valid: "t_valid (w_timers w t)"
    and res: "CFRunLoopTimerInvalidate E t w = Some w'"
  shows "\<exists>v. timer_gone t v \<and> w' = release_context E (t_release (w_timers w t)) (ItemTimer t) v"
proof -
  let ?w = "upd_timer t (\<lambda>t. t\<lparr>t_valid := False\<rparr>) w"
  have "keeps w ?w" by (rule keeps_upd_timer) simp_all
  then have inv1: "loops_inv ?w" using keeps_inv inv by blast
  note D = timers_okD [OF timers_inv_okD [OF inv, of t]]
  have "\<exists>v. w' = release_context E (t_release (w_timers w t)) (ItemTimer t) v \<and> loops_inv v \<and> t_rlModes (w_timers v t) = [] \<and>
    \<not> t_valid (w_timers v t)"
  proof (cases "t_runLoop (w_timers w t)")
    case None
    have "w' = release_context E (t_release (w_timers w t)) (ItemTimer t) ?w" using res valid None
      by (simp add: CFRunLoopTimerInvalidate_def Let_def)
    moreover have "t_rlModes (w_timers ?w t) = []" "\<not> t_valid (w_timers ?w t)" using None D(5) [of t] by (simp_all add: world_simps)
    ultimately show ?thesis using inv1 by blast
  next
    case (Some rl)
    then obtain u v where u: "fold_opt (\<lambda>n. CFRunLoopRemoveTimer E rl t n) (t_rlModes (w_timers w t)) ?w = Some u"
      and v: "CFRunLoopRemoveTimer E rl t kCFRunLoopCommonModes u = Some v"
      and w': "w' = release_context E (t_release (w_timers w t)) (ItemTimer t) v"
      using res valid by (auto simp: CFRunLoopTimerInvalidate_def Let_def split: Option.bind_splits)
    have "t_runLoop (w_timers ?w t) = Some rl" using Some by (simp add: world_simps)
    from fold_remove_timer [OF inv1 good D(7) _ u] this
    have "t_rlModes (w_timers u t) = []" "loops_inv u" by (simp_all add: world_simps)
    moreover have "loops_inv v" by (rule preservesD [OF items_preserve(6) [OF good] v \<open>loops_inv u\<close>])
    moreover have "shrinks t ?w u" by (rule fold_shrinks [OF remove_timer_shrinks u])
    moreover have "shrinks t u v" by (rule remove_timer_shrinks [OF v])
    ultimately show ?thesis using w' by (auto simp: shrinks_def world_simps)
  qed
  then obtain v where v: "w' = release_context E (t_release (w_timers w t)) (ItemTimer t) v" "loops_inv v"
    "t_rlModes (w_timers v t) = []" "\<not> t_valid (w_timers v t)" by blast
  note D' = timers_okD [OF timers_inv_okD [OF v(2), of t]]
  have "timer_gone t v" using v(3,4) D'(4) D'(5) [of t] by (simp add: timer_gone_def)
  then show ?thesis using v(1) by blast
qed

text \<open>C15: Invalidating any valid timer of a reachable world takes it out of every mode of every loop, and leaves it invalid and
  without a loop, so that no operation adds it again. Where the timer has no release callback the operation ends there; where
  it has one, as every timer made from a block has, the callback runs once on the world in which the timer is gone, and
  nothing is called after it.\<close>

theorem invalidated_timer_is_gone:
  assumes "good_env E" and "reachable E w" and valid: "t_valid (w_timers w t)"
    and res: "CFRunLoopTimerInvalidate E t w = Some w'"
  shows "\<exists>v. timer_gone t v \<and> (\<forall>rl n. CFRunLoopAddTimer E rl t n v = Some v) \<and>
    w' = (if t_release (w_timers w t) then callout E (Released (ItemTimer t)) v else v)"
proof -
  obtain v where "timer_gone t v" "w' = release_context E (t_release (w_timers w t)) (ItemTimer t) v"
    using invalidate_gone [OF assms(1) reachable_inv [OF assms(1,2)] assms(3,4)] by blast
  then show ?thesis using gone_not_added by (auto simp: release_context_def)
qed

lemma timer_world_common: "rl_commonModeItems (w_loops timer_world 2) = None"
proof -
  have "rl_commonModeItems (w_loops created_world 2) = None"
    by (simp add: created_world_def CFRunLoopCreate_def CFRunLoopFindMode_def world_simps new_loop_def)
  then show ?thesis by (simp add: timer_world_eq CFArmNextTimerInMode_def world_simps)
qed

lemma timer_invalidated: "CFRunLoopTimerInvalidate sample_env 5 timer_world \<noteq> None"
proof -
  let ?w = "upd_timer 5 (\<lambda>t. t\<lparr>t_valid := False\<rparr>) timer_world"
  have mem: "5 \<in> set (timers_at ?w 2 kCFRunLoopDefaultMode)" using timer_world_views(1) by (simp add: timers_at_def world_simps)
  obtain v where v: "CFRunLoopRemoveTimer sample_env 2 5 kCFRunLoopDefaultMode ?w = Some v" "common_view v = common_view ?w"
    using remove_timer_one [OF default_not_common mem] unfolding CFRunLoopRemoveTimer_def by blast
  from fun_cong [OF v(2), of 2] have "rl_commonModeItems (w_loops v 2) = None"
    by (simp add: common_view_def world_simps timer_world_common)
  then have "CFRunLoopRemoveTimer sample_env 2 5 kCFRunLoopCommonModes v = Some v"
    by (simp add: CFRunLoopRemoveTimer_def remove_timer_body_def is_common_item_def)
  then show ?thesis using v(1)
    by (simp add: CFRunLoopTimerInvalidate_def Let_def timer_world_views sample_timer_def)
qed

lemma invalidated_timer_is_gone_witness:
  "\<exists>w'. CFRunLoopTimerInvalidate sample_env 5 timer_world = Some w' \<and> 5 \<in> set (timers_at timer_world 2 kCFRunLoopDefaultMode) \<and>
     timer_gone 5 w'"
proof -
  obtain w' where w': "CFRunLoopTimerInvalidate sample_env 5 timer_world = Some w'" using timer_invalidated by blast
  from invalidated_timer_is_gone [OF good_sample timer_reachable _ w'] w' show ?thesis
    by (auto simp: timer_world_views sample_timer_def)
qed

subsection \<open>Adding to the common modes\<close>

lemma fold_opt_never:
  assumes keep: "\<And>x v v'. P v \<Longrightarrow> f x v = Some v' \<Longrightarrow> P v'" and never: "\<And>v. P v \<Longrightarrow> f c v = None"
    and "P w" and "c \<in> set xs"
  shows "fold_opt f xs w = None"
  using assms(3,4)
proof (induction xs arbitrary: w)
  case (Cons x xs)
  show ?case
  proof (cases "f x w")
    case (Some v)
    then have "x \<noteq> c" using never [OF Cons.prems(1)] by auto
    then show ?thesis using Some Cons.IH [OF keep [OF Cons.prems(1) Some]] Cons.prems(2) by simp
  qed simp
qed simp

text \<open>The timer can be added to the loop, which has the name \<^verbatim>\<open>kCFRunLoopCommonModes\<close> among its common modes.\<close>

definition common_trap :: "ref \<Rightarrow> ref \<Rightarrow> world \<Rightarrow> bool" where
  "common_trap rl t w \<longleftrightarrow> loops_inv w \<and> kCFRunLoopCommonModes \<in> set (rl_commonModes (w_loops w rl)) \<and>
     \<not> CFRunLoopIsDeallocating rl w \<and> t_valid (w_timers w t) \<and>
     (t_runLoop (w_timers w t) = None \<or> t_runLoop (w_timers w t) = Some rl)"

lemma common_viewD:
  assumes "common_view w' = common_view w"
  shows "rl_commonModes (w_loops w' rl) = rl_commonModes (w_loops w rl)"
    and "CFRunLoopIsDeallocating rl w' = CFRunLoopIsDeallocating rl w"
  using fun_cong [OF assms, of rl] by (simp_all add: common_view_def CFRunLoopIsDeallocating_def)

lemma common_trap_add_common: "common_trap rl t w \<Longrightarrow> common_trap rl t (add_common_item E rl it w)"
  by (simp add: common_trap_def) (simp add: add_common_item_def world_simps CFRunLoopIsDeallocating_def)

lemma add_timer_twice:
  assumes "\<not> CFRunLoopIsDeallocating rl w" "n \<noteq> kCFRunLoopCommonModes"
    "\<not> (\<not> t_valid (w_timers w t) \<or> (t_runLoop (w_timers w t) \<noteq> None \<and> t_runLoop (w_timers w t) \<noteq> Some rl))"
    "n \<in> set (t_rlModes (w_timers w t))"
  shows "add_timer_body E rec rl t n w = Some (timer_mode rl n w)"
  unfolding add_timer_body_def Let_def if_not_P [OF assms(1)] if_not_P [OF assms(3)] if_not_P [OF assms(2)] if_P [OF assms(4)]
    timer_mode_def ..

lemma timer_mode_common [simp]: "common_view (timer_mode rl n w) = common_view w"
  by (simp add: timer_mode_def)

lemma common_trap_one:
  assumes trap: "common_trap rl t w" and n: "n \<noteq> kCFRunLoopCommonModes" and res: "add_timer_body E rec rl t n w = Some w'"
    and inv: "loops_inv w'"
  shows "common_trap rl t w'"
proof (cases "n \<in> set (t_rlModes (w_timers w t))")
  case True
  then have "w' = timer_mode rl n w" using add_timer_twice [OF _ n _ True] trap res by (auto simp: common_trap_def)
  then show ?thesis using trap inv common_viewD [OF timer_mode_common [of rl n w], of rl]
    by (simp add: common_trap_def timer_mode_props(4))
next
  case False
  have "\<not> CFRunLoopIsDeallocating rl w" using trap by (simp add: common_trap_def)
  from add_timer_one [OF _ this _ n False res] trap
  have A: "w_timers w' = (w_timers w)(t := (w_timers w t)\<lparr>t_runLoop := Some rl, t_rlModes := t_rlModes (w_timers w t) @ [n]\<rparr>)"
    "common_view w' = common_view w" by (auto simp: common_trap_def)
  then show ?thesis using trap inv common_viewD [OF A(2), of rl] by (simp add: common_trap_def)
qed

lemma common_trap_body:
  assumes "common_trap rl t w"
  shows "add_timer_body E rec rl t kCFRunLoopCommonModes w =
    fold_opt (rec (ItemTimer t)) (rl_commonModes (w_loops w rl)) (add_common_item E rl (ItemTimer t) w)"
proof -
  have g: "\<not> CFRunLoopIsDeallocating rl w"
    "\<not> (\<not> t_valid (w_timers w t) \<or> (t_runLoop (w_timers w t) \<noteq> None \<and> t_runLoop (w_timers w t) \<noteq> Some rl))"
    using assms by (auto simp: common_trap_def)
  show ?thesis unfolding add_timer_body_def Let_def if_not_P [OF g(1)] if_not_P [OF g(2)] if_P [OF refl] ..
qed

lemma common_recursion:
  assumes good: "good_env E" and "common_trap rl t w"
  shows "CFRunLoopAddItemToCommonModes d E rl (ItemTimer t) kCFRunLoopCommonModes w = None"
  using assms(2)
proof (induction d arbitrary: w)
  case (Suc d)
  let ?rec = "CFRunLoopAddItemToCommonModes d E rl"
  have keep: "common_trap rl t v'" if "common_trap rl t v" "?rec (ItemTimer t) n v = Some v'" for n v v'
  proof (cases d)
    case (Suc c)
    have "n \<noteq> kCFRunLoopCommonModes" using that Suc.IH by auto
    moreover have "loops_inv v'"
      using preservesD [OF add_to_common_preserves [OF good] that(2)] that(1) by (simp add: common_trap_def)
    ultimately show ?thesis using that Suc common_trap_one [OF that(1)] by simp
  qed (use that in simp)
  have "kCFRunLoopCommonModes \<in> set (rl_commonModes (w_loops w rl))" using Suc.prems by (simp add: common_trap_def)
  then have "fold_opt (?rec (ItemTimer t)) (rl_commonModes (w_loops w rl)) (add_common_item E rl (ItemTimer t) w) = None"
    by (intro fold_opt_never [where P = "common_trap rl t" and c = kCFRunLoopCommonModes])
      (use keep Suc.IH common_trap_add_common [OF Suc.prems] in auto)
  then show ?case using common_trap_body [OF Suc.prems] by simp
qed simp

text \<open>C16: When \<^verbatim>\<open>kCFRunLoopCommonModes\<close> itself was made a common mode of a loop, adding a valid timer of that loop, or of none,
  to the common modes never returns: for every size of the stack the recursion through
  \<^verbatim>\<open>__CFRunLoopAddItemToCommonModes\<close> uses it up. Nothing in \<^verbatim>\<open>CFRunLoopAddCommonMode\<close> rejects that name.\<close>

theorem common_mode_recursion:
  assumes "good_env E" and "reachable E w" and "\<not> CFRunLoopIsDeallocating rl w" and "rl_commonModeItems (w_loops w rl) = None"
    and "t_valid (w_timers w t)" and "t_runLoop (w_timers w t) = None"
  shows "\<exists>w1. CFRunLoopAddCommonMode E rl kCFRunLoopCommonModes w = Some w1 \<and>
    CFRunLoopAddTimer E rl t kCFRunLoopCommonModes w1 = None"
proof -
  obtain w1 where w1: "CFRunLoopAddCommonMode E rl kCFRunLoopCommonModes w = Some w1"
    and common: "kCFRunLoopCommonModes \<in> set (rl_commonModes (w_loops w1 rl))" and same: "w_timers w1 = w_timers w"
    and "rl_deallocating (w_loops w1 rl) = rl_deallocating (w_loops w rl)"
    using assms(3,4) by (cases "kCFRunLoopCommonModes \<in> set (rl_commonModes (w_loops w rl))")
      (auto simp: CFRunLoopAddCommonMode_def Let_def world_simps)
  moreover have "loops_inv w1"
    by (rule preservesD [OF add_common_mode_preserves [OF assms(1)] w1 reachable_inv [OF assms(1,2)]])
  ultimately have trap: "common_trap rl t w1"
    using assms(3,5,6) by (simp add: common_trap_def CFRunLoopIsDeallocating_def)
  have "CFRunLoopAddItemToCommonModes (Suc (e_stack E)) E rl (ItemTimer t) kCFRunLoopCommonModes w1 = None"
    by (rule common_recursion [OF assms(1) trap])
  then show ?thesis using w1 by (simp add: CFRunLoopAddTimer_def add_item_def)
qed

lemma common_mode_recursion_witness:
  "\<exists>w1. CFRunLoopAddCommonMode sample_env 2 kCFRunLoopCommonModes timer_world = Some w1 \<and>
     CFRunLoopAddTimer sample_env 2 6 kCFRunLoopCommonModes w1 = None"
proof -
  have "w_timers timer_world 6 = sample_timer 6"
    by (simp add: timer_world_eq world_simps created_objects)
  then show ?thesis
    using common_mode_recursion [OF good_sample timer_reachable timer_world_views(5) timer_world_common, of 6]
    by (simp add: sample_timer_def)
qed

end
