(* ===== verification/RunLoopSourceTheorems.thy ===== *)
theory RunLoopSourceTheorems
  imports RunLoopOperationTheorems
begin

text \<open>What is proved of sources: equality, membership in a mode, and the map from ports to sources.\<close>

subsection \<open>Equality of sources\<close>

text \<open>When the user's equality callbacks are equivalence relations, \<^verbatim>\<open>__CFRunLoopSourceEqual\<close> is one, as the sets of
  sources of a mode require.\<close>

theorem source_equal_equivalence:
  assumes "\<And>f. equivp (e_equal E f)"
  shows "equivp (CFRunLoopSourceEqual E w)"
proof (rule equivpI)
  have refl: "e_equal E f x x" for f x using assms [of f] by (simp add: equivp_reflp)
  have sym: "e_equal E f x y \<Longrightarrow> e_equal E f y x" for f x y using assms [of f] by (rule equivp_symp)
  have trans: "e_equal E f x y \<Longrightarrow> e_equal E f y z \<Longrightarrow> e_equal E f x z" for f x y z using assms [of f] by (rule equivp_transp)
  let ?same = "\<lambda>x y. s_valid x = s_valid y \<and> s_order x = s_order y \<and> s_version x = s_version y \<and> s_hash x = s_hash y \<and>
      s_equal x = s_equal y \<and> (s_version x = 0 \<or> s_version x = 1 \<longrightarrow> s_perform x = s_perform y) \<and>
      (case s_equal x of Some f \<Rightarrow> e_equal E f (s_info x) (s_info y) | None \<Rightarrow> s_info x = s_info y)"
  have eq: "CFRunLoopSourceEqual E w a b \<longleftrightarrow> a = b \<or> ?same (w_sources w a) (w_sources w b)" for a b
    by (auto simp: CFRunLoopSourceEqual_def Let_def split: option.splits)
  show "reflp (CFRunLoopSourceEqual E w)" by (rule reflpI) (simp add: eq)
  show "symp (CFRunLoopSourceEqual E w)"
    by (rule sympI) (auto simp: eq intro: sym split: option.splits)
  show "transp (CFRunLoopSourceEqual E w)"
  proof (rule transpI)
    fix a b c assume "CFRunLoopSourceEqual E w a b" "CFRunLoopSourceEqual E w b c"
    then show "CFRunLoopSourceEqual E w a c"
      unfolding eq by (elim disjE) (simp_all split: option.splits, auto intro: trans)
  qed
qed

lemma source_equal_equivalence_witness: "equivp (CFRunLoopSourceEqual sample_env sample_world)"
proof (rule source_equal_equivalence)
  show "equivp (e_equal sample_env f)" for f by (simp add: sample_env_def identity_equivp)
qed

subsection \<open>Membership\<close>

lemma source_equal_cong:
  assumes "\<And>x. (s_valid (w_sources w' x), s_order (w_sources w' x), s_version (w_sources w' x), s_hash (w_sources w' x)) =
                 (s_valid (w_sources w x), s_order (w_sources w x), s_version (w_sources w x), s_hash (w_sources w x))"
    and "\<And>x. (s_equal (w_sources w' x), s_perform (w_sources w' x), s_info (w_sources w' x)) =
                 (s_equal (w_sources w x), s_perform (w_sources w x), s_info (w_sources w x))"
  shows "CFRunLoopSourceEqual E w' = CFRunLoopSourceEqual E w"
proof -
  have *: "s_valid (w_sources w' x) = s_valid (w_sources w x)" "s_order (w_sources w' x) = s_order (w_sources w x)"
      "s_version (w_sources w' x) = s_version (w_sources w x)" "s_hash (w_sources w' x) = s_hash (w_sources w x)"
      "s_equal (w_sources w' x) = s_equal (w_sources w x)" "s_perform (w_sources w' x) = s_perform (w_sources w x)"
      "s_info (w_sources w' x) = s_info (w_sources w x)" for x
    using assms [of x] by simp_all
  show ?thesis unfolding CFRunLoopSourceEqual_def Let_def * ..
qed

lemma source_equal_same:
  "CFRunLoopSourceEqual E (upd_mode rl n f w) = CFRunLoopSourceEqual E w"
  "CFRunLoopSourceEqual E (upd_source s (add_run_loop rl) w) = CFRunLoopSourceEqual E w"
  "CFRunLoopSourceEqual E (upd_source s (remove_run_loop rl) w) = CFRunLoopSourceEqual E w"
  "CFRunLoopSourceEqual E (snd (CFRunLoopFindMode rl n c w)) = CFRunLoopSourceEqual E w"
  by (rule source_equal_cong; simp add: world_simps add_run_loop_def remove_run_loop_def)+

lemma source_equal_refl: "CFRunLoopSourceEqual E w s s"
  by (simp add: CFRunLoopSourceEqual_def)

lemma contains_source_mode:
  "n \<noteq> kCFRunLoopCommonModes \<Longrightarrow> mode_of w rl n = Some m \<Longrightarrow>
   CFRunLoopContainsSource E rl s n w \<longleftrightarrow> in_sources E w s (m_sources0 m) \<or> in_sources E w s (m_sources1 m)"
  by (simp add: CFRunLoopContainsSource_def)

lemma in_sources_added: "in_sources E w s (Some (set_add (CFRunLoopSourceEqual E w) xs s))"
  by (auto simp: in_sources_def set_add_def set_contains_def list_ex_iff source_equal_refl)

lemma in_sources_removed: "\<not> in_sources E w s (map_option (\<lambda>xs. set_remove (CFRunLoopSourceEqual E w) xs s) ys)"
  by (auto simp: in_sources_def set_remove_def set_contains_def list_ex_iff split: option.splits)

text \<open>Adding a valid source of version 0 or 1 to a mode makes the mode contain it, and a new source of version 1 is found by
  its port, which is in the mode's port set; removing the source makes the mode not contain it and the port
  find nothing. (The sets of sources of the mode exist together; the source has no schedule and no cancel
  callback.)\<close>

theorem source_roundtrip:
  assumes n: "n \<noteq> kCFRunLoopCommonModes" and live: "\<not> CFRunLoopIsDeallocating rl w"
    and src: "s_valid (w_sources w s)" "s_version (w_sources w s) = 0 \<or> s_version (w_sources w s) = 1"
      "s_schedule (w_sources w s) = None" "s_cancel (w_sources w s) = None"
    and sets: "\<And>m. mode_of w rl n = Some m \<Longrightarrow> m_sources0 m = None \<longleftrightarrow> m_sources1 m = None"
    and new: "\<not> CFRunLoopContainsSource E rl s n w"
  shows "\<exists>w1 w2. CFRunLoopAddSource E rl s n w = Some w1 \<and> CFRunLoopContainsSource E rl s n w1 \<and>
    CFRunLoopRemoveSource E rl s n w1 = Some w2 \<and> \<not> CFRunLoopContainsSource E rl s n w2 \<and>
    (s_version (w_sources w s) = 1 \<and> s_port (w_sources w s) \<noteq> 0 \<longrightarrow>
       CFRunLoopModeFindSourceForMachPort rl n (s_port (w_sources w s)) w1 = Some s \<and>
       CFRunLoopModeFindSourceForMachPort rl n (s_port (w_sources w s)) w2 = None)"
proof -
  let ?p = "s_port (w_sources w s)"
  define v where "v = upd_mode rl n make_sources (snd (CFRunLoopFindMode rl n True w))"
  have eqv: "CFRunLoopSourceEqual E v = CFRunLoopSourceEqual E w" by (simp add: v_def source_equal_same)
  have sv: "w_sources v = w_sources w" by (simp add: v_def world_simps)
  obtain y where y: "mode_of (snd (CFRunLoopFindMode rl n True w)) rl n = Some y" using find_mode_exists by blast
  have both: "m_sources0 y = None \<longleftrightarrow> m_sources1 y = None"
    using y sets by (auto simp: find_mode_of new_mode_def split: if_splits)
  define m where "m = make_sources y"
  have m: "mode_of v rl n = Some m" using y by (simp add: v_def m_def world_simps)
  obtain xs0 xs1 where xs: "m_sources0 m = Some xs0" "m_sources1 m = Some xs1"
    using both by (cases "m_sources0 y"; cases "m_sources1 y") (auto simp: m_def make_sources_def)
  have eqs: "in_sources E v s = in_sources E w s" by (simp add: fun_eq_iff in_sources_def eqv split: option.splits)
  have notin: "\<not> in_sources E w s (m_sources0 m)" "\<not> in_sources E w s (m_sources1 m)"
  proof -
    have "\<not> in_sources E w s (m_sources0 y) \<and> \<not> in_sources E w s (m_sources1 y)"
    proof (cases "mode_of w rl n")
      case None
      then show ?thesis using y by (auto simp: find_mode_of new_mode_def in_sources_def)
    next
      case (Some z)
      then show ?thesis using y new contains_source_mode [OF n Some] by (simp add: find_mode_of)
    qed
    then show "\<not> in_sources E w s (m_sources0 m)" "\<not> in_sources E w s (m_sources1 m)"
      by (auto simp: m_def make_sources_def in_sources_def set_contains_def)
  qed
  define w1 where "w1 = upd_source s (add_run_loop rl) (upd_mode rl n (insert_source E v s) v)"
  have notv: "\<not> CFRunLoopContainsSource E rl s n v" using contains_source_mode [OF n m] notin by (simp add: eqs)
  have add: "CFRunLoopAddSource E rl s n w = Some w1"
    using n live src notv by (simp add: CFRunLoopAddSource_def add_source_body_def Let_def v_def [symmetric] w1_def)
  have eq1: "CFRunLoopSourceEqual E w1 = CFRunLoopSourceEqual E w" by (simp add: w1_def source_equal_same eqv)
  define m1 where "m1 = insert_source E v s m"
  have m1: "mode_of w1 rl n = Some m1" using m by (simp add: w1_def m1_def world_simps)
  have s1: "w_sources w1 s = add_run_loop rl (w_sources w s)" by (simp add: w1_def world_simps sv)
  have in1: "in_sources E w1 s = in_sources E w s" by (simp add: fun_eq_iff in_sources_def eq1 split: option.splits)
  have has1: "CFRunLoopContainsSource E rl s n w1"
    unfolding contains_source_mode [OF n m1] in1
    using src(2) xs in_sources_added [of E w s] by (auto simp: m1_def insert_source_def Let_def sv eqv)
  define w2 where "w2 = upd_source s (remove_run_loop rl) (upd_mode rl n (delete_source E w1 s) w1)"
  have del: "CFRunLoopRemoveSource E rl s n w1 = Some w2"
    using n has1 src s1 by (simp add: CFRunLoopRemoveSource_def remove_source_body_def Let_def w2_def add_run_loop_def)
  have eq2: "CFRunLoopSourceEqual E w2 = CFRunLoopSourceEqual E w1" by (simp add: w2_def source_equal_same)
  have m2: "mode_of w2 rl n = Some (delete_source E w1 s m1)" using m1 by (simp add: w2_def world_simps)
  have in2: "in_sources E w2 s = in_sources E w1 s" by (simp add: fun_eq_iff in_sources_def eq2 split: option.splits)
  have gone: "\<not> CFRunLoopContainsSource E rl s n w2"
    unfolding contains_source_mode [OF n m2] in2 by (simp add: delete_source_def Let_def in_sources_removed)
  have "CFRunLoopModeFindSourceForMachPort rl n ?p w1 = Some s \<and> CFRunLoopModeFindSourceForMachPort rl n ?p w2 = None"
    if "s_version (w_sources w s) = 1" "?p \<noteq> 0"
    using that s1 by (simp add: CFRunLoopModeFindSourceForMachPort_def m1 m2 m1_def insert_source_def delete_source_def Let_def sv add_run_loop_def)
  then show ?thesis using add has1 del gone by blast
qed

lemma source_roundtrip_witness:
  "\<exists>w1. CFRunLoopAddSource sample_env 2 4 kCFRunLoopDefaultMode created_world = Some w1 \<and>
     CFRunLoopContainsSource sample_env 2 4 kCFRunLoopDefaultMode w1"
proof -
  have s: "w_sources created_world 4 = sample_source\<lparr>s_order := -4\<rparr>"
    by (simp add: created_world_def CFRunLoopCreate_def CFRunLoopFindMode_def world_simps) (simp add: sample_world_def)
  have no: "\<not> CFRunLoopContainsSource sample_env 2 4 kCFRunLoopDefaultMode created_world"
    unfolding contains_source_mode [OF default_not_common created_mode] by (simp add: in_sources_def new_mode_def)
  show ?thesis
    using source_roundtrip [OF default_not_common created_objects(3) _ _ _ _ _ no] s created_mode
    by (auto simp: sample_source_def new_mode_def)
qed

end
