(* ===== verification/RunLoopRunTheorems.thy ===== *)
theory RunLoopRunTheorems
  imports RunLoopSourceTheorems
begin

text \<open>What is proved of running a loop: the callouts of a pass and their order, and when a run ends.\<close>

subsection \<open>Blocks\<close>

lemma do_blocks_loop_eq:
  assumes quiet: "\<And>ev w. rl_commonModes (w_loops (e_callout E ev w) rl) = rl_commonModes (w_loops w rl)"
  shows "do_blocks_loop E rl n bs did w =
    (filter (\<lambda>(bm, b). \<not> block_matches (rl_commonModes (w_loops w rl)) n bm) bs,
     did \<or> list_ex (\<lambda>(bm, b). block_matches (rl_commonModes (w_loops w rl)) n bm) bs,
     fold (\<lambda>(bm, b). callout E (BlockRun b)) (filter (\<lambda>(bm, b). block_matches (rl_commonModes (w_loops w rl)) n bm) bs) w)"
proof (induction bs arbitrary: did w)
  case (Cons x bs)
  obtain bm b where x: "x = (bm, b)" by (cases x)
  have same: "rl_commonModes (w_loops (callout E (BlockRun b) w) rl) = rl_commonModes (w_loops w rl)"
    unfolding callout_def quiet by (simp add: world_simps)
  show ?case
    by (cases "block_matches (rl_commonModes (w_loops w rl)) n bm") (simp_all add: x Cons.IH same)
qed simp

lemma do_blocks_eq:
  assumes "\<And>ev w. rl_commonModes (w_loops (e_callout E ev w) rl) = rl_commonModes (w_loops w rl)"
  shows "CFRunLoopDoBlocks E rl n w =
    (let blocks = rl_blocks (w_loops w rl);
         matches = (\<lambda>(bm, b). block_matches (rl_commonModes (w_loops w rl)) n bm);
         w' = fold (\<lambda>(bm, b). callout E (BlockRun b)) (filter matches blocks) (upd_loop rl (\<lambda>r. r\<lparr>rl_blocks := []\<rparr>) w) in
     if blocks = [] then (False, w)
     else (list_ex matches blocks, upd_loop rl (\<lambda>r. r\<lparr>rl_blocks := filter (Not \<circ> matches) blocks @ rl_blocks r\<rparr>) w'))"
proof (cases "rl_blocks (w_loops w rl) = []")
  case False
  have same: "rl_commonModes (w_loops (upd_loop rl (\<lambda>r. r\<lparr>rl_blocks := []\<rparr>) w) rl) = rl_commonModes (w_loops w rl)"
    by (simp add: world_simps)
  have neg: "Not \<circ> (\<lambda>(bm, b). P bm) = (\<lambda>(bm, b). \<not> P bm)" for P :: "block_mode \<Rightarrow> bool" by auto
  show ?thesis using False
    unfolding CFRunLoopDoBlocks_def Let_def do_blocks_loop_eq [OF assms] same neg by simp
qed (simp add: CFRunLoopDoBlocks_def)

text \<open>C11: \<^verbatim>\<open>__CFRunLoopDoBlocks\<close> runs exactly the queued blocks whose modes match, in the order of the queue, and the others stay
  queued in their order in front of what was queued meanwhile; the result tells whether a block ran. (The
  blocks do not change the set of common modes.)\<close>

theorem do_blocks_correct:
  assumes "\<And>ev w. rl_commonModes (w_loops (e_callout E ev w) rl) = rl_commonModes (w_loops w rl)"
  shows "CFRunLoopDoBlocks E rl n w =
    (let blocks = rl_blocks (w_loops w rl);
         matches = (\<lambda>(bm, b). block_matches (rl_commonModes (w_loops w rl)) n bm);
         w' = fold (\<lambda>(bm, b). callout E (BlockRun b)) (filter matches blocks) (upd_loop rl (\<lambda>r. r\<lparr>rl_blocks := []\<rparr>) w) in
     if blocks = [] then (False, w)
     else (list_ex matches blocks, upd_loop rl (\<lambda>r. r\<lparr>rl_blocks := filter (Not \<circ> matches) blocks @ rl_blocks r\<rparr>) w'))"
  by (rule do_blocks_eq [OF assms])

lemma do_blocks_correct_witness:
  "fst (CFRunLoopDoBlocks sample_env 2 kCFRunLoopDefaultMode
     (CFRunLoopPerformBlock 2 (ArgString kCFRunLoopDefaultMode) (Some 9) created_world))"
proof -
  have q: "rl_blocks (w_loops (CFRunLoopPerformBlock 2 (ArgString kCFRunLoopDefaultMode) (Some 9) created_world) 2) =
      [(ModeName kCFRunLoopDefaultMode, 9)]"
    by (simp add: CFRunLoopPerformBlock_def Let_def mode_arg_names_def block_mode_of_def CFRunLoopFindMode_def created_mode world_simps)
      (simp add: created_world_def CFRunLoopCreate_def CFRunLoopFindMode_def world_simps new_loop_def)
  have "rl_commonModes (w_loops (e_callout sample_env ev w) 2) = rl_commonModes (w_loops w 2)" for ev w
    by (simp add: sample_env_def)
  from do_blocks_correct [OF this, of kCFRunLoopDefaultMode "CFRunLoopPerformBlock 2 (ArgString kCFRunLoopDefaultMode) (Some 9) created_world"]
  show ?thesis by (simp add: q Let_def block_matches_def)
qed

subsection \<open>Sources of version 0\<close>

interpretation source_order: compare_sym "CFRunLoopSourceComparator w" for w
  by unfold_locales (auto simp: CFRunLoopSourceComparator_def split: if_splits)

lemma comparator_le: "source_order.le w x y \<longleftrightarrow> s_order (w_sources w x) \<le> s_order (w_sources w y)"
  by (simp add: source_order.le_def CFRunLoopSourceComparator_def)

lemma comparator_same: "source_order.same w x y \<longleftrightarrow> s_order (w_sources w x) = s_order (w_sources w y)"
  by (auto simp: source_order.same_def comparator_le)

lemma sort_sources:
  assumes "length xs \<le> (2 ^ 63 - 1) div 8"
  shows "CFQSortArray xs (length xs) (CFRunLoopSourceComparator w) = Some (sort_key (\<lambda>s. s_order (w_sources w s)) xs)"
proof -
  let ?ys = "msort (CFRunLoopSourceComparator w) xs"
  have "CFQSortArray xs (length xs) (CFRunLoopSourceComparator w) = Some ?ys"
    using qsort_spec [OF order_refl assms] by (simp add: put_def)
  moreover have "sort_key (\<lambda>s. s_order (w_sources w s)) xs = ?ys"
  proof (rule properties_for_sort_key)
    show "mset ?ys = mset xs" by simp
    have "sorted_wrt (source_order.le w) ?ys" by (rule source_order.sorted_msort)
    then show "sorted (map (\<lambda>s. s_order (w_sources w s)) ?ys)"
      by (simp add: sorted_map comparator_le [abs_def])
    show "filter (\<lambda>x. s_order (w_sources w a) = s_order (w_sources w x)) ?ys =
        filter (\<lambda>x. s_order (w_sources w a) = s_order (w_sources w x)) xs" for a
      using source_order.stable_msort [of w a xs] by (simp add: comparator_same [abs_def])
  qed
  ultimately show ?thesis by simp
qed

definition perform0 :: "env \<Rightarrow> ref \<Rightarrow> world \<Rightarrow> world" where
  "perform0 E s w = callout E (Performed0 s) (upd_source s (\<lambda>s. s\<lparr>s_signaled := False\<rparr>) w)"

lemma perform0_step:
  assumes "s_signaled (w_sources w s)" "s_valid (w_sources w s)"
  shows "perform0_loop E stop (s # ss) h w = (if stop then (True, perform0 E s w) else perform0_loop E stop ss True (perform0 E s w))"
  using assms by (simp add: perform0_def world_simps Let_def)

lemma perform0_all:
  assumes quiet: "\<And>ev w. w_sources (e_callout E ev w) = w_sources w"
  shows "distinct ss \<Longrightarrow> (\<And>s. s \<in> set ss \<Longrightarrow> s_signaled (w_sources w s) \<and> s_valid (w_sources w s)) \<Longrightarrow>
    perform0_loop E False ss h w = (h \<or> ss \<noteq> [], fold (perform0 E) ss w)"
proof (induction ss arbitrary: h w)
  case (Cons s ss)
  have "w_sources (perform0 E s w) x = w_sources w x" if "x \<noteq> s" for x
    using that by (simp add: perform0_def callout_def quiet world_simps)
  then have "s_signaled (w_sources (perform0 E s w) x) \<and> s_valid (w_sources (perform0 E s w) x)" if "x \<in> set ss" for x
    using that Cons.prems by (cases "x = s") auto
  from Cons.IH [OF _ this] Cons.prems show ?case by (subst perform0_step) auto
qed simp

lemma do_sources0_eq:
  assumes "mode_of w rl n = Some m" and "m_sources0 m = Some xs" and "distinct xs" and "length xs \<le> (2 ^ 63 - 1) div 8"
    and "\<And>ev w. w_sources (e_callout E ev w) = w_sources w"
  shows "CFRunLoopDoSources0 E rl n stop w =
    (let ready = sort_key (\<lambda>s. s_order (w_sources w s)) (filter (\<lambda>s. s_version (w_sources w s) = 0 \<and> s_valid (w_sources w s) \<and>
            s_signaled (w_sources w s)) xs);
         performed = (if stop then take 1 ready else ready) in
     Some (performed \<noteq> [], fold (perform0 E) performed w))"
proof -
  let ?c = "CFRunLoopCollectSources0 xs w"
  let ?ss = "sort_key (\<lambda>s. s_order (w_sources w s)) ?c"
  have "length ?c \<le> (2 ^ 63 - 1) div 8"
    using assms(4) length_filter_le [of _ xs] le_trans unfolding CFRunLoopCollectSources0_def by blast
  then have run: "CFRunLoopDoSources0 E rl n stop w = Some (perform0_loop E stop ?ss False w)"
    using sort_sources [of ?c w] by (simp add: CFRunLoopDoSources0_def assms(1,2))
  have ready: "s_signaled (w_sources w s) \<and> s_valid (w_sources w s)" if "s \<in> set ?ss" for s
    using that by (simp add: CFRunLoopCollectSources0_def)
  have "distinct ?ss" using assms(3) by (simp add: CFRunLoopCollectSources0_def)
  show ?thesis
  proof (cases stop)
    case True
    have "perform0_loop E True ?ss False w = (take 1 ?ss \<noteq> [], fold (perform0 E) (take 1 ?ss) w)"
    proof (cases ?ss)
      case (Cons s ss)
      then show ?thesis using ready [of s] by (simp add: perform0_step del: perform0_loop.simps(2))
    qed simp
    then show ?thesis using True run by (simp add: Let_def CFRunLoopCollectSources0_def)
  next
    case False
    then show ?thesis using run perform0_all [OF assms(5) \<open>distinct ?ss\<close> ready, of False]
      by (simp add: Let_def CFRunLoopCollectSources0_def)
  qed
qed

text \<open>C8: \<^verbatim>\<open>__CFRunLoopDoSources0\<close> performs the signalled valid sources of version 0 of a mode in ascending order, those of equal
  order in the order of the set, each once and with its signal cleared first; when it is to stop after the
  first it performs only the one of the least order. (The callbacks do not touch sources.)\<close>

theorem sources0_by_priority:
  assumes "mode_of w rl n = Some m" and "m_sources0 m = Some xs" and "distinct xs" and "length xs \<le> (2 ^ 63 - 1) div 8"
    and "\<And>ev w. w_sources (e_callout E ev w) = w_sources w"
  shows "CFRunLoopDoSources0 E rl n stop w =
    (let ready = sort_key (\<lambda>s. s_order (w_sources w s)) (filter (\<lambda>s. s_version (w_sources w s) = 0 \<and> s_valid (w_sources w s) \<and>
            s_signaled (w_sources w s)) xs);
         performed = (if stop then take 1 ready else ready) in
     Some (performed \<noteq> [], fold (perform0 E) performed w))"
  by (rule do_sources0_eq [OF assms])

definition source_world :: world where
  "source_world = upd_loop 2 (\<lambda>r. r\<lparr>rl_modes := [(''m'', (new_mode 3 20)\<lparr>m_sources0 := Some [3, 8, 5]\<rparr>)]\<rparr>) sample_world"

lemma sources0_by_priority_witness:
  "CFRunLoopDoSources0 sample_env 2 ''m'' True source_world = Some (True, perform0 sample_env 8 source_world)"
proof -
  have m: "mode_of source_world 2 ''m'' = Some ((new_mode 3 20)\<lparr>m_sources0 := Some [3, 8, 5]\<rparr>)"
    by (simp add: source_world_def mode_of_def upd_loop_def)
  have s: "w_sources source_world s = sample_source\<lparr>s_order := - int s\<rparr>" for s
    by (simp add: source_world_def sample_world_def upd_loop_def)
  have q: "w_sources (e_callout sample_env ev w) = w_sources w" for ev w by (simp add: sample_env_def)
  show ?thesis
    using sources0_by_priority [OF m _ _ _ q, of "[3, 8, 5]" True] by (simp add: s sample_source_def Let_def)
qed

end
