(* ===== verification/RunLoopFiringTheorems.thy ===== *)
theory RunLoopFiringTheorems
  imports RunLoopRunTheorems
begin

text \<open>What is proved of firing timers: a timer of interval 0 fires once, a repeating one is set to its next time.\<close>

subsection \<open>Firing a timer\<close>

lemma reposition_w_timers: "CFRepositionTimerInMode E rl n t b w = Some w' \<Longrightarrow> w_timers w' = w_timers w"
  by (auto simp: CFRepositionTimerInMode_def Let_def world_simps split: option.splits if_splits Option.bind_splits)

lemma reposition_in_modes_w_timers: "reposition_in_modes E rl t ns w = Some w' \<Longrightarrow> w_timers w' = w_timers w"
  by (induction ns arbitrary: w)
    (auto simp: reposition_in_modes_def split: Option.bind_splits if_splits dest: reposition_w_timers)

text \<open>The callbacks leave the timers and the clock alone.\<close>

definition quiet_timers :: "env \<Rightarrow> bool" where
  "quiet_timers E \<longleftrightarrow> (\<forall>ev w. w_timers (e_callout E ev w) = w_timers w \<and> w_now (e_callout E ev w) = w_now w)"

lemma quiet_callout: "quiet_timers E \<Longrightarrow> w_timers (callout E ev w) = w_timers w \<and> w_now (callout E ev w) = w_now w"
  by (simp add: quiet_timers_def callout_def world_simps)

lemma quiet_release:
  "quiet_timers E \<Longrightarrow> w_timers (release_context E b it w) = w_timers w \<and> w_now (release_context E b it w) = w_now w"
  by (simp add: release_context_def quiet_callout)

text \<open>The world in which the callback of a timer returns.\<close>

definition fired :: "env \<Rightarrow> ref \<Rightarrow> string \<Rightarrow> ref \<Rightarrow> world \<Rightarrow> world" where
  "fired E rl n t w = callout E (TimerFired t) (CFArmNextTimerInMode E rl n
     (upd_mode rl n (\<lambda>m. m\<lparr>m_timerSoftDeadline := UINT64_MAX, m_timerHardDeadline := UINT64_MAX\<rparr>)
        (upd_timer t (\<lambda>t. t\<lparr>t_firing := True\<rparr>) w)))"

lemma deadlines_keep: "keeps v (upd_mode rl n (\<lambda>m. m\<lparr>m_timerSoftDeadline := UINT64_MAX, m_timerHardDeadline := UINT64_MAX\<rparr>) v)"
  by (rule keeps_upd_mode) (simp_all add: mode_timers_def mode_observers_def)

lemma keeps_timers_at: "keeps w w' \<Longrightarrow> timers_at w' = timers_at w"
  by (drule keepsD(1)) (simp add: timer_view_def)

lemma fired_inv: "good_env E \<Longrightarrow> loops_inv w \<Longrightarrow> loops_inv (fired E rl n t w)"
  by (simp add: fired_def callout_inv keeps_inv [OF deadlines_keep])

lemma fired_quiet:
  assumes "quiet_timers E"
  shows "w_timers (fired E rl n t w) = (w_timers w)(t := (w_timers w t)\<lparr>t_firing := True\<rparr>)" "w_now (fired E rl n t w) = w_now w"
  using quiet_callout [OF assms] by (simp_all add: fired_def world_simps CFArmNextTimerInMode_def)

lemma do_timer_due:
  assumes "timer_due rl t w"
  shows "CFRunLoopDoTimer E rl n t w =
    do { w3 \<leftarrow> (if t_interval (w_timers w t) = 0 then CFRunLoopTimerInvalidate E t (fired E rl n t w) else Some (fired E rl n t w));
         let w5 = upd_timer t (\<lambda>t. t\<lparr>t_firing := False\<rparr>) (release_context E (t_retain (w_timers w t) \<and> t_release (w_timers w t)) (ItemTimer t) w3);
         w6 \<leftarrow> (if t_valid (w_timers w5 t) then reschedule_timer E rl n t (t_fireTSR (w_timers w t)) w5 else Some w5);
         Some (True, w6) }"
  unfolding CFRunLoopDoTimer_def Let_def if_not_P [OF not_not [THEN iffD2, OF assms]] fired_def ..

text \<open>A timer of interval 0 that is due fires once: after \<^verbatim>\<open>__CFRunLoopDoTimer\<close> it is invalid, belongs to no loop and is
  in no mode, and firing it again does nothing. (The callback leaves the timers alone.)\<close>

theorem one_shot_timer:
  assumes "good_env E" and "reachable E w" and "quiet_timers E" and due: "timer_due rl t w" and "t_interval (w_timers w t) = 0"
    and "\<not> t_release (w_timers w t)" and res: "CFRunLoopDoTimer E rl n t w = Some (h, w')"
  shows "h \<and> timer_gone t w' \<and> CFRunLoopDoTimer E rl n t w' = Some (False, w')"
proof -
  let ?v = "fired E rl n t w"
  have inv: "loops_inv ?v" by (rule fired_inv [OF assms(1) reachable_inv [OF assms(1,2)]])
  have v: "t_valid (w_timers ?v t)" "\<not> t_release (w_timers ?v t)"
    using due assms(6) by (simp_all add: fired_quiet [OF assms(3)] timer_due_def)
  obtain w3 where w3: "CFRunLoopTimerInvalidate E t ?v = Some w3"
    using res assms(5) by (auto simp: do_timer_due [OF due] split: Option.bind_splits)
  have G: "timer_gone t w3" using invalidate_gone [OF assms(1) inv v(1) w3] v(2) by (auto simp: release_context_def)
  have "h \<and> w' = upd_timer t (\<lambda>t. t\<lparr>t_firing := False\<rparr>) w3"
    using res assms(5,6) w3 G by (simp add: do_timer_due [OF due] release_context_def world_simps timer_gone_def)
  then show ?thesis using G by (simp add: world_simps upd_timer_views CFRunLoopDoTimer_def timer_due_def timer_gone_def)
qed

lemma due_timer_world: "timer_due 2 5 timer_world"
proof -
  have "w_now created_world = 100"
    by (simp add: created_world_def CFRunLoopCreate_def CFRunLoopFindMode_def upd_loop_def sample_world_def)
  then have "w_now timer_world = 100" by (simp add: timer_world_eq CFArmNextTimerInMode_def world_simps)
  then show ?thesis by (simp add: timer_due_def timer_world_views fire_tsr_def sample_timer_def)
qed

lemma quiet_sample [simp]: "quiet_timers sample_env"
  by (simp add: quiet_timers_def sample_env_def)

lemma sample_callout: "e_callout sample_env ev w = w"
  by (simp add: sample_env_def)

lemma one_shot_fires: "CFRunLoopDoTimer sample_env 2 kCFRunLoopDefaultMode 5 timer_world \<noteq> None"
proof -
  let ?v = "fired sample_env 2 kCFRunLoopDefaultMode 5 timer_world"
  have T: "timers_at ?v = timers_at timer_world"
    by (simp add: fired_def callout_def sample_callout upd_timer_views keeps_timers_at [OF keeps_log_event]
        keeps_timers_at [OF deadlines_keep] arm_views)
  have W: "w_timers ?v 5 = (w_timers timer_world 5)\<lparr>t_firing := True\<rparr>" by (simp add: fired_quiet)
  have C: "common_view ?v = common_view timer_world" by (simp add: fired_def callout_def sample_callout)
  let ?w = "upd_timer 5 (\<lambda>t. t\<lparr>t_valid := False\<rparr>) ?v"
  have mem: "5 \<in> set (timers_at ?w 2 kCFRunLoopDefaultMode)" by (simp add: upd_timer_views T timer_world_views)
  obtain v where v: "CFRunLoopRemoveTimer sample_env 2 5 kCFRunLoopDefaultMode ?w = Some v" "common_view v = common_view ?w"
    using remove_timer_one [OF default_not_common mem] unfolding CFRunLoopRemoveTimer_def by blast
  from fun_cong [OF v(2), of 2] fun_cong [OF C, of 2] have "rl_commonModeItems (w_loops v 2) = None"
    by (simp add: common_view_def world_simps timer_world_common)
  then have "CFRunLoopRemoveTimer sample_env 2 5 kCFRunLoopCommonModes v = Some v"
    by (simp add: CFRunLoopRemoveTimer_def remove_timer_body_def is_common_item_def)
  then have i: "CFRunLoopTimerInvalidate sample_env 5 ?v = Some v" using v(1)
    by (simp add: CFRunLoopTimerInvalidate_def Let_def W timer_world_views sample_timer_def release_context_def)
  have "loops_inv ?v" by (rule fired_inv [OF good_sample reachable_inv [OF good_sample timer_reachable]])
  from invalidate_gone [OF good_sample this _ i]
  have "\<not> t_valid (w_timers v 5)"
    by (auto simp: W timer_world_views sample_timer_def release_context_def timer_gone_def)
  then show ?thesis using i by (simp add: do_timer_due [OF due_timer_world] timer_world_views sample_timer_def release_context_def world_simps)
qed

lemma one_shot_timer_witness:
  "\<exists>w'. CFRunLoopDoTimer sample_env 2 kCFRunLoopDefaultMode 5 timer_world = Some (True, w') \<and>
     5 \<notin> set (timers_at w' 2 kCFRunLoopDefaultMode)"
proof -
  obtain h w' where r: "CFRunLoopDoTimer sample_env 2 kCFRunLoopDefaultMode 5 timer_world = Some (h, w')" using one_shot_fires by auto
  from one_shot_timer [OF good_sample timer_reachable quiet_sample due_timer_world _ _ r] r show ?thesis
    by (auto simp: timer_world_views sample_timer_def timer_gone_def)
qed

text \<open>C6: A repeating timer that is due is set to the first time after the present at a distance of whole intervals from its old
  fire time, stays in its modes, and is in the order of the fire times there. (The callback leaves timers and
  clock alone, and the times stay in range.)\<close>

theorem repeating_timer:
  assumes "good_env E" and "reachable E w" and quiet: "quiet_timers E" and due: "timer_due rl t w"
    and d: "0 < interval_tsr E (t_interval (w_timers w t))" "w_now w + interval_tsr E (t_interval (w_timers w t)) < 2 ^ 64"
      "fire_tsr w t < LLONG_MAX - interval_tsr E (t_interval (w_timers w t))"
    and res: "CFRunLoopDoTimer E rl n t w = Some (h, w')"
  shows "h \<and> fire_tsr w' t = first_after (w_now w) (fire_tsr w t) (interval_tsr E (t_interval (w_timers w t))) \<and>
    w_now w < fire_tsr w' t \<and> t_rlModes (w_timers w' t) = t_rlModes (w_timers w t) \<and>
    sorted (map (fire_tsr w') (timers_at w' rl n)) \<and>
    (t \<in> set (timers_at w' rl n) \<longleftrightarrow> n \<in> set (t_rlModes (w_timers w t)))"
proof -
  let ?d = "interval_tsr E (t_interval (w_timers w t))" and ?v = "fired E rl n t w"
  let ?x = "first_after (w_now w) (fire_tsr w t) ?d"
  have iv: "t_interval (w_timers w t) \<noteq> 0" using d(1) by (auto simp: interval_tsr_def)
  define w5 where "w5 = upd_timer t (\<lambda>t. t\<lparr>t_firing := False\<rparr>) (release_context E (t_retain (w_timers w t) \<and> t_release (w_timers w t)) (ItemTimer t) ?v)"
  have W5: "w_timers w5 t = (w_timers w t)\<lparr>t_firing := False\<rparr>" "w_now w5 = w_now w"
    by (simp_all add: w5_def world_simps quiet_release [OF quiet] fired_quiet [OF quiet])
  have valid: "t_valid (w_timers w5 t)" "t_runLoop (w_timers w5 t) = Some rl" using due W5 by (simp_all add: timer_due_def)
  have h: "h" and re: "reschedule_timer E rl n t (fire_tsr w t) w5 = Some w'"
    using res iv valid by (auto simp: do_timer_due [OF due] w5_def [symmetric] fire_tsr_def split: Option.bind_splits)
  have "next_fire_tsr E (fire_tsr w t) (t_interval (w_timers w5 t)) w5 = Some ?x"
    using advance_fire_spec [OF d(1,2)] d(1,3) W5 by (simp add: next_fire_tsr_def)
  then have mv: "reposition_in_modes E rl t (t_rlModes (w_timers w5 t)) (set_fire_time t ?x (w_date w5 + CFTimeIntervalUntilTSR E w5 ?x) w5) = Some w'"
    using re W5 valid by (simp add: reschedule_timer_def fire_tsr_def Let_def)
  have wt: "w_timers w' t = (w_timers w5 t)\<lparr>t_fireTSR := ?x, t_nextFireDate := w_date w5 + CFTimeIntervalUntilTSR E w5 ?x\<rparr>"
    using reposition_in_modes_w_timers [OF mv] by (simp add: set_fire_time_def world_simps)
  have inv': "loops_inv w'" by (rule do_timer_inv [OF assms(1) reachable_inv [OF assms(1,2)] res])
  note D = timers_okD [OF timers_inv_okD [OF inv', of t]]
  have "t_runLoop (w_timers w' t) = Some rl" "t_rlModes (w_timers w' t) = t_rlModes (w_timers w t)" "fire_tsr w' t = ?x"
    using wt valid W5 by (simp_all add: fire_tsr_def)
  then show ?thesis using h D(2) [of n rl] D(4) [of t rl n] first_after_least(1) [OF d(1)] by simp
qed


text \<open>A loop to which a timer of interval 7 was added that is due at once.\<close>

definition repeating_world :: world where
  "repeating_world = the (CFRunLoopAddTimer sample_env 2 8 kCFRunLoopDefaultMode (CFRunLoopTimerCreate sample_env 8 0 7 0 False False created_world))"

lemma created_clock: "w_now created_world = 100" "w_date created_world = 0"
  by (simp_all add: created_world_def CFRunLoopCreate_def CFRunLoopFindMode_def upd_loop_def sample_world_def)

lemma repeating_created:
  fixes w :: world
  defines "w \<equiv> CFRunLoopTimerCreate sample_env 8 0 7 0 False False created_world"
  shows "reachable sample_env w" "mode_of w rl n = mode_of created_world rl n" "timers_at w rl n = timers_at created_world rl n"
    "w_timers w 8 = \<lparr>t_valid = True, t_firing = False, t_runLoop = None, t_rlModes = [], t_nextFireDate = 0, t_interval = 7,
       t_tolerance = 0, t_fireTSR = 100, t_order = 0, t_retain = False, t_release = False\<rparr>"
    "w_now w = 100" "\<not> CFRunLoopIsDeallocating 2 w"
proof -
  show "reachable sample_env w" unfolding w_def
    by (rule reachable.step [OF created_reachable], rule loop_step.create_timer) (simp add: created_objects sample_timer_def)
qed (use created_objects(3) in \<open>simp_all add: w_def CFRunLoopTimerCreate_def Let_def world_simps created_clock tsr_of_date_def
      upd_timer_views CFRunLoopIsDeallocating_def TIMER_DATE_LIMIT_def TIMER_INTERVAL_LIMIT_def CFTimeIntervalToTSR_def sample_env_def\<close>)


lemma reposition_clock: "CFRepositionTimerInMode E rl n t b w = Some w' \<Longrightarrow> w_now w' = w_now w"
  by (auto simp: CFRepositionTimerInMode_def Let_def CFArmNextTimerInMode_def world_simps split: option.splits if_splits Option.bind_splits)

lemma single_timer: "timers_at w rl n = [t] \<Longrightarrow> \<exists>m. mode_of w rl n = Some m \<and> m_timers m = Some [t]"
  by (auto simp: timers_at_def mode_timers_def split: option.splits)

lemma single_reposition: "timers_at w rl n = [t] \<Longrightarrow> CFRepositionTimerInMode E rl n t True w \<noteq> None"
  using single_timer by (fastforce simp: CFRepositionTimerInMode_def Let_def CFRunLoopInsertionIndexInTimerArray_def insertion_index_def)

lemma repeating_added:
  "CFRunLoopAddTimer sample_env 2 8 kCFRunLoopDefaultMode (CFRunLoopTimerCreate sample_env 8 0 7 0 False False created_world) = Some repeating_world"
proof -
  have "CFRunLoopAddTimer sample_env 2 8 kCFRunLoopDefaultMode (CFRunLoopTimerCreate sample_env 8 0 7 0 False False created_world) \<noteq> None"
    using repeating_created(6)
    by (simp add: CFRunLoopAddTimer_def add_timer_body_def Let_def repeating_created(2,4) CFRunLoopFindMode_def created_mode
        CFRepositionTimerInMode_def world_simps new_mode_def CFRunLoopInsertionIndexInTimerArray_def insertion_index_def)
  then show ?thesis unfolding repeating_world_def by auto
qed

lemma repeating_reachable: "reachable sample_env repeating_world"
  using repeating_created(1) loop_step.add_timer [OF repeating_added] by (rule reachable.step)

lemma repeating_world_views:
  "timers_at repeating_world 2 kCFRunLoopDefaultMode = [8]" "t_interval (w_timers repeating_world 8) = 7"
  "fire_tsr repeating_world 8 = 100" "t_rlModes (w_timers repeating_world 8) = [kCFRunLoopDefaultMode]"
  "timer_due 2 8 repeating_world" "w_now repeating_world = 100" "\<not> t_release (w_timers repeating_world 8)"
proof -
  let ?w = "CFRunLoopTimerCreate sample_env 8 0 7 0 False False created_world"
  have g: "\<not> (\<not> t_valid (w_timers ?w 8) \<or> (t_runLoop (w_timers ?w 8) \<noteq> None \<and> t_runLoop (w_timers ?w 8) \<noteq> Some 2))"
    "kCFRunLoopDefaultMode \<notin> set (t_rlModes (w_timers ?w 8))" by (simp_all add: repeating_created)
  note A = add_timer_one [OF reachable_inv [OF good_sample repeating_created(1)] repeating_created(6) g(1) default_not_common g(2)
      repeating_added [unfolded CFRunLoopAddTimer_def]]
  have "timers_at created_world 2 kCFRunLoopDefaultMode = []" by (simp add: timers_at_def created_mode mode_timers_def new_mode_def)
  then show "timers_at repeating_world 2 kCFRunLoopDefaultMode = [8]"
    by (simp add: A(4) repeating_created(3) upper_bound_def list_insert_def)
  have lion: "e_linkedOnOrAfterLion sample_env" by (simp add: sample_env_def)
  show now: "w_now repeating_world = 100" using repeating_added g repeating_created(6)
    by (auto simp: CFRunLoopAddTimer_def add_timer_body_def Let_def CFRunLoopFindMode_def world_simps repeating_created(2) created_mode
        repeating_created(5) lion dest!: reposition_clock split: Option.bind_splits if_splits)
  have W: "w_timers repeating_world 8 = (w_timers ?w 8)\<lparr>t_runLoop := Some 2, t_rlModes := [kCFRunLoopDefaultMode]\<rparr>"
    by (simp add: A(3) repeating_created(4))
  then show "t_interval (w_timers repeating_world 8) = 7" "fire_tsr repeating_world 8 = 100"
    "t_rlModes (w_timers repeating_world 8) = [kCFRunLoopDefaultMode]" "timer_due 2 8 repeating_world" "\<not> t_release (w_timers repeating_world 8)"
    by (simp_all add: repeating_created(4) fire_tsr_def timer_due_def now)
qed

lemma repeating_fires: "CFRunLoopDoTimer sample_env 2 kCFRunLoopDefaultMode 8 repeating_world \<noteq> None"
proof -
  define v where "v = upd_timer 8 (\<lambda>t. t\<lparr>t_firing := False\<rparr>) (fired sample_env 2 kCFRunLoopDefaultMode 8 repeating_world)"
  note R = repeating_world_views
  have T: "timers_at v = timers_at repeating_world"
    by (simp add: v_def fired_def callout_def sample_callout upd_timer_views keeps_timers_at [OF keeps_log_event]
        keeps_timers_at [OF deadlines_keep] arm_views)
  have W: "w_timers v 8 = (w_timers repeating_world 8)\<lparr>t_firing := False\<rparr>" "w_now v = 100"
    by (simp_all add: v_def fired_quiet world_simps R)
  have d: "interval_tsr sample_env 7 = 7"
    by (simp add: interval_tsr_def CFTimeIntervalToTSR_def sample_env_def TIMER_INTERVAL_LIMIT_def LLONG_MAX_def)
  have nxt: "next_fire_tsr sample_env 100 7 v = Some (first_after 100 100 7)"
    using advance_fire_spec [of 7 100 100] by (simp add: next_fire_tsr_def d W LLONG_MAX_def)
  have at: "timers_at (set_fire_time 8 x y v) 2 kCFRunLoopDefaultMode = [8]" for x y
    by (simp add: set_fire_time_def upd_timer_views T R)
  have found: "fst (CFRunLoopFindMode 2 kCFRunLoopDefaultMode False (set_fire_time 8 x y v))" for x y
    using single_timer [OF at] by (auto simp: CFRunLoopFindMode_def)
  have put: "CFRepositionTimerInMode sample_env 2 kCFRunLoopDefaultMode 8 True (set_fire_time 8 x y v) \<noteq> None" for x y
    by (rule single_reposition [OF at])
  have v: "t_runLoop (w_timers v 8) = Some 2" "fire_tsr v 8 = 100" "t_interval (w_timers v 8) = 7"
    "t_rlModes (w_timers v 8) = [kCFRunLoopDefaultMode]"
    using R(2-5) by (simp_all add: W fire_tsr_def timer_due_def)
  have "reschedule_timer sample_env 2 kCFRunLoopDefaultMode 8 100 v \<noteq> None"
    using put [of "first_after 100 100 7" "w_date v + CFTimeIntervalUntilTSR sample_env v (first_after 100 100 7)"] found
    by (auto simp: reschedule_timer_def v nxt reposition_in_modes_def Let_def)
  moreover have "t_fireTSR (w_timers repeating_world 8) = 100" using R(3) by (simp add: fire_tsr_def)
  ultimately show ?thesis using R(2,7)
    by (auto simp: do_timer_due [OF R(5)] release_context_def v_def [symmetric] Let_def)
qed

lemma repeating_timer_witness:
  "\<exists>w'. CFRunLoopDoTimer sample_env 2 kCFRunLoopDefaultMode 8 repeating_world = Some (True, w') \<and> fire_tsr w' 8 = 107 \<and>
     8 \<in> set (timers_at w' 2 kCFRunLoopDefaultMode)"
proof -
  note R = repeating_world_views
  obtain h w' where r: "CFRunLoopDoTimer sample_env 2 kCFRunLoopDefaultMode 8 repeating_world = Some (h, w')" using repeating_fires by auto
  have "interval_tsr sample_env 7 = 7"
    by (simp add: interval_tsr_def CFTimeIntervalToTSR_def sample_env_def TIMER_INTERVAL_LIMIT_def LLONG_MAX_def)
  with repeating_timer [OF good_sample repeating_reachable quiet_sample R(5) _ _ _ r] r show ?thesis
    by (simp add: R LLONG_MAX_def first_after_def)
qed

end
