(* ===== verification/RunLoopReturnTheorems.thy ===== *)
theory RunLoopReturnTheorems
  imports RunLoopFiringTheorems
begin

text \<open>What is proved of a whole run: what it restores, when it returns and with which result.\<close>

subsection \<open>Entering and leaving\<close>

lemma run_specific_unfold:
  "CFRunLoopRunSpecific E rl n sec st w =
    (if CFRunLoopIsDeallocating rl w \<or> CFRunLoopFinished E rl n w then Some (RunFinished, w)
     else do {
       w3 \<leftarrow> notify E rl n kCFRunLoopEntry (upd_loop rl (\<lambda>r. r\<lparr>rl_perRunData := fresh_per_run_data, rl_currentMode := Some n\<rparr>) w);
       (result, w4) \<leftarrow> CFRunLoopRunInternal E rl n sec st w3;
       w5 \<leftarrow> notify E rl n kCFRunLoopExit w4;
       Some (result, upd_loop rl (\<lambda>r. r\<lparr>rl_perRunData := rl_perRunData (w_loops w rl), rl_currentMode := rl_currentMode (w_loops w rl)\<rparr>) w5) })"
  by (simp add: CFRunLoopRunSpecific_def CFRunLoopFinished_def CFRunLoopPushPerRunData_def CFRunLoopPopPerRunData_def upd_loop_def comp_def)

text \<open>A run leaves the loop's current mode and the flags of the run that surrounds it, whether it was stopped and whether it
  ignores wake-ups, as it found them; without anything to wait for it returns at once and changes nothing.\<close>

theorem run_restores:
  assumes "CFRunLoopRunSpecific E rl n sec st w = Some (r, w')"
  shows "CFRunLoopCopyCurrentMode rl w' = CFRunLoopCopyCurrentMode rl w \<and> CFRunLoopIsStopped rl w' = CFRunLoopIsStopped rl w \<and>
    CFRunLoopIsIgnoringWakeUps rl w' = CFRunLoopIsIgnoringWakeUps rl w \<and>
    (CFRunLoopFinished E rl n w \<longrightarrow> r = RunFinished \<and> w' = w)"
  using assms
  by (auto simp: run_specific_unfold CFRunLoopCopyCurrentMode_def CFRunLoopIsStopped_def CFRunLoopIsIgnoringWakeUps_def upd_loop_def
      split: if_splits Option.bind_splits)

lemma created_finished: "CFRunLoopFinished sample_env 2 kCFRunLoopDefaultMode created_world"
proof -
  have "rl_blocks (w_loops created_world 2) = []"
    by (simp add: created_world_def CFRunLoopCreate_def CFRunLoopFindMode_def world_simps new_loop_def)
  then show ?thesis
    by (simp add: CFRunLoopFinished_def CFRunLoopModeIsEmpty_def created_mode new_mode_def none_left_def on_main_queue_def)
      (simp add: sample_env_def)
qed

lemma run_restores_witness:
  "CFRunLoopRunSpecific sample_env 2 kCFRunLoopDefaultMode 5 False created_world = Some (RunFinished, created_world)"
proof -
  have "CFRunLoopRunSpecific sample_env 2 kCFRunLoopDefaultMode 5 False created_world = Some (RunFinished, created_world)"
    by (simp add: run_specific_unfold created_finished)
  from run_restores [OF this] this show ?thesis using created_finished by simp
qed

text \<open>\<^verbatim>\<open>CFRunLoopRun\<close> returns only when a run of the default mode of the thread's loop came back as stopped or finished, and
  with the world that run left.\<close>

theorem run_ends_stopped_or_finished:
  assumes "CFRunLoopRun E w = Some w'"
  shows "\<exists>v r. CFRunLoopRunSpecific E (e_currentLoop E) kCFRunLoopDefaultMode 10000000000 False v = Some (r, w') \<and>
    (r = RunStopped \<or> r = RunFinished)"
proof (rule CFRunLoopRun.raw_induct [where P = "\<lambda>E w w'. \<exists>v r.
     CFRunLoopRunSpecific E (e_currentLoop E) kCFRunLoopDefaultMode 10000000000 False v = Some (r, w') \<and> (r = RunStopped \<or> r = RunFinished)",
     OF _ assms])
  fix run E w w'
  assume IH: "\<And>E w w'. run E w = Some w' \<Longrightarrow> \<exists>v r. CFRunLoopRunSpecific E (e_currentLoop E) kCFRunLoopDefaultMode 10000000000 False v = Some (r, w') \<and>
      (r = RunStopped \<or> r = RunFinished)"
    and res: "Option.bind (CFRunLoopRunSpecific E (e_currentLoop E) kCFRunLoopDefaultMode 10000000000 False w)
       (\<lambda>p. if fst p \<noteq> RunStopped \<and> fst p \<noteq> RunFinished then run E (snd p) else Some (snd p)) = Some w'"
  from res obtain p where p: "CFRunLoopRunSpecific E (e_currentLoop E) kCFRunLoopDefaultMode 10000000000 False w = Some p"
    and rest: "(if fst p \<noteq> RunStopped \<and> fst p \<noteq> RunFinished then run E (snd p) else Some (snd p)) = Some w'"
    by (auto split: Option.bind_splits)
  show "\<exists>v r. CFRunLoopRunSpecific E (e_currentLoop E) kCFRunLoopDefaultMode 10000000000 False v = Some (r, w') \<and> (r = RunStopped \<or> r = RunFinished)"
  proof (cases "fst p \<noteq> RunStopped \<and> fst p \<noteq> RunFinished")
    case True
    then show ?thesis using rest IH by simp
  next
    case False
    then have "w' = snd p" using rest by auto
    then show ?thesis using False p by (metis prod.collapse)
  qed
qed

lemma run_ends_stopped_or_finished_witness:
  "CFRunLoopRun sample_env created_world = Some created_world \<and>
   (\<exists>v r. CFRunLoopRunSpecific sample_env 2 kCFRunLoopDefaultMode 10000000000 False v = Some (r, created_world) \<and> (r = RunStopped \<or> r = RunFinished))"
proof -
  have cur: "e_currentLoop sample_env = 2" by (simp add: sample_env_def)
  have "CFRunLoopRun sample_env created_world = Some created_world"
    by (subst CFRunLoopRun.simps) (simp add: cur run_specific_unfold created_finished)
  from run_ends_stopped_or_finished [OF this] this show ?thesis by (simp add: cur)
qed

subsection \<open>A run in which nothing happens\<close>

text \<open>No message arrives from elsewhere, but time passes. The dispatch timer of a run does not fire early, stays fired, and has fired
  when a wait in which nothing arrived is over.\<close>

definition no_messages :: "env \<Rightarrow> bool" where
  "no_messages E \<longleftrightarrow>
     (\<forall>ps poll w. \<exists>now date. e_receive E ps poll w = (w\<lparr>w_now := now, w_date := date\<rparr>, 0) \<and> w_now w \<le> now)"

definition timeout_timer :: "env \<Rightarrow> nat \<Rightarrow> bool" where
  "timeout_timer E tsr \<longleftrightarrow>
     (\<forall>w. e_timeoutFired E tsr w \<longrightarrow> tsr \<le> w_now w) \<and>
     (\<forall>w w'. e_timeoutFired E tsr w \<longrightarrow> w_now w \<le> w_now w' \<longrightarrow> e_timeoutFired E tsr w') \<and>
     (\<forall>ps w. e_timeoutFired E tsr (fst (e_receive E ps False w)))"

text \<open>The mode has sources or timers, but no observer, no block, no signalled source and no request to stop. The port set of a
  mode has the wake-up port of the loop, as that of a new mode.\<close>

definition idle :: "ref \<Rightarrow> string \<Rightarrow> world \<Rightarrow> bool" where
  "idle rl n w \<longleftrightarrow> (\<exists>m. mode_of w rl n = Some m \<and> m_observerMask m = 0 \<and> \<not> m_stopped m \<and>
       (\<forall>xs. m_sources0 m = Some xs \<longrightarrow> CFRunLoopCollectSources0 xs w = []) \<and>
       \<not> (none_left (m_sources0 m) \<and> none_left (m_sources1 m) \<and> none_left (m_timers m))) \<and>
     rl_blocks (w_loops w rl) = [] \<and> \<not> CFRunLoopIsStopped rl w \<and> 0 < w_now w"

definition wakeable :: "ref \<Rightarrow> string \<Rightarrow> world \<Rightarrow> bool" where
  "wakeable rl n w \<longleftrightarrow> (\<exists>m. mode_of w rl n = Some m \<and> rl_wakeUpPort (w_loops w rl) \<in> set (m_portSet m))"

lemma idle_same [simp]:
  "idle rl n (set_ignoreWakeUps b rl w) = idle rl n w" "idle rl n (set_sleeping b rl w) = idle rl n w"
  "idle rl n (upd_loop rl (\<lambda>r. r\<lparr>rl_sleepTime := x r\<rparr>) w) = idle rl n w" "idle rl n (log_event ev w) = idle rl n w"
  by (simp_all add: idle_def mode_of_def upd_loop_def set_ignoreWakeUps_def set_sleeping_def CFRunLoopIsStopped_def
      CFRunLoopCollectSources0_def log_event_def)

lemma idle_clock: "idle rl n w \<Longrightarrow> w_now w \<le> k \<Longrightarrow> idle rl n (w\<lparr>w_now := k, w_date := d\<rparr>)"
  by (auto simp: idle_def mode_of_def CFRunLoopIsStopped_def CFRunLoopCollectSources0_def)

lemma upd_mode_loop:
  "rl_wakeUpPort (w_loops (upd_mode rl n f w) rl) = rl_wakeUpPort (w_loops w rl)" "rl_blocks (w_loops (upd_mode rl n f w) rl) = rl_blocks (w_loops w rl)"
  "rl_perRunData (w_loops (upd_mode rl n f w) rl) = rl_perRunData (w_loops w rl)"
  by (simp_all add: upd_mode_def upd_loop_def)

lemma idle_ports [simp]:
  "idle rl n (upd_mode rl n (\<lambda>m. if p = 0 then m else m\<lparr>m_portSet := f (m_portSet m)\<rparr>) w) = idle rl n w"
  by (cases "p = 0"; cases "mode_of w rl n")
    (simp_all add: idle_def mode_of_upd_mode CFRunLoopIsStopped_def CFRunLoopCollectSources0_def upd_mode_loop world_simps option.map_ident)

lemma wakeable_same [simp]:
  "wakeable rl n (set_ignoreWakeUps b rl w) = wakeable rl n w" "wakeable rl n (set_sleeping b rl w) = wakeable rl n w"
  "wakeable rl n (w\<lparr>w_now := k, w_date := d\<rparr>) = wakeable rl n w"
  by (simp_all add: wakeable_def mode_of_def upd_loop_def set_ignoreWakeUps_def set_sleeping_def)

lemma wakeable_insert:
  "wakeable rl n w \<Longrightarrow> wakeable rl n (upd_mode rl n (\<lambda>m. if p = 0 then m else m\<lparr>m_portSet := List.insert p (m_portSet m)\<rparr>) w)"
  by (cases "p = 0") (auto simp: wakeable_def mode_of_upd_mode upd_mode_loop option.map_ident)

lemma flags_clock [simp]: "w_now (set_sleeping b rl w) = w_now w" "w_now (set_ignoreWakeUps b rl w) = w_now w"
  by (simp_all add: set_sleeping_def set_ignoreWakeUps_def world_simps)

lemma idle_notify: "idle rl n w \<Longrightarrow> notify E rl n act w = Some w"
  by (auto simp: idle_def notify_def)

lemma idle_blocks: "idle rl n w \<Longrightarrow> CFRunLoopDoBlocks E rl n w = (False, w)"
  by (auto simp: idle_def CFRunLoopDoBlocks_def)

lemma idle_sources: "idle rl n w \<Longrightarrow> CFRunLoopDoSources0 E rl n st w = Some (False, w)"
  using sort_sources [of "[]" w] by (auto simp: idle_def CFRunLoopDoSources0_def split: option.splits)

lemma idle_outcome:
  "idle rl n w \<Longrightarrow> run_outcome E rl n tt st False w = (if current_term E tt w < w_now w then Some RunTimedOut else None, w)"
  by (auto simp: idle_def run_outcome_def CFRunLoopModeIsEmpty_def)


text \<open>A poll finds nothing; a wait ends with the wake-up message of the handler, when the timer has fired.\<close>

lemma idle_service:
  assumes "no_messages E" and "poll \<or> tt \<noteq> 0 \<and> tt \<noteq> UINT64_MAX \<and> timeout_timer E tt"
    and "\<not> CFRunLoopIsIgnoringWakeUps rl w" and "rl_wakeUpPort (w_loops w rl) \<in> set ps"
  shows "\<exists>w' p now date. CFRunLoopServiceMachPort E rl tt ps poll w = Some (w', p) \<and> w_now w \<le> now \<and> w_now w' = now \<and>
    (p = 0 \<or> p = rl_wakeUpPort (w_loops w rl)) \<and> (\<not> poll \<longrightarrow> e_timeoutFired E tt w') \<and>
    (w' = w\<lparr>w_now := now, w_date := date\<rparr> \<or> w' = log_event (WakeUpSent rl) (w\<lparr>w_now := now, w_date := date\<rparr>))"
proof -
  obtain now date where rc: "e_receive E ps poll w = (w\<lparr>w_now := now, w_date := date\<rparr>, 0)" "w_now w \<le> now"
    using assms(1) unfolding no_messages_def by blast
  let ?v = "w\<lparr>w_now := now, w_date := date\<rparr>" and ?u = "log_event (WakeUpSent rl) (w\<lparr>w_now := now, w_date := date\<rparr>)"
  show ?thesis
  proof (cases poll)
    case True
    then show ?thesis using rc by (auto simp: CFRunLoopServiceMachPort_def intro!: exI [of _ ?v])
  next
    case False
    have fired: "e_timeoutFired E tt ?v" using assms(2) False rc(1) unfolding timeout_timer_def by (metis fst_conv)
    moreover have "w_now ?v \<le> w_now ?u" by (simp add: log_event_def)
    ultimately have "e_timeoutFired E tt ?u" using assms(2) False unfolding timeout_timer_def by blast
    moreover have "CFRunLoopTimeout rl ?v = ?u"
      using assms(3) by (simp add: CFRunLoopTimeout_def CFRunLoopWakeUp_def CFRunLoopIsIgnoringWakeUps_def)
    ultimately show ?thesis
      using rc False assms(2,4) fired
      by (intro exI [of _ ?u] exI [of _ "rl_wakeUpPort (w_loops w rl)"] exI [of _ now] exI [of _ date])
        (simp add: CFRunLoopServiceMachPort_def current_term_def Let_def log_event_def)
  qed
qed

lemma ignoring_same [simp]:
  "CFRunLoopIsIgnoringWakeUps rl (set_sleeping b rl w) = CFRunLoopIsIgnoringWakeUps rl w"
  "CFRunLoopIsIgnoringWakeUps rl (upd_mode rl n f w) = CFRunLoopIsIgnoringWakeUps rl w"
  "CFRunLoopIsIgnoringWakeUps rl (set_ignoreWakeUps b rl w) = b"
  "CFRunLoopIsIgnoringWakeUps rl (w\<lparr>w_now := k, w_date := d\<rparr>) = CFRunLoopIsIgnoringWakeUps rl w"
  by (simp_all add: CFRunLoopIsIgnoringWakeUps_def set_sleeping_def set_ignoreWakeUps_def upd_mode_def upd_loop_def)

lemma idle_sleep:
  assumes "no_messages E" and "poll \<or> tt \<noteq> 0 \<and> tt \<noteq> UINT64_MAX \<and> timeout_timer E tt" and "idle rl n w" and "wakeable rl n w"
    and "\<not> CFRunLoopIsIgnoringWakeUps rl w"
  shows "\<exists>p w'. sleep E rl n tt dp poll w = Some (p, w') \<and> idle rl n w' \<and> w_now w \<le> w_now w' \<and>
    (p = 0 \<or> p = rl_wakeUpPort (w_loops w' rl)) \<and> (\<not> poll \<longrightarrow> e_timeoutFired E tt w')"
proof -
  define w2 where "w2 = upd_mode rl n (\<lambda>m. if dp = 0 then m else m\<lparr>m_portSet := List.insert dp (m_portSet m)\<rparr>) (set_sleeping True rl w)"
  have i2: "idle rl n w2" using assms(3) by (simp add: w2_def)
  have "wakeable rl n w2" unfolding w2_def by (rule wakeable_insert) (simp add: assms(4))
  then obtain m where m: "mode_of w2 rl n = Some m" "rl_wakeUpPort (w_loops w2 rl) \<in> set (m_portSet m)" by (auto simp: wakeable_def)
  have c2: "w_now w2 = w_now w" "\<not> CFRunLoopIsIgnoringWakeUps rl w2" using assms(5) by (simp_all add: w2_def world_simps)
  obtain w3 p now date where rc: "CFRunLoopServiceMachPort E rl tt (m_portSet m) poll w2 = Some (w3, p)" "w_now w2 \<le> now" "w_now w3 = now"
    "p = 0 \<or> p = rl_wakeUpPort (w_loops w2 rl)" "\<not> poll \<longrightarrow> e_timeoutFired E tt w3"
    "w3 = w2\<lparr>w_now := now, w_date := date\<rparr> \<or> w3 = log_event (WakeUpSent rl) (w2\<lparr>w_now := now, w_date := date\<rparr>)"
    using idle_service [OF assms(1,2) c2(2) m(2)] by blast
  have i3: "idle rl n w3" using rc(6) idle_clock [OF i2 rc(2), of date] by (elim disjE) simp_all
  have l3: "w_loops w3 = w_loops w2" using rc(6) by (auto simp: log_event_def)
  define w6 where "w6 = set_sleeping False rl (set_ignoreWakeUps True rl (upd_mode rl n
      (\<lambda>m. if dp = 0 then m else m\<lparr>m_portSet := removeAll dp (m_portSet m)\<rparr>)
      (upd_loop rl (\<lambda>r. r\<lparr>rl_sleepTime := rl_sleepTime r + (if poll then 0 else w_date w3 - w_date w2)\<rparr>) w3)))"
  have i6: "idle rl n w6" using i3 by (simp add: w6_def)
  have c6: "w_now w6 = w_now w3" "rl_wakeUpPort (w_loops w6 rl) = rl_wakeUpPort (w_loops w2 rl)"
    by (simp_all add: w6_def world_simps set_sleeping_def set_ignoreWakeUps_def upd_mode_loop l3)
  have s: "sleep E rl n tt dp poll w = Some (p, w6)"
    unfolding sleep_def idle_notify [OF assms(3)] if_cancel Option.bind_lunit Let_def w2_def [symmetric] m(1) rc(1) prod.case w6_def [symmetric]
      idle_notify [OF i6] ..
  have "e_timeoutFired E tt w6" if "\<not> poll"
    using that assms(2) rc(5) c6(1) unfolding timeout_timer_def by (metis order_refl)
  then show ?thesis using s i6 c6 rc(2-4) c2(1) by auto
qed

lemma idle_pass:
  assumes "no_messages E" and "tt \<noteq> 0 \<Longrightarrow> tt \<noteq> UINT64_MAX \<and> timeout_timer E tt" and "idle rl n w" and "wakeable rl n w"
  shows "\<exists>w'. run_iteration E rl n tt st dp True w = Some (Some RunTimedOut, False, w') \<and> idle rl n w' \<and> tt \<le> w_now w'"
proof -
  let ?v = "set_ignoreWakeUps False rl w" and ?poll = "current_term E tt (set_ignoreWakeUps False rl w) = 0"
  have i: "idle rl n ?v" using assms(3) by simp
  have due: "?poll \<or> tt \<noteq> 0 \<and> tt \<noteq> UINT64_MAX \<and> timeout_timer E tt" using assms(2) by (auto simp: current_term_def)
  have v: "wakeable rl n ?v" "\<not> CFRunLoopIsIgnoringWakeUps rl ?v" using assms(4) by simp_all
  obtain p w6 where w6: "sleep E rl n tt dp ?poll ?v = Some (p, w6)" "idle rl n w6" "w_now ?v \<le> w_now w6"
    "p = 0 \<or> p = rl_wakeUpPort (w_loops w6 rl)" "\<not> ?poll \<longrightarrow> e_timeoutFired E tt w6"
    using idle_sleep [OF assms(1) due i v] by blast
  let ?w = "set_ignoreWakeUps True rl w6"
  have iw: "idle rl n ?w" using w6(2) by simp
  have late: "current_term E tt ?w = 0 \<and> tt \<le> w_now ?w"
  proof (cases "tt = 0")
    case False
    have fired: "e_timeoutFired E tt ?v \<or> e_timeoutFired E tt w6" using w6(5) False by (auto simp: current_term_def split: if_splits)
    have "w_now ?v \<le> w_now ?w" "w_now w6 \<le> w_now ?w" using w6(3) by simp_all
    then have "e_timeoutFired E tt ?w" using fired assms(2) [OF False] unfolding timeout_timer_def by blast
    then show ?thesis using False assms(2) [OF False] unfolding timeout_timer_def current_term_def by simp
  qed (simp add: current_term_def)
  have "0 < w_now ?w" using iw by (simp add: idle_def)
  then have out: "run_outcome E rl n tt st False ?w = (Some RunTimedOut, ?w)" using idle_outcome [OF iw] late by simp
  have "mode_of ?w rl n \<noteq> None" using iw by (auto simp: idle_def)
  then have msg: "handle_msg E rl n dp p False w6 = Some (False, False, ?w)"
    using w6(4) by (auto simp: handle_msg_def Let_def set_ignoreWakeUps_def world_simps)
  have "run_iteration E rl n tt st dp True w = Some (Some RunTimedOut, False, ?w)"
    unfolding run_iteration_def idle_notify [OF i] Option.bind_lunit Let_def idle_blocks [OF i] snd_conv idle_sources [OF i] prod.case
      if_False simp_thms
    by (simp add: w6(1) msg idle_blocks [OF iw] out)
  then show ?thesis using iw late by blast
qed

text \<open>A pass of a run without a deadline in which nothing happens never ends.\<close>

lemma idle_sleeps:
  assumes "no_messages E" and "idle rl n w"
  shows "run_iteration E rl n UINT64_MAX st dp True w = None"
proof -
  let ?v = "set_ignoreWakeUps False rl w"
  have i: "idle rl n ?v" using assms(2) by simp
  have endless: "current_term E UINT64_MAX v = UINT64_MAX" "UINT64_MAX \<noteq> 0" for v by (simp_all add: current_term_def UINT64_MAX_def)
  have "CFRunLoopServiceMachPort E rl UINT64_MAX ps False v = None" for ps v
  proof -
    obtain now date where "e_receive E ps False v = (v\<lparr>w_now := now, w_date := date\<rparr>, 0)"
      using assms(1) unfolding no_messages_def by blast
    then show ?thesis by (simp add: CFRunLoopServiceMachPort_def endless)
  qed
  then have "sleep E rl n UINT64_MAX dp False ?v = None"
    by (simp add: sleep_def idle_notify [OF i] Let_def)
  then have "sleep E rl n UINT64_MAX dp (UINT64_MAX = 0) ?v = None" by (simp add: UINT64_MAX_def)
  then show ?thesis
    unfolding run_iteration_def idle_notify [OF i] Option.bind_lunit Let_def idle_blocks [OF i] snd_conv idle_sources [OF i] prod.case
      if_False simp_thms endless
    by simp
qed

text \<open>C10: A run with a deadline ends even when nothing happens: no message arrives from elsewhere and the thread waits without a
  time-out, until the dispatch timer of the run has fired and its handler has sent the wake-up message. The run of a mode
  that has only unsignalled sources and timers, and no observers or blocks, then returns \<^verbatim>\<open>kCFRunLoopRunTimedOut\<close>, and
  for a positive time limit not before the deadline. A run with no deadline sleeps for ever.\<close>

theorem idle_run_times_out:
  assumes "no_messages E" and idle: "idle rl n w" "wakeable rl n w" and "\<not> CFRunLoopIsDeallocating rl w"
    and "0 < sec \<and> sec \<le> TIMER_INTERVAL_LIMIT \<Longrightarrow> timeout_timer E (w_now w + CFTimeIntervalToTSR E sec)"
    and "w_now w + CFTimeIntervalToTSR E sec < UINT64_MAX"
  shows "if sec \<le> TIMER_INTERVAL_LIMIT
    then \<exists>w'. CFRunLoopRunSpecific E rl n sec st w = Some (RunTimedOut, w') \<and>
      (0 < sec \<longrightarrow> w_now w + CFTimeIntervalToTSR E sec \<le> w_now w')
    else CFRunLoopRunSpecific E rl n sec st w = None"
proof -
  let ?v = "upd_loop rl (\<lambda>r. r\<lparr>rl_perRunData := fresh_per_run_data, rl_currentMode := Some n\<rparr>) w"
  let ?dp = "if on_main_queue E rl n ?v then e_mainQueuePort E else 0"
  have v: "idle rl n ?v" "wakeable rl n ?v" using idle
    by (auto simp: idle_def wakeable_def mode_of_def upd_loop_def CFRunLoopIsStopped_def fresh_per_run_data_def CFRunLoopCollectSources0_def)
  have run: "CFRunLoopRunSpecific E rl n sec st w = do {
       (result, w4) \<leftarrow> run_passes E rl n (term_tsr E sec ?v) st ?dp True ?v;
       w5 \<leftarrow> notify E rl n kCFRunLoopExit w4;
       Some (result, upd_loop rl (\<lambda>r. r\<lparr>rl_perRunData := rl_perRunData (w_loops w rl), rl_currentMode := rl_currentMode (w_loops w rl)\<rparr>) w5) }"
  proof -
    have "\<not> CFRunLoopFinished E rl n w" using idle(1)
      by (auto simp: idle_def CFRunLoopFinished_def CFRunLoopFindMode_def CFRunLoopModeIsEmpty_def)
    moreover have "CFRunLoopRunInternal E rl n sec st ?v = run_passes E rl n (term_tsr E sec ?v) st ?dp True ?v"
      using v by (auto simp: CFRunLoopRunInternal_def idle_def)
    ultimately show ?thesis using assms(4) by (simp add: run_specific_unfold idle_notify [OF v(1)])
  qed
  show ?thesis
  proof (cases "sec \<le> TIMER_INTERVAL_LIMIT")
    case True
    have tt: "term_tsr E sec ?v = (if sec \<le> 0 then 0 else w_now w + CFTimeIntervalToTSR E sec)"
      using True by (simp add: term_tsr_def world_simps)
    have "term_tsr E sec ?v \<noteq> UINT64_MAX \<and> timeout_timer E (term_tsr E sec ?v)" if "term_tsr E sec ?v \<noteq> 0"
      using that assms(5,6) True tt by (auto split: if_splits)
    from idle_pass [OF assms(1) this v] obtain u where u:
      "run_iteration E rl n (term_tsr E sec ?v) st ?dp True ?v = Some (Some RunTimedOut, False, u)" "idle rl n u" "term_tsr E sec ?v \<le> w_now u"
      by blast
    have "run_passes E rl n (term_tsr E sec ?v) st ?dp True ?v = Some (RunTimedOut, u)"
      by (subst run_passes.simps) (simp add: u(1))
    moreover have "0 < sec \<longrightarrow> w_now w + CFTimeIntervalToTSR E sec \<le> w_now u" using u(3) tt by auto
    ultimately show ?thesis using True by (simp add: run idle_notify [OF u(2)] world_simps)
  next
    case False
    then have "0 < sec" by (simp add: TIMER_INTERVAL_LIMIT_def)
    then have tt: "term_tsr E sec ?v = UINT64_MAX" using False by (simp add: term_tsr_def)
    have "run_passes E rl n UINT64_MAX st ?dp True ?v = None"
      by (subst run_passes.simps) (simp only: idle_sleeps [OF assms(1) v(1)] Option.bind.bind_lzero)
    then show ?thesis using False by (simp add: run tt)
  qed
qed

text \<open>In the sample a wait lasts until the clock shows 103.\<close>

definition silent_sample :: env where
  "silent_sample = sample_env\<lparr>e_receive := (\<lambda>ps poll w. (if poll then w else w\<lparr>w_now := max (w_now w) 103, w_date := w_date w + 1\<rparr>, 0)),
     e_timeoutFired := (\<lambda>tsr w. tsr \<le> w_now w)\<rparr>"

lemma idle_run_times_out_witness:
  "\<exists>w'. CFRunLoopRunSpecific silent_sample 2 ''m'' 3 False (sample_mode_world [5]) = Some (RunTimedOut, w') \<and> 103 \<le> w_now w'"
proof -
  have s: "no_messages silent_sample"
    unfolding no_messages_def
  proof (intro allI)
    fix ps :: "port list" and poll :: bool and w :: world
    show "\<exists>now date. e_receive silent_sample ps poll w = (w\<lparr>w_now := now, w_date := date\<rparr>, 0) \<and> w_now w \<le> now"
      by (rule exI [of _ "if poll then w_now w else max (w_now w) 103"], rule exI [of _ "if poll then w_date w else w_date w + 1"])
        (simp add: silent_sample_def)
  qed
  have t: "timeout_timer silent_sample 103" by (simp add: timeout_timer_def silent_sample_def)
  have i: "idle 2 ''m'' (sample_mode_world [5])" "wakeable 2 ''m'' (sample_mode_world [5])" "\<not> CFRunLoopIsDeallocating 2 (sample_mode_world [5])"
    by (simp_all add: idle_def wakeable_def new_mode_def none_left_def CFRunLoopIsStopped_def CFRunLoopIsDeallocating_def)
      (simp_all add: sample_mode_world_def sample_world_def upd_loop_def new_loop_def fresh_per_run_data_def)
  have now: "w_now (sample_mode_world [5]) = 100" by (simp add: sample_mode_world_def sample_world_def upd_loop_def)
  have "CFTimeIntervalToTSR silent_sample 3 = 3"
    by (simp add: CFTimeIntervalToTSR_def silent_sample_def sample_env_def LLONG_MAX_def)
  then show ?thesis using idle_run_times_out [OF s i, of 3 False] t by (simp add: now TIMER_INTERVAL_LIMIT_def UINT64_MAX_def)
qed

subsection \<open>Stopping a mode\<close>

text \<open>\<^verbatim>\<open>_CFRunLoopStopMode\<close> ends exactly one run: the next run of the mode returns \<^verbatim>\<open>kCFRunLoopRunStopped\<close> without a pass and takes
  the request back, leaving the mode as it was before. (No observer of the mode wants to know of entry and exit.)\<close>

theorem stop_mode_ends_one_run:
  assumes m: "mode_of w rl n = Some m" and "\<not> m_stopped m"
    and "m_observerMask m AND kCFRunLoopEntry = 0" and "m_observerMask m AND kCFRunLoopExit = 0"
    and "\<not> CFRunLoopModeIsEmpty E rl n w" and "\<not> CFRunLoopIsDeallocating rl w"
  shows "\<exists>w'. CFRunLoopRunSpecific E rl n sec st (CFRunLoopStopMode rl n w) = Some (RunStopped, w') \<and> mode_of w' rl = mode_of w rl \<and>
    w_loops w' rl = (w_loops w rl)\<lparr>rl_modes := rl_modes (w_loops w' rl)\<rparr>"
proof -
  let ?f = "\<lambda>b m. m\<lparr>m_stopped := b\<rparr>"
  let ?s = "CFRunLoopStopMode rl n w"
  have found: "snd (CFRunLoopFindMode rl n True w) = w" using m by (simp add: CFRunLoopFindMode_def)
  have s: "?s = CFRunLoopWakeUp rl (upd_mode rl n (?f True) w)" by (simp add: CFRunLoopStopMode_def found)
  have loop: "w_loops ?s = w_loops (upd_mode rl n (?f True) w)" "w_inMainQueue ?s = w_inMainQueue w"
    by (simp_all add: s CFRunLoopWakeUp_def log_event_def upd_mode_def upd_loop_def)
  have ms: "mode_of ?s rl n = Some (?f True m)" "mode_of ?s rl = (mode_of w rl)(n \<mapsto> ?f True m)"
    using m mode_of_upd_mode [of rl n "?f True" w rl] unfolding fun_eq_iff by (simp_all add: mode_of_def loop)
  have rest: "w_loops ?s rl = (w_loops w rl)\<lparr>rl_modes := rl_modes (w_loops ?s rl)\<rparr>"
    by (simp add: loop upd_mode_def upd_loop_def)
  have "CFRunLoopModeIsEmpty E rl n ?s = CFRunLoopModeIsEmpty E rl n w"
    using m ms(1) by (simp add: CFRunLoopModeIsEmpty_def on_main_queue_def loop upd_mode_def upd_loop_def)
  then have f: "\<not> CFRunLoopFinished E rl n ?s" "\<not> CFRunLoopIsDeallocating rl ?s"
    using assms(5,6) ms(1) by (simp_all add: CFRunLoopFinished_def CFRunLoopFindMode_def CFRunLoopIsDeallocating_def loop upd_mode_def upd_loop_def)
  let ?v = "upd_loop rl (\<lambda>r. r\<lparr>rl_perRunData := fresh_per_run_data, rl_currentMode := Some n\<rparr>) ?s"
  let ?u = "upd_mode rl n (?f False) ?v"
  have mv: "mode_of ?v rl = mode_of ?s rl" and stopped: "\<not> CFRunLoopIsStopped rl ?v"
    by (simp_all add: fun_eq_iff mode_of_def upd_loop_def CFRunLoopIsStopped_def fresh_per_run_data_def)
  have mu: "mode_of ?u rl = mode_of w rl"
    using assms(1,2) mode_of_upd_mode [of rl n "?f False" ?v rl] by (auto simp: fun_eq_iff mv ms(2))
  have "notify E rl n kCFRunLoopEntry ?v = Some ?v" "notify E rl n kCFRunLoopExit ?u = Some ?u"
    using assms(3,4) m by (simp_all add: notify_def mv ms(1) mu)
  moreover have "CFRunLoopRunInternal E rl n sec st ?v = Some (RunStopped, ?u)"
    by (simp add: CFRunLoopRunInternal_def mv ms(1) stopped)
  moreover define w' where "w' = upd_loop rl (\<lambda>r. r\<lparr>rl_perRunData := rl_perRunData (w_loops ?s rl),
      rl_currentMode := rl_currentMode (w_loops ?s rl)\<rparr>) ?u"
  ultimately have "CFRunLoopRunSpecific E rl n sec st ?s = Some (RunStopped, w')"
    using f by (simp add: run_specific_unfold)
  moreover have "w_loops w' rl = (w_loops ?s rl)\<lparr>rl_modes := rl_modes (w_loops w' rl)\<rparr>"
    by (simp add: w'_def upd_loop_def upd_mode_def)
  then have "w_loops w' rl = (w_loops w rl)\<lparr>rl_modes := rl_modes (w_loops w' rl)\<rparr>"
    using rest by (metis run_loop.surjective run_loop.update_convs(8))
  moreover have "mode_of w' rl = mode_of ?u rl" by (simp add: w'_def fun_eq_iff mode_of_def upd_loop_def)
  ultimately show ?thesis using mu by auto
qed

lemma stop_mode_ends_one_run_witness:
  "\<exists>w'. CFRunLoopRunSpecific sample_env 2 ''m'' 3 False (CFRunLoopStopMode 2 ''m'' (sample_mode_world [5])) = Some (RunStopped, w')"
proof -
  have "\<not> CFRunLoopModeIsEmpty sample_env 2 ''m'' (sample_mode_world [5])" "\<not> CFRunLoopIsDeallocating 2 (sample_mode_world [5])"
    by (simp_all add: CFRunLoopModeIsEmpty_def none_left_def CFRunLoopIsDeallocating_def)
      (simp_all add: sample_mode_world_def sample_world_def upd_loop_def new_loop_def)
  from stop_mode_ends_one_run [OF sample_mode _ _ _ this, of 3 False] show ?thesis by (auto simp: new_mode_def)
qed

end
