(* ===== verification/RunLoopPassTheorems.thy ===== *)
theory RunLoopPassTheorems
  imports RunLoopReturnTheorems
begin

text \<open>What is proved of one pass of a loop: the order of the callouts.\<close>

subsection \<open>Calm worlds\<close>

text \<open>The callbacks do nothing; a receive takes time, a poll ends with no message or with the wake-up message, a wait with
  the wake-up message.\<close>

definition quiet_env :: "ref \<Rightarrow> env \<Rightarrow> bool" where
  "quiet_env rl E \<longleftrightarrow> (\<forall>ev w. e_callout E ev w = w) \<and>
     (\<forall>ps poll w. \<exists>now date p. e_receive E ps poll w = (w\<lparr>w_now := now, w_date := date\<rparr>, p) \<and> (poll \<and> p = 0 \<or> p = rl_wakeUpPort (w_loops w rl)))"

lemma quiet_callouts: "quiet_env rl E \<Longrightarrow> callout E ev w = log_event ev w"
  by (simp add: quiet_env_def callout_def)

text \<open>The observers of the mode repeat, are valid, are not firing and are covered by the mode's mask.\<close>

definition calm :: "ref \<Rightarrow> string \<Rightarrow> world \<Rightarrow> bool" where
  "calm rl n w \<longleftrightarrow> mode_of w rl n \<noteq> None \<and> (\<forall>ob \<in> set (observers_at w rl n). o_valid (w_observers w ob) \<and> o_repeats (w_observers w ob) \<and>
     \<not> o_firing (w_observers w ob) \<and> o_activities (w_observers w ob) AND NOT (mask_at w rl n) = 0)"

text \<open>A step with the given callouts that leaves the mode and the observers alone.\<close>

definition passes_to :: "ref \<Rightarrow> string \<Rightarrow> world \<Rightarrow> event list \<Rightarrow> world \<Rightarrow> bool" where
  "passes_to rl n w es w' \<longleftrightarrow> mode_of w' rl n = mode_of w rl n \<and> w_observers w' = w_observers w \<and> w_trace w' = w_trace w @ es \<and>
     rl_commonModes (w_loops w' rl) = rl_commonModes (w_loops w rl) \<and> rl_wakeUpPort (w_loops w' rl) = rl_wakeUpPort (w_loops w rl)"

lemma passes_to_trans: "passes_to rl n w es v \<Longrightarrow> passes_to rl n v fs u \<Longrightarrow> passes_to rl n w (es @ fs) u"
  by (simp add: passes_to_def)

lemma passes_to_refl: "passes_to rl n w [] w"
  by (simp add: passes_to_def)

lemma passes_to_observers: "passes_to rl n w es w' \<Longrightarrow> observers_at w' rl n = observers_at w rl n"
  by (simp add: passes_to_def observers_at_def)

lemma passes_to_calm: "passes_to rl n w es w' \<Longrightarrow> calm rl n w \<Longrightarrow> calm rl n w'"
  by (simp add: calm_def passes_to_observers) (simp add: passes_to_def mask_at_def)

definition seen :: "activity \<Rightarrow> ref \<Rightarrow> string \<Rightarrow> world \<Rightarrow> event list" where
  "seen act rl n w = map (\<lambda>ob. Observed ob act) (filter (\<lambda>ob. o_activities (w_observers w ob) AND act \<noteq> 0) (observers_at w rl n))"

lemma passes_to_seen: "passes_to rl n w es w' \<Longrightarrow> seen act rl n w' = seen act rl n w"
  by (simp add: seen_def passes_to_observers) (simp add: passes_to_def)

subsection \<open>The steps of a pass\<close>

lemma quiet_observers:
  assumes "quiet_env rl E"
  shows "\<forall>ob \<in> set xs. o_valid (w_observers w ob) \<and> o_repeats (w_observers w ob) \<and> \<not> o_firing (w_observers w ob) \<Longrightarrow>
    do_observers_loop E act xs w = Some (w\<lparr>w_trace := w_trace w @ map (\<lambda>ob. Observed ob act) xs\<rparr>)"
proof (induction xs arbitrary: w)
  case (Cons x xs)
  have same: "upd_observer x (\<lambda>ob. ob\<lparr>o_firing := False\<rparr>) (callout E (Observed x act) (upd_observer x (\<lambda>ob. ob\<lparr>o_firing := True\<rparr>) w)) =
      w\<lparr>w_trace := w_trace w @ [Observed x act]\<rparr>"
    using Cons.prems by (simp add: quiet_callouts [OF assms] upd_observer_def log_event_def fun_upd_idem)
  have "o_valid (w_observers w x)" "o_repeats (w_observers w x)" using Cons.prems by simp_all
  then have "do_observers_loop E act (x # xs) w = do_observers_loop E act xs (w\<lparr>w_trace := w_trace w @ [Observed x act]\<rparr>)"
    by (simp add: same Let_def)
  also have "\<dots> = Some (w\<lparr>w_trace := w_trace w @ map (\<lambda>ob. Observed ob act) (x # xs)\<rparr>)"
    using Cons.IH [of "w\<lparr>w_trace := w_trace w @ [Observed x act]\<rparr>"] Cons.prems by simp
  finally show ?case .
qed simp

lemma quiet_notify:
  assumes "quiet_env rl E" and calm: "calm rl n w"
  shows "notify E rl n act w = Some (w\<lparr>w_trace := w_trace w @ seen act rl n w\<rparr>)"
proof -
  obtain m where m: "mode_of w rl n = Some m" using calm by (auto simp: calm_def)
  have at: "observers_at w rl n = mode_observers m" "mask_at w rl n = m_observerMask m" by (simp_all add: observers_at_def mask_at_def m)
  have ok: "\<forall>ob \<in> set (mode_observers m). o_valid (w_observers w ob) \<and> o_repeats (w_observers w ob) \<and> \<not> o_firing (w_observers w ob)"
    using calm by (simp add: calm_def at)
  then have coll: "collected_observers act (mode_observers m) w = filter (\<lambda>ob. o_activities (w_observers w ob) AND act \<noteq> 0) (mode_observers m)"
    by (auto simp: collected_observers_def intro: filter_cong)
  have "filter (\<lambda>ob. o_activities (w_observers w ob) AND act \<noteq> 0) (mode_observers m) = []" if "m_observerMask m AND act = 0"
    using calm that and_mask by (fastforce simp: calm_def at filter_empty_conv)
  moreover have "CFRunLoopDoObservers E rl n act w = Some (w\<lparr>w_trace := w_trace w @ seen act rl n w\<rparr>)"
  proof (cases "m_observers m")
    case (Some xs)
    then have "mode_observers m = xs" by (simp add: mode_observers_def)
    then show ?thesis using Some ok coll quiet_observers [OF assms(1), of "collected_observers act xs w" w act]
      by (simp add: CFRunLoopDoObservers_def m seen_def at)
  qed (simp add: CFRunLoopDoObservers_def m seen_def at mode_observers_def)
  ultimately show ?thesis by (simp add: notify_def m seen_def at)
qed

lemma passes_to_trace: "passes_to rl n w es (w\<lparr>w_trace := w_trace w @ es\<rparr>)"
  by (simp add: passes_to_def mode_of_def)

lemma notify_passes:
  assumes "quiet_env rl E" and "passes_to rl n w es v" and "calm rl n w"
  shows "\<exists>v'. notify E rl n act v = Some v' \<and> passes_to rl n w (es @ seen act rl n w) v' \<and> w_sources v' = w_sources v \<and> w_loops v' = w_loops v"
  using quiet_notify [OF assms(1) passes_to_calm [OF assms(2,3)], of act] passes_to_trans [OF assms(2) passes_to_trace] passes_to_seen [OF assms(2)]
  by simp

lemma passes_to_loop:
  "rl_modes (f (w_loops w rl)) = rl_modes (w_loops w rl) \<Longrightarrow> rl_commonModes (f (w_loops w rl)) = rl_commonModes (w_loops w rl) \<Longrightarrow>
   rl_wakeUpPort (f (w_loops w rl)) = rl_wakeUpPort (w_loops w rl) \<Longrightarrow> passes_to rl n w [] (upd_loop rl f w)"
  by (simp add: passes_to_def upd_loop_def mode_of_def)

lemma passes_to_flags:
  "passes_to rl n w [] (set_ignoreWakeUps b rl w)" "passes_to rl n w [] (set_sleeping b rl w)" "passes_to rl n w [] (w\<lparr>w_now := k, w_date := d\<rparr>)"
  "passes_to rl n w [] (upd_loop rl (\<lambda>r. r\<lparr>rl_sleepTime := x r\<rparr>) w)" "passes_to rl n w [] (upd_mode rl n (\<lambda>m. m) w)"
  unfolding set_ignoreWakeUps_def set_sleeping_def
  by (rule passes_to_loop; simp)+ (simp_all add: passes_to_def mode_of_def upd_mode_def upd_loop_def option.map_ident)

lemma passes_to_step: "passes_to rl n w es v \<Longrightarrow> passes_to rl n v [] u \<Longrightarrow> passes_to rl n w es u"
  using passes_to_trans [of rl n w es v "[]" u] by simp

abbreviation block_due :: "ref \<Rightarrow> string \<Rightarrow> world \<Rightarrow> block_mode \<times> nat \<Rightarrow> bool" where
  "block_due rl n w \<equiv> \<lambda>(bm, b). block_matches (rl_commonModes (w_loops w rl)) n bm"

lemma fold_blocks:
  "quiet_env rl E \<Longrightarrow> fold (\<lambda>(bm, b). callout E (BlockRun b)) bs w = w\<lparr>w_trace := w_trace w @ map (\<lambda>(bm, b). BlockRun b) bs\<rparr>"
  by (induction bs arbitrary: w) (auto simp: quiet_callouts log_event_def)

lemma blocks_pass:
  fixes w :: world and rl :: ref and n :: string
  defines "due \<equiv> block_due rl n w"
  assumes quiet: "quiet_env rl E"
  shows "passes_to rl n w (map (\<lambda>(bm, b). BlockRun b) (filter due (rl_blocks (w_loops w rl)))) (snd (CFRunLoopDoBlocks E rl n w)) \<and>
    rl_blocks (w_loops (snd (CFRunLoopDoBlocks E rl n w)) rl) = filter (Not \<circ> due) (rl_blocks (w_loops w rl)) \<and>
    w_sources (snd (CFRunLoopDoBlocks E rl n w)) = w_sources w"
proof -
  have "rl_commonModes (w_loops (e_callout E ev v) rl) = rl_commonModes (w_loops v rl)" for ev v
    using quiet by (simp add: quiet_env_def)
  from do_blocks_eq [OF this, of n w] show ?thesis
    unfolding fold_blocks [OF quiet] Let_def due_def [symmetric]
    by (cases "rl_blocks (w_loops w rl) = []") (auto simp: passes_to_def upd_loop_def mode_of_def)
qed

text \<open>The signalled valid sources of version 0 of a mode, by priority.\<close>

definition ready0 :: "ref \<Rightarrow> string \<Rightarrow> world \<Rightarrow> ref list" where
  "ready0 rl n w = sort_key (\<lambda>s. s_order (w_sources w s)) (filter (\<lambda>s. s_version (w_sources w s) = 0 \<and> s_valid (w_sources w s) \<and>
     s_signaled (w_sources w s)) (case mode_of w rl n of None \<Rightarrow> [] | Some m \<Rightarrow> (case m_sources0 m of None \<Rightarrow> [] | Some xs \<Rightarrow> xs)))"

lemma ready0_cong: "mode_of v rl n = mode_of w rl n \<Longrightarrow> w_sources v = w_sources w \<Longrightarrow> ready0 rl n v = ready0 rl n w"
  by (simp add: ready0_def)

lemma fold_perform0:
  "quiet_env rl E \<Longrightarrow> passes_to rl n w (map Performed0 ss) (fold (perform0 E) ss w) \<and> w_loops (fold (perform0 E) ss w) = w_loops w"
proof (induction ss arbitrary: w)
  case (Cons s ss)
  have step: "passes_to rl n w [Performed0 s] (perform0 E s w)" "w_loops (perform0 E s w) = w_loops w"
    by (simp_all add: perform0_def quiet_callouts [OF Cons.prems] passes_to_def log_event_def upd_source_def mode_of_def)
  from Cons.IH [OF Cons.prems, of "perform0 E s w"] show ?case using passes_to_trans [OF step(1)] step(2) by simp
qed (simp add: passes_to_refl)

lemma sources0_pass:
  assumes quiet: "quiet_env rl E" and m: "mode_of w rl n = Some m" and xs: "\<And>xs. m_sources0 m = Some xs \<Longrightarrow> distinct xs \<and> length xs \<le> (2 ^ 63 - 1) div 8"
  shows "\<exists>v. CFRunLoopDoSources0 E rl n False w = Some (ready0 rl n w \<noteq> [], v) \<and> passes_to rl n w (map Performed0 (ready0 rl n w)) v \<and>
    w_loops v = w_loops w"
proof (cases "m_sources0 m")
  case None
  then show ?thesis by (simp add: CFRunLoopDoSources0_def m ready0_def passes_to_refl)
next
  case (Some ys)
  have "w_sources (e_callout E ev v) = w_sources v" for ev v using quiet by (simp add: quiet_env_def)
  moreover have "distinct ys" "length ys \<le> (2 ^ 63 - 1) div 8" using xs [OF Some] by simp_all
  ultimately have "CFRunLoopDoSources0 E rl n False w = Some (ready0 rl n w \<noteq> [], fold (perform0 E) (ready0 rl n w) w)"
    using do_sources0_eq [OF m Some, of E False] by (simp add: ready0_def m Some Let_def)
  then show ?thesis using fold_perform0 [OF quiet] by simp
qed

lemma quiet_service:
  assumes "quiet_env rl E" "rl_wakeUpPort (w_loops w rl) \<noteq> 0"
  shows "\<exists>now date p. CFRunLoopServiceMachPort E rl tt ps poll w = Some (w\<lparr>w_now := now, w_date := date\<rparr>, p) \<and>
    (p = 0 \<or> p = rl_wakeUpPort (w_loops w rl))"
proof -
  obtain now date p where "e_receive E ps poll w = (w\<lparr>w_now := now, w_date := date\<rparr>, p)" "poll \<and> p = 0 \<or> p = rl_wakeUpPort (w_loops w rl)"
    using assms(1) unfolding quiet_env_def by blast
  then show ?thesis using assms(2) unfolding CFRunLoopServiceMachPort_def by auto
qed

lemma sleep_pass:
  assumes quiet: "quiet_env rl E" and step: "passes_to rl n w es v" and calm: "calm rl n w" and port: "rl_wakeUpPort (w_loops w rl) \<noteq> 0"
  shows "\<exists>p v'. sleep E rl n tt 0 poll v = Some (p, v') \<and> (p = 0 \<or> p = rl_wakeUpPort (w_loops v' rl)) \<and> rl_blocks (w_loops v' rl) = rl_blocks (w_loops v rl) \<and>
    passes_to rl n w (es @ (if poll then [] else seen kCFRunLoopBeforeWaiting rl n w @ seen kCFRunLoopAfterWaiting rl n w)) v'"
proof -
  let ?bw = "if poll then [] else seen kCFRunLoopBeforeWaiting rl n w" and ?aw = "if poll then [] else seen kCFRunLoopAfterWaiting rl n w"
  obtain v1 where v1: "(if \<not> poll then notify E rl n kCFRunLoopBeforeWaiting v else Some v) = Some v1" "passes_to rl n w (es @ ?bw) v1"
    "w_loops v1 = w_loops v"
    using notify_passes [OF quiet step calm, of kCFRunLoopBeforeWaiting] step by (cases poll) auto
  define v2 where "v2 = upd_mode rl n (\<lambda>m. if (0 :: nat) = 0 then m else m\<lparr>m_portSet := List.insert 0 (m_portSet m)\<rparr>) (set_sleeping True rl v1)"
  have p2: "passes_to rl n w (es @ ?bw) v2"
    using passes_to_step [OF passes_to_step [OF v1(2) passes_to_flags(2)] passes_to_flags(5)] by (simp add: v2_def)
  obtain m where m: "mode_of v2 rl n = Some m" using passes_to_calm [OF p2 calm] by (auto simp: calm_def)
  have "rl_wakeUpPort (w_loops v2 rl) \<noteq> 0" using p2 port by (simp add: passes_to_def)
  then obtain now date p where rc: "CFRunLoopServiceMachPort E rl tt (m_portSet m) poll v2 = Some (v2\<lparr>w_now := now, w_date := date\<rparr>, p)"
    "p = 0 \<or> p = rl_wakeUpPort (w_loops v2 rl)"
    using quiet_service [OF quiet] by blast
  define v3 where "v3 = v2\<lparr>w_now := now, w_date := date\<rparr>"
  define v6 where "v6 = set_sleeping False rl (set_ignoreWakeUps True rl (upd_mode rl n
      (\<lambda>m. if (0 :: nat) = 0 then m else m\<lparr>m_portSet := removeAll 0 (m_portSet m)\<rparr>)
      (upd_loop rl (\<lambda>r. r\<lparr>rl_sleepTime := rl_sleepTime r + (if poll then 0 else w_date v3 - w_date v2)\<rparr>) v3)))"
  have p6: "passes_to rl n w (es @ ?bw) v6"
    unfolding v6_def v3_def if_P [OF refl]
    by (rule passes_to_step [OF _ passes_to_flags(2)], rule passes_to_step [OF _ passes_to_flags(1)], rule passes_to_step [OF _ passes_to_flags(5)],
        rule passes_to_step [OF _ passes_to_flags(4)], rule passes_to_step [OF p2 passes_to_flags(3)])
  have b6: "rl_blocks (w_loops v6 rl) = rl_blocks (w_loops v rl)"
    by (simp add: v6_def v3_def v2_def set_sleeping_def set_ignoreWakeUps_def upd_mode_def upd_loop_def v1(3))
  obtain v7 where v7: "(if \<not> poll then notify E rl n kCFRunLoopAfterWaiting v6 else Some v6) = Some v7" "passes_to rl n w ((es @ ?bw) @ ?aw) v7"
    "w_loops v7 = w_loops v6"
    using notify_passes [OF quiet p6 calm, of kCFRunLoopAfterWaiting] p6 by (cases poll) auto
  have "sleep E rl n tt 0 poll v = Some (p, v7)"
    unfolding sleep_def v1(1) Option.bind_lunit Let_def v2_def [symmetric] m rc(1) prod.case v3_def [symmetric] v6_def [symmetric] v7(1) ..
  moreover have "rl_wakeUpPort (w_loops v7 rl) = rl_wakeUpPort (w_loops v2 rl)" using p2 v7(2) by (simp add: passes_to_def)
  ultimately show ?thesis using rc(2) v7(2,3) b6 by (cases poll) auto
qed

lemma no_blocks_pass:
  assumes quiet: "quiet_env rl E" and step: "passes_to rl n w es v" and none: "rl_blocks (w_loops v rl) = filter (Not \<circ> block_due rl n w) bs"
  shows "passes_to rl n w es (snd (CFRunLoopDoBlocks E rl n v)) \<and>
    rl_blocks (w_loops (snd (CFRunLoopDoBlocks E rl n v)) rl) = rl_blocks (w_loops v rl)"
proof -
  have "block_due rl n v = block_due rl n w" using step by (simp add: passes_to_def)
  then have "filter (block_due rl n v) (rl_blocks (w_loops v rl)) = []" "filter (Not \<circ> block_due rl n v) (rl_blocks (w_loops v rl)) = rl_blocks (w_loops v rl)"
    by (simp_all add: none filter_empty_conv comp_def)
  then show ?thesis using blocks_pass [OF quiet, of n v] passes_to_step [OF step] by simp
qed

lemma first_half:
  assumes quiet: "quiet_env rl E" and calm: "calm rl n w" and m: "mode_of w rl n = Some m"
    and xs: "\<And>xs. m_sources0 m = Some xs \<Longrightarrow> distinct xs \<and> length xs \<le> (2 ^ 63 - 1) div 8"
  shows "\<exists>w1 w2 w3 w4. notify E rl n kCFRunLoopBeforeTimers (set_ignoreWakeUps False rl w) = Some w1 \<and> notify E rl n kCFRunLoopBeforeSources w1 = Some w2 \<and>
    CFRunLoopDoSources0 E rl n False (snd (CFRunLoopDoBlocks E rl n w2)) = Some (ready0 rl n w \<noteq> [], w3) \<and>
    w4 = (if ready0 rl n w \<noteq> [] then snd (CFRunLoopDoBlocks E rl n w3) else w3) \<and>
    rl_blocks (w_loops w4 rl) = filter (Not \<circ> block_due rl n w) (rl_blocks (w_loops w rl)) \<and>
    passes_to rl n w (seen kCFRunLoopBeforeTimers rl n w @ seen kCFRunLoopBeforeSources rl n w @
      map (\<lambda>(bm, b). BlockRun b) (filter (block_due rl n w) (rl_blocks (w_loops w rl))) @ map Performed0 (ready0 rl n w)) w4"
proof -
  obtain w1 where w1: "notify E rl n kCFRunLoopBeforeTimers (set_ignoreWakeUps False rl w) = Some w1" "passes_to rl n w ([] @ seen kCFRunLoopBeforeTimers rl n w) w1"
    "w_sources w1 = w_sources (set_ignoreWakeUps False rl w)" "w_loops w1 = w_loops (set_ignoreWakeUps False rl w)"
    using notify_passes [OF quiet passes_to_flags(1) calm] by blast
  obtain w2 where w2: "notify E rl n kCFRunLoopBeforeSources w1 = Some w2"
    "passes_to rl n w (([] @ seen kCFRunLoopBeforeTimers rl n w) @ seen kCFRunLoopBeforeSources rl n w) w2"
    "w_sources w2 = w_sources w1" "w_loops w2 = w_loops w1"
    using notify_passes [OF quiet w1(2) calm] by blast
  have base: "w_sources w2 = w_sources w" "rl_blocks (w_loops w2 rl) = rl_blocks (w_loops w rl)" "rl_commonModes (w_loops w2 rl) = rl_commonModes (w_loops w rl)"
    by (simp_all add: w1 w2 set_ignoreWakeUps_def world_simps)
  let ?b = "snd (CFRunLoopDoBlocks E rl n w2)" and ?due = "block_due rl n w"
  have b: "passes_to rl n w2 (map (\<lambda>(bm, b). BlockRun b) (filter ?due (rl_blocks (w_loops w rl)))) ?b"
    "rl_blocks (w_loops ?b rl) = filter (Not \<circ> ?due) (rl_blocks (w_loops w rl))" "w_sources ?b = w_sources w"
    using blocks_pass [OF quiet, of n w2] by (simp_all add: base)
  note pb = passes_to_trans [OF w2(2) b(1)]
  have mb: "mode_of ?b rl n = Some m" using pb m by (simp add: passes_to_def)
  have "ready0 rl n ?b = ready0 rl n w" by (rule ready0_cong) (simp_all add: mb m b(3))
  with sources0_pass [OF quiet mb xs] obtain w3 where w3: "CFRunLoopDoSources0 E rl n False ?b = Some (ready0 rl n w \<noteq> [], w3)"
    "passes_to rl n ?b (map Performed0 (ready0 rl n w)) w3" "w_loops w3 = w_loops ?b" by auto
  note p3 = passes_to_trans [OF pb w3(2)]
  have r3: "rl_blocks (w_loops w3 rl) = filter (Not \<circ> ?due) (rl_blocks (w_loops w rl))" by (simp add: w3(3) b(2))
  show ?thesis using no_blocks_pass [OF quiet p3 r3] p3 w1(1) w2(1) w3(1) r3 by (cases "ready0 rl n w = []") auto
qed

lemma run_outcome_trace: "w_trace (snd (run_outcome E rl n tt st h w)) = w_trace w"
  by (simp add: run_outcome_def set_stopped_def upd_mode_def upd_loop_def)

text \<open>C9: The order of the callouts of a pass. With callbacks that do nothing, a wake-up port and only the wake-up message, a pass of a
  mode whose observers repeat calls out exactly as follows: the observers of \<^verbatim>\<open>BeforeTimers\<close>, those of \<^verbatim>\<open>BeforeSources\<close>, the queued
  blocks that match in the order of the queue, the signalled sources of version 0 by priority, and, only if no source
  was performed, the observers of \<^verbatim>\<open>BeforeWaiting\<close> and those of \<^verbatim>\<open>AfterWaiting\<close>, each group in ascending order.\<close>

theorem pass_order:
  assumes good: "good_env E" and reach: "reachable E w" and quiet: "quiet_env rl E" and m: "mode_of w rl n = Some m"
    and xs: "\<And>xs. m_sources0 m = Some xs \<Longrightarrow> distinct xs \<and> length xs \<le> (2 ^ 63 - 1) div 8"
    and obs: "\<And>ob. ob \<in> set (observers_at w rl n) \<Longrightarrow> o_valid (w_observers w ob) \<and> o_repeats (w_observers w ob) \<and> \<not> o_firing (w_observers w ob)"
    and tt: "tt \<noteq> 0" "\<And>v. \<not> e_timeoutFired E tt v" and port: "rl_wakeUpPort (w_loops w rl) \<noteq> 0"
  shows "\<exists>r s w'. run_iteration E rl n tt False 0 d w = Some (r, s, w') \<and>
    w_trace w' = w_trace w @ seen kCFRunLoopBeforeTimers rl n w @ seen kCFRunLoopBeforeSources rl n w @
      map (\<lambda>(bm, b). BlockRun b) (filter (block_due rl n w) (rl_blocks (w_loops w rl))) @ map Performed0 (ready0 rl n w) @
      (if ready0 rl n w = [] then seen kCFRunLoopBeforeWaiting rl n w @ seen kCFRunLoopAfterWaiting rl n w else [])"
proof -
  have calm: "calm rl n w"
    using obs observers_okD(4) [OF observers_inv_okD [OF reachable_inv [OF good reach]]] m by (simp add: calm_def)
  let ?h = "ready0 rl n w \<noteq> []"
  obtain w1 w2 w3 w4 where h: "notify E rl n kCFRunLoopBeforeTimers (set_ignoreWakeUps False rl w) = Some w1" "notify E rl n kCFRunLoopBeforeSources w1 = Some w2"
    "CFRunLoopDoSources0 E rl n False (snd (CFRunLoopDoBlocks E rl n w2)) = Some (?h, w3)" "w4 = (if ?h then snd (CFRunLoopDoBlocks E rl n w3) else w3)"
    "rl_blocks (w_loops w4 rl) = filter (Not \<circ> block_due rl n w) (rl_blocks (w_loops w rl))"
    "passes_to rl n w (seen kCFRunLoopBeforeTimers rl n w @ seen kCFRunLoopBeforeSources rl n w @
      map (\<lambda>(bm, b). BlockRun b) (filter (block_due rl n w) (rl_blocks (w_loops w rl))) @ map Performed0 (ready0 rl n w)) w4"
    using first_half [OF quiet calm m xs] by blast
  have ct: "current_term E tt v = tt" for v using tt by (simp add: current_term_def)
  obtain p w6 where s: "sleep E rl n tt 0 ?h w4 = Some (p, w6)" "p = 0 \<or> p = rl_wakeUpPort (w_loops w6 rl)" "rl_blocks (w_loops w6 rl) = rl_blocks (w_loops w4 rl)"
    "passes_to rl n w ((seen kCFRunLoopBeforeTimers rl n w @ seen kCFRunLoopBeforeSources rl n w @
      map (\<lambda>(bm, b). BlockRun b) (filter (block_due rl n w) (rl_blocks (w_loops w rl))) @ map Performed0 (ready0 rl n w)) @
      (if ?h then [] else seen kCFRunLoopBeforeWaiting rl n w @ seen kCFRunLoopAfterWaiting rl n w)) w6"
    using sleep_pass [OF quiet h(6) calm port] by blast
  let ?w7 = "set_ignoreWakeUps True rl w6"
  note p7 = passes_to_step [OF s(4) passes_to_flags(1)]
  have "mode_of ?w7 rl n = Some m" using p7 m by (simp add: passes_to_def)
  then have msg: "handle_msg E rl n 0 p ?h w6 = Some (?h, False, ?w7)"
    using s(2) by (auto simp: handle_msg_def Let_def set_ignoreWakeUps_def world_simps)
  have "rl_blocks (w_loops ?w7 rl) = filter (Not \<circ> block_due rl n w) (rl_blocks (w_loops w rl))"
    using s(3) h(5) by (simp add: set_ignoreWakeUps_def world_simps)
  note p8 = no_blocks_pass [OF quiet p7 this, THEN conjunct1]
  have "run_iteration E rl n tt False 0 d w =
      (let (result, w8) = run_outcome E rl n tt False ?h (snd (CFRunLoopDoBlocks E rl n ?w7)) in Some (result, False, w8))"
    unfolding run_iteration_def h(1,2,3) Option.bind_lunit Let_def prod.case h(4) [symmetric] ct
    using s(1) tt(1) msg by simp
  then show ?thesis using p8 run_outcome_trace [of E rl n tt False ?h "snd (CFRunLoopDoBlocks E rl n ?w7)"]
    by (auto simp: passes_to_def Let_def split: prod.splits)
qed

text \<open>A new loop with one block for the default mode.\<close>

definition block_world :: world where
  "block_world = CFRunLoopPerformBlock 2 (ArgString kCFRunLoopDefaultMode) (Some 9) created_world"

lemma block_world_views:
  "reachable sample_env block_world" "mode_of block_world 2 kCFRunLoopDefaultMode = Some (new_mode 10 11)"
  "rl_blocks (w_loops block_world 2) = [(ModeName kCFRunLoopDefaultMode, 9)]" "rl_wakeUpPort (w_loops block_world 2) = 10"
proof -
  show "reachable sample_env block_world" unfolding block_world_def by (rule reachable.step [OF created_reachable loop_step.perform_block])
  have eq: "block_world = upd_loop 2 (\<lambda>r. r\<lparr>rl_blocks := rl_blocks r @ [(ModeName kCFRunLoopDefaultMode, 9)]\<rparr>) created_world"
    by (simp add: block_world_def CFRunLoopPerformBlock_def mode_arg_names_def block_mode_of_def CFRunLoopFindMode_def created_mode)
  have created: "rl_blocks (w_loops created_world 2) = []" "rl_wakeUpPort (w_loops created_world 2) = 10"
    by (simp_all add: created_world_def CFRunLoopCreate_def CFRunLoopFindMode_def world_simps new_loop_def) (simp add: sample_world_def)
  then show "rl_blocks (w_loops block_world 2) = [(ModeName kCFRunLoopDefaultMode, 9)]" "rl_wakeUpPort (w_loops block_world 2) = 10"
    by (simp_all add: eq world_simps)
  show "mode_of block_world 2 kCFRunLoopDefaultMode = Some (new_mode 10 11)" using created_mode by (simp add: eq mode_of_def upd_loop_def)
qed

lemma pass_order_witness:
  "\<exists>r s w'. run_iteration sample_env 2 kCFRunLoopDefaultMode 500 False 0 True block_world = Some (r, s, w') \<and>
     w_trace w' = w_trace block_world @ [BlockRun 9]"
proof -
  have "\<exists>now date. w = w\<lparr>w_now := now, w_date := date\<rparr>" for w :: world by (rule exI [of _ "w_now w"], rule exI [of _ "w_date w"]) simp
  then have q: "quiet_env 2 sample_env" by (simp add: quiet_env_def sample_env_def)
  have none: "observers_at block_world 2 kCFRunLoopDefaultMode = []" by (simp add: observers_at_def block_world_views mode_observers_def new_mode_def)
  have "ready0 2 kCFRunLoopDefaultMode block_world = []" by (simp add: ready0_def block_world_views new_mode_def)
  moreover have "seen act 2 kCFRunLoopDefaultMode block_world = []" for act by (simp add: seen_def none)
  ultimately show ?thesis
    using pass_order [OF good_sample block_world_views(1) q block_world_views(2), of 500 True]
    by (simp add: none block_world_views(3,4) block_matches_def) (simp add: new_mode_def sample_env_def)
qed

end
