(* ===== verification/CFBigNumber.thy ===== *)
theory CFBigNumber
  imports Prelude "HOL-Library.Word"
begin

text \<open>
  \<^verbatim>\<open>CFBigNumber.c\<close>: signed numbers of five digits to the base 1000000000, as a 64-bit Mac has them. A digit is a
  32-bit word, the sign is 0 or -1. The arithmetic is that of the C types: \<^verbatim>\<open>long\<close> and \<^verbatim>\<open>uint64_t\<close> are 64-bit words,
  \<^verbatim>\<open>__int128_t\<close> and \<^verbatim>\<open>__uint128_t\<close> 128-bit words; negating the least number of a signed type wraps around, as
  the code's compilers have it. \<^verbatim>\<open>_CFBigNumInitWithCFNumber\<close> and the description are left out.
\<close>

subsection \<open>Data\<close>

record bignum =
  bn_digits :: "32 word list"
  bn_sign :: int

definition BIG_DIGITS_LIMIT :: "'a::len word" where
  "BIG_DIGITS_LIMIT = 1000000000"

definition BIG_DIGITS_LIMIT_2 :: "'a::len word" where
  "BIG_DIGITS_LIMIT_2 = BIG_DIGITS_LIMIT * BIG_DIGITS_LIMIT"

definition BIG_DIGITS_LIMIT_3 :: "'a::len word" where
  "BIG_DIGITS_LIMIT_3 = BIG_DIGITS_LIMIT_2 * BIG_DIGITS_LIMIT"

definition BIG_DIGITS_LIMIT_4 :: "'a::len word" where
  "BIG_DIGITS_LIMIT_4 = BIG_DIGITS_LIMIT_3 * BIG_DIGITS_LIMIT"

text \<open>The sign and the magnitude of a signed argument.\<close>

definition sign_of :: "'a::len word \<Rightarrow> int" where
  "sign_of inNum = (if sint inNum < 0 then -1 else 0)"

definition magnitude :: "'a::len word \<Rightarrow> 'a word" where
  "magnitude inNum = (if sint inNum < 0 then - inNum else inNum)"

subsection \<open>Numbers from machine integers\<close>

definition digits_8 :: "8 word \<Rightarrow> 32 word list" where
  "digits_8 u = [ucast u, 0, 0, 0, 0]"

definition digits_16 :: "16 word \<Rightarrow> 32 word list" where
  "digits_16 u = [ucast u, 0, 0, 0, 0]"

text \<open>The two digits of a 32-bit number are computed in \<^verbatim>\<open>long\<close>.\<close>

definition digits_32 :: "32 word \<Rightarrow> 32 word list" where
  "digits_32 u =
     (let dig0 = ucast ((ucast u :: 64 word) div BIG_DIGITS_LIMIT) in
      [ucast ((ucast u :: 64 word) - ucast dig0 * BIG_DIGITS_LIMIT), dig0, 0, 0, 0])"

definition digits_64 :: "64 word \<Rightarrow> 32 word list" where
  "digits_64 u =
     (let dig2 = ucast (u div BIG_DIGITS_LIMIT_2);
          u1 = u - ucast dig2 * BIG_DIGITS_LIMIT_2;
          dig1 = ucast (u1 div BIG_DIGITS_LIMIT) in
      [ucast (u1 - ucast dig1 * BIG_DIGITS_LIMIT), dig1, dig2, 0, 0])"

definition digits_128 :: "128 word \<Rightarrow> 32 word list" where
  "digits_128 u =
     (let dig4 = ucast (u div BIG_DIGITS_LIMIT_4);
          u1 = u - ucast dig4 * BIG_DIGITS_LIMIT_4;
          dig3 = ucast (u1 div BIG_DIGITS_LIMIT_3);
          u2 = u1 - ucast dig3 * BIG_DIGITS_LIMIT_3;
          dig2 = ucast (u2 div BIG_DIGITS_LIMIT_2);
          u3 = u2 - ucast dig2 * BIG_DIGITS_LIMIT_2;
          dig1 = ucast (u3 div BIG_DIGITS_LIMIT) in
      [ucast (u3 - ucast dig1 * BIG_DIGITS_LIMIT), dig1, dig2, dig3, dig4])"

definition CFBigNumInitWithInt8 :: "8 word \<Rightarrow> bignum" where
  "CFBigNumInitWithInt8 inNum = \<lparr>bn_digits = digits_8 (magnitude inNum), bn_sign = sign_of inNum\<rparr>"

definition CFBigNumInitWithInt16 :: "16 word \<Rightarrow> bignum" where
  "CFBigNumInitWithInt16 inNum = \<lparr>bn_digits = digits_16 (magnitude inNum), bn_sign = sign_of inNum\<rparr>"

definition CFBigNumInitWithInt32 :: "32 word \<Rightarrow> bignum" where
  "CFBigNumInitWithInt32 inNum = \<lparr>bn_digits = digits_32 (magnitude inNum), bn_sign = sign_of inNum\<rparr>"

definition CFBigNumInitWithInt64 :: "64 word \<Rightarrow> bignum" where
  "CFBigNumInitWithInt64 inNum = \<lparr>bn_digits = digits_64 (magnitude inNum), bn_sign = sign_of inNum\<rparr>"

definition CFBigNumInitWithInt128 :: "128 word \<Rightarrow> bignum" where
  "CFBigNumInitWithInt128 inNum = \<lparr>bn_digits = digits_128 (magnitude inNum), bn_sign = sign_of inNum\<rparr>"

definition CFBigNumInitWithUInt8 :: "8 word \<Rightarrow> bignum" where
  "CFBigNumInitWithUInt8 inNum = \<lparr>bn_digits = digits_8 inNum, bn_sign = 0\<rparr>"

definition CFBigNumInitWithUInt16 :: "16 word \<Rightarrow> bignum" where
  "CFBigNumInitWithUInt16 inNum = \<lparr>bn_digits = digits_16 inNum, bn_sign = 0\<rparr>"

definition CFBigNumInitWithUInt32 :: "32 word \<Rightarrow> bignum" where
  "CFBigNumInitWithUInt32 inNum = \<lparr>bn_digits = digits_32 inNum, bn_sign = 0\<rparr>"

definition CFBigNumInitWithUInt64 :: "64 word \<Rightarrow> bignum" where
  "CFBigNumInitWithUInt64 inNum = \<lparr>bn_digits = digits_64 inNum, bn_sign = 0\<rparr>"

definition CFBigNumInitWithUInt128 :: "128 word \<Rightarrow> bignum" where
  "CFBigNumInitWithUInt128 inNum = \<lparr>bn_digits = digits_128 inNum, bn_sign = 0\<rparr>"

subsection \<open>Machine integers from numbers\<close>

text \<open>The sums of the low digits, in the arithmetic of the type of the result.\<close>

definition signed :: "bignum \<Rightarrow> 'a::len word \<Rightarrow> 'a word" where
  "signed num result = (if bn_sign num < 0 then - result else result)"

definition sum_2 :: "bignum \<Rightarrow> 'a::len word" where
  "sum_2 num = ucast (bn_digits num ! 0) + ucast (bn_digits num ! 1) * BIG_DIGITS_LIMIT"

definition sum_3 :: "bignum \<Rightarrow> 'a::len word" where
  "sum_3 num = sum_2 num + ucast (bn_digits num ! 2) * BIG_DIGITS_LIMIT_2"

definition sum_5 :: "bignum \<Rightarrow> 'a::len word" where
  "sum_5 num = sum_3 num + ucast (bn_digits num ! 3) * BIG_DIGITS_LIMIT_3 + ucast (bn_digits num ! 4) * BIG_DIGITS_LIMIT_4"

definition CFBigNumGetInt8 :: "bignum \<Rightarrow> 8 word" where
  "CFBigNumGetInt8 num = signed num (ucast (bn_digits num ! 0))"

definition CFBigNumGetInt16 :: "bignum \<Rightarrow> 16 word" where
  "CFBigNumGetInt16 num = signed num (ucast (bn_digits num ! 0))"

definition CFBigNumGetInt32 :: "bignum \<Rightarrow> 32 word" where
  "CFBigNumGetInt32 num = signed num (sum_2 num)"

definition CFBigNumGetInt64 :: "bignum \<Rightarrow> 64 word" where
  "CFBigNumGetInt64 num = signed num (sum_3 num)"

definition CFBigNumGetInt128 :: "bignum \<Rightarrow> 128 word" where
  "CFBigNumGetInt128 num = signed num (sum_5 num)"

definition CFBigNumGetUInt8 :: "bignum \<Rightarrow> 8 word" where
  "CFBigNumGetUInt8 num = ucast (bn_digits num ! 0)"

definition CFBigNumGetUInt16 :: "bignum \<Rightarrow> 16 word" where
  "CFBigNumGetUInt16 num = ucast (bn_digits num ! 0)"

definition CFBigNumGetUInt32 :: "bignum \<Rightarrow> 32 word" where
  "CFBigNumGetUInt32 num = sum_2 num"

definition CFBigNumGetUInt64 :: "bignum \<Rightarrow> 64 word" where
  "CFBigNumGetUInt64 num = sum_3 num"

definition CFBigNumGetUInt128 :: "bignum \<Rightarrow> 128 word" where
  "CFBigNumGetUInt128 num = sum_5 num"

subsection \<open>Arithmetic\<close>

datatype comparison = LessThan | EqualTo | GreaterThan

text \<open>The loop goes from the highest digit down.\<close>

fun compare_digits :: "bool \<Rightarrow> (32 word \<times> 32 word) list \<Rightarrow> comparison" where
  "compare_digits negative [] = EqualTo"
| "compare_digits negative ((x, y) # ds) =
     (if x < y then (if \<not> negative then LessThan else GreaterThan)
      else if y < x then (if negative then LessThan else GreaterThan)
      else compare_digits negative ds)"

definition CFBigNumCompare :: "bignum \<Rightarrow> bignum \<Rightarrow> comparison" where
  "CFBigNumCompare a b =
     (if bn_sign a = bn_sign b then compare_digits (bn_sign a < 0) (rev (zip (bn_digits a) (bn_digits b)))
      else if bn_sign a < bn_sign b then LessThan else GreaterThan)"

fun less_digits :: "(32 word \<times> 32 word) list \<Rightarrow> bool" where
  "less_digits [] = False"
| "less_digits ((x, y) # ds) = (if x < y then True else if y < x then False else less_digits ds)"

definition CFBigNumAbsoluteLessThan :: "bignum \<Rightarrow> bignum \<Rightarrow> bool" where
  "CFBigNumAbsoluteLessThan a b = less_digits (rev (zip (bn_digits a) (bn_digits b)))"

definition CFBigNumNeg :: "bignum \<Rightarrow> bignum" where
  "CFBigNumNeg a =
     (if \<forall>d \<in> set (bn_digits a). d = 0 then a else a\<lparr>bn_sign := bn_sign a * bn_sign a - 1\<rparr>)"

text \<open>The digits and the last carry; the sum of two digits is compared in \<^verbatim>\<open>long\<close>.\<close>

fun add_digits :: "32 word \<Rightarrow> (32 word \<times> 32 word) list \<Rightarrow> 32 word list \<times> 32 word" where
  "add_digits carry [] = ([], carry)"
| "add_digits carry ((x, y) # ds) =
     (let result = x + y + carry;
          (result, carry) = (if BIG_DIGITS_LIMIT < (ucast result :: 64 word) then (result - BIG_DIGITS_LIMIT, 1) else (result, 0));
          (rs, carry) = add_digits carry ds in
      (result # rs, carry))"

fun sub_digits :: "64 word \<Rightarrow> (32 word \<times> 32 word) list \<Rightarrow> 32 word list \<times> 64 word" where
  "sub_digits carry [] = ([], carry)"
| "sub_digits carry ((x, y) # ds) =
     (let result = ucast x - ucast y - carry;
          (result, carry) = (if sint result < 0 then (result + BIG_DIGITS_LIMIT, 1) else (result, 0));
          (rs, carry) = sub_digits carry ds in
      (ucast result # rs, carry))"

definition CFBigNumAdd :: "bignum \<Rightarrow> bignum \<Rightarrow> bignum \<times> 8 word" where
  "CFBigNumAdd a b =
     (if bn_sign a = bn_sign b then
        (let (ds, carry) = add_digits 0 (zip (bn_digits a) (bn_digits b)) in
         (\<lparr>bn_digits = ds, bn_sign = bn_sign a\<rparr>, ucast carry))
      else
        (let (bigNum, smallNum) = (if CFBigNumAbsoluteLessThan a b then (b, a) else (a, b));
             (ds, carry) = sub_digits 0 (zip (bn_digits bigNum) (bn_digits smallNum)) in
         (\<lparr>bn_digits = ds, bn_sign = (if bn_sign bigNum < 0 then -1 else 0)\<rparr>, ucast carry)))"

definition CFBigNumSub :: "bignum \<Rightarrow> bignum \<Rightarrow> bignum \<times> 8 word" where
  "CFBigNumSub a b = CFBigNumAdd a (CFBigNumNeg b)"

subsection \<open>Numbers as \<^verbatim>\<open>CFNumber\<close>s\<close>

text \<open>The stored value; of 128 bits, the two words of \<^verbatim>\<open>CFSInt128Struct\<close>, the high one first.\<close>

datatype number_value = SInt8 "8 word" | SInt16 "16 word" | SInt32 "32 word" | SInt64 "64 word" | SInt128 "64 word" "64 word"

text \<open>\<^verbatim>\<open>CFNumberCreate\<close> moves the 16 bytes of an \<^verbatim>\<open>__int128_t\<close> onto the struct: on a little-endian machine the low half of
  the number comes first in memory, and so into the field \<^verbatim>\<open>high\<close>.\<close>

definition CFNumberCreateSInt128 :: "128 word \<Rightarrow> number_value" where
  "CFNumberCreateSInt128 num = SInt128 (ucast num) (ucast (drop_bit 64 num))"

definition within :: "bignum \<Rightarrow> bignum \<Rightarrow> bignum \<Rightarrow> bool" where
  "within input minlimit maxlimit \<longleftrightarrow>
     CFBigNumCompare input maxlimit \<in> {LessThan, EqualTo} \<and> CFBigNumCompare input minlimit \<noteq> LessThan"

definition zero_from :: "nat \<Rightarrow> bignum \<Rightarrow> bool" where
  "zero_from k num \<longleftrightarrow> (\<forall>d \<in> set (drop k (bn_digits num)). d = 0)"

text \<open>The number that \<^verbatim>\<open>CFNumberCreate\<close> makes; \<open>None\<close> for the result \<^verbatim>\<open>NULL\<close>.\<close>

definition CFNumberCreateWithBigNum :: "bignum \<Rightarrow> number_value option" where
  "CFNumberCreateWithBigNum input =
     (if zero_from 1 input \<and> bn_digits input ! 0 \<le> 0x7F then Some (SInt8 (CFBigNumGetInt8 input))
      else if zero_from 1 input \<and> bn_digits input ! 0 \<le> 0x7FFF then Some (SInt16 (CFBigNumGetInt16 input))
      else if zero_from 2 input \<and> within input (CFBigNumInitWithInt32 0x80000000) (CFBigNumInitWithInt32 0x7FFFFFFF)
      then Some (SInt32 (CFBigNumGetInt32 input))
      else if zero_from 3 input \<and> within input (CFBigNumInitWithInt64 0x8000000000000000) (CFBigNumInitWithInt64 0x7FFFFFFFFFFFFFFF)
      then Some (SInt64 (CFBigNumGetInt64 input))
      else if within input (CFBigNumInitWithInt128 0x80000000000000000000000000000000)
                           (CFBigNumInitWithInt128 0x7FFFFFFFFFFFFFFFFFFFFFFFFFFFFFFF)
      then Some (CFNumberCreateSInt128 (CFBigNumGetInt128 input))
      else None)"

text \<open>The bytes of a number by their type; \<open>InitWithBytes\<close> reads the words of \<^verbatim>\<open>CFSInt128Struct\<close> as high and low.\<close>

datatype number_bytes = Bytes8 "8 word" | Bytes16 "16 word" | Bytes32 "32 word" | Bytes64 "64 word" | Bytes128 "64 word" "64 word" | OtherBytes

definition CFBigNumInitWithBytes :: "bignum \<Rightarrow> number_bytes \<Rightarrow> bignum" where
  "CFBigNumInitWithBytes r bytes =
     (case bytes of Bytes8 w \<Rightarrow> CFBigNumInitWithInt8 w | Bytes16 w \<Rightarrow> CFBigNumInitWithInt16 w
      | Bytes32 w \<Rightarrow> CFBigNumInitWithInt32 w | Bytes64 w \<Rightarrow> CFBigNumInitWithInt64 w
      | Bytes128 high low \<Rightarrow> CFBigNumInitWithInt128 (ucast low + push_bit 64 (scast high))
      | OtherBytes \<Rightarrow> r)"

subsection \<open>Numbers as strings\<close>

text \<open>\<^verbatim>\<open>%09u\<close>: the decimal digits, at least nine.\<close>

fun decimal :: "nat \<Rightarrow> string" where
  "decimal n = (if n < 10 then [char_of (48 + n)] else decimal (n div 10) @ [char_of (48 + n mod 10)])"

declare decimal.simps [simp del]

definition nine :: "32 word \<Rightarrow> string" where
  "nine d = (let s = decimal (unat d) in replicate (9 - length s) CHR ''0'' @ s)"

text \<open>The buffer of 46 characters keeps 45 and the terminating nul.\<close>

definition digit_string :: "bignum \<Rightarrow> string" where
  "digit_string vp = take 45 (concat (map nine (rev (bn_digits vp))))"

definition NUL :: char where
  "NUL = char_of (0::nat)"

text \<open>The characters put into the buffer, with the terminating nul; \<open>None\<close> when the sign does not fit.\<close>

definition CFBigNumToCString :: "bignum \<Rightarrow> bool \<Rightarrow> bool \<Rightarrow> nat \<Rightarrow> string option" where
  "CFBigNumToCString vp leading_zeros leading_plus buflen =
     (let sign = (if bn_sign vp < 0 then ''-'' else if leading_plus then ''+'' else '''');
          n = buflen - length sign;
          tmp = digit_string vp @ [NUL];
          s = dropWhile (\<lambda>c. c = CHR ''0'') (digit_string vp) in
      if buflen < length sign then None
      else if leading_zeros then
        (let tocopy = min 46 n in Some (sign @ replicate (n - tocopy) CHR ''0'' @ drop (46 - tocopy) tmp))
      else if n = 0 then Some sign
      else Some (sign @ take (n - 1) (if s = [] then ''0'' else s) @ [NUL]))"

text \<open>\<^verbatim>\<open>atol\<close> of libc: white space, a sign, digits; undefined when a \<^verbatim>\<open>long\<close> cannot hold the number.\<close>

definition is_space :: "char \<Rightarrow> bool" where
  "is_space c \<longleftrightarrow> c \<in> {CHR '' '', CHR 0x09, CHR 0x0A, CHR 0x0B, CHR 0x0C, CHR 0x0D}"

definition is_digit :: "char \<Rightarrow> bool" where
  "is_digit c \<longleftrightarrow> 48 \<le> (of_char c :: nat) \<and> (of_char c :: nat) \<le> 57"

definition number_of :: "string \<Rightarrow> nat" where
  "number_of s = foldl (\<lambda>n c. 10 * n + (of_char c - 48)) 0 s"

definition atol :: "string \<Rightarrow> 64 word option" where
  "atol s =
     (let s = dropWhile is_space s;
          neg = (s \<noteq> [] \<and> hd s = CHR ''-'');
          s = (if s \<noteq> [] \<and> hd s \<in> {CHR ''-'', CHR ''+''} then tl s else s);
          n = int (number_of (takeWhile is_digit s)) in
      if (if neg then n \<le> 2 ^ 63 else n < 2 ^ 63) then Some (word_of_int (if neg then - n else n)) else None)"

text \<open>The loop cuts nine characters off the end for each of the low digits.\<close>

fun cut_digits :: "nat \<Rightarrow> string \<Rightarrow> 32 word list option" where
  "cut_digits room working =
     (if 1 < room \<and> 9 < length working then do {
        d \<leftarrow> atol (drop (length working - 9) working);
        ds \<leftarrow> cut_digits (room - 1) (take (length working - 9) working);
        Some (ucast d # ds) }
      else do { d \<leftarrow> atol working; Some [ucast d] })"

declare cut_digits.simps [simp del]

definition CFBigNumFromCString :: "string \<Rightarrow> bignum option" where
  "CFBigNumFromCString str =
     (let neg = (str \<noteq> [] \<and> hd str = CHR ''-'');
          working = (if str \<noteq> [] \<and> hd str \<in> {CHR ''-'', CHR ''+''} then tl str else str);
          working = dropWhile (\<lambda>c. c = CHR ''0'') working;
          sign = (if neg then -1 else 0) in
      if working = [] then Some \<lparr>bn_digits = replicate 5 0, bn_sign = sign\<rparr>
      else do { ds \<leftarrow> cut_digits 5 working;
                Some \<lparr>bn_digits = ds @ replicate (5 - length ds) 0, bn_sign = sign\<rparr> })"

end
