(* ===== verification/CFBigNumberTheorems.thy ===== *)
theory CFBigNumberTheorems
  imports CFBigNumber
begin

text \<open>
  What the numbers of \<^verbatim>\<open>CFBigNumber.c\<close> stand for, and that conversion, comparison, addition and printing are
  those of the integers, as far as they are.
\<close>

subsection \<open>The value of a number\<close>

abbreviation base :: nat where
  "base \<equiv> 1000000000"

primrec digits_value :: "32 word list \<Rightarrow> nat" where
  "digits_value [] = 0"
| "digits_value (d # ds) = unat d + base * digits_value ds"

definition small_digits :: "32 word list \<Rightarrow> bool" where
  "small_digits ds \<longleftrightarrow> (\<forall>d \<in> set ds. unat d < base)"

definition bn_value :: "bignum \<Rightarrow> int" where
  "bn_value b = (if bn_sign b < 0 then - int (digits_value (bn_digits b)) else int (digits_value (bn_digits b)))"

text \<open>A number in normal form: five digits below the base, and no negative zero.\<close>

definition normal :: "bignum \<Rightarrow> bool" where
  "normal b \<longleftrightarrow> length (bn_digits b) = 5 \<and> small_digits (bn_digits b) \<and> bn_sign b \<in> {0, -1} \<and>
     (bn_sign b = -1 \<longrightarrow> digits_value (bn_digits b) \<noteq> 0)"

lemma small_digits_Cons [simp]: "small_digits (d # ds) \<longleftrightarrow> unat d < base \<and> small_digits ds"
  by (auto simp: small_digits_def)

lemma small_digits_Nil [simp]: "small_digits []"
  by (simp add: small_digits_def)

lemma digits_value_bound: "small_digits ds \<Longrightarrow> digits_value ds < base ^ length ds"
proof (induction ds)
  case (Cons d ds)
  then have "unat d < base" "digits_value ds + 1 \<le> base ^ length ds" by simp_all
  then have "base * (digits_value ds + 1) \<le> base * base ^ length ds" using mult_le_mono2 by blast
  then show ?case using \<open>unat d < base\<close> by simp
qed simp

lemma digits_value_0: "digits_value ds = 0 \<longleftrightarrow> (\<forall>d \<in> set ds. d = 0)"
  by (induction ds) (auto simp: unat_eq_0)

lemma digits_inj:
  "length xs = length ys \<Longrightarrow> small_digits xs \<Longrightarrow> small_digits ys \<Longrightarrow> digits_value xs = digits_value ys \<Longrightarrow> xs = ys"
proof (induction xs ys rule: list_induct2)
  case (Cons x xs y ys)
  have "unat x = (unat x + base * digits_value xs) mod base" using Cons.prems(1) by simp
  also have "\<dots> = (unat y + base * digits_value ys) mod base" using Cons.prems(3) by simp
  also have "\<dots> = unat y" using Cons.prems(2) by simp
  finally have "unat x = unat y" .
  then show ?case using Cons by (simp add: unsigned_word_eqI)
qed simp

subsection \<open>Numbers from machine integers\<close>

lemma unat_limits:
  "unat (BIG_DIGITS_LIMIT :: 64 word) = base" "unat (BIG_DIGITS_LIMIT_2 :: 64 word) = base ^ 2"
  "unat (BIG_DIGITS_LIMIT :: 128 word) = base" "unat (BIG_DIGITS_LIMIT_2 :: 128 word) = base ^ 2"
  "unat (BIG_DIGITS_LIMIT_3 :: 128 word) = base ^ 3" "unat (BIG_DIGITS_LIMIT_4 :: 128 word) = base ^ 4"
  by (simp_all add: BIG_DIGITS_LIMIT_def BIG_DIGITS_LIMIT_2_def BIG_DIGITS_LIMIT_3_def BIG_DIGITS_LIMIT_4_def)

lemma unat_ucast_mod: "unat (ucast x :: 'b::len word) = unat (x :: 'a::len word) mod 2 ^ LENGTH('b)"
  by (simp add: unsigned_ucast_eq unsigned_take_bit_eq take_bit_eq_mod)

lemma unat_ucast_less: "unat x < 2 ^ LENGTH('b) \<Longrightarrow> unat (ucast (x :: 'a::len word) :: 'b::len word) = unat x"
  by (simp add: unat_ucast_mod)

text \<open>Taking off a digit: the quotient fits 32 bits, and what is left is the remainder.\<close>

lemma take_digit:
  fixes u L :: "'a::len word"
  assumes "unat u div unat L < 2 ^ 32" and "32 \<le> LENGTH('a)"
  shows "unat (ucast (u div L) :: 32 word) = unat u div unat L"
    and "u - ucast (ucast (u div L) :: 32 word) * L = u mod L"
proof -
  show d: "unat (ucast (u div L) :: 32 word) = unat u div unat L"
    using assms(1) by (simp add: unat_ucast_mod unat_div_distrib)
  have "unat u div unat L < 2 ^ LENGTH('a)"
    using assms less_le_trans [OF assms(1) power_increasing [OF assms(2), of "2::nat"]] by simp
  then have "ucast (ucast (u div L) :: 32 word) = u div L"
    using d by (simp add: word_unat_eq_iff unat_ucast_mod [of "ucast (u div L) :: 32 word"] unat_div_distrib)
  then show "u - ucast (ucast (u div L) :: 32 word) * L = u mod L" by (simp add: minus_div_mult_eq_mod)
qed

lemma last_digit: "unat x < 2 ^ 32 \<Longrightarrow> unat (ucast (x :: 'a::len word) :: 32 word) = unat x"
  by (simp add: unat_ucast_mod)

lemma mod_base: "n mod base < base" "n mod base < 2 ^ 32"
  using mod_less_divisor [of base n] by simp_all

lemma digits_32_value: "digits_value (digits_32 u) = unat u \<and> small_digits (digits_32 u) \<and> length (digits_32 u) = 5"
proof -
  have u: "unat (ucast u :: 64 word) = unat u" "unat u < 2 ^ 32"
    using unsigned_less [of u, where ?'a = nat] by (simp_all add: unat_ucast_mod)
  note d = take_digit [of "ucast u :: 64 word" BIG_DIGITS_LIMIT, unfolded unat_limits u(1)]
  have q: "unat u div base < 2 ^ 32" "unat u div base < base" "unat u mod base < 2 ^ 32" using u(2) mod_base [of "unat u"] by (simp_all add: less_mult_imp_div_less)
  have r: "unat (ucast (ucast u mod BIG_DIGITS_LIMIT :: 64 word) :: 32 word) = unat u mod base"
    using q(3) by (simp add: last_digit unat_mod_distrib unat_limits u(1))
  show ?thesis using d(1) d(2) q r by (simp add: digits_32_def Let_def small_digits_def)
qed

lemma digits_64_value: "digits_value (digits_64 u) = unat u \<and> small_digits (digits_64 u) \<and> length (digits_64 u) = 5"
proof -
  have u: "unat u < 2 ^ 64" using unsigned_less [of u, where ?'a = nat] by simp
  define u1 where "u1 = u mod BIG_DIGITS_LIMIT_2"
  have u1: "unat u1 = unat u mod base ^ 2" by (simp add: u1_def unat_mod_distrib unat_limits)
  have q2: "unat u div base ^ 2 < 2 ^ 32" "unat u div base ^ 2 < base" using u by simp_all
  have b1: "unat u1 < base ^ 2" unfolding u1 by (rule mod_less_divisor) simp
  then have q1: "unat u1 div base < 2 ^ 32" "unat u1 div base < base" by (simp_all add: less_mult_imp_div_less power2_eq_square)
  note d2 = take_digit [of u BIG_DIGITS_LIMIT_2, unfolded unat_limits, OF q2(1)]
  note d1 = take_digit [of u1 BIG_DIGITS_LIMIT, unfolded unat_limits, OF q1(1)]
  have r: "unat (ucast (u1 mod BIG_DIGITS_LIMIT) :: 32 word) = unat u1 mod base"
    using mod_base [of "unat u1"] by (simp add: last_digit unat_mod_distrib unat_limits)
  have "unat u = unat u1 + base ^ 2 * (unat u div base ^ 2)" using u1 by simp
  then have "unat u = unat u1 mod base + base * (unat u1 div base + base * (unat u div base ^ 2))"
    by (simp add: power2_eq_square distrib_left)
  then show ?thesis using d2 d1 q2 q1 r mod_base by (simp add: digits_64_def Let_def u1_def small_digits_def)
qed

lemma base_split: "n = n mod base + base * (n div base)" "n mod base ^ Suc k = n mod base ^ k + base ^ k * (n div base ^ k mod base)"
  by (simp, simp only: power_Suc2 mod_mult2_eq)

lemma expand_4:
  "(u :: nat) = u1 + b ^ 4 * d4 \<Longrightarrow> u1 = u2 + b ^ 3 * d3 \<Longrightarrow> u2 = u3 + b ^ 2 * d2 \<Longrightarrow> u3 = d0 + b * d1 \<Longrightarrow>
   u = d0 + b * (d1 + b * (d2 + b * (d3 + b * d4)))"
  by (simp add: power_numeral_reduce algebra_simps)

lemma digits_128_value: "digits_value (digits_128 u) = unat u \<and> small_digits (digits_128 u) \<and> length (digits_128 u) = 5"
proof -
  have len: "32 \<le> LENGTH(128)" by simp
  have u: "unat u < 2 ^ 128" using unsigned_less [of u, where ?'a = nat] by simp
  define u1 where "u1 = u mod BIG_DIGITS_LIMIT_4"
  define u2 where "u2 = u1 mod BIG_DIGITS_LIMIT_3"
  define u3 where "u3 = u2 mod BIG_DIGITS_LIMIT_2"
  have m: "unat u1 = unat u mod base ^ 4" "unat u2 = unat u1 mod base ^ 3" "unat u3 = unat u2 mod base ^ 2"
    by (simp_all add: u1_def u2_def u3_def unat_mod_distrib unat_limits)
  have b: "unat u1 < base ^ 4" "unat u2 < base ^ 3" "unat u3 < base ^ 2" unfolding m by (rule mod_less_divisor, simp)+
  have q: "unat u div base ^ 4 < base" "unat u1 div base ^ 3 < base" "unat u2 div base ^ 2 < base" "unat u3 div base < base"
    using u b by (simp_all add: less_mult_imp_div_less)
  have q': "unat u div base ^ 4 < 2 ^ 32" "unat u1 div base ^ 3 < 2 ^ 32" "unat u2 div base ^ 2 < 2 ^ 32" "unat u3 div base < 2 ^ 32"
    using q by (auto intro: less_trans)
  note d4 = take_digit [of u BIG_DIGITS_LIMIT_4, unfolded unat_limits, OF q'(1) len]
  note d3 = take_digit [of u1 BIG_DIGITS_LIMIT_3, unfolded unat_limits, OF q'(2) len]
  note d2 = take_digit [of u2 BIG_DIGITS_LIMIT_2, unfolded unat_limits, OF q'(3) len]
  note d1 = take_digit [of u3 BIG_DIGITS_LIMIT, unfolded unat_limits, OF q'(4) len]
  have r: "unat (ucast (u3 mod BIG_DIGITS_LIMIT) :: 32 word) = unat u3 mod base"
    using mod_base [of "unat u3"] by (simp add: last_digit unat_mod_distrib unat_limits)
  have "unat u = unat u1 + base ^ 4 * (unat u div base ^ 4)" "unat u1 = unat u2 + base ^ 3 * (unat u1 div base ^ 3)"
    "unat u2 = unat u3 + base ^ 2 * (unat u2 div base ^ 2)" "unat u3 = unat u3 mod base + base * (unat u3 div base)"
    unfolding m by simp_all
  from expand_4 [OF this] have "unat u = unat u3 mod base + base * (unat u3 div base + base * (unat u2 div base ^ 2 +
      base * (unat u1 div base ^ 3 + base * (unat u div base ^ 4))))" .
  moreover have "digits_128 u = [ucast (u3 mod BIG_DIGITS_LIMIT), ucast (u3 div BIG_DIGITS_LIMIT),
      ucast (u2 div BIG_DIGITS_LIMIT_2), ucast (u1 div BIG_DIGITS_LIMIT_3), ucast (u div BIG_DIGITS_LIMIT_4)]"
    by (simp add: digits_128_def Let_def d4(2) [folded u1_def] d3(2) [folded u2_def] d2(2) [folded u3_def] d1(2))
  ultimately show ?thesis using q mod_base(1) by (simp only: digits_value.simps small_digits_Cons small_digits_Nil r d1(1) d2(1) d3(1) d4(1)) auto
qed

lemma digits_8_value: "digits_value (digits_8 u) = unat u \<and> small_digits (digits_8 u) \<and> length (digits_8 u) = 5"
  using unsigned_less [of u, where ?'a = nat] by (simp add: digits_8_def unat_ucast_mod)

lemma digits_16_value: "digits_value (digits_16 u) = unat u \<and> small_digits (digits_16 u) \<and> length (digits_16 u) = 5"
  using unsigned_less [of u, where ?'a = nat] by (simp add: digits_16_def unat_ucast_mod)

lemmas digits_of_word = digits_8_value digits_16_value digits_32_value digits_64_value digits_128_value

text \<open>Sign and magnitude of a word give back its signed value.\<close>

lemma unat_magnitude: "int (unat (magnitude x)) = \<bar>sint (x :: 'a::len word)\<bar>"
proof -
  have r: "sint x < 2 ^ (LENGTH('a) - 1)" "- (2 ^ (LENGTH('a) - 1)) \<le> sint x" by (rule sint_lt sint_ge)+
  have len: "(2::int) ^ (LENGTH('a) - 1) < 2 ^ LENGTH('a)" by (rule power_strict_increasing) simp_all
  have b: "\<bar>sint x\<bar> < 2 ^ LENGTH('a)" using r len by linarith
  have m: "magnitude x = word_of_int \<bar>sint x\<bar>" by (simp add: magnitude_def abs_if)
  have "uint (magnitude x) = take_bit LENGTH('a) \<bar>sint x\<bar>" unfolding m by (rule uint_word_of_int_eq)
  also have "\<dots> = \<bar>sint x\<bar>" by (rule take_bit_int_eq_self [OF abs_ge_zero b])
  finally show ?thesis by simp
qed

lemma signed_magnitude: "(if sign_of x < 0 then - magnitude x else magnitude x) = (x :: 'a::len word)"
  by (simp add: sign_of_def magnitude_def)

lemma bn_value_init:
  assumes "digits_value ds = unat (magnitude (x :: 'a::len word))" and "small_digits ds" and "length ds = 5"
  shows "bn_value \<lparr>bn_digits = ds, bn_sign = sign_of x\<rparr> = sint x \<and> normal \<lparr>bn_digits = ds, bn_sign = sign_of x\<rparr>"
proof -
  have v: "int (digits_value ds) = \<bar>sint x\<bar>" using unat_magnitude [of x] assms(1) by simp
  then have "digits_value ds \<noteq> 0" if "sint x < 0" using that by linarith
  then show ?thesis using v assms(2,3) by (simp add: bn_value_def normal_def sign_of_def)
qed

text \<open>The number made of any signed machine integer stands for it and is in normal form.\<close>

lemma init_values:
  "bn_value (CFBigNumInitWithInt8 a) = sint a \<and> normal (CFBigNumInitWithInt8 a)"
  "bn_value (CFBigNumInitWithInt16 b) = sint b \<and> normal (CFBigNumInitWithInt16 b)"
  "bn_value (CFBigNumInitWithInt32 c) = sint c \<and> normal (CFBigNumInitWithInt32 c)"
  "bn_value (CFBigNumInitWithInt64 d) = sint d \<and> normal (CFBigNumInitWithInt64 d)"
  "bn_value (CFBigNumInitWithInt128 e) = sint e \<and> normal (CFBigNumInitWithInt128 e)"
  unfolding CFBigNumInitWithInt8_def CFBigNumInitWithInt16_def CFBigNumInitWithInt32_def CFBigNumInitWithInt64_def
    CFBigNumInitWithInt128_def
  by (rule bn_value_init; simp add: digits_of_word)+

lemma init_unsigned_values:
  "bn_value (CFBigNumInitWithUInt8 a) = int (unat a) \<and> normal (CFBigNumInitWithUInt8 a)"
  "bn_value (CFBigNumInitWithUInt16 b) = int (unat b) \<and> normal (CFBigNumInitWithUInt16 b)"
  "bn_value (CFBigNumInitWithUInt32 c) = int (unat c) \<and> normal (CFBigNumInitWithUInt32 c)"
  "bn_value (CFBigNumInitWithUInt64 d) = int (unat d) \<and> normal (CFBigNumInitWithUInt64 d)"
  "bn_value (CFBigNumInitWithUInt128 e) = int (unat e) \<and> normal (CFBigNumInitWithUInt128 e)"
  by (simp_all add: CFBigNumInitWithUInt8_def CFBigNumInitWithUInt16_def CFBigNumInitWithUInt32_def
      CFBigNumInitWithUInt64_def CFBigNumInitWithUInt128_def bn_value_def normal_def digits_of_word del: of_nat_unat)

subsection \<open>Machine integers from numbers\<close>

text \<open>The sums of digits are computed modulo the size of the word.\<close>

lemma of_nat_unat_ucast: "of_nat (unat d) = (ucast d :: 'a::len word)"
  by simp

lemma five_digits:
  assumes "length ds = 5"
  obtains d0 d1 d2 d3 d4 where "ds = [d0, d1, d2, d3, d4]"
  using assms by (auto simp: length_Suc_conv eval_nat_numeral)

lemma sums_value:
  assumes "length (bn_digits b) = 5"
  shows "sum_2 b = (of_nat (digits_value (take 2 (bn_digits b))) :: 'a::len word)"
    and "sum_3 b = (of_nat (digits_value (take 3 (bn_digits b))) :: 'a::len word)"
    and "sum_5 b = (of_nat (digits_value (bn_digits b)) :: 'a::len word)"
proof -
  obtain d0 d1 d2 d3 d4 where d: "bn_digits b = [d0, d1, d2, d3, d4]" using five_digits [OF assms] by blast
  show "sum_2 b = (of_nat (digits_value (take 2 (bn_digits b))) :: 'a word)"
    "sum_3 b = (of_nat (digits_value (take 3 (bn_digits b))) :: 'a word)"
    "sum_5 b = (of_nat (digits_value (bn_digits b)) :: 'a word)"
    by (simp_all add: d sum_2_def sum_3_def sum_5_def BIG_DIGITS_LIMIT_def BIG_DIGITS_LIMIT_2_def
        BIG_DIGITS_LIMIT_3_def BIG_DIGITS_LIMIT_4_def algebra_simps)
qed

text \<open>A getter of a type that holds the value gives back the value.\<close>

lemma signed_value: "signed b (of_nat (digits_value (bn_digits b))) = word_of_int (bn_value b)"
  by (simp add: signed_def bn_value_def)

subsection \<open>Comparison\<close>

lemma compare_append:
  "compare_digits n (xs @ ys) = (case compare_digits n xs of EqualTo \<Rightarrow> compare_digits n ys | c \<Rightarrow> c)"
  by (induction n xs rule: compare_digits.induct) auto

definition compare_ints :: "int \<Rightarrow> int \<Rightarrow> comparison" where
  "compare_ints x y = (if x < y then LessThan else if x = y then EqualTo else GreaterThan)"

text \<open>The comparison from the highest digit down is the one of the values.\<close>

lemma digits_less:
  fixes x y v w b :: nat
  assumes "x < b" and "y < b"
  shows "x + b * v < y + b * w \<longleftrightarrow> v < w \<or> (v = w \<and> x < y)"
proof -
  have *: "x + b * v < y + b * w" if "v < w" "x < b" for x y v w
  proof -
    have "x + b * v < b * Suc v" using that by simp
    also have "\<dots> \<le> b * w" using that by (intro mult_le_mono2) simp
    finally show ?thesis by simp
  qed
  show ?thesis using * [of v w x y] * [of w v y x] assms by (cases v w rule: linorder_cases) auto
qed

lemma compare_digits_value:
  assumes "length xs = length ys" and "small_digits xs" and "small_digits ys"
  shows "compare_digits n (rev (zip xs ys)) =
    (if digits_value xs < digits_value ys then (if n then GreaterThan else LessThan)
     else if digits_value ys < digits_value xs then (if n then LessThan else GreaterThan) else EqualTo)"
  using assms
proof (induction xs ys rule: list_induct2)
  case (Cons x xs y ys)
  then have b: "unat x < base" "unat y < base" by simp_all
  show ?case using Cons digits_less [OF b, of "digits_value xs" "digits_value ys"]
      digits_less [OF b(2,1), of "digits_value ys" "digits_value xs"]
    by (cases "digits_value xs" "digits_value ys" rule: linorder_cases) (simp_all add: compare_append word_less_nat_alt)
qed simp

text \<open>Comparison of numbers in normal form.\<close>

lemma compare_normal:
  assumes "normal a" and "normal b"
  shows "CFBigNumCompare a b = compare_ints (bn_value a) (bn_value b)"
proof -
  have p: "0 < digits_value (bn_digits a)" if "bn_sign a = -1" using that assms(1) by (auto simp: normal_def)
  have q: "0 < digits_value (bn_digits b)" if "bn_sign b = -1" using that assms(2) by (auto simp: normal_def)
  show ?thesis using assms p q
    by (auto simp: CFBigNumCompare_def normal_def bn_value_def compare_digits_value compare_ints_def)
qed

lemma less_digits_compare: "less_digits ds \<longleftrightarrow> compare_digits False ds = LessThan"
  by (induction ds rule: less_digits.induct) auto

lemma absolute_less:
  assumes "length (bn_digits a) = length (bn_digits b)" and "small_digits (bn_digits a)" and "small_digits (bn_digits b)"
  shows "CFBigNumAbsoluteLessThan a b \<longleftrightarrow> digits_value (bn_digits a) < digits_value (bn_digits b)"
  by (simp add: CFBigNumAbsoluteLessThan_def less_digits_compare compare_digits_value [OF assms])

subsection \<open>Addition\<close>

lemma unat_limit_32: "unat (BIG_DIGITS_LIMIT :: 32 word) = base"
  by (simp add: BIG_DIGITS_LIMIT_def)

text \<open>One digit of a sum: a sum above the base is carried, one equal to it is not.\<close>

lemma add_digit_step:
  assumes "unat x < base" and "unat y < base" and "unat (c :: 32 word) \<le> 1"
  shows "unat (x + y + c) = unat x + unat y + unat c"
    and "BIG_DIGITS_LIMIT < (ucast (x + y + c) :: 64 word) \<longleftrightarrow> base < unat x + unat y + unat c"
    and "base < unat x + unat y + unat c \<Longrightarrow> unat (x + y + c - BIG_DIGITS_LIMIT) = unat x + unat y + unat c - base"
proof -
  have "unat (x + y) = unat x + unat y" using assms by (simp add: unat_word_ariths)
  then show s: "unat (x + y + c) = unat x + unat y + unat c" using assms by (subst unat_word_ariths) simp
  show "BIG_DIGITS_LIMIT < (ucast (x + y + c) :: 64 word) \<longleftrightarrow> base < unat x + unat y + unat c"
    using s assms by (simp add: word_less_nat_alt unat_limits unat_ucast_mod)
  assume "base < unat x + unat y + unat c"
  then show "unat (x + y + c - BIG_DIGITS_LIMIT) = unat x + unat y + unat c - base"
    using s by (simp add: unat_sub_if' unat_limit_32)
qed

lemma add_digits_value:
  assumes "length xs = length ys" and "small_digits xs" and "small_digits ys" and "unat c \<le> 1"
    and "add_digits c (zip xs ys) = (rs, c')"
  shows "length rs = length xs \<and> (\<forall>d \<in> set rs. unat d \<le> base) \<and> unat c' \<le> 1 \<and>
    digits_value rs + base ^ length xs * unat c' = digits_value xs + digits_value ys + unat c"
  using assms
proof (induction xs ys arbitrary: c rs c' rule: list_induct2)
  case (Cons x xs y ys)
  define s where "s = unat x + unat y + unat c"
  define d where "d = (if base < s then x + y + c - BIG_DIGITS_LIMIT else x + y + c)"
  define c1 :: "32 word" where "c1 = (if base < s then 1 else 0)"
  have xy: "unat x < base" "unat y < base" using Cons.prems by simp_all
  note step = add_digit_step [OF xy Cons.prems(3), folded s_def]
  obtain rs1 where r: "add_digits c1 (zip xs ys) = (rs1, c')" "rs = d # rs1"
    using Cons.prems(4) step(2) by (auto simp: Let_def d_def c1_def split: if_splits prod.splits)
  have IH: "length rs1 = length xs \<and> (\<forall>d \<in> set rs1. unat d \<le> base) \<and> unat c' \<le> 1 \<and>
      digits_value rs1 + base ^ length xs * unat c' = digits_value xs + digits_value ys + unat c1"
    using Cons.IH [of c1 rs1 c'] Cons.prems(1,2) r(1) by (simp add: c1_def)
  have d: "unat d + base * unat c1 = s" "unat d \<le> base" using step xy Cons.prems(3) by (auto simp: d_def c1_def s_def)
  have "base * (digits_value rs1 + base ^ length xs * unat c') = base * (digits_value xs + digits_value ys + unat c1)"
    using IH by simp
  then show ?case using IH d r(2) by (simp add: s_def algebra_simps)
qed auto

text \<open>Column by column, with the carries of the exact sum: some two digits and the carry add up to exactly the base.\<close>

fun exact_column :: "nat \<Rightarrow> (32 word \<times> 32 word) list \<Rightarrow> bool" where
  "exact_column c [] = False"
| "exact_column c ((x, y) # ds) =
     (unat x + unat y + c = base \<or> exact_column ((unat x + unat y + c) div base) ds)"

text \<open>A digit of the sum leaves its range exactly there: up to the first such column the carries are the exact ones.\<close>

lemma add_digits_exact:
  assumes "length xs = length ys" and "small_digits xs" and "small_digits ys" and "unat c \<le> 1"
  shows "small_digits (fst (add_digits c (zip xs ys))) \<longleftrightarrow> \<not> exact_column (unat c) (zip xs ys)"
  using assms
proof (induction xs ys arbitrary: c rule: list_induct2)
  case (Cons x xs y ys)
  define s where "s = unat x + unat y + unat c"
  define d where "d = (if base < s then x + y + c - BIG_DIGITS_LIMIT else x + y + c)"
  define c1 :: "32 word" where "c1 = (if base < s then 1 else 0)"
  have xy: "unat x < base" "unat y < base" using Cons.prems by simp_all
  note step = add_digit_step [OF xy Cons.prems(3), folded s_def]
  have r: "fst (add_digits c (zip (x # xs) (y # ys))) = d # fst (add_digits c1 (zip xs ys))"
    using step(2) by (auto simp: Let_def d_def c1_def split: prod.splits)
  have IH: "small_digits (fst (add_digits c1 (zip xs ys))) \<longleftrightarrow> \<not> exact_column (unat c1) (zip xs ys)"
    using Cons.IH [of c1] Cons.prems(1,2) by (simp add: c1_def)
  have d: "unat d < base \<longleftrightarrow> s \<noteq> base" using step xy Cons.prems(3) by (auto simp: d_def s_def)
  have "s \<noteq> base \<Longrightarrow> s div base = unat c1" using xy Cons.prems(3) by (auto simp: c1_def s_def div_eq_dividend_iff intro: div_nat_eqI)
  then have "exact_column (unat c) (zip (x # xs) (y # ys)) \<longleftrightarrow> s = base \<or> exact_column (unat c1) (zip xs ys)"
    unfolding zip_Cons_Cons exact_column.simps s_def [symmetric] by metis
  then show ?case using IH d unfolding r by simp
qed simp

text \<open>One digit of a difference, computed in 64 bits.\<close>

lemma sint_small: "- (2 ^ 40) \<le> k \<Longrightarrow> k < 2 ^ 40 \<Longrightarrow> sint (word_of_int k :: 64 word) = k"
  by (simp add: sint_uint uint_word_of_int_eq signed_take_bit_take_bit signed_take_bit_int_eq_self)

lemma sub_digit_step:
  assumes "unat x < base" and "unat y < base" and "unat (c :: 64 word) \<le> 1"
  defines "k \<equiv> int (unat x) - int (unat y) - int (unat c)"
  shows "sint (ucast x - ucast y - c) < 0 \<longleftrightarrow> k < 0"
    and "k < 0 \<Longrightarrow> int (unat (ucast (ucast x - ucast y - c + BIG_DIGITS_LIMIT :: 64 word) :: 32 word)) = k + int base"
    and "\<not> k < 0 \<Longrightarrow> int (unat (ucast (ucast x - ucast y - c :: 64 word) :: 32 word)) = k"
proof -
  have w: "ucast x - ucast y - c = (word_of_int k :: 64 word)"
    by (simp add: k_def del: of_nat_unat) (simp add: of_nat_unat_ucast)
  have k: "- int base \<le> k" "k < int base" using assms(1-3) by (simp_all add: k_def del: of_nat_unat)
  show "sint (ucast x - ucast y - c) < 0 \<longleftrightarrow> k < 0" unfolding w using sint_small [of k] k by simp
  have u: "int (unat (ucast (word_of_int j :: 64 word) :: 32 word)) = j" if "0 \<le> j" "j < 2 ^ 32" for j
  proof -
    have "uint (word_of_int j :: 64 word) = j" using that by (simp add: uint_word_of_int_eq take_bit_int_eq_self)
    then have "unat (word_of_int j :: 64 word) = nat j" by (simp add: unat_eq_nat_uint)
    then show ?thesis using that by (simp add: unat_ucast_mod del: of_nat_unat)
  qed
  have "ucast x - ucast y - c + BIG_DIGITS_LIMIT = (word_of_int (k + int base) :: 64 word)"
    unfolding w by (simp add: BIG_DIGITS_LIMIT_def)
  then show "int (unat (ucast (ucast x - ucast y - c + BIG_DIGITS_LIMIT :: 64 word) :: 32 word)) = k + int base" if "k < 0"
    using u [of "k + int base"] k that by simp
  show "int (unat (ucast (ucast x - ucast y - c :: 64 word) :: 32 word)) = k" if "\<not> k < 0"
    unfolding w using u [of k] k that by simp
qed

lemma sub_digits_value:
  assumes "length xs = length ys" and "small_digits xs" and "small_digits ys" and "unat c \<le> 1"
    and "sub_digits c (zip xs ys) = (rs, c')"
  shows "length rs = length xs \<and> small_digits rs \<and> unat c' \<le> 1 \<and>
    int (digits_value rs) - int (base ^ length xs * unat c') = int (digits_value xs) - int (digits_value ys) - int (unat c)"
  using assms
proof (induction xs ys arbitrary: c rs c' rule: list_induct2)
  case (Cons x xs y ys)
  define k where "k = int (unat x) - int (unat y) - int (unat c)"
  define d :: "32 word" where "d = ucast (if k < 0 then ucast x - ucast y - c + BIG_DIGITS_LIMIT else ucast x - ucast y - c)"
  define c1 :: "64 word" where "c1 = (if k < 0 then 1 else 0)"
  have xy: "unat x < base" "unat y < base" using Cons.prems by simp_all
  note step = sub_digit_step [OF xy Cons.prems(3), folded k_def]
  obtain rs1 where r: "sub_digits c1 (zip xs ys) = (rs1, c')" "rs = d # rs1"
    using Cons.prems(4) step(1) by (auto simp: Let_def d_def c1_def split: if_splits prod.splits)
  have IH: "length rs1 = length xs \<and> small_digits rs1 \<and> unat c' \<le> 1 \<and>
      int (digits_value rs1) - int (base ^ length xs * unat c') = int (digits_value xs) - int (digits_value ys) - int (unat c1)"
    using Cons.IH [of c1 rs1 c'] Cons.prems(1,2) r(1) by (simp add: c1_def)
  have k: "- int base \<le> k" "k < int base" using xy Cons.prems(3) by (simp_all add: k_def del: of_nat_unat)
  have d: "int (unat d) = k + int base * int (unat c1)" using step(2,3) by (simp add: d_def c1_def del: of_nat_unat)
  then have "unat d < base" using k by (simp add: c1_def del: of_nat_unat split: if_splits)
  moreover have "int base * (int (digits_value rs1) - int (base ^ length xs * unat c')) =
      int base * (int (digits_value xs) - int (digits_value ys) - int (unat c1))" using IH by simp
  ultimately show ?case using IH d r(2) by (simp add: k_def algebra_simps del: of_nat_unat)
qed auto

definition unit_sign :: "bignum \<Rightarrow> int" where
  "unit_sign b = (if bn_sign b < 0 then -1 else 1)"

lemma bn_value_unit: "bn_value b = unit_sign b * int (digits_value (bn_digits b))"
  by (simp add: bn_value_def unit_sign_def)

lemma normalD:
  assumes "normal b"
  shows "length (bn_digits b) = 5" "small_digits (bn_digits b)" "bn_sign b = 0 \<or> bn_sign b = -1"
  using assms by (auto simp: normal_def)

lemma neg_value:
  assumes "normal b"
  shows "bn_value (CFBigNumNeg b) = - bn_value b \<and> normal (CFBigNumNeg b)"
  using assms by (auto simp: CFBigNumNeg_def normal_def bn_value_def digits_value_0)

lemma add_value:
  assumes a: "normal a" and b: "normal b" and r: "CFBigNumAdd a b = (r, c)"
  shows "bn_value r + unit_sign r * int (base ^ 5 * unat c) = bn_value a + bn_value b"
    and "length (bn_digits r) = 5 \<and> (\<forall>d \<in> set (bn_digits r). unat d \<le> base) \<and> bn_sign r \<in> {0, -1}"
    and "bn_sign a \<noteq> bn_sign b \<Longrightarrow> c = 0 \<and> small_digits (bn_digits r)"
proof -
  note a' = normalD [OF a] and b' = normalD [OF b]
  have len: "length (bn_digits a) = length (bn_digits b)" using a' b' by simp
  have "bn_value r + unit_sign r * int (base ^ 5 * unat c) = bn_value a + bn_value b \<and>
    length (bn_digits r) = 5 \<and> (\<forall>d \<in> set (bn_digits r). unat d \<le> base) \<and> bn_sign r \<in> {0, -1} \<and>
    (bn_sign a \<noteq> bn_sign b \<longrightarrow> c = 0 \<and> small_digits (bn_digits r))"
  proof (cases "bn_sign a = bn_sign b")
    case True
    obtain ds cc where s: "add_digits 0 (zip (bn_digits a) (bn_digits b)) = (ds, cc)" by fastforce
    note v = add_digits_value [OF len a'(2) b'(2) _ s]
    have rc: "r = \<lparr>bn_digits = ds, bn_sign = bn_sign a\<rparr>" "c = ucast cc" using r True s by (simp_all add: CFBigNumAdd_def)
    have c: "unat c = unat cc" using v rc(2) by (simp add: unat_ucast_mod)
    have "int (digits_value ds + base ^ 5 * unat cc) = int (digits_value (bn_digits a) + digits_value (bn_digits b))"
      using v a'(1) by simp
    then have "unit_sign a * (int (digits_value ds) + int (base ^ 5 * unat cc)) =
        unit_sign a * (int (digits_value (bn_digits a)) + int (digits_value (bn_digits b)))" by simp
    then show ?thesis using v a' True c by (auto simp: rc(1) bn_value_unit unit_sign_def algebra_simps)
  next
    case False
    define big where "big = (if CFBigNumAbsoluteLessThan a b then b else a)"
    define small where "small = (if CFBigNumAbsoluteLessThan a b then a else b)"
    have bs: "length (bn_digits big) = length (bn_digits small)" "small_digits (bn_digits big)" "small_digits (bn_digits small)"
      "length (bn_digits big) = 5" "bn_sign big = 0 \<or> bn_sign big = -1"
      using a' b' by (simp_all add: big_def small_def)
    have ge: "digits_value (bn_digits small) \<le> digits_value (bn_digits big)"
      using absolute_less [OF len a'(2) b'(2)] by (simp add: big_def small_def not_less)
    obtain ds cc where s: "sub_digits 0 (zip (bn_digits big) (bn_digits small)) = (ds, cc)" by fastforce
    note v = sub_digits_value [OF bs(1-3) _ s]
    have rc: "r = \<lparr>bn_digits = ds, bn_sign = (if bn_sign big < 0 then -1 else 0)\<rparr>" "c = ucast cc"
      using r False s by (auto simp: CFBigNumAdd_def big_def small_def split: if_splits)
    have d: "int (digits_value ds) - int (base ^ 5 * unat cc) = int (digits_value (bn_digits big)) - int (digits_value (bn_digits small))"
      and ds: "length ds = 5" "small_digits ds" "unat cc \<le> 1" using v bs(4) by simp_all
    have "digits_value ds < base ^ 5" using digits_value_bound [OF ds(2)] ds(1) by simp
    then have "unat cc = 0" using d ge ds(3) by (cases "unat cc") (auto simp del: of_nat_unat)
    then have cc: "cc = 0" by (simp add: unat_eq_0)
    have val: "int (digits_value ds) = int (digits_value (bn_digits big)) - int (digits_value (bn_digits small))"
      using d cc by simp
    have "bn_value a + bn_value b = bn_value big + bn_value small" by (simp add: big_def small_def)
    moreover have "bn_value small = - (unit_sign big * int (digits_value (bn_digits small)))"
      using False a'(3) b'(3) by (auto simp: bn_value_unit unit_sign_def big_def small_def)
    moreover have "bn_value big = unit_sign big * int (digits_value (bn_digits big))" by (rule bn_value_unit)
    moreover have "bn_value r = unit_sign big * int (digits_value ds)" by (simp add: rc(1) bn_value_unit unit_sign_def)
    moreover have "unit_sign big * int (digits_value ds) = unit_sign big * int (digits_value (bn_digits big)) -
        unit_sign big * int (digits_value (bn_digits small))" unfolding val by (simp add: algebra_simps)
    ultimately show ?thesis using ds cc rc by (auto simp: small_digits_def less_imp_le)
  qed
  then show "bn_value r + unit_sign r * int (base ^ 5 * unat c) = bn_value a + bn_value b"
    "length (bn_digits r) = 5 \<and> (\<forall>d \<in> set (bn_digits r). unat d \<le> base) \<and> bn_sign r \<in> {0, -1}"
    "bn_sign a \<noteq> bn_sign b \<Longrightarrow> c = 0 \<and> small_digits (bn_digits r)" by blast+
qed

text \<open>When the digits of a sum are in range.\<close>

lemma add_exact:
  assumes a: "normal a" and b: "normal b" and r: "CFBigNumAdd a b = (r, c)"
  shows "if bn_sign a = bn_sign b then small_digits (bn_digits r) \<longleftrightarrow> \<not> exact_column 0 (zip (bn_digits a) (bn_digits b))
    else c = 0 \<and> small_digits (bn_digits r)"
proof (cases "bn_sign a = bn_sign b")
  case True
  then have "bn_digits r = fst (add_digits 0 (zip (bn_digits a) (bn_digits b)))"
    using r by (auto simp: CFBigNumAdd_def split: prod.splits)
  then show ?thesis using add_digits_exact [of "bn_digits a" "bn_digits b" 0] normalD [OF a] normalD [OF b] True by simp
next
  case False
  then show ?thesis using add_value(3) [OF a b r] by simp
qed

subsection \<open>Decimal strings\<close>

lemma of_char_digit: "n < 10 \<Longrightarrow> (of_char (char_of (48 + n) :: char) :: nat) = 48 + n"
  by (simp add: of_char_of)

lemma number_of_snoc: "number_of (s @ [c]) = 10 * number_of s + (of_char c - 48)"
  by (simp add: number_of_def)

lemma number_of_Nil [simp]: "number_of [] = 0"
  by (simp add: number_of_def)

lemma number_of_append: "number_of (s @ t) = number_of s * 10 ^ length t + number_of t"
proof (induction t rule: rev_induct)
  case (snoc c t)
  have "number_of (s @ t @ [c]) = 10 * number_of (s @ t) + (of_char c - 48)" using number_of_snoc [of "s @ t"] by simp
  then show ?case using snoc by (simp add: number_of_snoc algebra_simps)
qed simp

lemma number_of_zeros: "number_of (replicate k CHR ''0'' @ s) = number_of s"
proof -
  have "number_of (replicate k CHR ''0'') = 0"
  proof (induction k)
    case (Suc k)
    have "replicate (Suc k) CHR ''0'' = replicate k CHR ''0'' @ [CHR ''0'']" by (simp add: replicate_append_same)
    then show ?case using Suc by (simp only: number_of_snoc) simp
  qed simp
  then show ?thesis by (simp add: number_of_append)
qed

lemma decimal_digits: "list_all is_digit (decimal n) \<and> number_of (decimal n) = n \<and> decimal n \<noteq> []"
proof (induction n rule: decimal.induct)
  case (1 n)
  have d: "n mod 10 < 10" by simp
  show ?case
  proof (cases "n < 10")
    case True
    then show ?thesis using number_of_snoc [of "[]"] by (simp add: decimal.simps [of n] is_digit_def of_char_digit)
  next
    case False
    then show ?thesis using 1 of_char_digit [OF d]
      by (simp add: decimal.simps [of n] is_digit_def number_of_snoc)
  qed
qed

lemma decimal_length: "n < 10 ^ Suc k \<Longrightarrow> length (decimal n) \<le> Suc k"
proof (induction k arbitrary: n)
  case (Suc k)
  then have "n div 10 < 10 ^ Suc k" by (simp add: less_mult_imp_div_less)
  then show ?case using Suc.IH [of "n div 10"] by (simp add: decimal.simps [of n])
qed (simp add: decimal.simps)

lemma nine_digits:
  assumes "unat d < base"
  shows "length (nine d) = 9" "number_of (nine d) = unat d" "list_all is_digit (nine d)"
  using decimal_length [of "unat d" 8] decimal_digits [of "unat d"] assms
  by (auto simp: nine_def Let_def number_of_zeros list_all_iff is_digit_def)

lemma digit_string_value:
  "small_digits ds \<Longrightarrow> length (concat (map nine (rev ds))) = 9 * length ds \<and>
     number_of (concat (map nine (rev ds))) = digits_value ds \<and> list_all is_digit (concat (map nine (rev ds)))"
  by (induction ds) (simp_all add: nine_digits number_of_append)

lemma digit_string_normal:
  assumes "normal b"
  shows "length (digit_string b) = 45" "number_of (digit_string b) = digits_value (bn_digits b)" "list_all is_digit (digit_string b)"
  using digit_string_value [OF normalD(2) [OF assms]] normalD(1) [OF assms] by (simp_all add: digit_string_def)

lemma drop_zeros_split: "\<exists>k. s = replicate k CHR ''0'' @ dropWhile (\<lambda>c. c = CHR ''0'') s"
proof (induction s)
  case (Cons c s)
  then obtain k where "s = replicate k CHR ''0'' @ dropWhile (\<lambda>c. c = CHR ''0'') s" by blast
  then show ?case by (auto intro: exI [of _ "Suc k"] exI [of _ 0])
qed simp

lemma drop_zeros:
  "number_of (dropWhile (\<lambda>c. c = CHR ''0'') s) = number_of s"
  "list_all is_digit s \<Longrightarrow> list_all is_digit (dropWhile (\<lambda>c. c = CHR ''0'') s)"
  using drop_zeros_split [of s] number_of_zeros by (metis, metis list_all_append)

lemma number_of_bound: "list_all is_digit s \<Longrightarrow> number_of s < 10 ^ length s"
proof (induction s rule: rev_induct)
  case (snoc c s)
  then have "number_of s < 10 ^ length s" "of_char c - 48 < (10 :: nat)" by (auto simp: is_digit_def)
  then show ?case by (simp add: number_of_snoc)
qed simp

text \<open>Reading back.\<close>

lemma digit_not_special:
  "is_digit c \<Longrightarrow> \<not> is_space c" "is_digit c \<Longrightarrow> c \<noteq> CHR ''-''" "is_digit c \<Longrightarrow> c \<noteq> CHR ''+''"
  by (auto simp: is_digit_def is_space_def)

lemma atol_digits:
  assumes "list_all is_digit s" and "length s \<le> 18"
  shows "atol s = Some (of_nat (number_of s))"
proof -
  have "number_of s < 10 ^ 18"
    using number_of_bound [OF assms(1)] power_increasing [OF assms(2), of "10::nat"] by simp
  moreover have "dropWhile is_space s = s" using assms(1) by (cases s) (auto simp: digit_not_special)
  moreover have "takeWhile is_digit s = s" using assms(1) by (simp add: takeWhile_eq_all_conv list_all_iff)
  moreover have "\<not> (s \<noteq> [] \<and> hd s = CHR ''-'')" "\<not> (s \<noteq> [] \<and> hd s \<in> {CHR ''-'', CHR ''+''})"
    using assms(1) by (cases s; auto simp: digit_not_special)+
  ultimately show ?thesis unfolding atol_def Let_def by (simp only: if_False) simp
qed

lemma ucast_number: "n < base \<Longrightarrow> unat (ucast (of_nat n :: 64 word) :: 32 word) = n"
  by (simp add: unat_ucast_mod unat_of_nat take_bit_nat_eq_self)

lemma cut_digits_value:
  assumes "list_all is_digit s" and "length s \<le> 9 * Suc room"
  shows "\<exists>ds. cut_digits (Suc room) s = Some ds \<and> length ds \<le> Suc room \<and> small_digits ds \<and> digits_value ds = number_of s"
  using assms
proof (induction room arbitrary: s)
  case 0
  then have "number_of s < base" using number_of_bound [OF 0(1)] power_increasing [of "length s" 9 "10::nat"] by simp
  then show ?case using 0 by (simp add: cut_digits.simps atol_digits ucast_number)
next
  case (Suc room)
  show ?case
  proof (cases "9 < length s")
    case False
    then have "number_of s < base"
      using number_of_bound [OF Suc.prems(1)] power_increasing [of "length s" 9 "10::nat"] by simp
    then show ?thesis using Suc.prems False by (simp add: cut_digits.simps atol_digits ucast_number)
  next
    case True
    define low where "low = drop (length s - 9) s"
    define high where "high = take (length s - 9) s"
    have s: "s = high @ low" "length low = 9" using True by (simp_all add: low_def high_def)
    have dig: "list_all is_digit high" "list_all is_digit low" using Suc.prems(1) unfolding s(1) by simp_all
    have "number_of low < base" using number_of_bound [OF dig(2)] s(2) by simp
    then have d: "unat (ucast (of_nat (number_of low) :: 64 word) :: 32 word) = number_of low" by (rule ucast_number)
    have "length high \<le> 9 * Suc room" using Suc.prems(2) True by (simp add: high_def)
    then obtain ds where ds: "cut_digits (Suc room) high = Some ds" "length ds \<le> Suc room" "small_digits ds"
      "digits_value ds = number_of high" using Suc.IH [OF dig(1)] by blast
    have "cut_digits (Suc (Suc room)) s = Some (ucast (of_nat (number_of low) :: 64 word) # ds)"
      using True ds(1) atol_digits [OF dig(2)] s(2)
      by (simp add: cut_digits.simps [of "Suc (Suc room)" s] low_def [symmetric] high_def [symmetric])
    then show ?thesis using ds d \<open>number_of low < base\<close> s by (simp add: number_of_append algebra_simps)
  qed
qed

lemma digits_value_append_zeros: "digits_value (ds @ replicate k 0) = digits_value ds"
  by (induction ds) (induction k, simp_all)

lemma small_digits_append: "small_digits (xs @ ys) \<longleftrightarrow> small_digits xs \<and> small_digits ys"
  by (auto simp: small_digits_def)

text \<open>The number read from a sign and decimal digits.\<close>

lemma from_string:
  assumes dig: "list_all is_digit t" and len: "length (dropWhile (\<lambda>c. c = CHR ''0'') t) \<le> 45"
    and sg: "sg \<in> {'''', ''+'', ''-''}"
  shows "\<exists>ds. CFBigNumFromCString (sg @ t) = Some \<lparr>bn_digits = ds, bn_sign = (if sg = ''-'' then -1 else 0)\<rparr> \<and>
    length ds = 5 \<and> small_digits ds \<and> digits_value ds = number_of t"
proof -
  let ?w = "dropWhile (\<lambda>c. c = CHR ''0'') t"
  have neg: "(sg @ t \<noteq> [] \<and> hd (sg @ t) = CHR ''-'') = (sg = ''-'')"
    using sg dig by (cases t) (auto simp: digit_not_special)
  have rest: "(if sg @ t \<noteq> [] \<and> hd (sg @ t) \<in> {CHR ''-'', CHR ''+''} then tl (sg @ t) else sg @ t) = t"
    using sg dig by (cases t) (auto simp: digit_not_special)
  show ?thesis
  proof (cases "?w = []")
    case True
    then have "number_of t = 0" using drop_zeros(1) [of t] by (metis number_of_Nil)
    then show ?thesis using True digits_value_append_zeros [of "[]" 5]
      unfolding CFBigNumFromCString_def Let_def neg rest by (simp add: small_digits_def)
  next
    case False
    obtain ds where ds: "cut_digits 5 ?w = Some ds" "length ds \<le> 5" "small_digits ds" "digits_value ds = number_of ?w"
      using cut_digits_value [OF drop_zeros(2) [OF dig], of 4] len by (auto simp: eval_nat_numeral)
    have "small_digits (ds @ replicate (5 - length ds) 0)" using ds(3) by (auto simp: small_digits_append small_digits_def)
    then show ?thesis using False ds
      unfolding CFBigNumFromCString_def Let_def neg rest by (auto simp: digits_value_append_zeros drop_zeros(1))
  qed
qed

lemma ucast_ucast_same: "LENGTH('a) \<le> LENGTH('b) \<Longrightarrow> ucast (ucast (u :: 'a::len word) :: 'b::len word) = u"
  by (simp add: word_unat_eq_iff unat_ucast_mod)
     (metis mod_mod_cancel le_imp_power_dvd mod_less unsigned_less)

subsection \<open>The properties\<close>

text \<open>A number made of a signed or unsigned machine integer gives the integer back, for all ten types.\<close>

theorem bignum_int_roundtrip:
  "CFBigNumGetInt8 (CFBigNumInitWithInt8 a) = a \<and> CFBigNumGetUInt8 (CFBigNumInitWithUInt8 a) = a \<and>
   CFBigNumGetInt16 (CFBigNumInitWithInt16 b) = b \<and> CFBigNumGetUInt16 (CFBigNumInitWithUInt16 b) = b \<and>
   CFBigNumGetInt32 (CFBigNumInitWithInt32 c) = c \<and> CFBigNumGetUInt32 (CFBigNumInitWithUInt32 c) = c \<and>
   CFBigNumGetInt64 (CFBigNumInitWithInt64 d) = d \<and> CFBigNumGetUInt64 (CFBigNumInitWithUInt64 d) = d \<and>
   CFBigNumGetInt128 (CFBigNumInitWithInt128 e) = e \<and> CFBigNumGetUInt128 (CFBigNumInitWithUInt128 e) = e"
proof -
  have s32: "digits_value (take 2 (digits_32 u)) = unat u" for u
    using digits_32_value [of u] by (simp add: digits_32_def Let_def)
  have s64: "digits_value (take 3 (digits_64 u)) = unat u" for u
    using digits_64_value [of u] by (simp add: digits_64_def Let_def)
  note defs = CFBigNumGetInt8_def CFBigNumGetInt16_def CFBigNumGetInt32_def CFBigNumGetInt64_def CFBigNumGetInt128_def
    CFBigNumGetUInt8_def CFBigNumGetUInt16_def CFBigNumGetUInt32_def CFBigNumGetUInt64_def CFBigNumGetUInt128_def
    CFBigNumInitWithInt8_def CFBigNumInitWithInt16_def CFBigNumInitWithInt32_def CFBigNumInitWithInt64_def CFBigNumInitWithInt128_def
    CFBigNumInitWithUInt8_def CFBigNumInitWithUInt16_def CFBigNumInitWithUInt32_def CFBigNumInitWithUInt64_def CFBigNumInitWithUInt128_def
  show ?thesis
    by (simp add: defs signed_def signed_magnitude sums_value digits_of_word s32 s64 digits_8_def digits_16_def
        ucast_ucast_same)
qed

text \<open>C24: On numbers in normal form \<^verbatim>\<open>_CFBigNumCompare\<close> is the order of the integers they stand for.\<close>

theorem bignum_compare:
  assumes "normal a" and "normal b"
  shows "CFBigNumCompare a b =
    (if bn_value a < bn_value b then LessThan else if bn_value a = bn_value b then EqualTo else GreaterThan)"
  using compare_normal [OF assms] by (simp add: compare_ints_def)

theorem bignum_compare_witness: "CFBigNumCompare (CFBigNumInitWithInt64 (-5)) (CFBigNumInitWithInt8 7) = LessThan"
  using bignum_compare [of "CFBigNumInitWithInt64 (-5)" "CFBigNumInitWithInt8 7"] init_values by simp

text \<open>C25: The sum and the difference of numbers in normal form have the value of the sum and the difference, where a carry out of
  the highest digit stands for 10^45. Where the digits are subtracted there is no carry and every digit is below the base. Where
  they are added, the digits are all below the base, as the type has to have them, exactly when in no column of the addition
  the two digits and the carry add up to exactly the base: there the code leaves the digit 1000000000 and carries nothing.\<close>

theorem bignum_add_sub:
  assumes "normal a" and "normal b"
  shows "\<exists>s c d k. CFBigNumAdd a b = (s, c) \<and> CFBigNumSub a b = (d, k) \<and>
    bn_value s + unit_sign s * 10 ^ 45 * int (unat c) = bn_value a + bn_value b \<and>
    bn_value d + unit_sign d * 10 ^ 45 * int (unat k) = bn_value a - bn_value b \<and>
    (if bn_sign a = bn_sign b then small_digits (bn_digits s) \<longleftrightarrow> \<not> exact_column 0 (zip (bn_digits a) (bn_digits b))
     else c = 0 \<and> small_digits (bn_digits s)) \<and>
    (if bn_sign a = bn_sign (CFBigNumNeg b) then small_digits (bn_digits d) \<longleftrightarrow> \<not> exact_column 0 (zip (bn_digits a) (bn_digits b))
     else k = 0 \<and> small_digits (bn_digits d)) \<and>
    (\<forall>x \<in> set (bn_digits s) \<union> set (bn_digits d). unat x \<le> base)"
proof -
  obtain s c where s: "CFBigNumAdd a b = (s, c)" by fastforce
  obtain d k where d: "CFBigNumAdd a (CFBigNumNeg b) = (d, k)" by fastforce
  note b' = neg_value [OF assms(2)]
  have nb: "normal (CFBigNumNeg b)" "bn_digits (CFBigNumNeg b) = bn_digits b" using b' by (auto simp: CFBigNumNeg_def)
  have "bn_value d + unit_sign d * 10 ^ 45 * int (unat k) = bn_value a - bn_value b"
    using add_value(1) [OF assms(1) nb(1) d] b' by simp
  moreover have "bn_value s + unit_sign s * 10 ^ 45 * int (unat c) = bn_value a + bn_value b"
    using add_value(1) [OF assms s] by simp
  moreover have "\<forall>x \<in> set (bn_digits s) \<union> set (bn_digits d). unat x \<le> base"
    using add_value(2) [OF assms s] add_value(2) [OF assms(1) nb(1) d] by blast
  moreover note add_exact [OF assms s] add_exact [OF assms(1) nb(1) d, unfolded nb(2)]
  ultimately show ?thesis using s d unfolding CFBigNumSub_def by blast
qed

theorem bignum_add_sub_witness:
  "\<exists>s c d k. CFBigNumAdd (CFBigNumInitWithInt64 (-5)) (CFBigNumInitWithInt8 7) = (s, c) \<and> bn_value s = 2 \<and>
     CFBigNumSub (CFBigNumInitWithInt32 999999999) (CFBigNumInitWithInt32 (-1)) = (d, k) \<and> \<not> small_digits (bn_digits d)"
proof -
  have signs: "bn_sign (CFBigNumInitWithInt64 (-5)) \<noteq> bn_sign (CFBigNumInitWithInt8 7)"
    "bn_sign (CFBigNumInitWithInt32 999999999) = bn_sign (CFBigNumNeg (CFBigNumInitWithInt32 (-1)))"
    by (simp_all add: CFBigNumInitWithInt64_def CFBigNumInitWithInt32_def CFBigNumInitWithInt8_def sign_of_def CFBigNumNeg_def
        digits_32_def Let_def magnitude_def BIG_DIGITS_LIMIT_def)
  have exact: "exact_column 0 (zip (bn_digits (CFBigNumInitWithInt32 999999999)) (bn_digits (CFBigNumInitWithInt32 (-1))))"
    by (simp add: CFBigNumInitWithInt32_def digits_32_def Let_def magnitude_def BIG_DIGITS_LIMIT_def)
  obtain s c where "CFBigNumAdd (CFBigNumInitWithInt64 (-5)) (CFBigNumInitWithInt8 7) = (s, c)" "bn_value s = 2"
    using bignum_add_sub [of "CFBigNumInitWithInt64 (-5)" "CFBigNumInitWithInt8 7"] init_values signs(1) by auto
  moreover obtain d k where "CFBigNumSub (CFBigNumInitWithInt32 999999999) (CFBigNumInitWithInt32 (-1)) = (d, k)"
    "\<not> small_digits (bn_digits d)"
    using bignum_add_sub [of "CFBigNumInitWithInt32 999999999" "CFBigNumInitWithInt32 (-1)"] init_values signs(2) exact by auto
  ultimately show ?thesis by blast
qed

text \<open>\<^verbatim>\<open>_CFBigNumAdd\<close> carries a digit only when it exceeds 1000000000: the sum of 999999999 and 1 has the right
  value but a digit of ten decimal places; it compares as different from 1000000000 and prints as 100000000. The sum of
  -5 and 5 is a negative zero, which compares as less than zero.\<close>

theorem bignum_add_not_normal:
  "\<exists>s c z. CFBigNumAdd (CFBigNumInitWithInt32 999999999) (CFBigNumInitWithInt32 1) = (s, c) \<and> bn_value s = 1000000000 \<and>
     CFBigNumCompare s (CFBigNumInitWithInt32 1000000000) = LessThan \<and>
     CFBigNumToCString s False False 100 = Some (''100000000'' @ [NUL]) \<and>
     CFBigNumAdd (CFBigNumInitWithInt32 (-5)) (CFBigNumInitWithInt32 5) = (z, 0) \<and> bn_value z = 0 \<and>
     CFBigNumCompare z (CFBigNumInitWithInt32 0) = LessThan"
proof -
  let ?s = "\<lparr>bn_digits = [1000000000, 0, 0, 0, 0], bn_sign = 0\<rparr>" and ?z = "\<lparr>bn_digits = [0, 0, 0, 0, 0], bn_sign = -1\<rparr>"
  note init = CFBigNumInitWithInt32_def digits_32_def Let_def magnitude_def sign_of_def BIG_DIGITS_LIMIT_def
  have c: "char_of (48::nat) = CHR ''0''" "char_of (49::nat) = CHR ''1''" by (simp_all add: char_of_def bit_numeral_rec bit_Suc_0_iff)
  have "decimal 0 = ''0''" by (simp add: decimal.simps c)
  then have n0: "nine 0 = ''000000000''" by (simp add: nine_def Let_def numeral_nat)
  have n1: "nine 1000000000 = ''1000000000''" by (simp add: nine_def Let_def decimal.simps c)
  have "CFBigNumAdd (CFBigNumInitWithInt32 999999999) (CFBigNumInitWithInt32 1) = (?s, 0)"
    by (simp add: init CFBigNumAdd_def)
  moreover have "CFBigNumCompare ?s (CFBigNumInitWithInt32 1000000000) = LessThan"
    by (simp add: init CFBigNumCompare_def)
  moreover have "CFBigNumToCString ?s False False 100 = Some (''100000000'' @ [NUL])"
    by (simp add: CFBigNumToCString_def Let_def digit_string_def n0 n1)
  moreover have "CFBigNumAdd (CFBigNumInitWithInt32 (-5)) (CFBigNumInitWithInt32 5) = (?z, 0)"
    by (simp add: init CFBigNumAdd_def CFBigNumAbsoluteLessThan_def)
  moreover have "CFBigNumCompare ?z (CFBigNumInitWithInt32 0) = LessThan"
    by (simp add: init CFBigNumCompare_def)
  ultimately show ?thesis
    by (intro exI [of _ ?s] exI [of _ "0 :: 8 word"] exI [of _ ?z]) (simp add: bn_value_def)
qed

text \<open>Reading a sign and digits of the right value.\<close>

lemma reads_back:
  assumes "normal b" and sg: "sg \<in> {'''', ''+'', ''-''}" "(if sg = ''-'' then -1 else 0) = bn_sign b"
    and t: "list_all is_digit t" "number_of t = number_of (digit_string b)" "length (dropWhile (\<lambda>c. c = CHR ''0'') t) \<le> 45"
  shows "CFBigNumFromCString (sg @ t) = Some b"
proof -
  obtain ds where ds: "CFBigNumFromCString (sg @ t) = Some \<lparr>bn_digits = ds, bn_sign = (if sg = ''-'' then -1 else 0)\<rparr>"
    "length ds = 5" "small_digits ds" "digits_value ds = number_of t" using from_string [OF t(1,3) sg(1)] by blast
  have "ds = bn_digits b"
    using digits_inj [of ds "bn_digits b"] ds(2-4) normalD(1,2) [OF assms(1)] t(2) digit_string_normal(2) [OF assms(1)] by simp
  then show ?thesis using ds(1) sg(2) by simp
qed

lemma leading_zeros_dropped:
  "dropWhile (\<lambda>c. c = CHR ''0'') (replicate k CHR ''0'' @ t) = dropWhile (\<lambda>c. c = CHR ''0'') t"
  by (induction k) simp_all

lemma without_zeros:
  assumes "list_all is_digit t" "length t = 45" "s = (if dropWhile (\<lambda>c. c = CHR ''0'') t = [] then ''0'' else dropWhile (\<lambda>c. c = CHR ''0'') t)"
  shows "list_all is_digit s \<and> number_of s = number_of t \<and> length s \<le> 45"
proof (cases "dropWhile (\<lambda>c. c = CHR ''0'') t = []")
  case True
  then have "s = ''0''" "number_of t = 0" using drop_zeros(1) [of t] unfolding assms(3) by (simp, metis number_of_Nil)
  moreover have "number_of ''0'' = 0" using number_of_zeros [of 1 "[]"] by simp
  ultimately show ?thesis by (simp add: is_digit_def)
next
  case False
  then have "s = dropWhile (\<lambda>c. c = CHR ''0'') t" unfolding assms(3) by (rule if_not_P)
  then show ?thesis using drop_zeros(1) drop_zeros(2) [OF assms(1)] length_dropWhile_le [of _ t] assms(2) by metis
qed

text \<open>C26: Printing a number in normal form, with or without leading zeros and a plus sign, and reading the string gives
  the number back, when the buffer has room for it.\<close>

theorem bignum_string_roundtrip:
  assumes "normal b" and "47 \<le> buflen"
  shows "\<exists>s. CFBigNumToCString b leading_zeros leading_plus buflen = Some (s @ [NUL]) \<and> CFBigNumFromCString s = Some b"
proof -
  let ?t = "digit_string b"
  define sg where "sg = (if bn_sign b < 0 then ''-'' else if leading_plus then ''+'' else '''')"
  define n where "n = buflen - length sg"
  note str = digit_string_normal [OF assms(1)]
  have sg: "sg \<in> {'''', ''+'', ''-''}" "length sg \<le> 1" "(if sg = ''-'' then -1 else 0) = bn_sign b"
    using normalD(3) [OF assms(1)] by (auto simp: sg_def)
  have n: "46 \<le> n" "length sg \<le> buflen" using assms(2) sg(2) by (simp_all add: n_def)
  note reads = reads_back [OF assms(1) sg(1,3)]
  have z: "length (dropWhile (\<lambda>c. c = CHR ''0'') ?t) \<le> 45" using length_dropWhile_le [of _ ?t] str(1) by metis
  show ?thesis
  proof (cases leading_zeros)
    case True
    have "CFBigNumToCString b leading_zeros leading_plus buflen = Some ((sg @ replicate (n - 46) CHR ''0'' @ ?t) @ [NUL])"
      using True n by (simp add: CFBigNumToCString_def Let_def sg_def [symmetric] n_def [symmetric] not_less)
    moreover have dig: "list_all is_digit (replicate (n - 46) CHR ''0'' @ ?t)" using str(3) by (auto simp: list_all_iff is_digit_def)
    have "length (dropWhile (\<lambda>c. c = CHR ''0'') (replicate (n - 46) CHR ''0'' @ ?t)) \<le> 45" using z leading_zeros_dropped [of "n - 46" ?t] by metis
    then have "CFBigNumFromCString (sg @ replicate (n - 46) CHR ''0'' @ ?t) = Some b" by (rule reads [OF dig number_of_zeros])
    ultimately show ?thesis by blast
  next
    case False
    define s where "s = (if dropWhile (\<lambda>c. c = CHR ''0'') ?t = [] then ''0'' else dropWhile (\<lambda>c. c = CHR ''0'') ?t)"
    have "list_all is_digit s \<and> number_of s = number_of ?t \<and> length s \<le> 45" by (rule without_zeros [OF str(3,1) s_def])
    moreover have "length (dropWhile (\<lambda>c. c = CHR ''0'') s) \<le> length s" by (rule length_dropWhile_le)
    moreover have "CFBigNumToCString b leading_zeros leading_plus buflen = Some (sg @ take (n - 1) s @ [NUL])"
      using False n by (simp add: CFBigNumToCString_def Let_def sg_def [symmetric] n_def [symmetric] s_def not_less)
    ultimately show ?thesis using reads [of s] n by auto
  qed
qed

theorem bignum_string_roundtrip_witness:
  "\<exists>s. CFBigNumToCString (CFBigNumInitWithInt64 (-5)) True False 60 = Some (s @ [NUL]) \<and>
     CFBigNumFromCString s = Some (CFBigNumInitWithInt64 (-5))"
  using bignum_string_roundtrip [of "CFBigNumInitWithInt64 (-5)" 60 True False] init_values by simp

text \<open>The integer of a stored number, as \<^verbatim>\<open>CFNumber.c\<close> reads it.\<close>

fun number_int :: "number_value \<Rightarrow> int" where
  "number_int (SInt8 w) = sint w"
| "number_int (SInt16 w) = sint w"
| "number_int (SInt32 w) = sint w"
| "number_int (SInt64 w) = sint w"
| "number_int (SInt128 high low) = sint high * 2 ^ 64 + uint low"

lemma sint_word_of_int: "- (2 ^ (LENGTH('a) - 1)) \<le> k \<Longrightarrow> k < 2 ^ (LENGTH('a) - 1) \<Longrightarrow> sint (word_of_int k :: 'a::len word) = k"
  by (simp add: sint_uint uint_word_of_int_eq signed_take_bit_take_bit signed_take_bit_int_eq_self)

lemma within_range:
  "normal b \<Longrightarrow> normal lo \<Longrightarrow> normal hi \<Longrightarrow> within b lo hi \<longleftrightarrow> bn_value lo \<le> bn_value b \<and> bn_value b \<le> bn_value hi"
  by (auto simp: within_def compare_normal compare_ints_def)

lemma low_digits:
  assumes "length ds = 5" and "k \<le> 5"
  shows "(\<forall>d \<in> set (drop k ds). d = 0) \<longrightarrow> digits_value (take k ds) = digits_value ds"
proof -
  have split: "digits_value (take k ds) + base ^ k * digits_value (drop k ds) = digits_value ds" if "k \<le> length ds" for k ds
    using that
  proof (induction k arbitrary: ds)
    case (Suc k)
    then obtain d ds' where ds: "ds = d # ds'" by (cases ds) auto
    have "base * (digits_value (take k ds') + base ^ k * digits_value (drop k ds')) = base * digits_value ds'"
      using Suc.IH [of ds'] Suc.prems ds by simp
    then show ?case by (simp add: ds distrib_left)
  qed simp
  have eq: "digits_value (take k ds) + base ^ k * digits_value (drop k ds) = digits_value ds" using split assms by simp
  have zero: "(\<forall>d \<in> set (drop k ds). d = 0) \<longleftrightarrow> digits_value (drop k ds) = 0" by (simp add: digits_value_0)
  show "(\<forall>d \<in> set (drop k ds). d = 0) \<longrightarrow> digits_value (take k ds) = digits_value ds"
    using eq zero by (metis add_0_right mult_0_right)
qed

lemma number_limits:
  "normal (CFBigNumInitWithInt32 0x80000000)" "bn_value (CFBigNumInitWithInt32 0x80000000) = - (2 ^ 31)"
  "normal (CFBigNumInitWithInt32 0x7FFFFFFF)" "bn_value (CFBigNumInitWithInt32 0x7FFFFFFF) = 2 ^ 31 - 1"
  "normal (CFBigNumInitWithInt64 0x8000000000000000)" "bn_value (CFBigNumInitWithInt64 0x8000000000000000) = - (2 ^ 63)"
  "normal (CFBigNumInitWithInt64 0x7FFFFFFFFFFFFFFF)" "bn_value (CFBigNumInitWithInt64 0x7FFFFFFFFFFFFFFF) = 2 ^ 63 - 1"
  "normal (CFBigNumInitWithInt128 0x80000000000000000000000000000000)"
  "bn_value (CFBigNumInitWithInt128 0x80000000000000000000000000000000) = - (2 ^ 127)"
  "normal (CFBigNumInitWithInt128 0x7FFFFFFFFFFFFFFFFFFFFFFFFFFFFFFF)"
  "bn_value (CFBigNumInitWithInt128 0x7FFFFFFFFFFFFFFFFFFFFFFFFFFFFFFF) = 2 ^ 127 - 1"
  by (simp_all add: init_values)

text \<open>The values read from a number whose high digits are 0.\<close>

lemma low_values:
  assumes "normal b"
  shows "zero_from 1 b \<Longrightarrow> CFBigNumGetInt8 b = word_of_int (bn_value b)"
    "zero_from 1 b \<Longrightarrow> CFBigNumGetInt16 b = word_of_int (bn_value b)"
    "zero_from 1 b \<Longrightarrow> bn_digits b ! 0 \<le> k \<Longrightarrow> \<bar>bn_value b\<bar> \<le> int (unat k)"
    "zero_from 2 b \<Longrightarrow> CFBigNumGetInt32 b = word_of_int (bn_value b)"
    "zero_from 3 b \<Longrightarrow> CFBigNumGetInt64 b = word_of_int (bn_value b)"
    "CFBigNumGetInt128 b = word_of_int (bn_value b)"
proof -
  note n = normalD [OF assms]
  let ?ds = "bn_digits b"
  have low: "digits_value (take k ?ds) = digits_value ?ds" if "zero_from k b" "k \<le> 5" for k
    using low_digits [OF n(1) that(2)] that(1) by (simp add: zero_from_def)
  obtain d0 d1 d2 d3 d4 where ds: "?ds = [d0, d1, d2, d3, d4]" using five_digits [OF n(1)] by blast
  have one: "digits_value ?ds = unat (?ds ! 0)" if "zero_from 1 b" using that by (simp add: zero_from_def ds)
  show "zero_from 1 b \<Longrightarrow> CFBigNumGetInt8 b = word_of_int (bn_value b)"
    "zero_from 1 b \<Longrightarrow> CFBigNumGetInt16 b = word_of_int (bn_value b)"
    using signed_value [of b] one by (simp_all add: CFBigNumGetInt8_def CFBigNumGetInt16_def)
  show "zero_from 1 b \<Longrightarrow> bn_digits b ! 0 \<le> k \<Longrightarrow> \<bar>bn_value b\<bar> \<le> int (unat k)"
    using one by (simp add: bn_value_def word_le_nat_alt del: of_nat_unat)
  show "zero_from 2 b \<Longrightarrow> CFBigNumGetInt32 b = word_of_int (bn_value b)"
    using low [of 2] signed_value [of b] by (simp add: CFBigNumGetInt32_def sums_value [OF n(1)])
  show "zero_from 3 b \<Longrightarrow> CFBigNumGetInt64 b = word_of_int (bn_value b)"
    using low [of 3] signed_value [of b] by (simp add: CFBigNumGetInt64_def sums_value [OF n(1)])
  show "CFBigNumGetInt128 b = word_of_int (bn_value b)"
    using signed_value [of b] by (simp add: CFBigNumGetInt128_def sums_value [OF n(1)])
qed

text \<open>The integer with the two halves of its 128 bits exchanged.\<close>

definition swap_halves :: "int \<Rightarrow> int" where
  "swap_halves k = signed_take_bit 63 k * 2 ^ 64 + take_bit 64 (k div 2 ^ 64)"

lemma number_int_128: "number_int (CFNumberCreateSInt128 (word_of_int k)) = swap_halves k"
proof -
  have "uint (ucast (drop_bit 64 (word_of_int k :: 128 word)) :: 64 word) = take_bit 64 (drop_bit 64 (take_bit 128 k))"
    by (simp add: unsigned_ucast_eq unsigned_drop_bit_eq uint_word_of_int_eq)
  also have "\<dots> = take_bit 64 (drop_bit 64 k)" by (simp add: drop_bit_take_bit)
  finally have "uint (ucast (drop_bit 64 (word_of_int k :: 128 word)) :: 64 word) = take_bit 64 (k div 2 ^ 64)"
    by (simp add: drop_bit_eq_div)
  moreover have "sint (ucast (word_of_int k :: 128 word) :: 64 word) = signed_take_bit 63 k"
    by (simp add: signed_ucast_eq uint_word_of_int_eq signed_take_bit_take_bit)
  ultimately show ?thesis by (simp add: CFNumberCreateSInt128_def swap_halves_def)
qed

text \<open>A value that 64 bits hold needs three digits at most.\<close>

lemma digits_value_drop: "digits_value (drop k ds) \<le> digits_value ds div base ^ k"
proof (induction k arbitrary: ds)
  case (Suc k)
  show ?case
  proof (cases ds)
    case (Cons d ds')
    have "digits_value (drop k ds') \<le> digits_value ds' div base ^ k" by (rule Suc.IH)
    also have "\<dots> \<le> (digits_value ds div base) div base ^ k"
      by (rule div_le_mono) (simp add: Cons)
    finally show ?thesis by (simp add: Cons div_mult2_eq)
  qed simp
qed simp

lemma three_digits:
  assumes "- (2 ^ 63) \<le> bn_value b" and "bn_value b < 2 ^ 63"
  shows "zero_from 3 b"
proof -
  have "\<bar>bn_value b\<bar> \<le> 2 ^ 63" using assms by linarith
  then have "int (digits_value (bn_digits b)) \<le> 2 ^ 63" by (simp add: bn_value_def split: if_splits)
  then have "digits_value (bn_digits b) < base ^ 3" by simp
  then have "digits_value (drop 3 (bn_digits b)) = 0" using digits_value_drop [of 3 "bn_digits b"] by simp
  then show ?thesis by (simp add: zero_from_def digits_value_0)
qed

text \<open>C27: \<^verbatim>\<open>_CFNumberCreateWithBigNum\<close> returns \<^verbatim>\<open>NULL\<close> exactly for the values that an \<^verbatim>\<open>__int128_t\<close> does not hold. The
  number it makes has the value given where 64 bits hold it; every other value comes out with its upper and its lower 64 bits
  exchanged, since \<^verbatim>\<open>CFNumberCreate\<close> moves the bytes of the \<^verbatim>\<open>__int128_t\<close>, low half first, onto a struct whose first
  field is \<^verbatim>\<open>high\<close>.\<close>

theorem bignum_to_number:
  assumes "normal b"
  shows "(case CFNumberCreateWithBigNum b of
      None \<Rightarrow> bn_value b < - (2 ^ 127) \<or> 2 ^ 127 \<le> bn_value b
    | Some v \<Rightarrow> - (2 ^ 127) \<le> bn_value b \<and> bn_value b < 2 ^ 127 \<and>
        number_int v = (if - (2 ^ 63) \<le> bn_value b \<and> bn_value b < 2 ^ 63 then bn_value b else swap_halves (bn_value b)))"
proof -
  let ?ds = "bn_digits b"
  note ranges = within_range [OF assms number_limits(1,3)] within_range [OF assms number_limits(5,7)]
    within_range [OF assms number_limits(9,11)]
  note low = low_values [OF assms]
  show ?thesis
  proof (cases "zero_from 1 b \<and> ?ds ! 0 \<le> 0x7FFF")
    case True
    then have v: "\<bar>bn_value b\<bar> \<le> 0x7FFF" using low(3) [of "0x7FFF"] by simp
    have range: "- (2 ^ 63) \<le> bn_value b \<and> bn_value b < 2 ^ 63 \<and> - (2 ^ 127) \<le> bn_value b \<and> bn_value b < 2 ^ 127"
      using v by (intro conjI) (simp_all add: abs_le_iff)
    have "\<exists>v. CFNumberCreateWithBigNum b = Some v \<and> number_int v = bn_value b"
    proof (cases "?ds ! 0 \<le> 0x7F")
      case low7: True
      then have "\<bar>bn_value b\<bar> \<le> 0x7F" using low(3) [of "0x7F"] True by simp
      then show ?thesis using True low7 low(1,2) by (simp add: CFNumberCreateWithBigNum_def sint_word_of_int)
    next
      case False
      then show ?thesis using True v low(1,2) by (simp add: CFNumberCreateWithBigNum_def sint_word_of_int)
    qed
    then show ?thesis using range by auto
  next
    case False
    have no8: "\<not> (zero_from 1 b \<and> ?ds ! 0 \<le> 0x7F)"
      using False order_trans [of "?ds ! 0" "0x7F" "0x7FFF"] by auto
    show ?thesis
      using no8 False low(4-6) three_digits [of b]
      by (auto simp: CFNumberCreateWithBigNum_def ranges number_limits sint_word_of_int number_int_128)
  qed
qed

theorem bignum_to_number_witness:
  "\<exists>v u. CFNumberCreateWithBigNum (CFBigNumInitWithInt64 (-5)) = Some v \<and> number_int v = -5 \<and>
     CFNumberCreateWithBigNum (CFBigNumInitWithInt128 0x10000000000000000) = Some u \<and> number_int u = 1"
proof -
  have "swap_halves 0x10000000000000000 = 1" by (simp add: swap_halves_def)
  then have "(case CFNumberCreateWithBigNum (CFBigNumInitWithInt128 0x10000000000000000) of None \<Rightarrow> False | Some v \<Rightarrow> number_int v = 1)"
    using bignum_to_number [of "CFBigNumInitWithInt128 0x10000000000000000"] by (simp add: init_values split: option.splits)
  moreover have "(case CFNumberCreateWithBigNum (CFBigNumInitWithInt64 (-5)) of None \<Rightarrow> False | Some v \<Rightarrow> number_int v = -5)"
    using bignum_to_number [of "CFBigNumInitWithInt64 (-5)"] by (simp add: init_values split: option.splits)
  ultimately show ?thesis by (simp split: option.splits)
qed

end
