(* ===== verification/Doubles.thy ===== *)
theory Doubles
  imports Prelude Complex_Main
begin

text \<open>
  Floating point numbers as the code computes with them: the result of each operation is the real result rounded to 53
  bits (\<^verbatim>\<open>double\<close>) or 24 bits (\<^verbatim>\<open>float\<close>), to the nearer neighbour and, half way between two, to the even one. The
  exponents are unbounded: infinities, the numbers too small for all bits, and NaN are left out. A number on a grid of
  halved seconds that needs no more than 53 bits is exact, and dividing it and cutting off gives the exact quotient.
\<close>

definition round_half_even :: "real \<Rightarrow> int" where
  "round_half_even y =
     (let f = \<lfloor>y\<rfloor>; r = y - of_int f in if r < 1 / 2 \<or> (r = 1 / 2 \<and> even f) then f else f + 1)"

definition rounded :: "nat \<Rightarrow> real \<Rightarrow> real" where
  "rounded p x =
     (if x = 0 then 0
      else let u = 2 powr of_int (\<lfloor>log 2 \<bar>x\<bar>\<rfloor> + 1 - int p) in of_int (round_half_even (x / u)) * u)"

definition double :: "real \<Rightarrow> real" where
  "double = rounded 53"

definition single :: "real \<Rightarrow> real" where
  "single = rounded 24"

lemma round_half_even_int [simp]: "round_half_even (of_int z) = z"
  by (simp add: round_half_even_def)

lemma round_half_even_error: "\<bar>of_int (round_half_even y) - y\<bar> \<le> 1 / 2"
  unfolding round_half_even_def Let_def by (auto; linarith)

lemma leading_bit: "x \<noteq> 0 \<Longrightarrow> 2 powr of_int \<lfloor>log 2 \<bar>x\<bar>\<rfloor> \<le> \<bar>x\<bar> \<and> \<bar>x\<bar> < 2 powr of_int (\<lfloor>log 2 \<bar>x\<bar>\<rfloor> + 1)"
  using floor_log_eq_powr_iff [of "\<bar>x\<bar>" 2 "\<lfloor>log 2 \<bar>x\<bar>\<rfloor>"] by simp

text \<open>A number of at most \<open>p\<close> bits is kept.\<close>

lemma rounded_exact:
  assumes x: "x * 2 ^ j = of_int m" and m: "\<bar>m\<bar> \<le> 2 ^ p" and p: "0 < p"
  shows "rounded p x = x"
proof (cases "x = 0")
  case False
  define E where "E = \<lfloor>log 2 \<bar>x\<bar>\<rfloor>"
  define e where "e = E + 1 - int p"
  note lead = leading_bit [OF False, folded E_def]
  have scaled: "x / 2 powr of_int e = of_int m * 2 powr of_int (- int j - e)"
  proof -
    have "x = of_int m * 2 powr of_int (- int j)" using x by (simp add: powr_minus powr_realpow field_simps)
    then show ?thesis by (simp add: powr_diff powr_minus field_simps)
  qed
  have "\<exists>z. x / 2 powr of_int e = of_int z"
  proof (cases "e \<le> - int j")
    case True
    then have "x / 2 powr of_int e = of_int (m * 2 ^ nat (- int j - e))"
      unfolding scaled by (simp add: powr_realpow [symmetric])
    then show ?thesis by blast
  next
    case False
    have "\<bar>real_of_int m\<bar> = \<bar>x\<bar> * 2 ^ j" unfolding x [symmetric] by (simp add: abs_mult)
    then have "2 powr of_int E * 2 powr of_int (int j) \<le> \<bar>real_of_int m\<bar>" using lead by (simp add: powr_realpow)
    then have ge: "2 powr of_int (E + int j) \<le> \<bar>real_of_int m\<bar>" by (simp add: powr_add)
    have "real_of_int \<bar>m\<bar> \<le> real_of_int (2 ^ p)" unfolding of_int_le_iff by (rule m)
    then have le: "\<bar>real_of_int m\<bar> \<le> 2 powr of_int (int p)" by (simp add: powr_realpow)
    have "2 powr real_of_int (E + int j) \<le> 2 powr of_int (int p)" using ge le by linarith
    then have "E + int j = int p" using False by (simp add: e_def)
    then have "\<bar>real_of_int m\<bar> = 2 powr of_int (int p)" "e = 1 - int j" using ge le by (simp_all add: e_def)
    then have "\<bar>real_of_int m\<bar> = of_int (2 ^ p)" by (simp add: powr_realpow)
    then have "real_of_int \<bar>m\<bar> = of_int (2 ^ p)" by simp
    then have "\<bar>m\<bar> = 2 ^ p" unfolding of_int_eq_iff .
    then have "even m" using p by (metis dvd_abs_iff dvd_power)
    then obtain z where "m = 2 * z" by blast
    moreover have "- int j - e = - 1" using \<open>e = 1 - int j\<close> by simp
    ultimately have "x / 2 powr of_int e = of_int z" unfolding scaled by (simp add: powr_minus)
    then show ?thesis by blast
  qed
  then obtain z where z: "x / 2 powr of_int e = of_int z" by blast
  then have whole: "of_int z * 2 powr of_int e = x" by (simp add: divide_eq_eq)
  show ?thesis unfolding rounded_def if_not_P [OF False] Let_def E_def [symmetric] e_def [symmetric] z round_half_even_int by (rule whole)
qed (simp add: rounded_def)

text \<open>The error is half a unit in the last place at most.\<close>

lemma rounded_error: "\<bar>rounded p x - x\<bar> \<le> \<bar>x\<bar> / 2 ^ p"
proof (cases "x = 0")
  case False
  define E where "E = \<lfloor>log 2 \<bar>x\<bar>\<rfloor>"
  define u :: real where "u = 2 powr of_int (E + 1 - int p)"
  have u: "0 < u" "u / 2 = 2 powr of_int E / 2 ^ p" by (simp_all add: u_def powr_diff powr_add powr_realpow)
  have "rounded p x - x = (of_int (round_half_even (x / u)) - x / u) * u"
    using False u(1) by (simp add: rounded_def Let_def u_def E_def left_diff_distrib)
  then have "\<bar>rounded p x - x\<bar> = \<bar>of_int (round_half_even (x / u)) - x / u\<bar> * u" using u(1) by (simp add: abs_mult)
  also have "\<dots> \<le> 1 / 2 * u" using round_half_even_error u(1) by (intro mult_right_mono) simp_all
  also have "\<dots> = 2 powr of_int E / 2 ^ p" using u(2) by simp
  also have "\<dots> \<le> \<bar>x\<bar> / 2 ^ p" using leading_bit [OF False] by (intro divide_right_mono) (simp_all add: E_def)
  finally show ?thesis .
qed (simp add: rounded_def)

subsection \<open>Exact times\<close>

text \<open>A whole number of the \<open>2 ^ j\<close>-th part of a second that 53 bits hold.\<close>

definition on_grid :: "nat \<Rightarrow> real \<Rightarrow> bool" where
  "on_grid j x \<longleftrightarrow> x * 2 ^ j \<in> \<int> \<and> \<bar>x\<bar> * 2 ^ j \<le> 2 ^ 53"

lemma double_grid: "on_grid j x \<Longrightarrow> double x = x"
proof -
  assume x: "on_grid j x"
  then obtain m where m: "x * 2 ^ j = of_int m" by (auto simp: on_grid_def elim: Ints_cases)
  have "\<bar>real_of_int m\<bar> \<le> 2 ^ 53" using x unfolding m [symmetric] by (simp add: on_grid_def abs_mult)
  then have "real_of_int \<bar>m\<bar> \<le> real_of_int (2 ^ 53)" by simp
  then have "\<bar>m\<bar> \<le> 2 ^ 53" unfolding of_int_le_iff .
  then show ?thesis unfolding double_def by (intro rounded_exact [OF m]) simp_all
qed

lemma int_bound: "\<bar>real_of_int z\<bar> \<le> 2 ^ p \<Longrightarrow> \<bar>z\<bar> \<le> 2 ^ p"
proof -
  assume "\<bar>real_of_int z\<bar> \<le> 2 ^ p"
  then have "real_of_int \<bar>z\<bar> \<le> real_of_int (2 ^ p)" by simp
  then show ?thesis unfolding of_int_le_iff .
qed

lemma double_int: "\<bar>z\<bar> \<le> 2 ^ 53 \<Longrightarrow> double (of_int z) = of_int z"
  unfolding double_def by (rule rounded_exact [of _ 0]) simp_all

lemma single_int: "\<bar>z\<bar> \<le> 2 ^ 24 \<Longrightarrow> single (of_int z) = of_int z"
  unfolding single_def by (rule rounded_exact [of _ 0]) simp_all

text \<open>The floor of a rounded quotient is the floor of the quotient: it is at least one part from the next whole number, which the
  error does not reach.\<close>

lemma floor_double_quotient:
  assumes x: "x * 2 ^ j \<in> \<int>" "\<bar>x\<bar> * 2 ^ j < 2 ^ 53" and k: "0 < (k :: int)"
  shows "\<lfloor>double (x / of_int k)\<rfloor> = \<lfloor>x / of_int k\<rfloor>"
proof -
  obtain n where n: "x * 2 ^ j = of_int n" using x(1) by (auto elim: Ints_cases)
  define D where "D = 2 ^ j * k"
  have D: "0 < D" using k by (simp add: D_def)
  have q: "x / of_int k = of_int n / of_int D" using n k by (simp add: D_def field_simps)
  have fl: "\<lfloor>x / of_int k\<rfloor> = n div D" unfolding q by (rule floor_divide_of_int_eq)
  have nb: "\<bar>real_of_int n\<bar> < 2 ^ 53" using x(2) unfolding n [symmetric] by (simp add: abs_mult)
  show ?thesis
  proof (cases "D dvd n")
    case True
    then obtain z where z: "n = D * z" by blast
    then have "x / of_int k = of_int z" using D q by simp
    moreover have "\<bar>z\<bar> \<le> \<bar>n\<bar>" using D mult_right_mono [of 1 D "\<bar>z\<bar>"] by (simp add: z abs_mult)
    moreover have "\<bar>n\<bar> < 2 ^ 53"
    proof -
      have "real_of_int \<bar>n\<bar> < real_of_int (2 ^ 53)" using nb by simp
      then show ?thesis unfolding of_int_less_iff .
    qed
    ultimately show ?thesis using double_int [of z] by simp
  next
    case False
    define r where "r = n mod D"
    have "r \<noteq> 0" using False by (simp add: r_def dvd_eq_mod_eq_0)
    then have r: "1 \<le> r" "r \<le> D - 1" using D pos_mod_sign [OF D, of n] pos_mod_bound [OF D, of n] by (simp_all add: r_def)
    have "n = D * (n div D) + r" by (simp add: r_def)
    then have "real_of_int n = of_int D * of_int (n div D) + of_int r" by (metis of_int_add of_int_mult)
    then have qr: "of_int n / of_int D = of_int (n div D) + of_int r / real_of_int D" using D by (simp add: field_simps)
    have "\<bar>double (x / of_int k) - x / of_int k\<bar> \<le> \<bar>x / of_int k\<bar> / 2 ^ 53" unfolding double_def by (rule rounded_error)
    also have "\<dots> = \<bar>of_int n\<bar> / 2 ^ 53 / of_int D" unfolding q using D by (simp add: abs_divide)
    also have "\<dots> < 1 / of_int D" using nb D by (intro divide_strict_right_mono) simp_all
    finally have err: "\<bar>double (x / of_int k) - (of_int (n div D) + of_int r / of_int D)\<bar> < 1 / of_int D" unfolding q qr .
    have "1 / of_int D \<le> real_of_int r / of_int D" "real_of_int r / of_int D \<le> (of_int D - 1) / of_int D"
      using r D by (simp_all add: divide_right_mono)
    moreover have "(real_of_int D - 1) / of_int D = 1 - 1 / of_int D" using D by (simp add: field_simps)
    ultimately show ?thesis using err unfolding fl by (intro floor_unique) linarith+
  qed
qed

end
