(* ===== verification/CFDate.thy ===== *)
theory CFDate
  imports Doubles
begin

text \<open>
  \<^verbatim>\<open>CFDate.c\<close>: dates and the Gregorian calendar. Days are counted from 1 January 2001, a year is counted from 2001
  (so 2001 is year 0). Times are numbers of seconds, and every operation on them rounds as that of \<^verbatim>\<open>double\<close> does. The
  32-bit fields of the units overflow, which has no defined result, \<open>None\<close>; the days of a date are whole numbers, which a
  \<^verbatim>\<open>double\<close> holds exactly for every year of 32 bits. A time zone is the function from a time to its offset from Greenwich, which
  \<^verbatim>\<open>CFTimeZoneGetSecondsFromGMT\<close> computes; \<open>None\<close> is the missing time zone. The conversions of the kernel's clock
  are in \<open>RunLoopTimers\<close>.
\<close>

subsection \<open>Integer division of C\<close>

text \<open>Quotients are cut off towards 0.\<close>

definition cdiv :: "int \<Rightarrow> int \<Rightarrow> int" where
  "cdiv a b = sgn a * sgn b * (\<bar>a\<bar> div \<bar>b\<bar>)"

definition cmod :: "int \<Rightarrow> int \<Rightarrow> int" where
  "cmod a b = a - cdiv a b * b"

definition double_rest :: "real \<Rightarrow> int \<Rightarrow> real" where
  "double_rest d modulus = double (d - double (of_int \<lfloor>double (d / of_int modulus)\<rfloor> * of_int modulus))"

definition double_mod_to_int :: "real \<Rightarrow> int \<Rightarrow> int" where
  "double_mod_to_int d modulus =
     (let result = \<lfloor>single (of_int \<lfloor>double_rest d modulus\<rfloor>)\<rfloor> in if result < 0 then result + modulus else result)"

definition double_mod :: "real \<Rightarrow> int \<Rightarrow> real" where
  "double_mod d modulus =
     (let result = double_rest d modulus in if result < 0 then double (result + of_int modulus) else result)"

subsection \<open>Months and years\<close>

definition daysInMonth :: "int list" where
  "daysInMonth = [0, 31, 28, 31, 30, 31, 30, 31, 31, 30, 31, 30, 31, 0, 0, 0]"

definition daysBeforeMonth :: "int list" where
  "daysBeforeMonth = [0, 0, 31, 59, 90, 120, 151, 181, 212, 243, 273, 304, 334, 365, 0, 0]"

definition daysAfterMonth :: "int list" where
  "daysAfterMonth = [365, 334, 306, 275, 245, 214, 184, 153, 122, 92, 61, 31, 0, 0, 0, 0]"

definition isleap :: "int \<Rightarrow> bool" where
  "isleap year =
     (let y = cmod (year + 1) 400; y = (if y < 0 then - y else y) in
      y mod 4 = 0 \<and> y \<noteq> 100 \<and> y \<noteq> 200 \<and> y \<noteq> 300)"

definition CFDaysInMonth :: "nat \<Rightarrow> bool \<Rightarrow> int" where
  "CFDaysInMonth month leap = daysInMonth ! month + (if month = 2 \<and> leap then 1 else 0)"

definition CFDaysBeforeMonth :: "nat \<Rightarrow> bool \<Rightarrow> int" where
  "CFDaysBeforeMonth month leap = daysBeforeMonth ! month + (if 2 < month \<and> leap then 1 else 0)"

definition CFDaysAfterMonth :: "nat \<Rightarrow> bool \<Rightarrow> int" where
  "CFDaysAfterMonth month leap = daysAfterMonth ! month + (if month < 2 \<and> leap then 1 else 0)"

lemma days_after_0: "CFDaysAfterMonth 0 leap = (if leap then 366 else 365)"
  by (simp add: CFDaysAfterMonth_def daysAfterMonth_def)

subsection \<open>Days to years, months and days\<close>

text \<open>The first loop goes down to the year of a negative rest, the second one up.\<close>

function years_down :: "int \<Rightarrow> int \<Rightarrow> int \<times> int" where
  "years_down y absolute =
     (if absolute < 0 then years_down (y - 1) (absolute + CFDaysAfterMonth 0 (isleap (y - 1))) else (y, absolute))"
  by pat_completeness auto
termination by (relation "measure (\<lambda>(y, absolute). nat (- absolute))") (auto simp: days_after_0)

function years_up :: "int \<Rightarrow> int \<Rightarrow> int \<times> int" where
  "years_up y absolute =
     (if CFDaysAfterMonth 0 (isleap y) \<le> absolute then years_up (y + 1) (absolute - CFDaysAfterMonth 0 (isleap y))
      else (y, absolute))"
  by pat_completeness auto
termination by (relation "measure (\<lambda>(y, absolute). nat absolute)") (auto simp: days_after_0 split: if_splits)

text \<open>The search for the month reads the table of sixteen entries.\<close>

function month_search :: "nat \<Rightarrow> bool \<Rightarrow> int \<Rightarrow> nat option" where
  "month_search m leap absolute =
     (if 16 \<le> m + 1 then None
      else if CFDaysBeforeMonth (m + 1) leap \<le> absolute then month_search (m + 1) leap absolute
      else Some m)"
  by pat_completeness auto
termination by (relation "measure (\<lambda>(m, leap, absolute). 16 - m)") auto

declare years_down.simps [simp del] years_up.simps [simp del] month_search.simps [simp del]

definition CFYMDFromAbsolute :: "int \<Rightarrow> (int \<times> nat \<times> int) option" where
  "CFYMDFromAbsolute absolute =
     (let b = cdiv absolute 146097;
          (y1, a1) = years_down (b * 400) (absolute - b * 146097);
          (y, days) = years_up y1 a1 in
      do { m \<leftarrow> month_search (nat (cdiv days 33 + 1)) (isleap y) days;
           Some (y, m, days - CFDaysBeforeMonth m (isleap y) + 1) })"

definition CFAbsoluteFromYMD :: "int \<Rightarrow> nat \<Rightarrow> int \<Rightarrow> int" where
  "CFAbsoluteFromYMD year month day =
     (let b = cdiv year 400;
          year = year - b * 400;
          years = (if year < 0 then - sum_list (map (\<lambda>idx. CFDaysAfterMonth 0 (isleap idx)) [year..-1])
                   else sum_list (map (\<lambda>idx. CFDaysAfterMonth 0 (isleap idx)) [0..year - 1])) in
      b * 146097 + years + (CFDaysBeforeMonth month (isleap year) + day - 1))"

subsection \<open>Dates and times\<close>

record gregorian_date =
  g_year :: int
  g_month :: nat
  g_day :: int
  g_hour :: int
  g_minute :: int
  g_second :: real

record gregorian_units =
  u_years :: int
  u_months :: int
  u_days :: int
  u_hours :: int
  u_minutes :: int
  u_seconds :: real

type_synonym time_zone = "(real \<Rightarrow> real) option"

definition in_flags :: "nat \<Rightarrow> nat \<Rightarrow> bool" where
  "in_flags unitFlags unit_bit = odd (unitFlags div 2 ^ unit_bit)"

definition CFGregorianDateIsValid :: "gregorian_date \<Rightarrow> nat \<Rightarrow> bool" where
  "CFGregorianDateIsValid gdate unitFlags =
     (if in_flags unitFlags 0 \<and> g_year gdate \<le> 0 then False
      else if in_flags unitFlags 1 \<and> (g_month gdate < 1 \<or> 12 < g_month gdate) then False
      else if in_flags unitFlags 2 \<and> (g_day gdate < 1 \<or> 31 < g_day gdate) then False
      else if in_flags unitFlags 3 \<and> (g_hour gdate < 0 \<or> 23 < g_hour gdate) then False
      else if in_flags unitFlags 4 \<and> (g_minute gdate < 0 \<or> 59 < g_minute gdate) then False
      else if in_flags unitFlags 5 \<and> (g_second gdate < 0 \<or> 60 \<le> g_second gdate) then False
      else if in_flags unitFlags 2 \<and> in_flags unitFlags 1 \<and> in_flags unitFlags 0 \<and>
              CFDaysInMonth (g_month gdate) (isleap (g_year gdate - 2001)) < g_day gdate then False
      else True)"

definition CFGregorianDateGetAbsoluteTime :: "gregorian_date \<Rightarrow> time_zone \<Rightarrow> real" where
  "CFGregorianDateGetAbsoluteTime gdate tz =
     (let moment = double (86400 * of_int (CFAbsoluteFromYMD (g_year gdate - 2001) (g_month gdate) (g_day gdate)));
          seconds = double (double (double (3600 * of_int (g_hour gdate)) + double (60 * of_int (g_minute gdate))) + g_second gdate);
          moment = double (moment + seconds) in
      case tz of None \<Rightarrow> moment | Some gmt \<Rightarrow> double (moment - gmt (double (moment - gmt moment))))"

definition fixed_time :: "real \<Rightarrow> time_zone \<Rightarrow> real" where
  "fixed_time moment tz = double (moment + (case tz of None \<Rightarrow> 0 | Some gmt \<Rightarrow> gmt moment))"

definition absolute_day :: "real \<Rightarrow> time_zone \<Rightarrow> int" where
  "absolute_day moment tz = \<lfloor>double (fixed_time moment tz / 86400)\<rfloor>"

definition INT32_MAX :: int where
  "INT32_MAX = 2 ^ 31 - 1"

definition CFAbsoluteTimeGetGregorianDate :: "real \<Rightarrow> time_zone \<Rightarrow> gregorian_date option" where
  "CFAbsoluteTimeGetGregorianDate moment tz =
     (let fixedat = fixed_time moment tz in
      do { (year, month, day) \<leftarrow> CFYMDFromAbsolute (absolute_day moment tz);
           let year = (if INT32_MAX - 2001 < year then INT32_MAX - 2001 else year);
           Some \<lparr>g_year = year + 2001, g_month = month, g_day = day,
                 g_hour = double_mod_to_int (of_int \<lfloor>double (fixedat / 3600)\<rfloor>) 24,
                 g_minute = double_mod_to_int (of_int \<lfloor>double (fixedat / 60)\<rfloor>) 60,
                 g_second = double_mod fixedat 60\<rparr> })"

text \<open>The loops of \<^verbatim>\<open>CFAbsoluteTimeAddGregorianUnits\<close> that bring months and days into their ranges.\<close>

text \<open>The range of an \<^verbatim>\<open>int32_t\<close>; a sum outside of it has no defined value. Taking 12 off a month above 12, or adding 12 to one
  below 1, stays inside.\<close>

definition fits32 :: "int \<Rightarrow> bool" where
  "fits32 n \<longleftrightarrow> - (2 ^ 31) \<le> n \<and> n \<le> INT32_MAX"

function months_down :: "int \<Rightarrow> int \<Rightarrow> (int \<times> int) option" where
  "months_down years months =
     (if 12 < months then (if fits32 (years + 1) then months_down (years + 1) (months - 12) else None) else Some (years, months))"
  by pat_completeness auto
termination by (relation "measure (\<lambda>(years, months). nat months)") auto

function months_up :: "int \<Rightarrow> int \<Rightarrow> (int \<times> int) option" where
  "months_up years months =
     (if months < 1 then (if fits32 (years - 1) then months_up (years - 1) (months + 12) else None) else Some (years, months))"
  by pat_completeness auto
termination by (relation "measure (\<lambda>(years, months). nat (1 - months))") auto

declare months_down.simps [simp del] months_up.simps [simp del]

definition month_days :: "int \<Rightarrow> nat \<Rightarrow> int" where
  "month_days years months = CFDaysInMonth months (isleap (years - 2001))"

text \<open>The number of passes is bounded by a counter, since a month outside of 1 to 12 would have no days. Each pass computes the
  length of a month, which takes 2001 off the year.\<close>

fun days_down :: "nat \<Rightarrow> int \<Rightarrow> nat \<Rightarrow> int \<Rightarrow> (int \<times> nat \<times> int) option" where
  "days_down 0 years months days = None"
| "days_down (Suc n) years months days =
     (if month_days years months < days then
        (let (months', years') = (if 12 < months + 1 then (months + 1 - 12, years + 1) else (months + 1, years)) in
         if fits32 years' \<and> fits32 (years' - 2001) then days_down n years' months' (days - month_days years months) else None)
      else Some (years, months, days))"

fun days_up :: "nat \<Rightarrow> int \<Rightarrow> nat \<Rightarrow> int \<Rightarrow> (int \<times> nat \<times> int) option" where
  "days_up 0 years months days = None"
| "days_up (Suc n) years months days =
     (if days < 1 then
        (let (months', years') = (if months - 1 < 1 then (months - 1 + 12, years - 1) else (months - 1, years)) in
         if fits32 years' \<and> fits32 (years' - 2001) then days_up n years' months' (days + month_days years' months') else None)
      else Some (years, months, days))"

definition add_date :: "gregorian_date \<Rightarrow> gregorian_units \<Rightarrow> (int \<times> nat \<times> int) option" where
  "add_date gdate units =
     (let years = g_year gdate + u_years units; months = int (g_month gdate) + u_months units in
      if \<not> fits32 years \<or> \<not> fits32 months then None
      else do {
        (years, months) \<leftarrow> months_down years months;
        (years, months) \<leftarrow> months_up years months;
        let monthdays = month_days years (nat months);
            days = (if monthdays < g_day gdate then monthdays else g_day gdate) + u_days units;
            n = nat \<bar>days\<bar> + 2 in
        if \<not> fits32 (years - 2001) \<or> \<not> fits32 days then None
        else do {
          (years, months, days) \<leftarrow> days_down n years (nat months) days;
          days_up n years months days } })"

definition CFAbsoluteTimeAddGregorianUnits :: "real \<Rightarrow> time_zone \<Rightarrow> gregorian_units \<Rightarrow> real option" where
  "CFAbsoluteTimeAddGregorianUnits moment tz units =
     do { gdate \<leftarrow> CFAbsoluteTimeGetGregorianDate moment tz;
          (years, months, days) \<leftarrow> add_date gdate units;
          let candidate = CFGregorianDateGetAbsoluteTime (gdate\<lparr>g_year := years, g_month := months, g_day := days\<rparr>) tz;
          Some (double (double (double (candidate + double (3600 * of_int (u_hours units))) + double (60 * of_int (u_minutes units))) +
                        u_seconds units)) }"

definition CFAbsoluteTimeGetDayOfWeek :: "real \<Rightarrow> time_zone \<Rightarrow> int" where
  "CFAbsoluteTimeGetDayOfWeek moment tz =
     (let absolute = absolute_day moment tz in
      if absolute < 0 then cmod (absolute + 1) 7 + 7 else cmod absolute 7 + 1)"

definition CFAbsoluteTimeGetDayOfYear :: "real \<Rightarrow> time_zone \<Rightarrow> int option" where
  "CFAbsoluteTimeGetDayOfYear moment tz =
     do { (year, month, day) \<leftarrow> CFYMDFromAbsolute (absolute_day moment tz);
          Some (CFDaysBeforeMonth month (isleap year) + day) }"

definition week_of_date :: "int \<Rightarrow> nat \<Rightarrow> int \<Rightarrow> int" where
  "week_of_date year month day =
     (let dow0101 = double_mod_to_int (of_int (CFAbsoluteFromYMD year 1 1)) 7 + 1;
          dow20101 = double_mod_to_int (of_int (CFAbsoluteFromYMD (year + 1) 1 1)) 7 + 1 in
      if month = 1 \<and> day < 4 \<and> ((day < 4 \<and> dow0101 = 5) \<or> (day < 3 \<and> dow0101 = 6) \<or> (day < 2 \<and> dow0101 = 7)) then 53
      else if month = 12 \<and> 28 < day \<and>
              ((28 < day \<and> dow20101 = 4) \<or> (29 < day \<and> dow20101 = 3) \<or> (30 < day \<and> dow20101 = 2)) then 1
      else cdiv (CFDaysBeforeMonth month (isleap year) + day + cmod (dow0101 - 11) 7 + 2) 7 + 1)"

definition CFAbsoluteTimeGetWeekOfYear :: "real \<Rightarrow> time_zone \<Rightarrow> int option" where
  "CFAbsoluteTimeGetWeekOfYear moment tz =
     do { (year, month, day) \<leftarrow> CFYMDFromAbsolute (absolute_day moment tz);
          Some (week_of_date year month day) }"

subsection \<open>Date objects\<close>

record date =
  d_time :: real

definition CFDateCreate :: "real \<Rightarrow> date" where
  "CFDateCreate moment = \<lparr>d_time = moment\<rparr>"

definition CFDateGetAbsoluteTime :: "date \<Rightarrow> real" where
  "CFDateGetAbsoluteTime date = d_time date"

definition CFDateGetTimeIntervalSinceDate :: "date \<Rightarrow> date \<Rightarrow> real" where
  "CFDateGetTimeIntervalSinceDate date otherDate = double (d_time date - d_time otherDate)"

definition CFDateCompare :: "date \<Rightarrow> date \<Rightarrow> int" where
  "CFDateCompare date otherDate =
     (if d_time date < d_time otherDate then -1 else if d_time otherDate < d_time date then 1 else 0)"

definition CFDateEqual :: "date \<Rightarrow> date \<Rightarrow> bool" where
  "CFDateEqual date1 date2 = (if d_time date1 \<noteq> d_time date2 then False else True)"

end
