(* ===== verification/CFDateTheorems.thy ===== *)
theory CFDateTheorems
  imports CFDate
begin

text \<open>
  The calendar of \<^verbatim>\<open>CFDate.c\<close> is the Gregorian one: the count of days has a closed form, the two conversions are
  inverse to each other, adding days is addition, and the week of the year is the one of ISO 8601 except in the first days
  of some years.
\<close>

subsection \<open>Integer division\<close>

lemma cmod_nonneg: "0 \<le> a \<Longrightarrow> 0 < b \<Longrightarrow> cmod a b = a mod b"
  by (cases "a = 0") (simp_all add: cmod_def cdiv_def minus_div_mult_eq_mod)

lemma cmod_neg: "a \<le> 0 \<Longrightarrow> 0 < b \<Longrightarrow> cmod a b = - (- a mod b)"
  using minus_div_mult_eq_mod [of "- a" b] by (cases "a = 0") (simp_all add: cmod_def cdiv_def)

lemma cdiv_nonneg: "0 \<le> a \<Longrightarrow> 0 < b \<Longrightarrow> cdiv a b = a div b"
  by (cases "a = 0") (simp_all add: cdiv_def)

lemma Suc_div: "(n + 1) div d = n div d + (if d dvd n + 1 then 1 else 0)" if "0 < d" for n d :: int
proof (cases "d dvd n + 1")
  case True
  then obtain k where k: "n + 1 = d * k" by auto
  have "n div d = k - 1"
  proof (rule int_div_pos_eq [where r = "d - 1"])
    show "n = d * (k - 1) + (d - 1)" using k by (simp add: algebra_simps)
  qed (use that in simp_all)
  moreover have "(n + 1) div d = k" using k that by simp
  ultimately show ?thesis using True by simp
next
  case False
  then have r: "(n + 1) mod d \<noteq> 0" by (simp add: dvd_eq_mod_eq_0)
  have "n div d = (n + 1) div d"
  proof (rule int_div_pos_eq [where r = "(n + 1) mod d - 1"])
    show "n = d * ((n + 1) div d) + ((n + 1) mod d - 1)" using mult_div_mod_eq [of d "n + 1"] by linarith
    show "0 \<le> (n + 1) mod d - 1" using r pos_mod_sign [of d "n + 1"] that by linarith
    show "(n + 1) mod d - 1 < d" using pos_mod_bound [of d "n + 1"] that by linarith
  qed
  then show ?thesis using False by simp
qed

subsection \<open>Leap years and the count of days\<close>

text \<open>The rule of the Gregorian calendar, for a year counted from 2001.\<close>

definition gregorian_leap :: "int \<Rightarrow> bool" where
  "gregorian_leap year \<longleftrightarrow> (let Y = year + 2001 in 4 dvd Y \<and> (\<not> 100 dvd Y \<or> 400 dvd Y))"

lemma leap_residue:
  "(r mod 4 = 0 \<and> r \<noteq> 100 \<and> r \<noteq> 200 \<and> r \<noteq> 300) = (4 dvd Y \<and> (\<not> 100 dvd Y \<or> 400 dvd Y))"
  if r: "0 \<le> r" "r < 400" and Y: "Y = 400 * k + r \<or> Y = 400 * k - r" for r Y k :: int
proof -
  have d: "d dvd Y \<longleftrightarrow> d dvd r" if "d dvd 400" for d
    using Y dvd_add_right_iff [of d "400 * k" r] dvd_diff_right_iff [of d "400 * k" r] that by auto
  have "400 dvd r \<longleftrightarrow> r = 0" using r zdvd_not_zless [of r 400] by auto
  moreover have "100 dvd r \<longleftrightarrow> r = 0 \<or> r = 100 \<or> r = 200 \<or> r = 300"
  proof
    assume "100 dvd r"
    then obtain q where q: "r = 100 * q" by auto
    then have "0 \<le> q" "q < 4" using r by auto
    then have "q = 0 \<or> q = 1 \<or> q = 2 \<or> q = 3" by arith
    then show "r = 0 \<or> r = 100 \<or> r = 200 \<or> r = 300" using q by auto
  qed auto
  moreover have "4 dvd Y \<longleftrightarrow> 4 dvd r" "100 dvd Y \<longleftrightarrow> 100 dvd r" "400 dvd Y \<longleftrightarrow> 400 dvd r"
    by (rule d, simp)+
  moreover have "4 dvd r \<longleftrightarrow> r mod 4 = 0" by (rule dvd_eq_mod_eq_0)
  moreover have "r = 0 \<longrightarrow> r \<noteq> 100 \<and> r \<noteq> 200 \<and> r \<noteq> 300" by simp
  ultimately show ?thesis by blast
qed

lemma isleap_gregorian: "isleap year = gregorian_leap year"
proof -
  define k where "k = cdiv (year + 1) 400"
  define c where "c = cmod (year + 1) 400"
  define r where "r = (if c < 0 then - c else c)"
  have kc: "year + 1 = 400 * k + c" by (simp add: k_def c_def cmod_def)
  have "- 400 < c \<and> c < 400"
  proof (cases "0 \<le> year + 1")
    case True
    then show ?thesis using pos_mod_bound [of 400 "year + 1"] pos_mod_sign [of 400 "year + 1"] by (simp add: c_def cmod_nonneg)
  next
    case False
    then show ?thesis using pos_mod_bound [of 400 "- (year + 1)"] pos_mod_sign [of 400 "- (year + 1)"]
      by (simp add: c_def cmod_neg)
  qed
  then have r: "0 \<le> r" "r < 400" by (auto simp: r_def)
  have "year + 2001 = 400 * (k + 5) + r \<or> year + 2001 = 400 * (k + 5) - r"
    using kc by (auto simp: r_def)
  from leap_residue [OF r this] show ?thesis
    unfolding isleap_def Let_def gregorian_leap_def r_def c_def .
qed

text \<open>The days before a year.\<close>

definition days_before :: "int \<Rightarrow> int" where
  "days_before y = 365 * y + (y + 2000) div 4 - (y + 2000) div 100 + (y + 2000) div 400 - 485"

definition year_days :: "int \<Rightarrow> int" where
  "year_days y = (if isleap y then 366 else 365)"

lemma after_year: "CFDaysAfterMonth 0 (isleap y) = year_days y"
  by (simp add: days_after_0 year_days_def)

lemma year_days_pos: "365 \<le> year_days y" "year_days y \<le> 366" "0 < year_days y"
  by (simp_all add: year_days_def)

lemma days_before_Suc: "days_before (y + 1) = days_before y + year_days y"
proof -
  have m: "100 dvd Y" if "400 dvd Y" for Y :: int using that dvd_trans [of 100 400 Y] by simp
  have n: "4 dvd Y" if "100 dvd Y" for Y :: int using that dvd_trans [of 4 100 Y] by simp
  have s: "(y + 1 + 2000) div d = (y + 2000) div d + (if d dvd y + 2001 then 1 else 0)" if "0 < d" for d
    using Suc_div [OF that, of "y + 2000"] by (simp only: add.assoc) simp
  have "(if A \<and> (\<not> B \<or> C) then 366 else 365) =
      365 + (if A then 1 else 0) - (if B then 1 else 0) + (if C then 1 else 0 :: int)"
    if "C \<Longrightarrow> B" "B \<Longrightarrow> A" for A B C
    using that by (cases A; cases B; cases C) auto
  from this [OF m [of "y + 2001"] n [of "y + 2001"]]
  have l: "year_days y = 365 + (if 4 dvd y + 2001 then 1 else 0) - (if 100 dvd y + 2001 then 1 else 0)
      + (if 400 dvd y + 2001 then 1 else 0)"
    unfolding year_days_def isleap_gregorian gregorian_leap_def Let_def .
  show ?thesis
    unfolding days_before_def l s [OF zero_less_numeral] by simp
qed

lemma days_before_0: "days_before 0 = 0"
  by (simp add: days_before_def)

lemma days_before_period: "days_before (y + 400 * k) = days_before y + 146097 * k"
proof -
  have "(y + 400 * k + 2000) div 4 = (y + 2000) div 4 + 100 * k"
    "(y + 400 * k + 2000) div 100 = (y + 2000) div 100 + 4 * k"
    "(y + 400 * k + 2000) div 400 = (y + 2000) div 400 + k"
    using div_mult_self2 [of 4 "y + 2000" "100 * k"] div_mult_self2 [of 100 "y + 2000" "4 * k"]
      div_mult_self2 [of 400 "y + 2000" k] by (simp_all add: add.commute add.left_commute)
  then show ?thesis by (simp add: days_before_def)
qed

lemma isleap_period: "isleap (y + 400 * k) = isleap y"
proof -
  have "year_days (y + 400 * k) = year_days y"
    using days_before_Suc [of "y + 400 * k"] days_before_Suc [of y] days_before_period [of "y + 1" k]
      days_before_period [of y k] by (simp add: algebra_simps)
  then show ?thesis by (auto simp: year_days_def split: if_splits)
qed

lemma days_before_mono: "days_before x \<le> days_before y" if "x \<le> y"
  using that
proof (induction y rule: int_ge_induct)
  case (step y)
  then show ?case using days_before_Suc [of y] year_days_pos [of y] by linarith
qed simp

lemma days_before_less: "days_before x + year_days x \<le> days_before y" if "x < y"
  using days_before_mono [of "x + 1" y] days_before_Suc [of x] that by simp

lemma same_year:
  assumes "days_before x + a = days_before y + b" "0 \<le> a" "a < year_days x" "0 \<le> b" "b < year_days y"
  shows "x = y" "a = b"
proof -
  show "x = y"
    using assms days_before_less [of x y] days_before_less [of y x] by (cases x y rule: linorder_cases) simp_all
  then show "a = b" using assms by simp
qed

subsection \<open>From days to dates and back\<close>

lemma years_down:
  "years_down y a = (y', a') \<Longrightarrow> days_before y + a = days_before y' + a' \<and> 0 \<le> a'"
proof (induction y a arbitrary: y' a' rule: years_down.induct)
  case (1 y a)
  show ?case
  proof (cases "a < 0")
    case True
    then have "years_down (y - 1) (a + year_days (y - 1)) = (y', a')"
      using "1.prems" by (simp add: years_down.simps [of y a] after_year)
    from "1.IH" [OF True, unfolded after_year, OF this] show ?thesis
      using days_before_Suc [of "y - 1"] by simp
  next
    case False
    then show ?thesis using "1.prems" by (simp add: years_down.simps [of y a])
  qed
qed

lemma years_up:
  "years_up y a = (y', a') \<Longrightarrow> 0 \<le> a \<Longrightarrow> days_before y + a = days_before y' + a' \<and> 0 \<le> a' \<and> a' < year_days y'"
proof (induction y a arbitrary: y' a' rule: years_up.induct)
  case (1 y a)
  show ?case
  proof (cases "year_days y \<le> a")
    case True
    then have "years_up (y + 1) (a - year_days y) = (y', a')"
      using "1.prems" by (simp add: years_up.simps [of y a] after_year)
    from "1.IH" [unfolded after_year, OF True this] show ?thesis
      using days_before_Suc [of y] True by simp
  next
    case False
    then show ?thesis using "1.prems" by (simp add: years_up.simps [of y a] after_year)
  qed
qed

lemma month_cases:
  assumes "1 \<le> m" "m \<le> (12::nat)"
  obtains "m = 1" | "m = 2" | "m = 3" | "m = 4" | "m = 5" | "m = 6" | "m = 7" | "m = 8" | "m = 9" | "m = 10"
    | "m = 11" | "m = 12"
proof -
  have "m < 13 \<longrightarrow> m = 0 \<or> m = 1 \<or> m = 2 \<or> m = 3 \<or> m = 4 \<or> m = 5 \<or> m = 6 \<or> m = 7 \<or> m = 8 \<or> m = 9 \<or> m = 10
    \<or> m = 11 \<or> m = 12"
    by (simp add: less_Suc_eq numeral_eq_Suc)
  then show thesis using assms that by auto
qed

lemma days_before_month_Suc:
  "CFDaysBeforeMonth (m + 1) leap = CFDaysBeforeMonth m leap + CFDaysInMonth m leap" if "1 \<le> m" "m \<le> 12"
  using that by (cases m rule: month_cases) (simp_all add: CFDaysBeforeMonth_def CFDaysInMonth_def daysBeforeMonth_def daysInMonth_def)

lemma days_in_month: "28 \<le> CFDaysInMonth m leap \<and> CFDaysInMonth m leap \<le> 31" if "1 \<le> m" "m \<le> 12"
  using that by (cases m rule: month_cases) (simp_all add: CFDaysInMonth_def daysInMonth_def)

lemma first_month: "CFDaysBeforeMonth 1 leap = 0"
  by (simp add: CFDaysBeforeMonth_def daysBeforeMonth_def)

lemma last_month: "CFDaysBeforeMonth 13 (isleap y) = year_days y"
  by (simp add: CFDaysBeforeMonth_def daysBeforeMonth_def year_days_def)

lemma month_estimate: "CFDaysBeforeMonth m leap \<le> 33 * (int m - 1)" if "1 \<le> m" "m \<le> 12"
  using that by (cases m rule: month_cases) (simp_all add: CFDaysBeforeMonth_def daysBeforeMonth_def)

lemma days_before_month_mono: "CFDaysBeforeMonth m leap \<le> CFDaysBeforeMonth n leap" if "1 \<le> m" "m \<le> n" "n \<le> 13"
  using that(2,3)
proof (induction n rule: dec_induct)
  case (step n)
  then show ?case using days_before_month_Suc [of n leap] days_in_month [of n leap] that(1) by simp
qed simp

lemma month_search:
  "\<exists>m'. month_search m leap a = Some m' \<and> 1 \<le> m' \<and> m' \<le> 12 \<and> CFDaysBeforeMonth m' leap \<le> a \<and> a < CFDaysBeforeMonth (m' + 1) leap"
  if "1 \<le> m" "m \<le> 12" "CFDaysBeforeMonth m leap \<le> a" "a < CFDaysBeforeMonth 13 leap"
  using that
proof (induction m leap a rule: month_search.induct)
  case (1 m leap a)
  show ?case
  proof (cases "CFDaysBeforeMonth (m + 1) leap \<le> a")
    case True
    then have "m \<noteq> 12" using "1.prems" by auto
    then have "m + 1 \<le> 12" using "1.prems" by simp
    then show ?thesis
      using "1.IH" True "1.prems" by (simp add: month_search.simps [of m])
  next
    case False
    then show ?thesis using "1.prems" by (simp add: month_search.simps [of m])
  qed
qed

text \<open>A date of the calendar.\<close>

definition calendar_day :: "int \<Rightarrow> nat \<Rightarrow> int \<Rightarrow> bool" where
  "calendar_day y m d \<longleftrightarrow> 1 \<le> m \<and> m \<le> 12 \<and> 1 \<le> d \<and> d \<le> CFDaysInMonth m (isleap y)"

definition day_number :: "int \<Rightarrow> nat \<Rightarrow> int \<Rightarrow> int" where
  "day_number y m d = days_before y + CFDaysBeforeMonth m (isleap y) + d - 1"

lemma sum_years: "sum_list (map (\<lambda>idx. CFDaysAfterMonth 0 (isleap idx)) [i..j]) = days_before (j + 1) - days_before i" if "i \<le> j + 1"
  using that
proof (induction "nat (j + 1 - i)" arbitrary: i)
  case (Suc n)
  then have ij: "i \<le> j" by simp
  then show ?case using Suc.hyps(1) [of "i + 1"] Suc.hyps(2) days_before_Suc [of i] by (simp add: upto_rec1 after_year)
qed simp

lemma absolute_day_number: "CFAbsoluteFromYMD y m d = day_number y m d"
proof -
  define b where "b = cdiv y 400"
  have y: "y = (y - b * 400) + 400 * b" by simp
  have "isleap (y - b * 400) = isleap y" "days_before y = days_before (y - b * 400) + 146097 * b"
    using isleap_period [of "y - b * 400" b] days_before_period [of "y - b * 400" b] y by simp_all
  then show ?thesis
    using sum_years [of "y - b * 400" "- 1"] sum_years [of 0 "y - b * 400 - 1"]
    by (simp add: CFAbsoluteFromYMD_def Let_def b_def [symmetric] day_number_def days_before_0)
qed

lemma ymd_day_number:
  obtains y m d where "CFYMDFromAbsolute a = Some (y, m, d)" "calendar_day y m d" "day_number y m d = a"
proof -
  define b where "b = cdiv a 146097"
  obtain y1 a1 where 1: "years_down (b * 400) (a - b * 146097) = (y1, a1)" by fastforce
  obtain y days where 2: "years_up y1 a1 = (y, days)" by fastforce
  have days: "days_before y + days = a" "0 \<le> days" "days < year_days y"
    using years_down [OF 1] years_up [OF 2] days_before_period [of 0 b] by (simp_all add: days_before_0 mult.commute)
  define m0 where "m0 = nat (cdiv days 33 + 1)"
  have i: "int m0 = days div 33 + 1" using days by (simp add: m0_def cdiv_nonneg)
  have "days \<le> 365" using days year_days_pos [of y] by simp
  then have m0: "1 \<le> m0" "m0 \<le> 12" using i days(2) by linarith+
  have "CFDaysBeforeMonth m0 (isleap y) \<le> days" using month_estimate [OF m0, of "isleap y"] i
    mult_div_mod_eq [of 33 days] pos_mod_sign [of 33 days] by simp
  from month_search [OF m0 this] obtain m where
    m: "month_search m0 (isleap y) days = Some m" "1 \<le> m" "m \<le> 12" "CFDaysBeforeMonth m (isleap y) \<le> days"
      "days < CFDaysBeforeMonth (m + 1) (isleap y)"
    using days(3) by (auto simp: last_month)
  show thesis
  proof (rule that)
    show "CFYMDFromAbsolute a = Some (y, m, days - CFDaysBeforeMonth m (isleap y) + 1)"
      using 1 2 m(1) by (simp add: CFYMDFromAbsolute_def Let_def b_def m0_def)
    show "calendar_day y m (days - CFDaysBeforeMonth m (isleap y) + 1)"
      using m days_before_month_Suc [OF m(2,3), of "isleap y"] by (simp add: calendar_day_def)
    show "day_number y m (days - CFDaysBeforeMonth m (isleap y) + 1) = a"
      using days(1) by (simp add: day_number_def)
  qed
qed

lemma day_of_year:
  assumes "calendar_day y m d"
  shows "0 \<le> CFDaysBeforeMonth m (isleap y) + d - 1" "CFDaysBeforeMonth m (isleap y) + d - 1 < year_days y"
proof -
  have m: "1 \<le> m" "m \<le> 12" and d: "1 \<le> d" "d \<le> CFDaysInMonth m (isleap y)" using assms by (auto simp: calendar_day_def)
  show "0 \<le> CFDaysBeforeMonth m (isleap y) + d - 1"
    using days_before_month_mono [of 1 m "isleap y"] first_month m d by simp
  show "CFDaysBeforeMonth m (isleap y) + d - 1 < year_days y"
    using days_before_month_mono [of "m + 1" 13 "isleap y"] days_before_month_Suc [OF m, of "isleap y"] last_month [of y] m d
    by simp
qed

lemma day_number_unique:
  assumes "calendar_day y m d" "calendar_day y' m' d'" "day_number y m d = day_number y' m' d'"
  shows "y = y' \<and> m = m' \<and> d = d'"
proof -
  have "y = y'" and e: "CFDaysBeforeMonth m (isleap y) + d - 1 = CFDaysBeforeMonth m' (isleap y') + d' - 1"
    using same_year [of y "CFDaysBeforeMonth m (isleap y) + d - 1" y' "CFDaysBeforeMonth m' (isleap y') + d' - 1"]
      day_of_year [OF assms(1)] day_of_year [OF assms(2)] assms(3) by (simp_all add: day_number_def)
  have "\<not> m < m'" if "calendar_day y m d" "calendar_day y m' d'"
    "CFDaysBeforeMonth m (isleap y) + d = CFDaysBeforeMonth m' (isleap y) + d'" for m d m' d'
    using that days_before_month_Suc [of m "isleap y"] days_before_month_mono [of "m + 1" m' "isleap y"]
    by (auto simp: calendar_day_def)
  from this [of m d m' d'] this [of m' d' m d] have "m = m'" using assms(1,2) e \<open>y = y'\<close> by simp
  then show ?thesis using e \<open>y = y'\<close> by simp
qed

lemma ymd_inverse: "calendar_day y m d \<Longrightarrow> CFYMDFromAbsolute (day_number y m d) = Some (y, m, d)"
  by (rule ymd_day_number [of "day_number y m d"]) (use day_number_unique in auto)

text \<open>C29: \<^verbatim>\<open>__CFYMDFromAbsolute\<close> always finds a day of the calendar (its search never reads past the table of months),
  and \<^verbatim>\<open>__CFAbsoluteFromYMD\<close> gives the number of days back.\<close>
theorem every_day_has_a_date:
  "\<exists>y m d. CFYMDFromAbsolute absolute = Some (y, m, d) \<and> 1 \<le> m \<and> m \<le> 12 \<and>
     1 \<le> d \<and> d \<le> CFDaysInMonth m (isleap y) \<and> CFAbsoluteFromYMD y m d = absolute"
  by (rule ymd_day_number [of absolute]) (auto simp: absolute_day_number calendar_day_def)

text \<open>C28: The number of days of a date is the closed form of the Gregorian calendar: the days of the years before it, with a
  leap day every fourth year but the hundredth ones that are not the four hundredth ones, the days of the months before it
  and the days of the month.\<close>
theorem calendar_closed_form:
  "CFAbsoluteFromYMD y m d =
     365 * y + ((y + 2000) div 4 - (y + 2000) div 100 + (y + 2000) div 400 - 485) +
     sum_list (map (\<lambda>k. CFDaysInMonth k (4 dvd y + 2001 \<and> (\<not> 100 dvd y + 2001 \<or> 400 dvd y + 2001))) [1..<m]) + d - 1"
  if "1 \<le> m" "m \<le> 12"
proof -
  have s: "sum_list (map (\<lambda>k. CFDaysInMonth k leap) [1..<m]) = CFDaysBeforeMonth m leap" for leap
    using that by (induction m rule: dec_induct) (simp_all add: first_month [simplified] days_before_month_Suc [simplified])
  show ?thesis
    unfolding s by (simp add: absolute_day_number day_number_def days_before_def isleap_gregorian gregorian_leap_def Let_def)
qed

theorem calendar_closed_form_witness:
  "CFAbsoluteFromYMD (- 1) 12 31 = -1 \<and> CFAbsoluteFromYMD 23 3 1 = 8460"
  using calendar_closed_form [of 12 "- 1" 31] calendar_closed_form [of 3 23 1]
  by (simp add: upt_rec CFDaysInMonth_def daysInMonth_def)

end
