(* ===== verification/CFDateTimes.thy ===== *)
theory CFDateTimes
  imports CFDateTheorems
begin

text \<open>
  Times and dates: the conversions between them, the sum of a time and calendar units, the day and the week of a time.
\<close>

subsection \<open>Times of the day\<close>

text \<open>The remainders are exact for numbers on a grid, when the dividend needs 52 bits at most.\<close>

lemma grid_ops:
  assumes "x * 2 ^ j \<in> \<int>" and "y * 2 ^ j \<in> \<int>"
  shows "(x + y) * 2 ^ j \<in> \<int>" "(x - y) * 2 ^ j \<in> \<int>"
  using assms by (simp_all add: distrib_right left_diff_distrib)

lemma grid_int: "of_int n * 2 ^ j \<in> (\<int> :: real set)"
  by simp

lemma double_sum:
  assumes "x * 2 ^ j \<in> \<int>" "y * 2 ^ j \<in> \<int>" and "\<bar>x + y\<bar> * 2 ^ j \<le> 2 ^ 53"
  shows "double (x + y) = x + y"
  by (rule double_grid [of j]) (use assms grid_ops in \<open>unfold on_grid_def, blast\<close>)

lemma double_rest:
  assumes x: "x * 2 ^ j \<in> \<int>" "\<bar>x\<bar> * 2 ^ j \<le> 2 ^ 52" and k: "0 < k" "of_int k * 2 ^ j \<le> (2 ^ 52 :: real)"
  shows "double_rest x k = x - of_int (\<lfloor>x / of_int k\<rfloor> * k)"
proof -
  define q where "q = \<lfloor>x / of_int k\<rfloor>"
  have "\<lfloor>double (x / of_int k)\<rfloor> = q" unfolding q_def by (rule floor_double_quotient [OF x(1)]) (use x(2) k(1) in simp_all)
  have q: "of_int q * real_of_int k \<le> x" "x < of_int q * real_of_int k + of_int k"
    using k(1) floor_divide_lower [of "of_int k" x] floor_divide_upper [of "of_int k" x] by (simp_all add: q_def distrib_right)
  then have "\<bar>of_int (q * k)\<bar> \<le> \<bar>x\<bar> + real_of_int k" by simp
  then have "\<bar>of_int (q * k)\<bar> * 2 ^ j \<le> (\<bar>x\<bar> + real_of_int k) * 2 ^ j" by (intro mult_right_mono) simp_all
  also have "\<dots> \<le> 2 ^ 53" using x(2) k(2) by (simp add: distrib_right)
  finally have b: "on_grid j (of_int (q * k))" by (simp add: on_grid_def)
  have r: "0 \<le> x - of_int (q * k)" "x - of_int (q * k) < of_int k" using q by simp_all
  then have "\<bar>x - of_int (q * k)\<bar> * 2 ^ j \<le> of_int k * 2 ^ j" by (intro mult_right_mono) simp_all
  from order_trans [OF this k(2)] have "\<bar>x - of_int (q * k)\<bar> * 2 ^ j \<le> 2 ^ 53" by (rule order_trans) simp
  then have "on_grid j (x - of_int (q * k))" using grid_ops(2) [OF x(1) grid_int] unfolding on_grid_def by blast
  then show ?thesis
    using double_grid [OF b] double_grid \<open>\<lfloor>double (x / of_int k)\<rfloor> = q\<close> by (simp add: double_rest_def q_def [symmetric])
qed

lemma double_mod_to_int: "double_mod_to_int (of_int n) k = n mod k" if "\<bar>n\<bar> \<le> 2 ^ 52" "0 < k" "k \<le> 2 ^ 24"
proof -
  have n: "\<bar>real_of_int n\<bar> \<le> 2 ^ 52" using of_int_le_iff [THEN iffD2, OF that(1)] by simp
  have k: "real_of_int k \<le> 2 ^ 52" using of_int_le_iff [THEN iffD2, OF that(3)] by (rule order_trans) simp
  have "double_rest (of_int n) k = of_int (n mod k)"
    using double_rest [of "of_int n" 0 k] n k that(2)
    by (simp add: floor_divide_of_int_eq minus_div_mult_eq_mod [symmetric])
  moreover have "\<bar>n mod k\<bar> \<le> 2 ^ 24" using that(2,3) pos_mod_bound [OF that(2), of n] pos_mod_sign [OF that(2), of n] by linarith
  ultimately show ?thesis using that(2) by (simp add: double_mod_to_int_def Let_def single_int not_less)
qed

lemma floor_quotient: "\<lfloor>(of_int k * of_int q + r) / of_int k\<rfloor> = q" if "0 < k" "0 \<le> r" "r < of_int k" for r :: real
proof -
  have "real_of_int k > 0" using that by simp
  then have "(of_int k * of_int q + r) / of_int k = of_int q + r / of_int k" by (simp add: field_simps)
  moreover have "0 \<le> r / of_int k" "r / of_int k < 1" using that by simp_all
  ultimately show ?thesis by (simp add: floor_eq_iff)
qed

text \<open>A time that is a whole number of the \<open>2 ^ j\<close>-th part of a second; days have to need no more than 52 bits.\<close>

definition exact_time :: "nat \<Rightarrow> real \<Rightarrow> bool" where
  "exact_time j t \<longleftrightarrow> j \<le> 35 \<and> t * 2 ^ j \<in> \<int> \<and> \<bar>t\<bar> * 2 ^ j \<le> 2 ^ 52"

lemma day_bits: "j \<le> 35 \<Longrightarrow> 0 \<le> c \<Longrightarrow> c \<le> 86400 \<Longrightarrow> c * 2 ^ j \<le> (2 ^ 52 :: real)"
proof -
  assume j: "j \<le> 35" and c: "0 \<le> c" "c \<le> 86400"
  have "(2::real) ^ j \<le> 2 ^ 35" using j by (intro power_increasing) simp_all
  then have "c * 2 ^ j \<le> 86400 * 2 ^ 35" using c by (intro mult_mono) simp_all
  then show ?thesis by simp
qed

text \<open>Cutting off the quotients of such a time, and its rest.\<close>

lemma exact_time_parts:
  assumes t: "exact_time j t" and split: "t = of_int k * of_int q + r" "0 < k" "k \<le> 86400" "0 \<le> r" "r < of_int k"
  shows "\<lfloor>double (t / of_int k)\<rfloor> = q" and "double_mod t k = r"
proof -
  note T = t [unfolded exact_time_def]
  have k: "of_int k * 2 ^ j \<le> (2 ^ 52 :: real)" by (rule day_bits) (use T split(2,3) in simp_all)
  have q: "\<lfloor>t / of_int k\<rfloor> = q" unfolding split(1) by (rule floor_quotient [OF split(2,4,5)])
  then show "\<lfloor>double (t / of_int k)\<rfloor> = q" using floor_double_quotient [of t j k] T split(2) by simp
  have "double_rest t k = r" using double_rest [OF _ _ split(2) k, of t] T q by (simp add: split(1) mult.commute)
  then show "double_mod t k = r" using split(4) by (simp add: double_mod_def Let_def)
qed

definition local_time :: "gregorian_date \<Rightarrow> real" where
  "local_time g =
     86400 * of_int (day_number (g_year g - 2001) (g_month g) (g_day g)) +
     (3600 * of_int (g_hour g) + 60 * of_int (g_minute g) + g_second g)"

definition date_ok :: "gregorian_date \<Rightarrow> bool" where
  "date_ok g \<longleftrightarrow>
     calendar_day (g_year g - 2001) (g_month g) (g_day g) \<and> 0 \<le> g_hour g \<and> g_hour g \<le> 23 \<and> 0 \<le> g_minute g \<and> g_minute g \<le> 59 \<and>
     0 \<le> g_second g \<and> g_second g < 60"

lemma valid_date_ok: "CFGregorianDateIsValid g 63 \<Longrightarrow> date_ok g \<and> 0 < g_year g"
  by (auto simp: CFGregorianDateIsValid_def in_flags_def date_ok_def calendar_day_def split: if_splits)

text \<open>The time of a day in hours, minutes and seconds.\<close>

lemma local_time_fields:
  assumes "date_ok g" and t: "exact_time k (local_time g)" and g: "a = day_number (g_year g - 2001) (g_month g) (g_day g)"
  shows "\<lfloor>double (local_time g / 86400)\<rfloor> = a" "double_mod_to_int (of_int \<lfloor>double (local_time g / 3600)\<rfloor>) 24 = g_hour g"
    "double_mod_to_int (of_int \<lfloor>double (local_time g / 60)\<rfloor>) 60 = g_minute g" "double_mod (local_time g) 60 = g_second g"
proof -
  define h m s where "h = g_hour g" "m = g_minute g" "s = g_second g"
  have b: "0 \<le> h" "h \<le> 23" "0 \<le> m" "m \<le> 59" "0 \<le> s" "s < 60" using assms(1) by (simp_all add: date_ok_def h_m_s_def)
  then have r: "real_of_int h \<le> 23" "real_of_int m \<le> 59" "0 \<le> real_of_int h" "0 \<le> real_of_int m" by simp_all
  define t where "t = local_time g"
  have t: "t = 86400 * of_int a + (3600 * of_int h + 60 * of_int m + s)"
    by (simp add: t_def local_time_def g h_m_s_def)
  note split = exact_time_parts [OF assms(2), folded t_def]
  show "\<lfloor>double (t / 86400)\<rfloor> = a" using split(1) [of 86400 a "3600 * of_int h + 60 * of_int m + s"] t b r by simp
  have small: "\<bar>t\<bar> \<le> 2 ^ 52"
  proof -
    have "\<bar>t\<bar> * 1 \<le> \<bar>t\<bar> * 2 ^ k" by (intro mult_left_mono) simp_all
    then show ?thesis using assms(2) by (simp add: exact_time_def t_def)
  qed
  have 24: "\<lfloor>double (t / 3600)\<rfloor> = 24 * a + h" using split(1) [of 3600 "24 * a + h" "60 * of_int m + s"] t b r by simp
  have 60: "\<lfloor>double (t / 60)\<rfloor> = 60 * (24 * a + h) + m" "double_mod t 60 = s"
    using split [of 60 "60 * (24 * a + h) + m" s] t b r by simp_all
  show "double_mod t 60 = g_second g" using 60(2) by (simp add: h_m_s_def)
  have n: "\<bar>60 * (24 * a + h) + m\<bar> \<le> 2 ^ 52" "\<bar>24 * a + h\<bar> \<le> 2 ^ 52"
    by (rule int_bound; use small t b r in \<open>simp add: abs_le_iff\<close>)+
  show "double_mod_to_int (of_int \<lfloor>double (t / 3600)\<rfloor>) 24 = g_hour g"
    unfolding 24 using double_mod_to_int [OF n(2), of 24] b by (simp add: h_m_s_def)
  show "double_mod_to_int (of_int \<lfloor>double (t / 60)\<rfloor>) 60 = g_minute g"
    unfolding 60(1) using double_mod_to_int [OF n(1), of 60] b mod_mult_self2 [of m 60 "24 * a + h"]
    by (simp add: h_m_s_def add.commute)
qed

lemma date_of_local_time:
  assumes "date_ok g" "g_year g \<le> INT32_MAX" "fixed_time moment tz = local_time g" "exact_time k (local_time g)"
  shows "CFAbsoluteTimeGetGregorianDate moment tz = Some g"
proof -
  have "calendar_day (g_year g - 2001) (g_month g) (g_day g)" using assms(1) by (simp add: date_ok_def)
  then show ?thesis
    using local_time_fields [OF assms(1,4) refl] ymd_inverse assms(2)
    by (simp add: CFAbsoluteTimeGetGregorianDate_def absolute_day_def assms(3))
qed

text \<open>A date whose seconds are on the grid.\<close>

definition exact_date :: "nat \<Rightarrow> gregorian_date \<Rightarrow> bool" where
  "exact_date j g \<longleftrightarrow> j \<le> 35 \<and> g_second g * 2 ^ j \<in> \<int> \<and>
     86400 * (\<bar>CFAbsoluteFromYMD (g_year g - 2001) (g_month g) (g_day g)\<bar> + 2) * 2 ^ j \<le> 2 ^ 52"

lemma exact_date_time:
  assumes "date_ok g" and g: "exact_date j g" and z: "\<bar>z\<bar> \<le> 86400"
  shows "exact_time j (local_time g + of_int z)"
proof -
  define a where "a = day_number (g_year g - 2001) (g_month g) (g_day g)"
  define n where "n = 86400 * a + 3600 * g_hour g + 60 * g_minute g"
  have t: "local_time g = of_int n + g_second g" by (simp add: local_time_def n_def a_def)
  have j: "j \<le> 35" "g_second g * 2 ^ j \<in> \<int>" "86400 * (\<bar>a\<bar> + 2) * 2 ^ j \<le> 2 ^ 52"
    using g by (simp_all add: exact_date_def a_def absolute_day_number)
  have "\<bar>local_time g + of_int z\<bar> \<le> of_int (86400 * (\<bar>a\<bar> + 2))"
    using assms(1) z by (auto simp: date_ok_def local_time_def a_def [symmetric] abs_le_iff)
  then have "\<bar>local_time g + of_int z\<bar> * 2 ^ j \<le> of_int (86400 * (\<bar>a\<bar> + 2)) * 2 ^ j" by (intro mult_right_mono) simp_all
  also have "\<dots> = of_int (86400 * (\<bar>a\<bar> + 2) * 2 ^ j)" by simp
  also have "\<dots> \<le> of_int (2 ^ 52)" unfolding of_int_le_iff by (rule j(3))
  finally have "\<bar>local_time g + of_int z\<bar> * 2 ^ j \<le> 2 ^ 52" by simp
  moreover have "(local_time g + of_int z) * 2 ^ j \<in> \<int>"
    unfolding t by (intro grid_ops(1) grid_int j(2))
  ultimately show ?thesis using j(1) by (simp add: exact_time_def)
qed

lemma exact_double: "exact_time j t \<Longrightarrow> double t = t"
  by (rule double_grid [of j]) (auto simp: exact_time_def on_grid_def)

lemma absolute_time_none:
  assumes ok: "date_ok g" and g: "exact_date j g"
  shows "CFGregorianDateGetAbsoluteTime g None = local_time g"
proof -
  define a where "a = day_number (g_year g - 2001) (g_month g) (g_day g)"
  have b: "0 \<le> g_hour g" "g_hour g \<le> 23" "0 \<le> g_minute g" "g_minute g \<le> 59" "0 \<le> g_second g" "g_second g < 60"
    using ok by (simp_all add: date_ok_def)
  have j: "j \<le> 35" "g_second g * 2 ^ j \<in> \<int>" "86400 * (\<bar>a\<bar> + 2) * 2 ^ j \<le> 2 ^ 52"
    using g by (simp_all add: exact_date_def a_def absolute_day_number)
  have "86400 * (\<bar>a\<bar> + 2) * 1 \<le> 86400 * (\<bar>a\<bar> + 2) * 2 ^ j" by (rule mult_left_mono) simp_all
  then have "\<bar>86400 * a\<bar> \<le> 2 ^ 53" using j(3) by (simp add: abs_mult)
  then have day: "double (86400 * of_int a) = 86400 * of_int a" using double_int [of "86400 * a"] by simp
  have hour: "double (3600 * of_int (g_hour g)) = 3600 * of_int (g_hour g)" using double_int [of "3600 * g_hour g"] b by simp
  have minute: "double (60 * of_int (g_minute g)) = 60 * of_int (g_minute g)" using double_int [of "60 * g_minute g"] b by simp
  let ?hm = "3600 * g_hour g + 60 * g_minute g"
  have hm: "double (of_int ?hm) = of_int ?hm" by (rule double_int) (use b in simp)
  have "0 \<le> real_of_int ?hm" "real_of_int ?hm \<le> of_int 86340" unfolding of_int_0_le_iff of_int_le_iff using b by simp_all
  then have "\<bar>of_int ?hm + g_second g\<bar> \<le> 86400" using b(5,6) by simp
  then have "\<bar>of_int ?hm + g_second g\<bar> * 2 ^ j \<le> 2 ^ 52" by (intro day_bits j(1)) simp_all
  then have "double (of_int ?hm + g_second g) = of_int ?hm + g_second g"
    by (intro double_sum [OF grid_int j(2)]) (rule order_trans, assumption, simp)
  moreover have "double (local_time g) = local_time g" using exact_double exact_date_time [OF ok g, of 0] by simp
  ultimately show ?thesis using hm
    by (simp add: CFGregorianDateGetAbsoluteTime_def Let_def absolute_day_number a_def [symmetric] day hour minute local_time_def)
qed

text \<open>C30: The conversions round like \<^verbatim>\<open>double\<close>, and still a valid date survives the one to an absolute time and back,
  without a time zone and in one of a constant offset of whole seconds, as long as its seconds are a whole number of
  \<open>2 ^ j\<close>-th parts and the seconds of its day, counted from 2001, need no more than 52 bits with the \<open>j\<close> bits of the
  fraction: whole seconds for 142 million years about 2001, microseconds for 136.\<close>
theorem gregorian_date_roundtrip:
  assumes "CFGregorianDateIsValid gdate 63" "g_year gdate \<le> INT32_MAX" "exact_date j gdate"
    "tz = None \<or> (\<exists>z. tz = Some (\<lambda>moment. of_int z) \<and> \<bar>z\<bar> \<le> 86400)"
  shows "CFAbsoluteTimeGetGregorianDate (CFGregorianDateGetAbsoluteTime gdate tz) tz = Some gdate"
proof (rule date_of_local_time)
  show ok: "date_ok gdate" using valid_date_ok [OF assms(1)] by simp
  have exact: "double (local_time gdate + of_int z) = local_time gdate + of_int z" if "\<bar>z\<bar> \<le> 86400" for z
    by (rule exact_double [OF exact_date_time [OF ok assms(3) that]])
  show "exact_time j (local_time gdate)" using exact_date_time [OF ok assms(3), of 0] by simp
  have none: "CFGregorianDateGetAbsoluteTime gdate None = local_time gdate" by (rule absolute_time_none [OF ok assms(3)])
  show "fixed_time (CFGregorianDateGetAbsoluteTime gdate tz) tz = local_time gdate"
  proof (cases tz)
    case None
    then show ?thesis using none exact [of 0] by (simp add: fixed_time_def)
  next
    case (Some gmt)
    then obtain z where z: "gmt = (\<lambda>moment. of_int z)" "\<bar>z\<bar> \<le> 86400" using assms(4) by auto
    have "CFGregorianDateGetAbsoluteTime gdate tz = double (CFGregorianDateGetAbsoluteTime gdate None - of_int z)"
      by (simp add: CFGregorianDateGetAbsoluteTime_def Let_def Some z(1))
    then show ?thesis using none exact [of "- z"] exact [of 0] z(2) by (simp add: fixed_time_def Some z(1))
  qed
qed (rule assms(2))

theorem gregorian_date_roundtrip_witness:
  "CFAbsoluteTimeGetGregorianDate
     (CFGregorianDateGetAbsoluteTime \<lparr>g_year = 2024, g_month = 2, g_day = 29, g_hour = 23, g_minute = 59, g_second = 1 / 2\<rparr>
       (Some (\<lambda>moment. of_int 3600))) (Some (\<lambda>moment. of_int 3600)) =
   Some \<lparr>g_year = 2024, g_month = 2, g_day = 29, g_hour = 23, g_minute = 59, g_second = 1 / 2\<rparr>"
proof (rule gregorian_date_roundtrip)
  show "exact_date 1 \<lparr>g_year = 2024, g_month = 2, g_day = 29, g_hour = 23, g_minute = 59, g_second = 1 / 2\<rparr>"
    by (simp add: exact_date_def absolute_day_number day_number_def days_before_def CFDaysBeforeMonth_def daysBeforeMonth_def)
  show "Some (\<lambda>moment. real_of_int 3600) = None \<or> (\<exists>z. Some (\<lambda>moment. real_of_int 3600) = Some (\<lambda>moment. of_int z) \<and> \<bar>z\<bar> \<le> 86400)"
    by (intro disjI2 exI [of _ 3600]) simp
qed (simp_all add: CFGregorianDateIsValid_def in_flags_def CFDaysInMonth_def daysInMonth_def isleap_gregorian
      gregorian_leap_def INT32_MAX_def)

subsection \<open>Adding units\<close>

text \<open>The loops stay inside 32 bits when the year they come to does.\<close>

lemma div_shift: "(n + k) div k = n div k + 1" "(n - k) div k = n div k - 1" if "0 < (k :: int)"
proof -
  show "(n + k) div k = n div k + 1" for n using that by simp
  from this [of "n - k"] show "(n - k) div k = n div k - 1" by simp
qed

lemma div_sign: "0 < (k :: int) \<Longrightarrow> k \<le> n \<Longrightarrow> 1 \<le> n div k" "0 < k \<Longrightarrow> n < 0 \<Longrightarrow> n div k \<le> - 1"
  using pos_imp_zdiv_pos_iff [of k n] pos_imp_zdiv_neg_iff [of k n] by simp_all

lemma months_down:
  "- (2 ^ 31) \<le> y \<Longrightarrow> y \<le> INT32_MAX \<Longrightarrow> y + (m - 1) div 12 \<le> INT32_MAX \<Longrightarrow>
   \<exists>y' m'. months_down y m = Some (y', m') \<and> 12 * y + m = 12 * y' + m' \<and> m' \<le> 12 \<and> (m' < 1 \<longrightarrow> y' = y) \<and> y' \<le> INT32_MAX"
proof (induction y m rule: months_down.induct)
  case (1 y m)
  show ?case
  proof (cases "12 < m")
    case True
    define D D' where "D = (m - 1) div 12" "D' = (m - 12 - 1) div 12"
    have "D' = D - 1" "1 \<le> D"
      using div_shift(2) [of 12 "m - 1"] div_sign(1) [of 12 "m - 1"] True by (simp_all add: D_D'_def)
    then have y: "- (2 ^ 31) \<le> y + 1" "y + 1 \<le> INT32_MAX" "y + 1 + (m - 12 - 1) div 12 \<le> INT32_MAX"
      using "1.prems" unfolding D_D'_def [symmetric] by simp_all
    then have fit: "fits32 (y + 1)" by (simp add: fits32_def)
    from "1.IH" [OF True fit y] obtain y' m' where r: "months_down (y + 1) (m - 12) = Some (y', m')"
      "12 * (y + 1) + (m - 12) = 12 * y' + m'" "m' \<le> 12" "m' < 1 \<longrightarrow> y' = y + 1" "y' \<le> INT32_MAX" by blast
    moreover have "months_down y m = months_down (y + 1) (m - 12)" using True fit by (subst months_down.simps) simp
    moreover have "1 \<le> m'" using r(2,4) True by (cases "m' < 1") simp_all
    ultimately show ?thesis by simp
  next
    case False
    then show ?thesis using "1.prems" by (subst months_down.simps) simp
  qed
qed

lemma months_up:
  "y \<le> INT32_MAX \<Longrightarrow> - (2 ^ 31) \<le> y + (m - 1) div 12 \<Longrightarrow> m \<le> 12 \<Longrightarrow>
   \<exists>y' m'. months_up y m = Some (y', m') \<and> 12 * y + m = 12 * y' + m' \<and> 1 \<le> m' \<and> m' \<le> 12"
proof (induction y m rule: months_up.induct)
  case (1 y m)
  show ?case
  proof (cases "m < 1")
    case True
    define D D' where "D = (m - 1) div 12" "D' = (m + 12 - 1) div 12"
    have "D' = D + 1" "D \<le> - 1"
      using div_shift(1) [of 12 "m - 1"] div_sign(2) [of 12 "m - 1"] True by (simp_all add: D_D'_def)
    then have y: "y - 1 \<le> INT32_MAX" "- (2 ^ 31) \<le> y - 1 + (m + 12 - 1) div 12" "- (2 ^ 31) \<le> y - 1"
      using "1.prems" unfolding D_D'_def [symmetric] by simp_all
    then have fit: "fits32 (y - 1)" by (simp add: fits32_def)
    have "m + 12 \<le> 12" using True by simp
    from "1.IH" [OF True fit y(1,2) this] obtain y' m' where "months_up (y - 1) (m + 12) = Some (y', m')"
      "12 * (y - 1) + (m + 12) = 12 * y' + m'" "1 \<le> m'" "m' \<le> 12" by blast
    moreover have "months_up y m = months_up (y - 1) (m + 12)" using True fit by (subst months_up.simps) simp
    ultimately show ?thesis by simp
  next
    case False
    then show ?thesis using "1.prems" by (subst months_up.simps) simp
  qed
qed

lemma month_days: "28 \<le> month_days y m" "month_days y m \<le> 31" if "1 \<le> m" "m \<le> 12"
  using days_in_month [OF that, of "isleap (y - 2001)"] by (simp_all add: month_days_def)

lemma day_number_shift: "day_number y m (d + n) = day_number y m d + n"
  by (simp add: day_number_def)

lemma day_number_end_of_month:
  assumes "1 \<le> m" "m \<le> 12"
  shows "day_number (y - 2001) m (month_days y m + d) =
    (if 12 < m + 1 then day_number (y + 1 - 2001) (m + 1 - 12) d else day_number (y - 2001) (m + 1) d)"
proof (cases "m = 12")
  case True
  then show ?thesis
    using days_before_Suc [of "y - 2001"] last_month [of "y - 2001"] first_month days_before_month_Suc [OF assms, of "isleap (y - 2001)"]
    by (simp add: day_number_def month_days_def)
next
  case False
  then show ?thesis
    using days_before_month_Suc [OF assms, of "isleap (y - 2001)"] assms by (simp add: day_number_def month_days_def)
qed

lemma days_down:
  "1 \<le> m \<Longrightarrow> m \<le> 12 \<Longrightarrow> nat d < n + 1 \<Longrightarrow> 0 < n \<Longrightarrow> 2001 - 2 ^ 31 \<le> y \<Longrightarrow> y + d div 28 \<le> INT32_MAX \<Longrightarrow> y \<le> INT32_MAX \<Longrightarrow>
   \<exists>y' m' d'. days_down n y m d = Some (y', m', d') \<and> 1 \<le> m' \<and> m' \<le> 12 \<and> d' \<le> month_days y' m' \<and>
     day_number (y' - 2001) m' d' = day_number (y - 2001) m d \<and> (1 \<le> d \<longrightarrow> 1 \<le> d') \<and> \<bar>d'\<bar> \<le> \<bar>d\<bar> \<and> y \<le> y' \<and> y' \<le> INT32_MAX"
proof (induction n y m d rule: days_down.induct)
  case (2 n y m d)
  show ?case
  proof (cases "month_days y m < d")
    case True
    define m1 where "m1 = (if 12 < m + 1 then m + 1 - 12 else m + 1)"
    define y1 where "y1 = (if 12 < m + 1 then y + 1 else y)"
    have m1: "1 \<le> m1" "m1 \<le> 12" using "2.prems" by (auto simp: m1_def)
    have pair: "(if 12 < m + 1 then (m + 1 - 12, y + 1) else (m + 1, y)) = (m1, y1)" by (simp add: m1_def y1_def)
    have dn: "day_number (y1 - 2001) m1 (d - month_days y m) = day_number (y - 2001) m d"
      using day_number_end_of_month [of m y "d - month_days y m"] "2.prems" by (simp add: m1_def y1_def)
    have md: "28 \<le> month_days y m" using month_days [of m y] "2.prems" by simp
    have d: "1 \<le> d - month_days y m" "d - month_days y m \<le> d" "nat (d - month_days y m) < n + 1" "0 < n"
      using True md "2.prems" by simp_all
    have "(d - month_days y m) div 28 \<le> (d - 28) div 28" using md by (intro zdiv_mono1) simp_all
    also have "\<dots> = d div 28 - 1" by (rule div_shift) simp
    finally have one: "(d - month_days y m) div 28 \<le> d div 28 - 1" "1 \<le> d div 28"
      using True md div_sign(1) [of 28 d] by simp_all
    have step: "y \<le> y1" "y1 \<le> y + 1" by (simp_all add: y1_def)
    define D D' where "D = d div 28" "D' = (d - month_days y m) div 28"
    have y: "2001 - 2 ^ 31 \<le> y1" "y1 + (d - month_days y m) div 28 \<le> INT32_MAX" "y1 \<le> INT32_MAX"
      using "2.prems"(5-7) step one unfolding D_D'_def [symmetric] by linarith+
    then have fit: "fits32 y1 \<and> fits32 (y1 - 2001)" by (simp add: fits32_def)
    then show ?thesis
      using "2.IH" [OF True pair [symmetric] refl fit m1 d(3,4) y] True pair dn d(1) md step(1) by (auto simp: Let_def)
  next
    case False
    then show ?thesis using "2.prems" by simp
  qed
qed simp

lemma days_up:
  "1 \<le> m \<Longrightarrow> m \<le> 12 \<Longrightarrow> nat (1 - d) < n \<Longrightarrow> d \<le> month_days y m \<Longrightarrow> y \<le> INT32_MAX \<Longrightarrow> 2001 - 2 ^ 31 \<le> y + (d - 1) div 28 \<Longrightarrow>
   \<exists>y' m' d'. days_up n y m d = Some (y', m', d') \<and> calendar_day (y' - 2001) m' d' \<and>
     day_number (y' - 2001) m' d' = day_number (y - 2001) m d"
proof (induction n y m d rule: days_up.induct)
  case (2 n y m d)
  show ?case
  proof (cases "d < 1")
    case True
    define m1 where "m1 = (if m - 1 < 1 then m - 1 + 12 else m - 1)"
    define y1 where "y1 = (if m - 1 < 1 then y - 1 else y)"
    have m1: "1 \<le> m1" "m1 \<le> 12" using "2.prems" by (auto simp: m1_def)
    have pair: "(if m - 1 < 1 then (m - 1 + 12, y - 1) else (m - 1, y)) = (m1, y1)" by (simp add: m1_def y1_def)
    have dn: "day_number (y1 - 2001) m1 (d + month_days y1 m1) = day_number (y - 2001) m d"
      using day_number_end_of_month [OF m1, of y1 d] "2.prems" by (auto simp: m1_def y1_def add.commute split: if_splits)
    have md: "28 \<le> month_days y1 m1" using month_days [OF m1, of y1] by simp
    have d: "nat (1 - (d + month_days y1 m1)) < n" "d + month_days y1 m1 \<le> month_days y1 m1"
      using True md "2.prems" by simp_all
    have "(d - 1) div 28 + 1 = (d - 1 + 28) div 28" by (rule div_shift [symmetric]) simp
    also have "\<dots> \<le> (d + month_days y1 m1 - 1) div 28" using md by (intro zdiv_mono1) simp_all
    finally have "(d - 1) div 28 + 1 \<le> (d + month_days y1 m1 - 1) div 28" .
    moreover have "(d - 1) div 28 \<le> - 1" using True div_sign(2) [of 28 "d - 1"] by simp
    moreover define D D' where "D = (d - 1) div 28" "D' = (d + month_days y1 m1 - 1) div 28"
    moreover have "y - 1 \<le> y1" "y1 \<le> y" by (simp_all add: y1_def)
    ultimately have y: "y1 \<le> INT32_MAX" "2001 - 2 ^ 31 \<le> y1 + (d + month_days y1 m1 - 1) div 28" "2001 - 2 ^ 31 \<le> y1"
      using "2.prems"(5,6) unfolding D_D'_def [symmetric] by linarith+
    then have fit: "fits32 y1 \<and> fits32 (y1 - 2001)" by (simp add: fits32_def)
    then show ?thesis
      using "2.IH" [OF True pair [symmetric] refl fit m1 d y(1,2)] True pair dn by (auto simp: Let_def)
  next
    case False
    then show ?thesis using "2.prems" by (simp add: calendar_day_def month_days_def)
  qed
qed simp

text \<open>C31: Adding units first brings the months into the range of 1 to 12, cuts the day off at the end of the month it
  has come to (so 31 January and one month is 28 or 29 February), and then counts the days on or back: for a year within 2 to
  the 30th of 0 and units that leave the 32-bit fields room for a month and a day, the result is always a date of the calendar,
  that many days away. Where the sum of the years or of the months exceeds 32 bits, it has no defined result.\<close>
theorem add_units_date:
  assumes "monthsum = 12 * (g_year gdate + u_years units) + (int (g_month gdate) + u_months units - 1)"
    "year = monthsum div 12" "month = nat (monthsum mod 12) + 1" and date: "1 \<le> g_month gdate" "g_month gdate \<le> 12" "1 \<le> g_day gdate" "g_day gdate \<le> 31"
  shows "(\<not> fits32 (g_year gdate + u_years units) \<or> \<not> fits32 (int (g_month gdate) + u_months units) \<longrightarrow> add_date gdate units = None) \<and>
    (\<bar>g_year gdate + u_years units\<bar> \<le> 2 ^ 30 \<and> \<bar>u_months units\<bar> \<le> INT32_MAX - 12 \<and> \<bar>u_days units\<bar> \<le> INT32_MAX - 31 \<longrightarrow>
     (\<exists>y m d. add_date gdate units = Some (y, m, d) \<and> 1 \<le> m \<and> m \<le> 12 \<and> 1 \<le> d \<and> d \<le> CFDaysInMonth m (isleap (y - 2001)) \<and>
      CFAbsoluteFromYMD (y - 2001) m d =
        CFAbsoluteFromYMD (year - 2001) month (min (g_day gdate) (CFDaysInMonth month (isleap (year - 2001)))) + u_days units))"
    (is "(?over \<longrightarrow> ?none) \<and> (?room \<longrightarrow> ?sum)")
proof (intro conjI impI)
  show "add_date gdate units = None" if ?over using that unfolding add_date_def Let_def by (simp only: if_P)
  assume room: ?room
  define y0 m0 where "y0 = g_year gdate + u_years units" "m0 = int (g_month gdate) + u_months units"
  define D where "D = (m0 - 1) div 12"
  have b: "\<bar>y0\<bar> \<le> 2 ^ 30" "1 - (INT32_MAX - 12) \<le> m0" "m0 \<le> INT32_MAX" using room date by (simp_all add: y0_m0_def abs_le_iff)
  have fit: "fits32 y0" "fits32 m0" using b by (simp_all add: fits32_def INT32_MAX_def abs_le_iff)
  have "(- (12 * 2 ^ 28)) div 12 \<le> D" "D \<le> 12 * 2 ^ 28 div 12" unfolding D_def
    by (intro zdiv_mono1; use b in \<open>simp add: INT32_MAX_def\<close>)+
  then have D: "- (2 ^ 28) \<le> D" "D \<le> 2 ^ 28" by simp_all
  have sum: "year = y0 + D" "monthsum = 12 * y0 + (m0 - 1)" using assms(1,2) by (simp_all add: D_def y0_m0_def)
  have carry: "y + (m - 1) div 12 = y0 + D" if "12 * y0 + m0 = 12 * y + m" for y m
  proof -
    have "y + (m - 1) div 12 = (m - 1 + 12 * y) div 12" "y0 + D = (m0 - 1 + 12 * y0) div 12" by (simp_all add: D_def)
    moreover have "m - 1 + 12 * y = m0 - 1 + 12 * y0" using that by simp
    ultimately show ?thesis by simp
  qed
  have pre: "- (2 ^ 31) \<le> y0" "y0 \<le> INT32_MAX" "y0 + (m0 - 1) div 12 \<le> INT32_MAX"
    using b(1) D unfolding D_def [symmetric] by (simp_all add: INT32_MAX_def abs_le_iff)
  obtain y1 m1 where 1: "months_down y0 m0 = Some (y1, m1)" "12 * y0 + m0 = 12 * y1 + m1" "m1 \<le> 12" "y1 \<le> INT32_MAX"
    using months_down [OF pre] by blast
  have "- (2 ^ 31) \<le> y1 + (m1 - 1) div 12" unfolding carry [OF 1(2)] using b(1) D by (simp add: abs_le_iff)
  from months_up [OF 1(4) this 1(3)] obtain y2 m2 where 2: "months_up y1 m1 = Some (y2, m2)" "12 * y1 + m1 = 12 * y2 + m2"
    "1 \<le> m2" "m2 \<le> 12" by blast
  have "(m2 - 1) div 12 = 0" using 2(3,4) by simp
  then have y2: "y2 = year" using carry [of y2 m2] 1(2) 2(2) sum(1) by simp
  have "monthsum = 12 * year + (m2 - 1)" using sum(2) 1(2) 2(2) y2 by simp
  then have "monthsum mod 12 = m2 - 1" using 2(3,4) by simp
  then have month: "nat m2 = month" "1 \<le> month" "month \<le> 12" using 2(3,4) assms(3) by simp_all
  define d0 where "d0 = min (g_day gdate) (month_days year month)"
  define n where "n = nat \<bar>d0 + u_days units\<bar> + 2"
  have n: "nat (d0 + u_days units) < n + 1" "0 < n" by (simp_all add: n_def)
  have d0: "1 \<le> d0" "d0 \<le> 31" using date(3,4) month_days [OF month(2,3), of year] by (simp_all add: d0_def)
  then have d: "\<bar>d0 + u_days units\<bar> \<le> INT32_MAX" using room by (simp add: abs_le_iff)
  have year: "- (2 ^ 30) - 2 ^ 28 \<le> year" "year \<le> 2 ^ 30 + 2 ^ 28" using b(1) D sum(1) by (simp_all add: abs_le_iff)
  have quot: "- (2 ^ 28) \<le> k div 28" "k div 28 \<le> 2 ^ 28" if "\<bar>k\<bar> \<le> INT32_MAX + 1" for k :: int
  proof -
    have "(- (28 * 2 ^ 28)) div 28 \<le> k div 28" "k div 28 \<le> 28 * 2 ^ 28 div 28"
      by (intro zdiv_mono1; use that in \<open>simp add: INT32_MAX_def\<close>)+
    then show "- (2 ^ 28) \<le> k div 28" "k div 28 \<le> 2 ^ 28" by simp_all
  qed
  have pre: "2001 - 2 ^ 31 \<le> year" "year + (d0 + u_days units) div 28 \<le> INT32_MAX" "year \<le> INT32_MAX"
    using year quot(2) [of "d0 + u_days units"] d by (simp_all add: INT32_MAX_def)
  obtain y3 m3 d3 where 3: "days_down n year month (d0 + u_days units) = Some (y3, m3, d3)" "1 \<le> m3" "m3 \<le> 12"
    "d3 \<le> month_days y3 m3" "day_number (y3 - 2001) m3 d3 = day_number (year - 2001) month (d0 + u_days units)"
    "\<bar>d3\<bar> \<le> \<bar>d0 + u_days units\<bar>" "year \<le> y3" "y3 \<le> INT32_MAX"
    using days_down [OF month(2,3) n pre] by blast
  have "\<bar>d3 - 1\<bar> \<le> INT32_MAX + 1" using 3(6) d by simp
  then have "2001 - 2 ^ 31 \<le> y3 + (d3 - 1) div 28" using quot(1) [of "d3 - 1"] 3(7) year(1) by simp
  moreover have "nat (1 - d3) < n" using 3(6) by (auto simp: n_def)
  ultimately obtain y m d where 4: "days_up n y3 m3 d3 = Some (y, m, d)" "calendar_day (y - 2001) m d"
    "day_number (y - 2001) m d = day_number (y3 - 2001) m3 d3"
    using days_up [OF 3(2,3) _ 3(4,8)] by blast
  have clamp: "(if month_days year month < g_day gdate then month_days year month else g_day gdate) = d0" by (simp add: d0_def)
  have fit': "fits32 (year - 2001)" "fits32 (d0 + u_days units)" using year d by (simp_all add: fits32_def INT32_MAX_def abs_le_iff)
  have "add_date gdate units = Some (y, m, d)"
    unfolding add_date_def y0_m0_def [symmetric] Let_def 1(1) bind.bind_lunit prod.case 2(1) month(1) y2 clamp n_def [symmetric]
    by (simp add: fit fit' 3(1) 4(1))
  then show ?sum
    using 4(2,3) 3(5) by (auto simp: absolute_day_number calendar_day_def d0_def month_days_def day_number_shift)
qed

theorem add_units_date_witness:
  "(\<exists>y m d. add_date \<lparr>g_year = 2024, g_month = 1, g_day = 31, g_hour = 0, g_minute = 0, g_second = 0\<rparr>
        \<lparr>u_years = 0, u_months = 13, u_days = - 30, u_hours = 0, u_minutes = 0, u_seconds = 0\<rparr> = Some (y, m, d) \<and>
     1 \<le> m \<and> m \<le> 12 \<and> 1 \<le> d \<and> d \<le> CFDaysInMonth m (isleap (y - 2001)) \<and>
     CFAbsoluteFromYMD (y - 2001) m d = CFAbsoluteFromYMD (2025 - 2001) 2 28 + - 30) \<and>
   add_date \<lparr>g_year = 2024, g_month = 1, g_day = 31, g_hour = 0, g_minute = 0, g_second = 0\<rparr>
     \<lparr>u_years = 0, u_months = 2147483647, u_days = 0, u_hours = 0, u_minutes = 0, u_seconds = 0\<rparr> = None"
proof -
  let ?g = "\<lparr>g_year = 2024, g_month = 1, g_day = 31, g_hour = 0, g_minute = 0, g_second = 0\<rparr>"
  let ?u = "\<lparr>u_years = 0, u_months = 13, u_days = - 30, u_hours = 0, u_minutes = 0, u_seconds = 0\<rparr>"
  let ?v = "\<lparr>u_years = 0, u_months = 2147483647, u_days = 0, u_hours = 0, u_minutes = 0, u_seconds = 0\<rparr>"
  have d: "min (g_day ?g) (CFDaysInMonth 2 (isleap (2025 - 2001))) = 28" "u_days ?u = - 30"
    by (simp_all add: CFDaysInMonth_def daysInMonth_def isleap_gregorian gregorian_leap_def)
  have p: "24301 = 12 * (g_year ?g + u_years ?u) + (int (g_month ?g) + u_months ?u - 1)" by simp
  have q: "2025 = (24301 :: int) div 12" "2 = nat (24301 mod 12) + 1" by simp_all
  have f: "1 \<le> g_month ?g" "g_month ?g \<le> 12" "1 \<le> g_day ?g" "g_day ?g \<le> 31" by simp_all
  have room: "\<bar>g_year ?g + u_years ?u\<bar> \<le> 2 ^ 30 \<and> \<bar>u_months ?u\<bar> \<le> INT32_MAX - 12 \<and> \<bar>u_days ?u\<bar> \<le> INT32_MAX - 31"
    by (simp add: INT32_MAX_def)
  have over: "\<not> fits32 (int (g_month ?g) + u_months ?v)" by (simp add: fits32_def INT32_MAX_def)
  show ?thesis
    using add_units_date [OF p q f, THEN conjunct2, THEN mp, OF room, unfolded d]
      add_units_date [OF refl refl refl f, of ?v, THEN conjunct1] over by blast
qed

subsection \<open>Days and weeks\<close>

lemma day_of_week: "CFAbsoluteTimeGetDayOfWeek moment tz = absolute_day moment tz mod 7 + 1"
proof -
  define a where "a = absolute_day moment tz"
  have "cmod (a + 1) 7 + 7 = a mod 7 + 1" if "a < 0"
  proof -
    have "cmod (a + 1) 7 = - (- (a + 1) mod 7)" using that by (intro cmod_neg) simp_all
    also have "\<dots> + 7 = a mod 7 + 1" by presburger
    finally show ?thesis .
  qed
  then show ?thesis
    by (simp add: CFAbsoluteTimeGetDayOfWeek_def Let_def a_def [symmetric] cmod_nonneg)
qed

text \<open>The day of the year counts from 1.\<close>

lemma day_of_year_number:
  "\<exists>y n. CFAbsoluteTimeGetDayOfYear moment tz = Some n \<and> absolute_day moment tz = days_before y + n - 1 \<and>
     1 \<le> n \<and> n \<le> year_days y"
proof -
  obtain y m d where "CFYMDFromAbsolute (absolute_day moment tz) = Some (y, m, d)"
    and c: "calendar_day y m d" and "day_number y m d = absolute_day moment tz"
    by (rule ymd_day_number)
  then show ?thesis
    using day_of_year [OF c] by (auto simp: CFAbsoluteTimeGetDayOfYear_def day_number_def intro!: exI [of _ y])
qed

text \<open>The Thursday of the week of a day, which decides to which year the week belongs.\<close>

definition thursday :: "int \<Rightarrow> int" where
  "thursday a = a - a mod 7 + 3"

text \<open>The arithmetic of the three cases, \<open>w\<close> is the day of the week of 1 January, from 0 on.\<close>

lemma day_index: "w = p mod 7 \<Longrightarrow> w = 0 \<or> w = 1 \<or> w = 2 \<or> w = 3 \<or> w = 4 \<or> w = 5 \<or> w = (6::int)"
  by presburger

lemma thursday_last_year:
  "thursday a < p \<longleftrightarrow> (w = 4 \<and> n < 3 \<or> w = 5 \<and> n < 2 \<or> w = 6 \<and> n < 1)"
  if "w = p mod 7" "a = p + n" "0 \<le> n"
proof -
  have "a mod 7 = (w + n) mod 7" using that by (simp add: mod_add_left_eq)
  then have "thursday a < p \<longleftrightarrow> n + 3 < (w + n) mod 7" using that by (auto simp: thursday_def)
  moreover from day_index [OF that(1)] have "n + 3 < (w + n) mod 7 \<longleftrightarrow> (w = 4 \<and> n < 3 \<or> w = 5 \<and> n < 2 \<or> w = 6 \<and> n < 1)"
    by (elim disjE) (use that(3) in \<open>simp, presburger\<close>)+
  ultimately show ?thesis by simp
qed

lemma thursday_next_year:
  "p \<le> thursday a \<longleftrightarrow> (e \<le> 3 \<and> w = 3 \<or> e \<le> 2 \<and> w = 2 \<or> e \<le> 1 \<and> w = 1)"
  if "w = p mod 7" "a = p - e" "0 < e"
proof -
  have "a mod 7 = (w - e) mod 7" using that by (simp add: mod_diff_left_eq)
  then have "p \<le> thursday a \<longleftrightarrow> e + (w - e) mod 7 \<le> 3" using that by (auto simp: thursday_def)
  moreover from day_index [OF that(1)] have "e + (w - e) mod 7 \<le> 3 \<longleftrightarrow> (e \<le> 3 \<and> w = 3 \<or> e \<le> 2 \<and> w = 2 \<or> e \<le> 1 \<and> w = 1)"
    by (elim disjE) (use that(3) in \<open>simp, presburger\<close>)+
  ultimately show ?thesis by simp
qed

lemma thursday_this_year:
  "cdiv (n + 1 + cmod (w - 10) 7 + 2) 7 + 1 = (thursday a - p) div 7 + 1"
  if "w = p mod 7" "a = p + n" "0 \<le> n" "p \<le> thursday a"
proof -
  have w: "0 \<le> w" "w < 7" using that by simp_all
  have "a mod 7 = (w + n) mod 7" using that by (simp add: mod_add_left_eq)
  then have t: "thursday a - p = n - (w + n) mod 7 + 3" "(w + n) mod 7 \<le> n + 3" using that by (simp_all add: thursday_def)
  have c: "cmod (w - 10) 7 = - ((10 - w) mod 7)" using cmod_neg [of "w - 10" 7] w by simp
  define k r where "k = (w + n) div 7" "r = (w + n) mod 7"
  have kr: "w + n = 7 * k + r" "0 \<le> r" "r < 7" by (simp_all add: k_r_def)
  have div: "(7 * q + s) div 7 = q" if "0 \<le> s" "s < 7" for q s :: int using that by simp
  have e: "thursday a - p = 7 * k + (3 - w)" using t(1) kr(1) unfolding k_r_def(2) [symmetric] by linarith
  show ?thesis
  proof (cases "w \<le> 3")
    case True
    then have "(10 - w) mod 7 = 3 - w" using w mod_add_self2 [of "3 - w" 7] by (simp add: algebra_simps)
    then have "n + 1 + cmod (w - 10) 7 + 2 = 7 * k + r" using c kr(1) by simp
    moreover have "0 \<le> k" using kr w that(3) by simp
    ultimately show ?thesis using e div [OF kr(2,3), of k] div [of "3 - w" k] kr(2) True w by (simp add: cdiv_nonneg)
  next
    case False
    then have "(10 - w) mod 7 = 10 - w" using w by simp
    then have "n + 1 + cmod (w - 10) 7 + 2 = 7 * (k - 1) + r" using c kr(1) by simp
    moreover have "1 \<le> k" using e that(4) False by simp
    moreover have "thursday a - p = 7 * (k - 1) + (10 - w)" using e by simp
    ultimately show ?thesis using div [OF kr(2,3), of "k - 1"] div [of "10 - w" "k - 1"] kr(2) False w by (simp add: cdiv_nonneg)
  qed
qed


lemma weekday_of_january:
  assumes "\<bar>days_before y\<bar> \<le> 2 ^ 52"
  shows "double_mod_to_int (of_int (CFAbsoluteFromYMD y 1 1)) 7 = days_before y mod 7"
  using double_mod_to_int [OF assms, of 7] by (simp add: absolute_day_number day_number_def first_month [simplified])

text \<open>The first and the last days of a year, \<open>n\<close> is the day of the year counted from 0.\<close>

lemma january:
  assumes "calendar_day y m d" "n = CFDaysBeforeMonth m (isleap y) + d - 1" "k \<le> 4"
  shows "m = 1 \<and> d < k \<longleftrightarrow> n < k - 1"
  using assms days_before_month_mono [of 2 m "isleap y"]
  by (cases "m = 1") (auto simp: calendar_day_def first_month [simplified] CFDaysBeforeMonth_def [of 2] daysBeforeMonth_def)

lemma december:
  assumes c: "calendar_day y m d" and n: "n = CFDaysBeforeMonth m (isleap y) + d - 1" and "28 \<le> k"
  shows "m = 12 \<and> k < d \<longleftrightarrow> year_days y - n \<le> 31 - k"
proof (cases "m = 12")
  case True
  then show ?thesis by (auto simp: n CFDaysBeforeMonth_def daysBeforeMonth_def year_days_def)
next
  case False
  then have "CFDaysBeforeMonth (m + 1) (isleap y) \<le> CFDaysBeforeMonth 12 (isleap y)"
    using c by (intro days_before_month_mono) (simp_all add: calendar_day_def)
  then have "n < CFDaysBeforeMonth 12 (isleap y)"
    using c days_before_month_Suc [of m "isleap y"] by (simp add: calendar_day_def n)
  then show ?thesis using False assms(3) by (auto simp: CFDaysBeforeMonth_def daysBeforeMonth_def year_days_def split: if_splits)
qed

text \<open>C32: The week of the year that the code finds is the one of ISO 8601, the number of its Thursday's week in the
  Thursday's year, for every day whose week belongs to the day's own year or to the next one. The days at the beginning
  of January whose week belongs to the year before always get the number 53. The day, counted from 2001, is at most 2 to the
  50th, where the code's floating point numbers hold every day; a time of 32 bits of years is far below.\<close>
theorem week_of_year:
  assumes "CFYMDFromAbsolute (absolute_day moment tz) = Some (year, month, day)"
    "\<bar>absolute_day moment tz\<bar> \<le> 2 ^ 50" and
    "thu = absolute_day moment tz - (CFAbsoluteTimeGetDayOfWeek moment tz - 1) + 3"
  shows "CFAbsoluteTimeGetWeekOfYear moment tz = Some
    (if thu < CFAbsoluteFromYMD year 1 1 then 53
     else if thu < CFAbsoluteFromYMD (year + 1) 1 1 then (thu - CFAbsoluteFromYMD year 1 1) div 7 + 1
     else (thu - CFAbsoluteFromYMD (year + 1) 1 1) div 7 + 1)"
proof -
  define a where "a = absolute_day moment tz"
  define p where "p = days_before year"
  define p' where "p' = days_before (year + 1)"
  have thu: "thu = thursday a" using assms(3) by (simp add: day_of_week thursday_def a_def)
  obtain y m d where "CFYMDFromAbsolute a = Some (y, m, d)" "calendar_day y m d" "day_number y m d = a"
    by (rule ymd_day_number)
  then have c: "calendar_day year month day" and dn: "day_number year month day = a" using assms(1) by (auto simp: a_def)
  define n where "n = CFDaysBeforeMonth month (isleap year) + day - 1"
  have n: "0 \<le> n" "a = p + n" using day_of_year [OF c] dn by (simp_all add: n_def day_number_def p_def)
  have e: "a = p' - (year_days year - n)" "0 < year_days year - n"
    using day_of_year [OF c] n days_before_Suc [of year] by (simp_all add: n_def p'_def p_def)
  have "\<bar>a\<bar> \<le> 2 ^ 50" "year_days year \<le> 366" using assms(2) by (simp_all add: a_def year_days_def)
  then have "\<bar>p\<bar> \<le> 2 ^ 52" "\<bar>p'\<bar> \<le> 2 ^ 52" using n e by (simp_all add: abs_le_iff)
  note weekdays = weekday_of_january [of year, folded p_def, OF this(1)] weekday_of_january [of "year + 1", folded p'_def, OF this(2)]
  have first: "month = 1 \<and> day < 4 \<and> (day < 4 \<and> p mod 7 + 1 = 5 \<or> day < 3 \<and> p mod 7 + 1 = 6 \<or> day < 2 \<and> p mod 7 + 1 = 7)
      \<longleftrightarrow> thursday a < p"
    using thursday_last_year [OF refl n(2,1)] january [OF c n_def, of 4] january [OF c n_def, of 3] january [OF c n_def, of 2] by auto
  have last: "month = 12 \<and> 28 < day \<and> (28 < day \<and> p' mod 7 + 1 = 4 \<or> 29 < day \<and> p' mod 7 + 1 = 3 \<or> 30 < day \<and> p' mod 7 + 1 = 2)
      \<longleftrightarrow> p' \<le> thursday a"
    using thursday_next_year [OF refl e] december [OF c n_def, of 28] december [OF c n_def, of 29] december [OF c n_def, of 30] by auto
  have "thursday a \<le> a + 3" by (simp add: thursday_def)
  then have next_year: "(thursday a - p') div 7 + 1 = 1" if "p' \<le> thursday a"
    using that e by (simp add: div_pos_pos_trivial)
  have this_year: "cdiv (CFDaysBeforeMonth month (isleap year) + day + cmod (p mod 7 + 1 - 11) 7 + 2) 7 + 1 = (thursday a - p) div 7 + 1"
    if "p \<le> thursday a"
    using thursday_this_year [OF refl n(2,1) that] by (simp add: n_def)
  have "CFAbsoluteFromYMD year 1 1 = p" "CFAbsoluteFromYMD (year + 1) 1 1 = p'"
    by (simp_all add: absolute_day_number day_number_def first_month [simplified] p_def p'_def)
  moreover have "CFAbsoluteTimeGetWeekOfYear moment tz = Some
      (if thursday a < p then 53 else if p' \<le> thursday a then 1 else (thursday a - p) div 7 + 1)"
    unfolding CFAbsoluteTimeGetWeekOfYear_def assms(1) week_of_date_def Let_def weekdays first last bind.bind_lunit prod.case
    by (rule arg_cong [where f = Some], rule if_cong [OF refl refl], rule if_cong [OF refl refl], rule this_year, rule leI)
  moreover have "(if t < p then x else if p' \<le> t then 1 else y) = (if t < p then x else if t < p' then y else z)"
    if "p' \<le> t \<Longrightarrow> z = 1" for t x y z :: int
    using that by (simp add: not_less)
  ultimately show ?thesis unfolding thu using next_year by presburger
qed


lemma absolute_day_whole: "\<bar>n\<bar> \<le> 2 ^ 35 \<Longrightarrow> absolute_day (86400 * of_int n) None = n"
proof -
  assume n: "\<bar>n\<bar> \<le> 2 ^ 35"
  then have "double (86400 * of_int n) = 86400 * of_int n" using double_int [of "86400 * n"] by (simp add: abs_mult)
  then show ?thesis using double_int [of n] n by (simp add: absolute_day_def fixed_time_def)
qed

theorem week_of_year_witness:
  "CFAbsoluteTimeGetWeekOfYear 0 None = Some 1"
proof -
  have d: "absolute_day 0 None = 0" using absolute_day_whole [of 0] by simp
  have y: "CFYMDFromAbsolute (absolute_day 0 None) = Some (0, 1, 1)"
    using ymd_inverse [of 0 1 1]
    by (simp add: d calendar_day_def CFDaysInMonth_def daysInMonth_def day_number_def days_before_def first_month [simplified])
  have "\<bar>absolute_day 0 None\<bar> \<le> 2 ^ 50" by (simp add: d)
  from week_of_year [OF y this refl] show ?thesis
    by (simp add: day_of_week d absolute_day_number day_number_def days_before_def first_month [simplified])
qed

text \<open>
  1 January 2006 was a Sunday, the last day of the week 52 of 2005: the Thursday of its week is 29 December,
  the 363rd day of 2005. The code gives it the number 53, which is no week of 2005.
\<close>
theorem week_of_new_year_2006:
  "CFAbsoluteTimeGetDayOfWeek (86400 * 1826) None = 7 \<and> CFYMDFromAbsolute (1826 - 3) = Some (4, 12, 29) \<and>
   CFAbsoluteTimeGetDayOfYear (86400 * 1823) None = Some 363 \<and> (363 - 1) div 7 + 1 = (52 :: int) \<and>
   CFAbsoluteTimeGetWeekOfYear (86400 * 1826) None = Some 53"
proof -
  have d: "absolute_day (86400 * 1826) None = 1826" "absolute_day (86400 * 1823) None = 1823"
    using absolute_day_whole [of 1826] absolute_day_whole [of 1823] by simp_all
  have w: "CFAbsoluteTimeGetDayOfWeek (86400 * 1826) None = 7" by (simp only: day_of_week d) simp
  have leap: "\<not> isleap 4" by (simp add: isleap_gregorian gregorian_leap_def)
  have thu: "CFYMDFromAbsolute 1823 = Some (4, 12, 29)"
    using ymd_inverse [of 4 12 29] leap
    by (simp add: calendar_day_def CFDaysInMonth_def daysInMonth_def day_number_def days_before_def CFDaysBeforeMonth_def daysBeforeMonth_def)
  then have y: "CFAbsoluteTimeGetDayOfYear (86400 * 1823) None = Some 363"
    unfolding CFAbsoluteTimeGetDayOfYear_def d using leap by (simp add: CFDaysBeforeMonth_def daysBeforeMonth_def)
  have ymd: "CFYMDFromAbsolute 1826 = Some (5, 1, 1)"
    using ymd_inverse [of 5 1 1]
    by (simp add: calendar_day_def CFDaysInMonth_def daysInMonth_def day_number_def days_before_def first_month [simplified])
  have jan: "double_mod_to_int (of_int (CFAbsoluteFromYMD 5 1 1)) 7 = 6"
    using weekday_of_january [of 5] by (simp add: days_before_def)
  have "CFAbsoluteTimeGetWeekOfYear (86400 * 1826) None = Some 53"
    unfolding CFAbsoluteTimeGetWeekOfYear_def d ymd using jan by (simp add: week_of_date_def)
  then show ?thesis using w thu y by simp
qed

end
