(* ===== verification/Spec2Isabelle.thy ===== *)
theory Spec2Isabelle
  imports CFCollectionTheorems CFArrayTheorems CFBinaryHeap CFBitVectorTheorems RunLoopPassTheorems CFBigNumberTheorems CFDateTimes
begin

text \<open>
  The core of Core Foundation (\<^verbatim>\<open>src/RunLoopCF-1153.18\<close>, the sources of \<^verbatim>\<open>CF-1153.18\<close>): run loops, the collections
  they are made of, and some of its value types.

  \<^bold>\<open>How the parts fit together.\<close> A run loop keeps its modes, sources and observers in sets, dictionaries and arrays and
  orders its sources with the sort functions; a dictionary, a set and a bag are three expansions of one template over the
  hash table \<^verbatim>\<open>CFBasicHash\<close>; arrays and heaps keep their values in buckets and take and give up references through the
  callbacks of their creator. Dates measure the fire times of timers; big numbers carry the integers of number
  formatters that machine words do not hold.

  \<^bold>\<open>Reading the model.\<close> Definitions carry the names of the C functions without leading underscores, a loop of a function
  is a recursive function of its own beside it. A C structure is a \<open>record\<close>, an \<^verbatim>\<open>enum\<close> a \<open>datatype\<close>. \<open>None\<close> is what
  the code must not do: an access outside a block, a failed \<^verbatim>\<open>CFAssert\<close>, \<^verbatim>\<open>HALT\<close>, an overflowing shift; where it
  stands for something else (no time zone, a loop that does not return) the theory says so. Calls of callbacks are
  recorded in a trace of events. In a run loop the times are real numbers; the wait for a message ends by a message
  from elsewhere, which the environment decides, or by the wake-up message of the time-out timer, or never. Words have their C width where it matters for the result: the codes and counts of the
  hash table, the buckets of bit vectors, the deadlines of the kernel clock, the digits of big numbers. Functions a client
  supplies (comparators, callbacks, the callouts of a run loop) are parameters: their laws are the assumptions of a
  locale or named hypotheses, and a witness shows each of them on a concrete function.

  \<^bold>\<open>The theories, and what they show.\<close>

  \<^item> \<open>Prelude\<close>: \<^verbatim>\<open>flsl\<close>, shifts, and blocks of memory as lists of cells with \<^verbatim>\<open>memmove\<close>; the lemmas on slices that the
    array proofs share.
  \<^item> \<open>CFArray\<close>, \<open>CFArrayValues\<close>, \<open>CFArrayTheorems\<close> (\<^verbatim>\<open>CFArray.c\<close>): the deque of a mutable array and
    \<^verbatim>\<open>_CFArrayReplaceValues\<close> at the level of its block of memory; then every operation as an operation on the list it
    stands for, the binary search, the sorts, the readers, and the account of references over any session of calls. The
    reading and exchanging operations are the locales \<open>array_reader\<close> and \<open>array_writer\<close>, in which the search and the
    bubble sort of \<^verbatim>\<open>CFArraySortValues\<close> are proved.
  \<^item> \<open>CFSortFunctions\<close> (\<^verbatim>\<open>CFSortFunctions.c\<close>): the merge sort on a buffer of indexes equals a stable merge sort of lists and
    stays in bounds. The locales \<open>compare_fn\<close> and \<open>compare_sym\<close> state what a comparator promises; run loops use them for
    the order of their sources.
  \<^item> \<open>CFBinaryHeap\<close> (\<^verbatim>\<open>CFBinaryHeap.c\<close>): the two sifting loops keep the heap order (locale \<open>heap_order\<close>); the
    operations implement the interface \<open>priority_queue\<close> on multisets of values.
  \<^item> \<open>CFBitVector\<close>, \<open>CFBitVectorTheorems\<close> (\<^verbatim>\<open>CFBitVector.c\<close>): the operations on byte buckets are operations on lists of
    bits; searches and counts read those bits; extraction and equality are described with their defects.
  \<^item> \<open>BasicHashData\<close> and \<open>BasicHashOps\<close> (\<^verbatim>\<open>CFBasicHash.c\<close>, \<^verbatim>\<open>CFBasicHashFindBucket.m\<close>): the table with its four
    parallel arrays, deleted and substituted keys, the three ways to probe, growing counts. \<open>BasicHashPrimes\<close> and
    \<open>BasicHashProbes\<close> certify the tabulated sizes and roots and show that a probe sequence visits every bucket.
    \<open>BasicHashSlots\<close> reads the arrays as slots and holds the invariant \<open>table_ok\<close>; \<open>BasicHashUpdates\<close>, \<open>BasicHashFind\<close>,
    \<open>BasicHashRehash\<close>, \<open>BasicHashChange\<close>, \<open>BasicHashSteps\<close>, \<open>BasicHashEdits\<close> and \<open>BasicHashMap\<close> go up from one slot to a
    map from keys to entries; \<open>BasicHashReferences\<close>, \<open>BasicHashViews\<close> and \<open>BasicHashCopy\<close> add the account of references,
    the visits and comparisons, and copies; the properties are in \<open>BasicHashTheorems\<close>.
  \<^item> \<open>CFCollections\<close>, \<open>CFCollectionTheorems\<close> (\<^verbatim>\<open>CFDictionary.c\<close>, \<^verbatim>\<open>CFSet.c\<close>, \<^verbatim>\<open>CFBag.c\<close>): the collections rely on the
    locale \<open>keyed_table\<close> only, which the hash table interprets.
  \<^item> \<open>RunLoopData\<close>, \<open>RunLoopTimers\<close>, \<open>RunLoopItems\<close>, \<open>RunLoopRun\<close> (\<^verbatim>\<open>CFRunLoop.c\<close>): the world of run loops, modes and
    items with the kernel's timer and ports around it; adding, removing, moving and invalidating items; the blocks,
    observers, sources and timers of one pass; the loop and its entry points. \<open>RunLoopInv\<close>, \<open>RunLoopFrames\<close>, \<open>RunLoopKeep\<close>,
    \<open>RunLoopKeepItems\<close>, \<open>RunLoopReach\<close>, \<open>RunLoopReachRun\<close> and \<open>RunLoopInvariant\<close> show that every operation keeps the
    invariant, so that it holds in the worlds the step relation \<open>loop_step\<close> reaches. The remaining \<open>RunLoop\<close> theories
    hold the properties of timers, items, firing, passes and whole runs.
  \<^item> \<open>CFBigNumber\<close>, \<open>CFBigNumberTheorems\<close> (\<^verbatim>\<open>CFBigNumber.c\<close>): conversions, comparison, sums and the decimal notation of
    numbers of five digits, against the integers they stand for.
  \<^item> \<open>Doubles\<close>: rounding to the 53 bits of a \<^verbatim>\<open>double\<close> and the 24 of a \<^verbatim>\<open>float\<close>, and when it changes nothing.
  \<^item> \<open>CFDate\<close>, \<open>CFDateTheorems\<close>, \<open>CFDateTimes\<close> (\<^verbatim>\<open>CFDate.c\<close>): the calendar against the Gregorian rule, dates and times,
    sums of units and weeks, with every operation on times rounded and the 32-bit fields of the units checked.
  \<^bold>\<open>Bounds and fuel.\<close> A search of the hash table gets as many steps as there are buckets, which is enough because its
  probe sequence visits all of them; the widening of a count gets four steps, for the widths of 1, 2, 4 and 8 bytes. The
  sizes of tables are certified up to 50683 buckets for the probing by two hash functions and by powers, and up to the
  largest tabulated size for linear probing, which is the one the collections use. The array of a mode's timers is bounded
  by 2^29, beyond which the insertion index shifts an \<^verbatim>\<open>int\<close> out of range. The loop of a run is a
  \<open>partial_function\<close>: that a run returns is proved where it is claimed. The loops over days in
  \<^verbatim>\<open>CFAbsoluteTimeAddGregorianUnits\<close> get one step for every day, which \<open>add_units_date\<close> shows to be enough.

  \<^bold>\<open>Where the code does not do what it means to.\<close> Each of these is a theorem or is written beside the definition:
  \<^verbatim>\<open>_CFArraySetCapacity\<close> can shrink a deque below what it copies (\<open>set_capacity_overflows\<close>);
  \<^verbatim>\<open>__CFBinaryHeapEqual\<close> inverts its comparison (\<open>heap_equal_inverted\<close>); \<^verbatim>\<open>CFBitVectorGetBits\<close> repeats its first byte
  (\<open>bv_get_bits\<close>) and \<^verbatim>\<open>__CFBitVectorEqual\<close> compares bits past the end (\<open>bv_equal_exact\<close>);
  \<^verbatim>\<open>CFBasicHashRemoveIntValueAndDec\<close> writes in front of the table when nothing matches (\<open>remove_int_absent\<close>); a common mode
  named like the set of common modes makes adding recurse for ever (\<open>common_mode_recursion\<close>); the kernel timer stays armed
  after the last timer is gone (\<open>stale_kernel_timer\<close>); the carry of \<^verbatim>\<open>_CFBigNumAdd\<close> misses one value
  (\<open>bignum_add_not_normal\<close>); the first days of January get the week 53 in years whose last week is 52
  (\<open>week_of_new_year_2006\<close>); a number of more than 64 bits becomes a \<^verbatim>\<open>CFNumber\<close> with its halves exchanged
  (\<open>bignum_to_number\<close>); adding too many months overflows (\<open>add_units_date\<close>).

  \<^bold>\<open>Not modelled.\<close> In the modelled files: locks (an operation is one step; two threads interleave whole operations),
  garbage collection and Objective-C dispatch, type checks, descriptions, allocation failure, the rounding of the times of run
  loops (that of dates is modelled), infinities and subnormal numbers,
  the dispatch timers of a run loop (the kernel timer is modelled), the observer notifications of sets and dictionaries, the
  thread dictionary and the deallocation of run loops, the concurrent sort \<^verbatim>\<open>__CFSortIndexesN\<close>, and the difference of two
  times in calendar units. The tables with indirect keys are defined but no theorem speaks of them. Not modelled at all:
  strings, characters and their encodings; URLs; property lists; bundles and plug-ins; sockets, streams and ports; locales, calendars and
  formatters, which call ICU; the runtime, the platform and the preferences; \<^verbatim>\<open>libdispatch\<close> (\<^verbatim>\<open>YNGCDTest/src\<close>) and
  \<^verbatim>\<open>gnustep-base-1.26.0\<close>, which are other libraries kept in the repository; the copy of these sources under
  \<^verbatim>\<open>RunLoopProject/test\<close>, and the small test applications.
\<close>

end
